(* ===== verification/Prelude.thy ===== *)
theory Prelude
  imports Main "HOL-Library.Word" "HOL-Library.Multiset" "HOL-Library.Code_Target_Nat"
begin

unbundle bit_operations_syntax

text \<open>
  Shared vocabulary of the development: the machine types of the C sources, byte strings,
  and the generic facts on lists, words and ring indices that the component theories use.
  Sizes and indices that the code keeps below an allocated length are \<open>nat\<close>; values whose
  wrap-around matters are words.
\<close>

section \<open>Machine types\<close>

type_synonym u8 = "8 word"
type_synonym u16 = "16 word"
type_synonym u32 = "32 word"
type_synonym u64 = "64 word"
type_synonym bytes = "8 word list"

text \<open>A C string literal as the bytes it holds (without the closing NUL).\<close>

definition bstr :: "string \<Rightarrow> bytes" where
  "bstr s = map of_char s"

lemma bstr_Nil [simp]: "bstr [] = []"
  and bstr_Cons [simp]: "bstr (c # cs) = of_char c # bstr cs"
  by (simp_all add: bstr_def)

lemma length_bstr [simp]: "length (bstr s) = length s"
  by (simp add: bstr_def)

abbreviation CR :: u8 where "CR \<equiv> 13"
abbreviation LF :: u8 where "LF \<equiv> 10"

abbreviation crlf :: bytes where "crlf \<equiv> [CR, LF]"

section \<open>64-bit numbers\<close>

lemma unat_of_nat_64: "n < 2 ^ 64 \<Longrightarrow> unat (of_nat n :: u64) = n"
  by (simp add: unsigned_of_nat take_bit_nat_eq_self)

lemma of_nat_eq_64: "a < 2 ^ 64 \<Longrightarrow> b < 2 ^ 64 \<Longrightarrow> (of_nat a :: u64) = of_nat b \<longleftrightarrow> a = b"
  by (metis unat_of_nat_64)

lemma unat_inc: "unat (w :: u64) < 2 ^ 63 \<Longrightarrow> unat (w + 1) = unat w + 1"
  by (simp add: unat_word_ariths)

section \<open>Collections of facts\<close>

named_theorems ring_simps \<open>rewriting of indices that run round a ring of buckets or cells\<close>
named_theorems inv_intros \<open>introduction rules for the components' invariants\<close>

section \<open>Power-of-two masks\<close>

lemma nat_and_mask: "(a::nat) AND (2 ^ k - 1) = a mod 2 ^ k"
proof -
  have "a AND mask k = take_bit k a" by (simp add: take_bit_eq_mask)
  then show ?thesis by (simp add: mask_eq_exp_minus_1 take_bit_eq_mod)
qed

lemma nat_and_mask': "n = 2 ^ k \<Longrightarrow> (a::nat) AND (n - 1) = a mod n"
  using nat_and_mask [of a k] by simp

lemma nat_and_mask_Suc: "n = 2 ^ k \<Longrightarrow> (a::nat) AND (n - Suc 0) = a mod n"
  using nat_and_mask [of a k] by simp

text \<open>The sizes of the rings: \<open>is_pow2\<close> is kept opaque in proofs.\<close>

definition is_pow2 :: "nat \<Rightarrow> bool" where
  "is_pow2 n \<longleftrightarrow> (\<exists>k. n = 2 ^ k)"

lemma is_pow2_mask: "is_pow2 n \<Longrightarrow> (a::nat) AND (n - Suc 0) = a mod n"
  using nat_and_mask_Suc by (auto simp: is_pow2_def)

lemma is_pow2_pos: "is_pow2 n \<Longrightarrow> 0 < n"
  by (auto simp: is_pow2_def)

lemma is_pow2_double: "is_pow2 n \<Longrightarrow> is_pow2 (n * 2)"
  by (auto simp: is_pow2_def intro: exI [of _ "Suc _"])

lemma is_pow2_numeral [simp]: "is_pow2 16" "is_pow2 8192" "is_pow2 1024"
  by (auto simp: is_pow2_def intro: exI [of _ 4] exI [of _ 13] exI [of _ 10])

section \<open>Ring indices\<close>

text \<open>\<open>nxt n i\<close> is the index after \<open>i\<close> in a ring of \<open>n\<close> cells, \<open>prv n i\<close> the one before.\<close>

definition nxt :: "nat \<Rightarrow> nat \<Rightarrow> nat" where
  "nxt n i = (i + 1) mod n"

definition prv :: "nat \<Rightarrow> nat \<Rightarrow> nat" where
  "prv n i = (i + n - 1) mod n"

lemma nxt_less [simp]: "0 < n \<Longrightarrow> nxt n i < n"
  by (simp add: nxt_def)

lemma prv_less [simp]: "0 < n \<Longrightarrow> prv n i < n"
  by (simp add: prv_def)

lemma nxt_cases: "i < n \<Longrightarrow> nxt n i = (if Suc i = n then 0 else Suc i)"
  by (auto simp: nxt_def)

lemma prv_cases: "i < n \<Longrightarrow> prv n i = (if i = 0 then n - 1 else i - 1)"
proof (cases i)
  case 0
  then show "i < n \<Longrightarrow> ?thesis" by (simp add: prv_def)
next
  case (Suc j)
  assume "i < n"
  have "prv n i = (j + n) mod n" using Suc by (simp add: prv_def)
  then show ?thesis using Suc \<open>i < n\<close> by simp
qed

lemma prv_nxt [simp]: "i < n \<Longrightarrow> prv n (nxt n i) = i"
  by (auto simp: nxt_cases prv_cases)

lemma nxt_prv [simp]: "i < n \<Longrightarrow> nxt n (prv n i) = i"
  by (auto simp: nxt_cases prv_cases)

lemma nxt_neq: "1 < n \<Longrightarrow> i < n \<Longrightarrow> nxt n i \<noteq> i"
  by (auto simp: nxt_cases)

lemma nxt_inj: "i < n \<Longrightarrow> j < n \<Longrightarrow> nxt n i = nxt n j \<Longrightarrow> i = j"
  by (metis prv_nxt)

lemma nxt_add [ring_simps]: "nxt n ((a + t) mod n) = (a + Suc t) mod n"
  by (simp add: nxt_def mod_Suc_eq)

lemma nxt_add' [ring_simps]: "(nxt n a + t) mod n = (a + Suc t) mod n"
  by (simp add: nxt_def mod_simps)

lemma ring_cancel:
  fixes x y j n :: nat
  assumes "(j + x) mod n = (j + y) mod n" "x < n" "y < n"
  shows "x = y"
  using assms
proof (induction x y rule: linorder_wlog)
  case (le x y)
  then have "n dvd (j + y) - (j + x)"
    by (metis mod_eq_dvd_iff_nat nat_add_left_cancel_le)
  then have "n dvd y - x" by simp
  with le show ?case by (metis diff_is_0_eq dvd_imp_le le_antisym less_imp_diff_less not_le zero_less_iff_neq_zero)
next
  case (sym x y)
  then show ?case by simp
qed

lemma ring_reach:
  fixes i j n :: nat
  assumes "i < n" "j < n"
  obtains t where "t < n" "(i + t) mod n = j"
proof -
  have "(i + (j + n - i) mod n) mod n = j"
    using assms by (simp add: mod_add_right_eq)
  moreover have "(j + n - i) mod n < n" using assms by simp
  ultimately show thesis using that by blast
qed

lemma nxt_mask: "is_pow2 n \<Longrightarrow> Suc i AND (n - Suc 0) = nxt n i"
  by (simp add: is_pow2_mask nxt_def)

section \<open>Lists\<close>

lemma drop_length_append: "drop (length xs) (xs @ ys) = ys"
  by simp

lemma distinct_mset_cong: "mset xs = mset ys \<Longrightarrow> distinct xs \<longleftrightarrow> distinct ys"
  by (simp add: distinct_count_atmost_1 set_mset_mset [symmetric] del: set_mset_mset)

lemma distinct_if_count_le_1:
  assumes "\<forall>x. count (mset xs) x \<le> 1"
  shows "distinct xs"
  unfolding distinct_count_atmost_1
proof
  fix x
  define c where "c = count (mset xs) x"
  have "c \<le> 1" using assms by (auto simp only: c_def)
  moreover have "c = 0 \<longleftrightarrow> x \<notin> set xs" unfolding c_def by (metis not_in_iff set_mset_mset)
  ultimately have "c = (if x \<in> set xs then 1 else 0)" by auto
  then show "count (mset xs) x = (if x \<in> set xs then 1 else 0)" by (simp only: c_def)
qed

lemma map_of_mset_cong:
  assumes "mset xs = mset ys" "distinct (map fst xs)"
  shows "map_of xs = map_of ys"
proof -
  have "mset (map fst xs) = mset (map fst ys)" using assms(1) by simp
  then have "distinct (map fst ys)" using assms(2) distinct_mset_cong by blast
  moreover have "set xs = set ys" using assms(1) by (metis set_mset_mset)
  ultimately show ?thesis using assms(2) map_of_inject_set by blast
qed

lemma mset_filter_update:
  assumes "i < length xs"
  shows "add_mset (xs ! i) (mset (xs[i := y])) = add_mset y (mset xs)"
  using assms by (simp add: mset_update)

end
