(* ===== verification/Hashmap.thy ===== *)
theory Hashmap
  imports Prelude
begin

text \<open>
  The open-addressing hash map of \<^verbatim>\<open>src/include/hashmap.c\<close> (robin hood hashing with
  backward-shift deletion), the store behind every database and the command table.

  A bucket keeps the two bit fields of \<^verbatim>\<open>struct bucket\<close> at their widths (48 bits of hash,
  16 bits of DIB, the distance to the initial bucket, 0 for an empty bucket) and the item that
  follows it in memory. The scratch areas \<^verbatim>\<open>spare\<close> and \<^verbatim>\<open>edata\<close> appear as the values returned
  and carried by the loops. Sizes are \<open>nat\<close>: they count allocated buckets. Whether the
  allocations of a call succeed is an argument (\<open>mem\<close>) of the operations that allocate.
  Loops whose exit depends on the contents are \<open>partial_function (option)\<close>: \<open>None\<close> is a
  loop that does not return.
\<close>

section \<open>Data\<close>

record 'a bucket =
  b_hash :: "48 word"
  b_dib :: u16
  b_item :: 'a

record 'a hashmap =
  hm_zero :: 'a
  hm_cap :: nat
  hm_seed0 :: u64
  hm_seed1 :: u64
  hm_hash :: "'a \<Rightarrow> u64 \<Rightarrow> u64 \<Rightarrow> u64"
  hm_compare :: "('a \<Rightarrow> 'a \<Rightarrow> u32) option"
  hm_elfree :: bool
  hm_nbuckets :: nat
  hm_count :: nat
  hm_mask :: nat
  hm_growat :: nat
  hm_shrinkat :: nat
  hm_growpower :: nat
  hm_oom :: bool
  hm_buckets :: "'a bucket list"

text \<open>
  \<open>hm_zero\<close> stands for \<^verbatim>\<open>elsize\<close>: it is the item whose bytes are all zero, what
  \<^verbatim>\<open>memset\<close> leaves in a fresh bucket. \<open>hm_elfree\<close> says whether \<^verbatim>\<open>elfree\<close> is set.
\<close>

definition empty_bucket :: "'a \<Rightarrow> 'a bucket" where
  "empty_bucket z = \<lparr>b_hash = 0, b_dib = 0, b_item = z\<rparr>"

definition hashmap_set_grow_by_power :: "'a hashmap \<Rightarrow> nat \<Rightarrow> 'a hashmap" where
  "hashmap_set_grow_by_power m p =
     m\<lparr>hm_growpower := (if p < 1 then 1 else if p > 16 then 16 else p)\<rparr>"

definition clip_hash :: "u64 \<Rightarrow> u64" where
  "clip_hash h = h AND 0xFFFFFFFFFFFF"

definition get_hash :: "'a hashmap \<Rightarrow> 'a \<Rightarrow> u64" where
  "get_hash m key = clip_hash (hm_hash m key (hm_seed0 m) (hm_seed1 m))"

section \<open>Creation\<close>

text \<open>
  \<^verbatim>\<open>nbuckets*GROW_AT\<close> is a product of doubles truncated to \<^verbatim>\<open>size_t\<close>. The constant 0.60 is
  the double \<open>5404319552844595 / 2^53\<close> and 0.10 is \<open>3602879701896397 / 2^55\<close>; a product with
  a power of two only changes the exponent, so it is exact and only the truncation rounds.
\<close>

definition grow_at :: "nat \<Rightarrow> nat" where
  "grow_at n = n * 5404319552844595 div 2 ^ 53"

definition shrink_at :: "nat \<Rightarrow> nat" where
  "shrink_at n = n * 3602879701896397 div 2 ^ 55"

text \<open>The doubling loop \<^verbatim>\<open>while (ncap < cap) ncap *= 2\<close>, from \<open>ncap = 16\<close>.\<close>

function round_cap :: "nat \<Rightarrow> nat \<Rightarrow> nat" where
  "round_cap ncap cap = (if 0 < ncap \<and> ncap < cap then round_cap (ncap * 2) cap else ncap)"
  by pat_completeness auto
termination
  by (relation "measure (\<lambda>(ncap, cap). cap - ncap)") auto

declare round_cap.simps [simp del]

definition initial_cap :: "nat \<Rightarrow> nat" where
  "initial_cap cap = (if cap < 16 then 16 else round_cap 16 cap)"

text \<open>
  \<open>mem\<close> says whether both allocations succeed: when either fails the code releases what it
  has and returns NULL.
\<close>

definition hashmap_new_with_allocator ::
  "bool \<Rightarrow> 'a \<Rightarrow> nat \<Rightarrow> u64 \<Rightarrow> u64 \<Rightarrow> ('a \<Rightarrow> u64 \<Rightarrow> u64 \<Rightarrow> u64) \<Rightarrow>
   ('a \<Rightarrow> 'a \<Rightarrow> u32) option \<Rightarrow> bool \<Rightarrow> 'a hashmap option" where
  "hashmap_new_with_allocator mem z cap seed0 seed1 hash compare elfree =
    (let n = initial_cap cap in
     if \<not> mem then None
     else Some \<lparr>hm_zero = z, hm_cap = n, hm_seed0 = seed0, hm_seed1 = seed1, hm_hash = hash,
       hm_compare = compare, hm_elfree = elfree, hm_nbuckets = n, hm_count = 0, hm_mask = n - 1,
       hm_growat = grow_at n, hm_shrinkat = shrink_at n, hm_growpower = 1, hm_oom = False,
       hm_buckets = replicate n (empty_bucket z)\<rparr>)"

abbreviation hashmap_new where
  "hashmap_new \<equiv> hashmap_new_with_allocator"

section \<open>Clearing\<close>

text \<open>The items handed to \<^verbatim>\<open>elfree\<close>, in bucket order.\<close>

definition free_elements :: "'a hashmap \<Rightarrow> 'a list" where
  "free_elements m =
     (if hm_elfree m then map b_item (filter (\<lambda>b. b_dib b \<noteq> 0) (hm_buckets m)) else [])"

text \<open>
  \<open>hashmap_clear\<close> returns the cleared map and the items freed. With \<open>update_cap\<close> unset the
  bucket array is reallocated at the initial capacity; when that fails the old, larger array is
  kept and only its first \<open>cap\<close> buckets are used from then on. The thresholds it sets are
  three quarters and one tenth of the buckets.
\<close>

definition hashmap_clear :: "'a hashmap \<Rightarrow> bool \<Rightarrow> 'a hashmap \<times> 'a list" where
  "hashmap_clear m update_cap =
    (let n = (if update_cap then hm_nbuckets m else hm_cap m) in
     (m\<lparr>hm_count := 0, hm_cap := n, hm_nbuckets := n,
        hm_buckets := replicate n (empty_bucket (hm_zero m)),
        hm_mask := n - 1, hm_growat := n * 3 div 4, hm_shrinkat := shrink_at n\<rparr>,
      free_elements m))"

section \<open>Probing\<close>

definition item_matches ::
  "('a \<Rightarrow> 'a \<Rightarrow> u32) option \<Rightarrow> 'a \<Rightarrow> 'a \<Rightarrow> bool" where
  "item_matches compare x y = (case compare of None \<Rightarrow> True | Some f \<Rightarrow> f x y = 0)"

text \<open>
  The reinsertion loop of \<^verbatim>\<open>resize0\<close>: walk from bucket \<open>j\<close>, put the carried entry in the
  first empty bucket, and swap it with every bucket whose DIB is smaller on the way.
\<close>

partial_function (option) rehash_loop ::
  "nat \<Rightarrow> 'a bucket list \<Rightarrow> 'a bucket \<Rightarrow> nat \<Rightarrow> 'a bucket list option" where
  "rehash_loop msk bs entry j =
    (if b_dib (bs ! j) = 0 then Some (bs[j := entry])
     else if b_dib (bs ! j) < b_dib entry
     then rehash_loop msk (bs[j := entry])
            ((bs ! j)\<lparr>b_dib := b_dib (bs ! j) + 1\<rparr>) ((j + 1) AND msk)
     else rehash_loop msk bs (entry\<lparr>b_dib := b_dib entry + 1\<rparr>) ((j + 1) AND msk))"

fun rehash_all :: "nat \<Rightarrow> 'a bucket list \<Rightarrow> 'a bucket list \<Rightarrow> 'a bucket list option" where
  "rehash_all msk bs [] = Some bs"
| "rehash_all msk bs (e # es) =
    (if b_dib e = 0 then rehash_all msk bs es
     else case rehash_loop msk bs (e\<lparr>b_dib := 1\<rparr>) (unat (b_hash e) AND msk) of
            None \<Rightarrow> None
          | Some bs' \<Rightarrow> rehash_all msk bs' es)"

text \<open>
  \<open>resize\<close> returns the map and whether it succeeded; without memory the map is unchanged.
  The new array keeps \<open>cap\<close> and \<open>count\<close> of the old map.
\<close>

definition resize :: "bool \<Rightarrow> 'a hashmap \<Rightarrow> nat \<Rightarrow> ('a hashmap \<times> bool) option" where
  "resize mem m new_cap =
    (case hashmap_new_with_allocator mem (hm_zero m) new_cap (hm_seed0 m) (hm_seed1 m)
            (hm_hash m) (hm_compare m) (hm_elfree m) of
       None \<Rightarrow> Some (m, False)
     | Some m2 \<Rightarrow>
        (case rehash_all (hm_mask m2) (hm_buckets m2) (hm_buckets m) of
           None \<Rightarrow> None
         | Some bs \<Rightarrow> Some (m\<lparr>hm_buckets := bs, hm_nbuckets := hm_nbuckets m2,
             hm_mask := hm_mask m2, hm_growat := hm_growat m2, hm_shrinkat := hm_shrinkat m2\<rparr>,
             True)))"

text \<open>
  The loop of \<^verbatim>\<open>hashmap_set_with_hash\<close>: like the reinsertion loop, but a bucket with the
  entry's hash and an equal item is overwritten and its old item returned. The result is the
  buckets, the old item if there was one, and whether a bucket was filled.
\<close>

partial_function (option) set_loop ::
  "('a \<Rightarrow> 'a \<Rightarrow> u32) option \<Rightarrow> nat \<Rightarrow> 'a bucket list \<Rightarrow> 'a bucket \<Rightarrow> nat \<Rightarrow>
   ('a bucket list \<times> 'a option) option" where
  "set_loop compare msk bs entry i =
    (if b_dib (bs ! i) = 0 then Some (bs[i := entry], None)
     else if b_hash entry = b_hash (bs ! i) \<and>
       item_matches compare (b_item entry) (b_item (bs ! i))
     then Some (bs[i := (bs ! i)\<lparr>b_item := b_item entry\<rparr>], Some (b_item (bs ! i)))
     else if b_dib (bs ! i) < b_dib entry
     then set_loop compare msk (bs[i := entry])
            ((bs ! i)\<lparr>b_dib := b_dib (bs ! i) + 1\<rparr>) ((i + 1) AND msk)
     else set_loop compare msk bs (entry\<lparr>b_dib := b_dib entry + 1\<rparr>) ((i + 1) AND msk))"

text \<open>The growth check at the head of \<^verbatim>\<open>hashmap_set_with_hash\<close>: double (or more) when full.\<close>

definition grow_check :: "bool \<Rightarrow> 'a hashmap \<Rightarrow> ('a hashmap \<times> bool) option" where
  "grow_check mem m =
    (if hm_count m = hm_growat m then resize mem m (hm_nbuckets m * 2 ^ hm_growpower m)
     else Some (m, True))"

definition hashmap_set_with_hash ::
  "bool \<Rightarrow> 'a hashmap \<Rightarrow> 'a \<Rightarrow> u64 \<Rightarrow> ('a hashmap \<times> 'a option) option" where
  "hashmap_set_with_hash mem m item hash0 =
    (let hash = clip_hash hash0;
         m0 = m\<lparr>hm_oom := False\<rparr>
     in case grow_check mem m0 of
          None \<Rightarrow> None
        | Some (m1, False) \<Rightarrow> Some (m1\<lparr>hm_oom := True\<rparr>, None)
        | Some (m1, True) \<Rightarrow>
           (let entry = \<lparr>b_hash = ucast hash, b_dib = 1, b_item = item\<rparr>
            in case set_loop (hm_compare m1) (hm_mask m1) (hm_buckets m1) entry
                      (unat (b_hash entry) AND hm_mask m1) of
                 None \<Rightarrow> None
               | Some (bs, None) \<Rightarrow> Some (m1\<lparr>hm_buckets := bs, hm_count := hm_count m1 + 1\<rparr>, None)
               | Some (bs, Some old) \<Rightarrow> Some (m1\<lparr>hm_buckets := bs\<rparr>, Some old)))"

definition hashmap_set :: "bool \<Rightarrow> 'a hashmap \<Rightarrow> 'a \<Rightarrow> ('a hashmap \<times> 'a option) option" where
  "hashmap_set mem m item = hashmap_set_with_hash mem m item (get_hash m item)"

section \<open>Lookup\<close>

partial_function (option) get_loop ::
  "('a \<Rightarrow> 'a \<Rightarrow> u32) option \<Rightarrow> nat \<Rightarrow> 'a bucket list \<Rightarrow> 'a \<Rightarrow> u64 \<Rightarrow> nat \<Rightarrow> 'a option option" where
  "get_loop compare msk bs key hash i =
    (if b_dib (bs ! i) = 0 then Some None
     else if ucast (b_hash (bs ! i)) = hash \<and> item_matches compare key (b_item (bs ! i))
     then Some (Some (b_item (bs ! i)))
     else get_loop compare msk bs key hash ((i + 1) AND msk))"

definition hashmap_get_with_hash :: "'a hashmap \<Rightarrow> 'a \<Rightarrow> u64 \<Rightarrow> 'a option option" where
  "hashmap_get_with_hash m key hash0 =
    (let hash = clip_hash hash0
     in get_loop (hm_compare m) (hm_mask m) (hm_buckets m) key hash (unat hash AND hm_mask m))"

definition hashmap_get :: "'a hashmap \<Rightarrow> 'a \<Rightarrow> 'a option option" where
  "hashmap_get m key = hashmap_get_with_hash m key (get_hash m key)"

definition hashmap_probe :: "'a hashmap \<Rightarrow> u64 \<Rightarrow> 'a option" where
  "hashmap_probe m position =
    (let b = hm_buckets m ! (unat position AND hm_mask m)
     in if b_dib b = 0 then None else Some (b_item b))"

section \<open>Deletion\<close>

text \<open>The search of \<^verbatim>\<open>hashmap_delete_with_hash\<close> gives the index of the bucket to free.\<close>

partial_function (option) find_loop ::
  "('a \<Rightarrow> 'a \<Rightarrow> u32) option \<Rightarrow> nat \<Rightarrow> 'a bucket list \<Rightarrow> 'a \<Rightarrow> u64 \<Rightarrow> nat \<Rightarrow> nat option option" where
  "find_loop compare msk bs key hash i =
    (if b_dib (bs ! i) = 0 then Some None
     else if ucast (b_hash (bs ! i)) = hash \<and> item_matches compare key (b_item (bs ! i))
     then Some (Some i)
     else find_loop compare msk bs key hash ((i + 1) AND msk))"

text \<open>
  The backward shift: from the freed bucket \<open>prev\<close>, move every following bucket with DIB
  above 1 one place back, and mark the last one moved as empty.
\<close>

partial_function (option) shift_loop ::
  "nat \<Rightarrow> 'a bucket list \<Rightarrow> nat \<Rightarrow> 'a bucket list option" where
  "shift_loop msk bs prev =
    (if b_dib (bs ! ((prev + 1) AND msk)) \<le> 1
     then Some (bs[prev := (bs ! prev)\<lparr>b_dib := 0\<rparr>])
     else shift_loop msk
            (bs[prev := (bs ! ((prev + 1) AND msk))
                  \<lparr>b_dib := b_dib (bs ! ((prev + 1) AND msk)) - 1\<rparr>])
            ((prev + 1) AND msk))"

text \<open>
  The shrinking check after a deletion. The result of \<open>resize\<close> is ignored: without memory the
  map simply keeps its buckets.
\<close>

definition shrink_check :: "bool \<Rightarrow> 'a hashmap \<Rightarrow> 'a hashmap option" where
  "shrink_check mem m =
    (if hm_cap m < hm_nbuckets m \<and> hm_count m \<le> hm_shrinkat m
     then map_option fst (resize mem m (hm_nbuckets m div 2))
     else Some m)"

definition hashmap_delete_with_hash ::
  "bool \<Rightarrow> 'a hashmap \<Rightarrow> 'a \<Rightarrow> u64 \<Rightarrow> ('a hashmap \<times> 'a option) option" where
  "hashmap_delete_with_hash mem m key hash0 =
    (let hash = clip_hash hash0;
         m0 = m\<lparr>hm_oom := False\<rparr>
     in case find_loop (hm_compare m0) (hm_mask m0) (hm_buckets m0) key hash
               (unat hash AND hm_mask m0) of
          None \<Rightarrow> None
        | Some None \<Rightarrow> Some (m0, None)
        | Some (Some i) \<Rightarrow>
           (case shift_loop (hm_mask m0)
                   ((hm_buckets m0)[i := (hm_buckets m0 ! i)\<lparr>b_dib := 0\<rparr>]) i of
              None \<Rightarrow> None
            | Some bs \<Rightarrow>
               map_option (\<lambda>m1. (m1, Some (b_item (hm_buckets m0 ! i))))
                 (shrink_check mem (m0\<lparr>hm_buckets := bs, hm_count := hm_count m0 - 1\<rparr>))))"

definition hashmap_delete :: "bool \<Rightarrow> 'a hashmap \<Rightarrow> 'a \<Rightarrow> ('a hashmap \<times> 'a option) option" where
  "hashmap_delete mem m key = hashmap_delete_with_hash mem m key (get_hash m key)"

declare rehash_loop.simps [code] set_loop.simps [code] get_loop.simps [code]
  find_loop.simps [code] shift_loop.simps [code]

section \<open>Observers and iteration\<close>

definition hashmap_count :: "'a hashmap \<Rightarrow> nat" where
  "hashmap_count m = hm_count m"

definition hashmap_oom :: "'a hashmap \<Rightarrow> bool" where
  "hashmap_oom m = hm_oom m"

text \<open>\<^verbatim>\<open>hashmap_free\<close> of a non-NULL map hands its items to \<^verbatim>\<open>elfree\<close>.\<close>

definition hashmap_free :: "'a hashmap option \<Rightarrow> 'a list" where
  "hashmap_free mo = (case mo of None \<Rightarrow> [] | Some m \<Rightarrow> free_elements m)"

text \<open>
  \<open>hashmap_scan\<close> threads the caller's state through the callback, which says whether to go on.
\<close>

fun scan_loop :: "('a \<Rightarrow> 's \<Rightarrow> 's \<times> bool) \<Rightarrow> 'a bucket list \<Rightarrow> 's \<Rightarrow> 's \<times> bool" where
  "scan_loop iter [] s = (s, True)"
| "scan_loop iter (b # bs) s =
    (if b_dib b = 0 then scan_loop iter bs s
     else case iter (b_item b) s of
            (s', True) \<Rightarrow> scan_loop iter bs s'
          | (s', False) \<Rightarrow> (s', False))"

definition hashmap_scan :: "'a hashmap \<Rightarrow> ('a \<Rightarrow> 's \<Rightarrow> 's \<times> bool) \<Rightarrow> 's \<Rightarrow> 's \<times> bool" where
  "hashmap_scan m iter s = scan_loop iter (hm_buckets m) s"

text \<open>\<open>hashmap_iter\<close> advances a cursor to just after the next item, \<open>None\<close> at the end.\<close>

function hashmap_iter :: "'a hashmap \<Rightarrow> nat \<Rightarrow> ('a \<times> nat) option" where
  "hashmap_iter m i =
    (if hm_nbuckets m \<le> i then None
     else if b_dib (hm_buckets m ! i) = 0 then hashmap_iter m (i + 1)
     else Some (b_item (hm_buckets m ! i), i + 1))"
  by pat_completeness auto
termination
  by (relation "measure (\<lambda>(m, i). hm_nbuckets m - i)") auto

declare hashmap_iter.simps [simp del]

end
