(* ===== verification/Robin_Hood.thy ===== *)
theory Robin_Hood
  imports Hashmap
begin

text \<open>
  The robin hood invariant of the bucket array and the correctness of the probing loops of
  \<^theory_text>\<open>Hashmap\<close> on arrays that satisfy it. The invariant is local: every occupied bucket lies
  \<^verbatim>\<open>dib - 1\<close> places after its hash, and the DIB of a bucket exceeds that of the bucket before
  it by at most one. Everything the loops need follows from it: a probe sequence from the hash
  to an item meets no empty bucket and no bucket with a smaller DIB than the probe.
\<close>

section \<open>Contents and invariant of a bucket array\<close>

definition dibn :: "'a bucket list \<Rightarrow> nat \<Rightarrow> nat" where
  "dibn bs i = unat (b_dib (bs ! i))"

definition occ :: "'a bucket list \<Rightarrow> 'a bucket list" where
  "occ bs = filter (\<lambda>b. b_dib b \<noteq> 0) bs"

definition slot :: "'a bucket \<Rightarrow> 48 word \<times> 'a" where
  "slot b = (b_hash b, b_item b)"

definition contents :: "'a bucket list \<Rightarrow> (48 word \<times> 'a) multiset" where
  "contents bs = image_mset slot (mset (occ bs))"

text \<open>An entry of hash \<open>h\<close> and DIB \<open>d\<close> belongs in bucket \<open>i\<close> of \<open>n\<close>.\<close>

definition belongs :: "nat \<Rightarrow> nat \<Rightarrow> nat \<Rightarrow> nat \<Rightarrow> bool" where
  "belongs n h d i \<longleftrightarrow> (h + d) mod n = nxt n i"

definition rh :: "nat \<Rightarrow> 'a bucket list \<Rightarrow> bool" where
  "rh n bs \<longleftrightarrow> length bs = n
     \<and> (\<forall>i<n. dibn bs i \<noteq> 0 \<longrightarrow> belongs n (unat (b_hash (bs ! i))) (dibn bs i) i)
     \<and> (\<forall>i<n. dibn bs (nxt n i) \<le> Suc (dibn bs i))"

lemma rh_length: "rh n bs \<Longrightarrow> length bs = n"
  by (simp add: rh_def)

lemma rh_belongs: "rh n bs \<Longrightarrow> i < n \<Longrightarrow> dibn bs i \<noteq> 0 \<Longrightarrow>
    belongs n (unat (b_hash (bs ! i))) (dibn bs i) i"
  by (simp add: rh_def)

lemma rh_nxt: "rh n bs \<Longrightarrow> i < n \<Longrightarrow> dibn bs (nxt n i) \<le> Suc (dibn bs i)"
  by (simp add: rh_def)

lemma dib_0_iff: "b_dib (bs ! i) = 0 \<longleftrightarrow> dibn bs i = 0"
  by (simp add: dibn_def unat_eq_0)

lemma dib_less_iff: "b_dib (bs ! i) < d \<longleftrightarrow> dibn bs i < unat d"
  by (simp add: dibn_def word_less_nat_alt)

lemma dib_le_1_iff: "b_dib (bs ! i) \<le> 1 \<longleftrightarrow> dibn bs i \<le> 1"
  by (simp add: dibn_def word_le_nat_alt)

lemma dibn_update: "dibn (bs[i := b]) j = (if j = i \<and> i < length bs then unat (b_dib b) else dibn bs j)"
  by (auto simp: dibn_def list_update_beyond)

lemma unat_dib_Suc: "unat d < 65535 \<Longrightarrow> unat (d + 1 :: u16) = Suc (unat d)"
  by (simp add: unat_word_ariths)

lemma unat_dib_pred: "1 \<le> unat d \<Longrightarrow> unat (d - 1 :: u16) = unat d - 1"
  by (metis unat_minus_one One_nat_def le_numeral_extra(2) unat_0 not_one_le_zero)

section \<open>Contents under updates\<close>

lemma contents_update:
  assumes "i < length bs"
  shows "contents (bs[i := b]) + (if dibn bs i = 0 then {#} else {#slot (bs ! i)#}) =
         contents bs + (if b_dib b = 0 then {#} else {#slot b#})"
proof -
  have "add_mset (bs ! i) (mset (bs[i := b])) = add_mset b (mset bs)"
    using assms by (rule mset_filter_update)
  then have "filter_mset (\<lambda>b. b_dib b \<noteq> 0) (add_mset (bs ! i) (mset (bs[i := b]))) =
      filter_mset (\<lambda>b. b_dib b \<noteq> 0) (add_mset b (mset bs))" by simp
  then have "image_mset slot (filter_mset (\<lambda>b. b_dib b \<noteq> 0) (add_mset (bs ! i) (mset (bs[i := b])))) =
      image_mset slot (filter_mset (\<lambda>b. b_dib b \<noteq> 0) (add_mset b (mset bs)))" by simp
  then show ?thesis
    by (simp add: contents_def occ_def dib_0_iff [symmetric] split: if_splits)
qed

lemma contents_fill:
  "i < length bs \<Longrightarrow> dibn bs i = 0 \<Longrightarrow> b_dib b \<noteq> 0 \<Longrightarrow>
   contents (bs[i := b]) = add_mset (slot b) (contents bs)"
  using contents_update [of i bs b] by simp

lemma contents_swap:
  "i < length bs \<Longrightarrow> dibn bs i \<noteq> 0 \<Longrightarrow> b_dib b \<noteq> 0 \<Longrightarrow>
   add_mset (slot (bs ! i)) (contents (bs[i := b])) = add_mset (slot b) (contents bs)"
  using contents_update [of i bs b] by simp

lemma contents_clear:
  "i < length bs \<Longrightarrow> dibn bs i \<noteq> 0 \<Longrightarrow> b_dib b = 0 \<Longrightarrow>
   add_mset (slot (bs ! i)) (contents (bs[i := b])) = contents bs"
  using contents_update [of i bs b] by simp

lemma contents_clear_empty:
  "i < length bs \<Longrightarrow> dibn bs i = 0 \<Longrightarrow> b_dib b = 0 \<Longrightarrow> contents (bs[i := b]) = contents bs"
  using contents_update [of i bs b] by simp

lemma size_contents: "size (contents bs) = length (occ bs)"
  by (simp add: contents_def)

lemma slot_in_contents: "i < length bs \<Longrightarrow> dibn bs i \<noteq> 0 \<Longrightarrow> slot (bs ! i) \<in># contents bs"
  by (auto simp: contents_def occ_def dib_0_iff)

lemma in_contentsE:
  assumes "x \<in># contents bs"
  obtains i where "i < length bs" "dibn bs i \<noteq> 0" "slot (bs ! i) = x"
  using assms by (auto simp: contents_def occ_def in_set_conv_nth dib_0_iff)

lemma slot_dib [simp]: "slot (b\<lparr>b_dib := d\<rparr>) = slot b"
  by (simp add: slot_def)

section \<open>Consequences of the invariant\<close>

lemma belongs_step:
  assumes "belongs n h d i"
  shows "belongs n h (Suc d) (nxt n i)"
proof -
  have "(h + Suc d) mod n = Suc ((h + d) mod n) mod n" by (simp add: mod_Suc_eq)
  also have "\<dots> = nxt n (nxt n i)" using assms by (simp add: belongs_def nxt_def)
  finally show ?thesis by (simp add: belongs_def)
qed

lemma belongs_home: "0 < n \<Longrightarrow> belongs n h 1 (h mod n)"
  by (simp add: belongs_def nxt_def mod_Suc_eq)

lemma belongs_distance:
  assumes "belongs n h d j" "0 < d" "j < n"
  shows "(h mod n + (d - 1)) mod n = j"
proof -
  have "nxt n ((h + (d - 1)) mod n) = nxt n j"
    using assms by (cases d) (simp_all add: belongs_def nxt_add)
  moreover have "(h + (d - 1)) mod n < n" using assms(3) by simp
  ultimately have "(h + (d - 1)) mod n = j" using assms(3) nxt_inj by blast
  then show ?thesis by (simp add: mod_add_left_eq)
qed

lemma rh_back: "rh n bs \<Longrightarrow> i < n \<Longrightarrow> dibn bs ((i + t) mod n) \<le> dibn bs i + t"
proof (induction t)
  case 0
  then show ?case by simp
next
  case (Suc t)
  have "dibn bs (nxt n ((i + t) mod n)) \<le> Suc (dibn bs ((i + t) mod n))"
    using Suc.prems by (intro rh_nxt) auto
  also have "\<dots> \<le> dibn bs i + Suc t" using Suc by simp
  finally show ?case by (simp add: nxt_add)
qed

lemma occ_card: "length (occ bs) = card {i. i < length bs \<and> dibn bs i \<noteq> 0}"
  by (simp add: occ_def length_filter_conv_card dib_0_iff)

lemma empty_exists:
  assumes "length (occ bs) < length bs"
  shows "\<exists>e < length bs. dibn bs e = 0"
proof (rule ccontr)
  assume "\<not> ?thesis"
  then have "{i. i < length bs \<and> dibn bs i \<noteq> 0} = {..<length bs}" by auto
  then show False using assms by (simp add: occ_card)
qed

text \<open>With an empty bucket, a DIB never exceeds the number of occupied buckets.\<close>

lemma dib_le_occ:
  assumes "rh n bs" "length (occ bs) < n" "j < n"
  shows "dibn bs j \<le> length (occ bs)"
proof -
  let ?d = "dibn bs j"
  have n: "length bs = n" "0 < n" using assms by (auto simp: rh_length)
  obtain e where e: "e < n" "dibn bs e = 0" using empty_exists [of bs] assms n by auto
  obtain t where "t < n" "(e + t) mod n = j" using ring_reach e(1) assms(3) by blast
  then have dn: "?d < n" using rh_back [OF assms(1) e(1), of t] e(2) by simp
  let ?f = "\<lambda>t. (j + (n - t)) mod n"
  have "inj_on ?f {..<?d}"
  proof (rule inj_onI)
    fix x y assume xy: "x \<in> {..<?d}" "y \<in> {..<?d}" "?f x = ?f y"
    then have "(j + (n - x) + x + y) mod n = (j + (n - y) + x + y) mod n"
      by (metis (no_types) mod_add_cong add.assoc)
    moreover have "j + (n - x) + x + y = j + y + n" "j + (n - y) + x + y = j + x + n"
      using xy dn by auto
    ultimately have "(j + y) mod n = (j + x) mod n" by (metis mod_add_self2)
    then show "x = y" using xy dn ring_cancel [of j y n x] by simp
  qed
  moreover have "?f ` {..<?d} \<subseteq> {i. i < length bs \<and> dibn bs i \<noteq> 0}"
  proof (clarsimp simp: n)
    fix t assume t: "t < ?d"
    have "((j + (n - t)) mod n + t) mod n = j"
      using t dn assms(3) by (simp add: mod_add_left_eq)
    moreover have "(j + (n - t)) mod n < n" using n by simp
    ultimately show "0 < dibn bs ((j + (n - t)) mod n)"
      using rh_back [OF assms(1), of "(j + (n - t)) mod n" t] t by simp
  qed
  ultimately have "card {..<?d} \<le> card {i. i < length bs \<and> dibn bs i \<noteq> 0}"
    by (intro card_inj_on_le) auto
  then show ?thesis by (simp add: occ_card)
qed

section \<open>Placing an entry\<close>

lemma rh_put:
  assumes "rh n bs" "1 < n" "i < n"
    and "belongs n (unat (b_hash e)) (unat (b_dib e)) i"
    and "unat (b_dib e) \<le> Suc (dibn bs (prv n i))"
    and "dibn bs i \<le> unat (b_dib e)"
  shows "rh n (bs[i := e])"
  unfolding rh_def
proof (intro conjI allI impI)
  show "length (bs[i := e]) = n" using assms(1) by (simp add: rh_length)
next
  fix j assume "j < n" "dibn (bs[i := e]) j \<noteq> 0"
  then show "belongs n (unat (b_hash (bs[i := e] ! j))) (dibn (bs[i := e]) j) j"
    using assms by (auto simp: dibn_update rh_length nth_list_update split: if_splits intro: rh_belongs)
next
  fix j assume j: "j < n"
  show "dibn (bs[i := e]) (nxt n j) \<le> Suc (dibn (bs[i := e]) j)"
  proof (cases "j = i")
    case True
    then have "dibn (bs[i := e]) (nxt n j) = dibn bs (nxt n i)"
      using assms(2,3) by (simp add: dibn_update nxt_neq)
    also have "\<dots> \<le> Suc (unat (b_dib e))"
      using rh_nxt [OF assms(1,3)] assms(6) by simp
    finally show ?thesis using True assms(1,3) by (simp add: dibn_update rh_length)
  next
    case False
    then have "dibn (bs[i := e]) (nxt n j) \<le> Suc (dibn bs j)"
      using assms j rh_nxt [OF assms(1) j] by (auto simp: dibn_update)
    then show ?thesis using False by (simp add: dibn_update)
  qed
qed

text \<open>Overwriting the item of a bucket does not touch the invariant.\<close>

lemma rh_item:
  assumes "rh n bs"
  shows "rh n (bs[j := (bs ! j)\<lparr>b_item := x\<rparr>])"
proof -
  let ?bs = "bs[j := (bs ! j)\<lparr>b_item := x\<rparr>]"
  have "dibn ?bs i = dibn bs i" "b_hash (?bs ! i) = b_hash (bs ! i)" for i
    by (cases "i = j \<and> j < length bs"; auto simp: dibn_def list_update_beyond)+
  then show ?thesis using assms by (simp add: rh_def)
qed

section \<open>The reinsertion loop\<close>

text \<open>
  \<open>carry n bs e i\<close>: the entry \<open>e\<close> has been carried to bucket \<open>i\<close> by a probe from its hash.
  \<open>clear n bs i T\<close>: there is an empty bucket \<open>T\<close> places ahead, and no DIB on the way is at its
  16-bit limit.
\<close>

definition carry :: "nat \<Rightarrow> 'a bucket list \<Rightarrow> 'a bucket \<Rightarrow> nat \<Rightarrow> bool" where
  "carry n bs e i \<longleftrightarrow> i < n \<and> b_dib e \<noteq> 0 \<and> belongs n (unat (b_hash e)) (unat (b_dib e)) i
     \<and> unat (b_dib e) \<le> Suc (dibn bs (prv n i))"

definition clear :: "nat \<Rightarrow> 'a bucket list \<Rightarrow> nat \<Rightarrow> nat \<Rightarrow> bool" where
  "clear n bs i T \<longleftrightarrow> T < n \<and> dibn bs ((i + T) mod n) = 0
     \<and> (\<forall>t\<le>T. dibn bs ((i + t) mod n) < 65535)"

lemma clear_Suc:
  assumes "clear n bs i T" "i < n" "dibn bs i \<noteq> 0"
  obtains T' where "T = Suc T'" "clear n bs (nxt n i) T'"
    "clear n (bs[i := b]) (nxt n i) T'"
proof -
  from assms have "T \<noteq> 0" by (auto simp: clear_def intro: gr0I)
  then obtain T' where T: "T = Suc T'" by (cases T) auto
  have ne: "(i + Suc t) mod n \<noteq> i" if "t \<le> T'" for t
    using ring_cancel [of i "Suc t" n 0] assms(1,2) that T by (auto simp: clear_def)
  have "clear n bs (nxt n i) T'"
    using assms(1) T by (auto simp: clear_def nxt_add')
  moreover from this have "clear n (bs[i := b]) (nxt n i) T'"
    using ne by (auto simp: clear_def nxt_add' dibn_update)
  ultimately show thesis using T that by blast
qed

lemma carry_home:
  "0 < n \<Longrightarrow> b_dib e = 1 \<Longrightarrow> carry n bs e (unat (b_hash e) mod n)"
  using belongs_home [of n "unat (b_hash e)"] by (simp add: carry_def)

lemma carry_step:
  assumes "carry n bs e i" "unat (b_dib e) \<le> dibn bs i" "dibn bs i < 65535"
  shows "carry n bs (e\<lparr>b_dib := b_dib e + 1\<rparr>) (nxt n i)"
proof -
  have "unat (b_dib e + 1) = Suc (unat (b_dib e))"
    using assms(2,3) by (simp add: unat_dib_Suc)
  moreover from this have "b_dib e + 1 \<noteq> 0" by (metis nat.distinct(1) unat_0)
  ultimately show ?thesis
    using assms belongs_step [of n "unat (b_hash e)" "unat (b_dib e)" i]
    by (auto simp: carry_def)
qed

lemma carry_swap:
  assumes "rh n bs" "carry n bs e i" "dibn bs i \<noteq> 0" "dibn bs i < unat (b_dib e)"
    "dibn bs i < 65535"
  shows "carry n (bs[i := e]) ((bs ! i)\<lparr>b_dib := b_dib (bs ! i) + 1\<rparr>) (nxt n i)"
proof -
  have i: "i < n" "i < length bs" using assms by (auto simp: carry_def rh_length)
  have S: "unat (b_dib (bs ! i) + 1) = Suc (dibn bs i)"
    using assms(5) by (simp add: unat_dib_Suc dibn_def)
  moreover from this have "b_dib (bs ! i) + 1 \<noteq> 0" by (metis nat.distinct(1) unat_0)
  ultimately show ?thesis
    using assms i belongs_step [OF rh_belongs [OF assms(1) i(1) assms(3)]]
    by (simp add: carry_def dibn_update)
qed

lemma carry_put:
  "rh n bs \<Longrightarrow> 1 < n \<Longrightarrow> carry n bs e i \<Longrightarrow> dibn bs i \<le> unat (b_dib e) \<Longrightarrow> rh n (bs[i := e])"
  by (rule rh_put) (auto simp: carry_def)

theorem rehash_loop_correct:
  assumes "rh n bs" "is_pow2 n" "1 < n" "carry n bs e i" "clear n bs i T"
  shows "\<exists>bs'. rehash_loop (n - 1) bs e i = Some bs' \<and> rh n bs'
           \<and> contents bs' = add_mset (slot e) (contents bs)"
  using assms
proof (induction T arbitrary: bs e i)
  case (0 bs e i)
  then have "dibn bs i = 0" by (auto simp: clear_def carry_def)
  then show ?case using 0
    by (subst rehash_loop.simps)
      (auto simp: dib_0_iff contents_fill carry_put carry_def rh_length)
next
  case (Suc T bs e i)
  have i: "i < n" "i < length bs" and e: "b_dib e \<noteq> 0"
    using Suc.prems by (auto simp: carry_def rh_length)
  have lt: "dibn bs i < 65535"
    using Suc.prems(5) i(1) by (auto simp: clear_def dest: spec [of _ 0])
  have j: "Suc i AND (n - Suc 0) = nxt n i"
    using Suc.prems(2) by (rule nxt_mask)
  show ?case
  proof (cases "dibn bs i = 0")
    case True
    then show ?thesis using Suc.prems i e
      by (subst rehash_loop.simps) (auto simp: dib_0_iff contents_fill carry_put)
  next
    case False
    obtain T' where T': "Suc T = Suc T'" "clear n bs (nxt n i) T'" "clear n (bs[i := e]) (nxt n i) T'"
      using clear_Suc [OF Suc.prems(5) i(1) False] by metis
    show ?thesis
    proof (cases "dibn bs i < unat (b_dib e)")
      case True
      have "\<exists>bs'. rehash_loop (n - 1) (bs[i := e])
          ((bs ! i)\<lparr>b_dib := b_dib (bs ! i) + 1\<rparr>) (nxt n i) = Some bs' \<and> rh n bs'
          \<and> contents bs' = add_mset (slot (bs ! i)) (contents (bs[i := e]))"
        using Suc.IH [of "bs[i := e]" "(bs ! i)\<lparr>b_dib := b_dib (bs ! i) + 1\<rparr>" "nxt n i"]
          Suc.prems T' True False lt i by (simp add: carry_put carry_swap)
      then show ?thesis using False True i e
        by (subst rehash_loop.simps)
          (auto simp: dib_0_iff dib_less_iff contents_swap j)
    next
      case nlt: False
      then show ?thesis
        using Suc.IH [of bs "e\<lparr>b_dib := b_dib e + 1\<rparr>" "nxt n i"] Suc.prems T' False lt
        by (subst rehash_loop.simps)
          (auto simp: dib_0_iff dib_less_iff carry_step j)
    qed
  qed
qed

section \<open>The insertion loop\<close>

text \<open>
  \<open>agrees compare key V\<close>: on the items that satisfy \<open>V\<close> the comparison callback returns 0
  exactly when the keys are equal. A missing callback means that all items compare equal.
\<close>

definition agrees :: "('a \<Rightarrow> 'a \<Rightarrow> u32) option \<Rightarrow> ('a \<Rightarrow> 'k) \<Rightarrow> ('a \<Rightarrow> bool) \<Rightarrow> bool" where
  "agrees compare key V \<longleftrightarrow>
     (\<forall>x y. V x \<longrightarrow> V y \<longrightarrow> (item_matches compare x y \<longleftrightarrow> key x = key y))"

definition skey :: "('a \<Rightarrow> 'k) \<Rightarrow> 48 word \<times> 'a \<Rightarrow> 48 word \<times> 'k" where
  "skey key = (\<lambda>(h, x). (h, key x))"

text \<open>No two slots of a content have the same hash and key.\<close>

definition unique_keys :: "('a \<Rightarrow> 'k) \<Rightarrow> (48 word \<times> 'a) multiset \<Rightarrow> bool" where
  "unique_keys key M \<longleftrightarrow> (\<forall>k. count (image_mset (skey key) M) k \<le> 1)"

lemma unique_keys_add:
  assumes "unique_keys key (add_mset s M)" "s' \<in># M"
  shows "skey key s' \<noteq> skey key s"
proof
  assume "skey key s' = skey key s"
  then have "skey key s \<in># image_mset (skey key) M"
    using assms(2) by (metis image_eqI set_image_mset)
  then have "count (image_mset (skey key) M) (skey key s) \<noteq> 0"
    by (rule contrapos_pn) (rule not_in_iff [THEN iffD2])
  moreover have "count (image_mset (skey key) (add_mset s M)) (skey key s) \<le> 1"
    using assms(1) by (simp only: unique_keys_def)
  then have "Suc (count (image_mset (skey key) M) (skey key s)) \<le> 1"
    by (simp only: image_mset_add_mset count_add_mset refl if_True)
  ultimately show False by linarith
qed

lemma unique_keys_mono: "unique_keys key (add_mset s M) \<Longrightarrow> unique_keys key M"
  unfolding unique_keys_def
proof
  fix k
  assume "\<forall>k. count (image_mset (skey key) (add_mset s M)) k \<le> 1"
  then have "count (image_mset (skey key) (add_mset s M)) k \<le> 1" ..
  then show "count (image_mset (skey key) M) k \<le> 1" by (simp split: if_splits)
qed

lemma unique_keys_addI:
  assumes "unique_keys key M" "\<And>s'. s' \<in># M \<Longrightarrow> skey key s' \<noteq> skey key s"
  shows "unique_keys key (add_mset s M)"
proof -
  have "skey key s \<notin># image_mset (skey key) M"
    using assms(2) by (metis imageE set_image_mset)
  then have "count (image_mset (skey key) M) (skey key s) = 0"
    by (rule not_in_iff [THEN iffD1])
  then show ?thesis using assms(1) unfolding unique_keys_def by (metis count_add_mset
    image_mset_add_mset le_refl One_nat_def)
qed

lemma no_match:
  assumes "agrees compare key V" "unique_keys key (add_mset s M)" "s' \<in># M"
    "V (snd s)" "V (snd s')"
  shows "\<not> (fst s = fst s' \<and> item_matches compare (snd s) (snd s'))"
  using unique_keys_add [OF assms(2,3)] assms(1,4,5)
  by (auto simp: agrees_def skey_def split: prod.splits)

text \<open>When no slot has the entry's key, inserting is reinserting.\<close>

lemma set_loop_rehash:
  assumes "rh n bs" "is_pow2 n" "1 < n" "carry n bs e i" "clear n bs i T"
    and "agrees compare key V" "unique_keys key (add_mset (slot e) (contents bs))"
    and "\<forall>s \<in># add_mset (slot e) (contents bs). V (snd s)"
  shows "set_loop compare (n - 1) bs e i =
           map_option (\<lambda>bs'. (bs', None)) (rehash_loop (n - 1) bs e i)"
  using assms
proof (induction T arbitrary: bs e i)
  case (0 bs e i)
  then have "dibn bs i = 0" by (auto simp: clear_def carry_def)
  then show ?case
    by (subst rehash_loop.simps, subst set_loop.simps) (simp add: dib_0_iff)
next
  case (Suc T bs e i)
  have i: "i < n" "i < length bs" and e: "b_dib e \<noteq> 0"
    using Suc.prems by (auto simp: carry_def rh_length)
  have lt: "dibn bs i < 65535"
    using Suc.prems(5) i(1) by (auto simp: clear_def dest: spec [of _ 0])
  have j: "Suc i AND (n - Suc 0) = nxt n i"
    using Suc.prems(2) by (rule nxt_mask)
  show ?case
  proof (cases "dibn bs i = 0")
    case True
    then show ?thesis
      by (subst rehash_loop.simps, subst set_loop.simps) (simp add: dib_0_iff)
  next
    case False
    obtain T' where T': "Suc T = Suc T'" "clear n bs (nxt n i) T'" "clear n (bs[i := e]) (nxt n i) T'"
      using clear_Suc [OF Suc.prems(5) i(1) False] by metis
    have mem: "slot (bs ! i) \<in># contents bs" using i False by (simp add: slot_in_contents)
    then have nm: "\<not> (b_hash e = b_hash (bs ! i) \<and> item_matches compare (b_item e) (b_item (bs ! i)))"
      using no_match [OF Suc.prems(6,7) mem] Suc.prems(8) by (auto simp: slot_def)
    show ?thesis
    proof (cases "dibn bs i < unat (b_dib e)")
      case True
      have "set_loop compare (n - 1) (bs[i := e])
          ((bs ! i)\<lparr>b_dib := b_dib (bs ! i) + 1\<rparr>) (nxt n i) =
          map_option (\<lambda>bs'. (bs', None)) (rehash_loop (n - 1) (bs[i := e])
          ((bs ! i)\<lparr>b_dib := b_dib (bs ! i) + 1\<rparr>) (nxt n i))"
        using Suc.IH [of "bs[i := e]" "(bs ! i)\<lparr>b_dib := b_dib (bs ! i) + 1\<rparr>" "nxt n i"]
          Suc.prems T' True False lt i e by (simp add: carry_put carry_swap contents_swap)
      then show ?thesis using False True i e nm
        by (subst rehash_loop.simps, subst set_loop.simps) (auto simp: dib_0_iff dib_less_iff j)
    next
      case nlt: False
      then show ?thesis
        using Suc.IH [of bs "e\<lparr>b_dib := b_dib e + 1\<rparr>" "nxt n i"] Suc.prems T' False lt nm
        by (subst rehash_loop.simps, subst set_loop.simps)
          (auto simp: dib_0_iff dib_less_iff carry_step j)
    qed
  qed
qed

section \<open>Probing for a key\<close>

lemma unique_index:
  assumes "unique_keys key (contents bs)" "i < length bs" "j < length bs"
    "dibn bs i \<noteq> 0" "dibn bs j \<noteq> 0" "skey key (slot (bs ! i)) = skey key (slot (bs ! j))"
  shows "i = j"
proof (rule ccontr)
  assume ne: "i \<noteq> j"
  let ?bs = "bs[j := (bs ! j)\<lparr>b_dib := 0\<rparr>]"
  have "contents bs = add_mset (slot (bs ! j)) (contents ?bs)"
    using assms(3,5) by (simp add: contents_clear)
  moreover have "slot (bs ! i) \<in># contents ?bs"
    using slot_in_contents [of i ?bs] assms(2,4) ne by (simp add: dibn_update)
  ultimately show False using unique_keys_add assms(1,6) by metis
qed

text \<open>\<open>ahead n bs j i t\<close>: the occupied bucket \<open>j\<close> is \<open>t\<close> places ahead of \<open>i\<close>, within its DIB.\<close>

definition ahead :: "nat \<Rightarrow> 'a bucket list \<Rightarrow> nat \<Rightarrow> nat \<Rightarrow> nat \<Rightarrow> bool" where
  "ahead n bs j i t \<longleftrightarrow> i < n \<and> j < n \<and> (i + t) mod n = j \<and> t < dibn bs j"

lemma ahead_home:
  assumes "rh n bs" "j < n" "dibn bs j \<noteq> 0"
  shows "ahead n bs j (unat (b_hash (bs ! j)) mod n) (dibn bs j - 1)"
  using belongs_distance [OF rh_belongs [OF assms] _ assms(2)] assms(2,3)
  by (simp add: ahead_def)

lemma ahead_occupied: "rh n bs \<Longrightarrow> ahead n bs j i t \<Longrightarrow> dibn bs j - t \<le> dibn bs i"
  using rh_back [of n bs i t] by (auto simp: ahead_def)

lemma ahead_Suc: "ahead n bs j i (Suc t) \<Longrightarrow> ahead n bs j (nxt n i) t"
  by (auto simp: ahead_def nxt_add')

lemma ahead_0: "ahead n bs j i 0 \<Longrightarrow> i = j"
  by (auto simp: ahead_def)

lemma match_unique:
  assumes "rh n bs" "agrees compare key V" "unique_keys key (contents bs)"
    "\<forall>s \<in># contents bs. V (snd s)" "V x" "i < n" "j < n" "dibn bs i \<noteq> 0" "dibn bs j \<noteq> 0"
    "key x = key (b_item (bs ! j))"
  shows "b_hash (bs ! j) = b_hash (bs ! i) \<and> item_matches compare x (b_item (bs ! i)) \<longleftrightarrow> i = j"
proof -
  have V: "V (b_item (bs ! i))" if "i < n" "dibn bs i \<noteq> 0" for i
    using assms(1,4) that slot_in_contents [of i bs] by (auto simp: slot_def rh_length)
  have "i = j" if "b_hash (bs ! j) = b_hash (bs ! i)" "key x = key (b_item (bs ! i))"
    using unique_index [OF assms(3), of i j] that assms
    by (auto simp: skey_def slot_def rh_length)
  then show ?thesis using assms(2,5,10) V [OF assms(6,8)] V [OF assms(7,9)]
    by (auto simp: agrees_def)
qed

theorem set_loop_present:
  assumes "rh n bs" "is_pow2 n" "agrees compare key V" "unique_keys key (contents bs)"
    "\<forall>s \<in># contents bs. V (snd s)" "V (b_item e)" "dibn bs j \<noteq> 0"
    "b_hash e = b_hash (bs ! j)" "key (b_item e) = key (b_item (bs ! j))"
    and "ahead n bs j i t" "b_dib e \<noteq> 0" "unat (b_dib e) + t = dibn bs j"
  shows "set_loop compare (n - 1) bs e i =
     Some (bs[j := (bs ! j)\<lparr>b_item := b_item e\<rparr>], Some (b_item (bs ! j)))"
  using assms
proof (induction t arbitrary: e i)
  case (0 e i)
  have i: "i = j" "j < n" using 0 by (auto dest: ahead_0 simp: ahead_def)
  have "b_hash (bs ! j) = b_hash (bs ! j) \<and> item_matches compare (b_item e) (b_item (bs ! j))"
    using match_unique [OF 0(1,3,4,5,6) i(2) i(2)] 0 by blast
  then show ?case using 0 i
    by (subst set_loop.simps) (simp add: dib_0_iff)
next
  case (Suc t e i)
  have i: "i < n" "j < n" using Suc.prems by (auto simp: ahead_def)
  have d: "unat (b_dib e) \<le> dibn bs i" "dibn bs i \<noteq> 0"
    using ahead_occupied [OF Suc.prems(1,10)] Suc.prems(10,12) by (auto simp: ahead_def)
  have m: "b_hash (bs ! j) = b_hash (bs ! i) \<and> item_matches compare (b_item e) (b_item (bs ! i)) \<longleftrightarrow> i = j"
    using match_unique [OF Suc.prems(1,3,4,5,6) i d(2) Suc.prems(7,9)] .
  show ?case
  proof (cases "i = j")
    case True
    then show ?thesis using Suc.prems m d by (subst set_loop.simps) (simp add: dib_0_iff)
  next
    case False
    have "unat (b_dib e) < dibn bs j" "dibn bs j < 65536"
      using Suc.prems(12) unsigned_less [of "b_dib (bs ! j)"] by (auto simp: dibn_def)
    then have S: "unat (b_dib e + 1) = Suc (unat (b_dib e))" by (simp add: unat_dib_Suc)
    then have "b_dib e + 1 \<noteq> 0" by (metis nat.distinct(1) unat_0)
    then have "set_loop compare (n - 1) bs (e\<lparr>b_dib := b_dib e + 1\<rparr>) (nxt n i) =
       Some (bs[j := (bs ! j)\<lparr>b_item := b_item e\<rparr>], Some (b_item (bs ! j)))"
      using Suc.IH [of "e\<lparr>b_dib := b_dib e + 1\<rparr>" "nxt n i"] Suc.prems S ahead_Suc by force
    then show ?thesis using False m d Suc.prems(2,8)
      by (subst set_loop.simps) (auto simp: dib_0_iff dib_less_iff nxt_mask)
  qed
qed

section \<open>Finding and reading\<close>

lemma unat_ucast_48: "unat (ucast (a :: 48 word) :: u64) = unat a"
proof -
  have "unat a < 2 ^ 64" using unsigned_less [of a] by (rule less_trans) simp
  then show ?thesis by (simp add: unsigned_ucast_eq take_bit_nat_eq_self)
qed

lemma ucast_48_eq: "(ucast (a :: 48 word) :: u64) = ucast b \<longleftrightarrow> a = b"
  by (metis unat_ucast_48 word_unat_eq_iff)

theorem find_loop_present:
  assumes "rh n bs" "is_pow2 n" "agrees compare key V" "unique_keys key (contents bs)"
    "\<forall>s \<in># contents bs. V (snd s)" "V x" "dibn bs j \<noteq> 0" "key x = key (b_item (bs ! j))"
    and "ahead n bs j i t"
  shows "find_loop compare (n - 1) bs x (ucast (b_hash (bs ! j))) i = Some (Some j)"
  using assms
proof (induction t arbitrary: i)
  case (0 i)
  have i: "i = j" "j < n" using 0 by (auto dest: ahead_0 simp: ahead_def)
  then show ?case using match_unique [OF 0(1,3,4,5,6) i(2) i(2)] 0
    by (subst find_loop.simps) (simp add: dib_0_iff)
next
  case (Suc t i)
  have i: "i < n" "j < n" using Suc.prems by (auto simp: ahead_def)
  have d: "dibn bs i \<noteq> 0" using ahead_occupied [OF Suc.prems(1,9)] Suc.prems(9) by (auto simp: ahead_def)
  have "find_loop compare (n - 1) bs x (ucast (b_hash (bs ! j))) (nxt n i) = Some (Some j)"
    using Suc.IH [of "nxt n i"] Suc.prems ahead_Suc by blast
  then show ?case using match_unique [OF Suc.prems(1,3,4,5,6) i d Suc.prems(7,8)] d Suc.prems(2)
    by (subst find_loop.simps) (auto simp: dib_0_iff ucast_48_eq nxt_mask)
qed

theorem find_loop_absent:
  assumes "rh n bs" "is_pow2 n" "agrees compare key V" "\<forall>s \<in># contents bs. V (snd s)" "V x"
    "(h, key x) \<notin># image_mset (skey key) (contents bs)"
    and "i < n" "dibn bs ((i + T) mod n) = 0"
  shows "find_loop compare (n - 1) bs x (ucast h) i = Some None"
  using assms
proof (induction T arbitrary: i)
  case (0 i)
  then show ?case by (subst find_loop.simps) (simp add: dib_0_iff)
next
  case (Suc T i)
  have "find_loop compare (n - 1) bs x (ucast h) (nxt n i) = Some None"
    using Suc.IH [of "nxt n i"] Suc.prems by (simp add: nxt_add')
  moreover have "\<not> (b_hash (bs ! i) = h \<and> item_matches compare x (b_item (bs ! i)))"
    if "dibn bs i \<noteq> 0"
  proof -
    have s: "slot (bs ! i) \<in># contents bs"
      using that Suc.prems by (simp add: slot_in_contents rh_length)
    then have "skey key (slot (bs ! i)) \<noteq> (h, key x)"
      using Suc.prems(6) by (metis image_eqI set_image_mset)
    then show ?thesis using Suc.prems(3,4,5) s by (auto simp: agrees_def skey_def slot_def)
  qed
  ultimately show ?case using Suc.prems(2)
    by (subst find_loop.simps) (auto simp: dib_0_iff ucast_48_eq nxt_mask)
qed

text \<open>The lookup loop reads the item that the search loop finds.\<close>

lemma get_loop_find:
  assumes "find_loop compare msk bs x h i = Some r"
  shows "get_loop compare msk bs x h i = Some (map_option (\<lambda>j. b_item (bs ! j)) r)"
proof (rule find_loop.raw_induct
    [where P = "\<lambda>compare msk bs x h i r.
       get_loop compare msk bs x h i = Some (map_option (\<lambda>j. b_item (bs ! j)) r)", OF _ assms])
  fix f :: "('a \<Rightarrow> 'a \<Rightarrow> u32) option \<Rightarrow> nat \<Rightarrow> 'a bucket list \<Rightarrow> 'a \<Rightarrow> u64 \<Rightarrow> nat \<Rightarrow> nat option option"
  fix compare msk bs x h i r
  assume "\<And>compare msk bs x h i r. f compare msk bs x h i = Some r \<Longrightarrow>
       get_loop compare msk bs x h i = Some (map_option (\<lambda>j. b_item (bs ! j)) r)"
    and "(if b_dib (bs ! i) = 0 then Some None
          else if ucast (b_hash (bs ! i)) = h \<and> item_matches compare x (b_item (bs ! i))
          then Some (Some i)
          else f compare msk bs x h ((i + 1) AND msk)) = Some r"
  then show "get_loop compare msk bs x h i = Some (map_option (\<lambda>j. b_item (bs ! j)) r)"
    by (subst get_loop.simps) (auto split: if_splits)
qed

section \<open>The backward shift\<close>

text \<open>
  \<open>hole n bs p\<close>: bucket \<open>p\<close> is dead (its item has been moved back or deleted); read as empty,
  it leaves the invariant intact except that the bucket after it may lie one place too far.
\<close>

definition vacate :: "'a bucket list \<Rightarrow> nat \<Rightarrow> 'a bucket list" where
  "vacate bs p = bs[p := (bs ! p)\<lparr>b_dib := 0\<rparr>]"

definition hole :: "nat \<Rightarrow> 'a bucket list \<Rightarrow> nat \<Rightarrow> bool" where
  "hole n bs p \<longleftrightarrow> length bs = n \<and> p < n
     \<and> (\<forall>i<n. i \<noteq> p \<longrightarrow> dibn bs i \<noteq> 0 \<longrightarrow> belongs n (unat (b_hash (bs ! i))) (dibn bs i) i)
     \<and> (\<forall>i<n. i \<noteq> p \<longrightarrow> dibn (vacate bs p) (nxt n i) \<le> Suc (dibn bs i))
     \<and> dibn bs (nxt n p) \<le> Suc (Suc (dibn bs (prv n p)))"

lemma dibn_vacate: "dibn (vacate bs p) i = (if i = p \<and> p < length bs then 0 else dibn bs i)"
  by (auto simp: vacate_def dibn_update)

lemma length_vacate [simp]: "length (vacate bs p) = length bs"
  by (simp add: vacate_def)

lemma vacate_nth: "i \<noteq> p \<Longrightarrow> vacate bs p ! i = bs ! i"
  by (simp add: vacate_def)

lemma hole_vacate:
  assumes "rh n bs" "2 < n" "p < n"
  shows "hole n (vacate bs p) p"
  unfolding hole_def
proof (intro conjI allI impI)
  show "length (vacate bs p) = n" using assms by (simp add: rh_length)
next
  show "p < n" by (rule assms(3))
next
  fix i assume "i < n" "i \<noteq> p" "dibn (vacate bs p) i \<noteq> 0"
  then show "belongs n (unat (b_hash (vacate bs p ! i))) (dibn (vacate bs p) i) i"
    using assms(1) rh_belongs by (auto simp: dibn_vacate vacate_nth split: if_splits)
next
  fix i assume "i < n" "i \<noteq> p"
  then show "dibn (vacate (vacate bs p) p) (nxt n i) \<le> Suc (dibn (vacate bs p) i)"
    using rh_nxt [OF assms(1)] by (auto simp: dibn_vacate)
next
  have "dibn bs (nxt n (prv n p)) \<le> Suc (dibn bs (prv n p))"
    using assms by (intro rh_nxt) auto
  then have "dibn bs (nxt n p) \<le> Suc (Suc (dibn bs (prv n p)))"
    using rh_nxt [OF assms(1,3)] assms(3) by simp
  moreover have "prv n p \<noteq> p" using assms(2,3) by (auto simp: prv_cases)
  ultimately show "dibn (vacate bs p) (nxt n p) \<le> Suc (Suc (dibn (vacate bs p) (prv n p)))"
    by (auto simp: dibn_vacate)
qed

lemma hole_done:
  assumes "hole n bs p" "dibn bs (nxt n p) \<le> 1" "1 < n"
  shows "rh n (vacate bs p)"
  unfolding rh_def
proof (intro conjI allI impI)
  show "length (vacate bs p) = n" using assms(1) by (simp add: hole_def)
next
  fix i assume "i < n" "dibn (vacate bs p) i \<noteq> 0"
  then show "belongs n (unat (b_hash (vacate bs p ! i))) (dibn (vacate bs p) i) i"
    using assms(1) by (auto simp: hole_def dibn_vacate vacate_nth split: if_splits)
next
  fix i assume i: "i < n"
  show "dibn (vacate bs p) (nxt n i) \<le> Suc (dibn (vacate bs p) i)"
  proof (cases "i = p")
    case True
    then show ?thesis using assms i by (simp add: dibn_vacate nxt_neq)
  next
    case False
    then show ?thesis using assms(1) i by (auto simp: hole_def dibn_vacate)
  qed
qed

lemma belongs_back:
  assumes "belongs n h (Suc d) (nxt n i)" "i < n"
  shows "belongs n h d i"
proof -
  have "nxt n ((h + d) mod n) = nxt n (nxt n i)"
    using assms(1) by (simp add: belongs_def nxt_add)
  moreover have "(h + d) mod n < n" "nxt n i < n" using assms(2) by auto
  ultimately show ?thesis unfolding belongs_def using nxt_inj by blast
qed

text \<open>One turn of the loop moves the hole one place forward and keeps the contents.\<close>

lemma hole_move:
  assumes "hole n bs p" "2 < n" "1 < dibn bs (nxt n p)"
    and bs': "bs' = bs[p := (bs ! nxt n p)\<lparr>b_dib := b_dib (bs ! nxt n p) - 1\<rparr>]"
  shows "hole n bs' (nxt n p)" "contents (vacate bs' (nxt n p)) = contents (vacate bs p)"
proof -
  let ?q = "nxt n p"
  have len: "length bs = n" and p: "p < n" and q: "?q < n" "?q \<noteq> p"
    using assms(1,2) nxt_neq by (auto simp: hole_def)
  have pred: "unat (b_dib (bs ! ?q) - 1) = dibn bs ?q - 1"
    using assms(3) by (simp add: dibn_def unat_dib_pred)
  have d': "dibn bs' i = (if i = p then dibn bs ?q - 1 else dibn bs i)" for i
    using len p pred by (simp add: bs' dibn_update)
  have len': "length bs' = n" using len by (simp add: bs')
  have n': "bs' ! i = (if i = p then (bs ! ?q)\<lparr>b_dib := b_dib (bs ! ?q) - 1\<rparr> else bs ! i)" for i
    using len p by (simp add: bs')
  have bel: "belongs n (unat (b_hash (bs ! ?q))) (dibn bs ?q - 1) p"
  proof (rule belongs_back)
    show "belongs n (unat (b_hash (bs ! ?q))) (Suc (dibn bs ?q - 1)) ?q"
      using assms(1,3) q by (auto simp: hole_def)
  qed (rule p)
  have q2: "nxt n ?q \<noteq> p" using assms(2) p by (auto simp: nxt_cases split: if_splits)
  show "hole n bs' ?q"
    unfolding hole_def
  proof (intro conjI allI impI)
    show "length bs' = n" using len bs' by simp
    show "?q < n" by (rule q(1))
  next
    fix i assume "i < n" "i \<noteq> ?q" "dibn bs' i \<noteq> 0"
    then show "belongs n (unat (b_hash (bs' ! i))) (dibn bs' i) i"
      using assms(1) bel len p by (cases "i = p") (auto simp: hole_def d' n')
  next
    fix i assume i: "i < n" "i \<noteq> ?q"
    show "dibn (vacate bs' ?q) (nxt n i) \<le> Suc (dibn bs' i)"
    proof (cases "nxt n i = p")
      case True
      then have "i = prv n p" using i(1) by auto
      then show ?thesis using assms(1) True i p q
        by (auto simp: hole_def dibn_vacate d')
    next
      case False
      then have "dibn bs (nxt n i) \<le> Suc (dibn bs i)" if "i \<noteq> p"
        using assms(1) i that by (auto simp: hole_def dibn_vacate)
      then show ?thesis using False i len q by (cases "i = p") (auto simp: dibn_vacate d' len')
    qed
  next
    have "dibn (vacate bs p) (nxt n ?q) \<le> Suc (dibn bs ?q)"
      using assms(1) q by (auto simp: hole_def)
    then show "dibn bs' (nxt n ?q) \<le> Suc (Suc (dibn bs' (prv n ?q)))"
      using p q2 assms(3) by (auto simp: dibn_vacate d')
  qed
  have "add_mset (slot (bs ! ?q)) (contents (vacate bs' ?q)) = contents bs'"
    using contents_clear [of ?q bs' "(bs' ! ?q)\<lparr>b_dib := 0\<rparr>"] q len assms(3)
    by (simp add: vacate_def d') (simp add: bs')
  moreover have "contents bs' = add_mset (slot (bs ! ?q)) (contents (vacate bs p))"
  proof -
    have "bs' = (vacate bs p)[p := bs' ! p]" using len p by (simp add: vacate_def bs')
    moreover have "b_dib (bs' ! p) \<noteq> 0"
      using pred assms(3) len p by (auto simp: bs')
    ultimately show ?thesis
      using contents_fill [of p "vacate bs p" "bs' ! p"] len p
      by (simp add: dibn_vacate) (simp add: bs')
  qed
  ultimately show "contents (vacate bs' ?q) = contents (vacate bs p)" by simp
qed

theorem shift_loop_correct:
  assumes "hole n bs p" "is_pow2 n" "2 < n" "Suc T < n" "dibn bs ((p + Suc T) mod n) = 0"
  shows "\<exists>bs'. shift_loop (n - 1) bs p = Some bs' \<and> rh n bs'
           \<and> contents bs' = contents (vacate bs p)"
  using assms
proof (induction T arbitrary: bs p)
  case (0 bs p)
  then have "dibn bs (nxt n p) = 0" by (simp add: nxt_def)
  then show ?case using 0 hole_done [of n bs p]
    by (subst shift_loop.simps) (auto simp: nxt_mask dib_le_1_iff vacate_def)
next
  case (Suc T bs p)
  show ?case
  proof (cases "dibn bs (nxt n p) \<le> 1")
    case True
    then show ?thesis using Suc.prems hole_done [of n bs p]
      by (subst shift_loop.simps) (auto simp: nxt_mask dib_le_1_iff vacate_def)
  next
    case False
    define bs' where bs': "bs' = bs[p := (bs ! nxt n p)\<lparr>b_dib := b_dib (bs ! nxt n p) - 1\<rparr>]"
    have e: "(nxt n p + Suc T) mod n = (p + Suc (Suc T)) mod n" by (rule nxt_add')
    have ne: "(p + Suc (Suc T)) mod n \<noteq> p"
      using ring_cancel [of p "Suc (Suc T)" n 0] Suc.prems(1,4) by (auto simp: hole_def)
    have "\<exists>bs''. shift_loop (n - 1) bs' (nxt n p) = Some bs'' \<and> rh n bs''
        \<and> contents bs'' = contents (vacate bs' (nxt n p))"
    proof (rule Suc.IH)
      show "hole n bs' (nxt n p)" using hole_move [OF Suc.prems(1,3) _ bs'] False by simp
      show "dibn bs' ((nxt n p + Suc T) mod n) = 0"
        using Suc.prems(5) ne unfolding e bs' dibn_update by auto
    qed (use Suc.prems in auto)
    then show ?thesis
      using hole_move(2) [OF Suc.prems(1,3) _ bs'] False Suc.prems(2)
      by (subst shift_loop.simps) (auto simp: nxt_mask dib_le_1_iff bs')
  qed
qed

end
