(* ===== verification/Hashmap_Correct.thy ===== *)
theory Hashmap_Correct
  imports Robin_Hood
begin

text \<open>
  The hash map as an abstract map. \<open>hm_inv\<close> is the invariant every operation keeps; \<open>hm_map\<close>
  reads a map as a partial function from a clipped hash and a key to the stored item. Every
  operation is shown to act on that function as its comment in the source promises. The only
  size hypothesis is that the map holds fewer than 65535 items, so that the 16-bit DIB field
  cannot wrap; below that bound it never does, whatever the hashes are.
\<close>

section \<open>Capacities and thresholds\<close>

lemma is_pow2_lt_double: "is_pow2 a \<Longrightarrow> is_pow2 b \<Longrightarrow> a < b \<Longrightarrow> a * 2 \<le> b"
proof -
  assume "is_pow2 a" "is_pow2 b" "a < b"
  then obtain i j where "a = 2 ^ i" "b = 2 ^ j" "i < j" by (auto simp: is_pow2_def)
  then have "a * 2 = 2 ^ Suc i" "(2::nat) ^ Suc i \<le> 2 ^ j"
    by (simp, intro power_increasing) auto
  then show ?thesis using \<open>b = 2 ^ j\<close> by simp
qed

lemma is_pow2_half: "is_pow2 n \<Longrightarrow> 1 < n \<Longrightarrow> is_pow2 (n div 2)"
proof -
  assume "is_pow2 n" "1 < n"
  then obtain k where "n = 2 ^ Suc k" by (metis is_pow2_def less_numeral_extra(4) not0_implies_Suc power_0)
  then show ?thesis by (auto simp: is_pow2_def)
qed

lemma is_pow2_even: "is_pow2 n \<Longrightarrow> 1 < n \<Longrightarrow> n div 2 * 2 = n"
proof -
  assume "is_pow2 n" "1 < n"
  then obtain k where "n = 2 ^ Suc k" by (metis is_pow2_def less_numeral_extra(4) not0_implies_Suc power_0)
  then show ?thesis by simp
qed

lemma is_pow2_times: "is_pow2 n \<Longrightarrow> is_pow2 (n * 2 ^ p)"
  by (auto simp: is_pow2_def simp flip: power_add)

lemma grow_at_less: "0 < n \<Longrightarrow> grow_at n < n"
  by (simp add: grow_at_def div_less_iff_less_mult)

lemma grow_at_pos: "2 \<le> n \<Longrightarrow> 0 < grow_at n"
  by (simp add: grow_at_def div_greater_zero_iff)

lemma grow_at_double: "n * 2 \<le> n' \<Longrightarrow> n \<le> grow_at n'"
  by (simp add: grow_at_def less_eq_div_iff_mult_less_eq)

lemma shrink_at_le_grow_at: "shrink_at (n * 2) \<le> grow_at n"
proof -
  have "shrink_at (n * 2) * 2 ^ 55 \<le> n * 2 * 3602879701896397"
    unfolding shrink_at_def by (rule div_times_less_eq_dividend)
  also have "\<dots> \<le> n * 5404319552844595 * 4" by simp
  finally have "shrink_at (n * 2) * 2 ^ 53 \<le> n * 5404319552844595" by simp
  then show ?thesis by (simp add: grow_at_def less_eq_div_iff_mult_less_eq)
qed

lemma round_cap_pow2:
  "is_pow2 ncap \<Longrightarrow> is_pow2 cap \<Longrightarrow> ncap \<le> cap \<Longrightarrow> round_cap ncap cap = cap"
proof (induction ncap cap rule: round_cap.induct)
  case (1 ncap cap)
  then show ?case
    by (subst round_cap.simps) (auto simp: is_pow2_double is_pow2_lt_double is_pow2_pos)
qed

lemma initial_cap_pow2: "is_pow2 cap \<Longrightarrow> 16 \<le> cap \<Longrightarrow> initial_cap cap = cap"
  by (simp add: initial_cap_def round_cap_pow2)

lemma round_cap_spec:
  "is_pow2 ncap \<Longrightarrow> ncap < 2 * cap \<Longrightarrow>
   is_pow2 (round_cap ncap cap) \<and> cap \<le> round_cap ncap cap \<and> round_cap ncap cap < 2 * cap
   \<and> ncap \<le> round_cap ncap cap"
proof (induction ncap cap rule: round_cap.induct)
  case (1 ncap cap)
  show ?case
  proof (cases "ncap < cap")
    case True
    then show ?thesis using "1.IH" "1.prems"
      by (subst (1 2 3 4) round_cap.simps) (auto simp: is_pow2_double is_pow2_pos)
  next
    case False
    then show ?thesis using "1.prems" by (simp add: round_cap.simps [of ncap cap])
  qed
qed

lemma initial_cap_props: "is_pow2 (initial_cap cap)" "16 \<le> initial_cap cap" "cap \<le> initial_cap cap"
  using round_cap_spec [of 16 cap] by (auto simp: initial_cap_def)

section \<open>The abstract map\<close>

definition hkey :: "u64 \<Rightarrow> 48 word" where
  "hkey h = ucast (clip_hash h)"

definition assocs :: "('a \<Rightarrow> 'k) \<Rightarrow> 'a bucket list \<Rightarrow> ((48 word \<times> 'k) \<times> 'a) list" where
  "assocs key bs = map (\<lambda>b. ((b_hash b, key (b_item b)), b_item b)) (occ bs)"

definition hm_map :: "('a \<Rightarrow> 'k) \<Rightarrow> 'a hashmap \<Rightarrow> 48 word \<times> 'k \<Rightarrow> 'a option" where
  "hm_map key m = map_of (assocs key (hm_buckets m))"

definition hm_inv :: "('a \<Rightarrow> 'k) \<Rightarrow> ('a \<Rightarrow> bool) \<Rightarrow> 'a hashmap \<Rightarrow> bool" where
  "hm_inv key V m \<longleftrightarrow>
     rh (hm_nbuckets m) (hm_buckets m)
   \<and> is_pow2 (hm_nbuckets m) \<and> is_pow2 (hm_cap m) \<and> 16 \<le> hm_cap m \<and> hm_cap m \<le> hm_nbuckets m
   \<and> hm_mask m = hm_nbuckets m - 1
   \<and> hm_count m = length (occ (hm_buckets m))
   \<and> hm_count m \<le> hm_growat m \<and> 0 < hm_growat m \<and> hm_growat m < hm_nbuckets m
   \<and> hm_shrinkat m = shrink_at (hm_nbuckets m)
   \<and> 1 \<le> hm_growpower m
   \<and> agrees (hm_compare m) key V
   \<and> unique_keys key (contents (hm_buckets m))
   \<and> (\<forall>s \<in># contents (hm_buckets m). V (snd s))"

lemma hkey_ucast: "ucast (hkey h) = clip_hash h"
proof -
  have "clip_hash h = take_bit 48 h"
    by (simp add: clip_hash_def take_bit_eq_mask mask_eq_exp_minus_1)
  then have "unat (clip_hash h) < 2 ^ 48"
    using take_bit_nat_less_exp [of 48 "unat h"] by (simp add: unsigned_take_bit_eq)
  then have "unat (hkey h) = unat (clip_hash h)"
    by (simp add: hkey_def unsigned_ucast_eq take_bit_nat_eq_self)
  then show ?thesis by (metis unat_ucast_48 word_unat_eq_iff)
qed

lemma unat_clip_hash: "unat (clip_hash h) = unat (hkey h)"
  by (metis hkey_ucast unat_ucast_48)

lemma distinct_assocs:
  assumes "unique_keys key (contents bs)"
  shows "distinct (map fst (assocs key bs))"
proof -
  have "mset (map fst (assocs key bs)) = image_mset (skey key) (contents bs)"
    by (simp add: assocs_def contents_def skey_def slot_def image_mset.compositionality comp_def)
  then show ?thesis
    using assms unfolding unique_keys_def by (metis distinct_if_count_le_1)
qed

lemma hm_map_iff:
  assumes "unique_keys key (contents (hm_buckets m))"
  shows "hm_map key m (h, k) = Some x \<longleftrightarrow> (h, x) \<in># contents (hm_buckets m) \<and> key x = k"
  using distinct_assocs [OF assms]
  by (auto simp: hm_map_def map_of_eq_Some_iff assocs_def contents_def slot_def)

lemma hm_map_None_iff:
  "hm_map key m (h, k) = None \<longleftrightarrow> (h, k) \<notin># image_mset (skey key) (contents (hm_buckets m))"
  by (auto simp: hm_map_def map_of_eq_None_iff assocs_def contents_def slot_def skey_def image_image)

lemma hm_map_index:
  assumes "hm_inv key V m" "hm_map key m (h, k) = Some x"
  obtains j where "j < hm_nbuckets m" "dibn (hm_buckets m) j \<noteq> 0"
    "b_hash (hm_buckets m ! j) = h" "b_item (hm_buckets m ! j) = x" "key x = k"
proof -
  have "(h, x) \<in># contents (hm_buckets m)" "key x = k"
    using assms by (auto simp: hm_map_iff hm_inv_def)
  then show thesis using that assms(1)
    by (elim in_contentsE) (auto simp: slot_def hm_inv_def rh_length)
qed

text \<open>How the abstract map follows the contents.\<close>

lemma hm_map_add:
  assumes "unique_keys key (add_mset (h, x) (contents (hm_buckets m)))"
    "contents (hm_buckets m') = add_mset (h, x) (contents (hm_buckets m))"
  shows "hm_map key m' = (hm_map key m)((h, key x) \<mapsto> x)"
proof (rule ext, clarify)
  fix h' k'
  have u: "unique_keys key (contents (hm_buckets m'))" "unique_keys key (contents (hm_buckets m))"
    using assms unique_keys_mono by auto
  have no: "(h, y) \<notin># contents (hm_buckets m)" if "key y = key x" for y
    using unique_keys_add [OF assms(1), of "(h, y)"] that by (auto simp: skey_def)
  have "hm_map key m' (h', k') = Some y \<longleftrightarrow> ((hm_map key m)((h, key x) \<mapsto> x)) (h', k') = Some y" for y
    using no by (auto simp: hm_map_iff [OF u(1)] hm_map_iff [OF u(2)] assms(2))
  then show "hm_map key m' (h', k') = ((hm_map key m)((h, key x) \<mapsto> x)) (h', k')"
    by (metis not_None_eq)
qed

lemma hm_map_remove:
  assumes "unique_keys key (contents (hm_buckets m))"
    "add_mset (h, x) (contents (hm_buckets m')) = contents (hm_buckets m)"
  shows "hm_map key m' = (hm_map key m)((h, key x) := None)"
proof -
  have u: "unique_keys key (add_mset (h, x) (contents (hm_buckets m')))" using assms by simp
  then have "hm_map key m = (hm_map key m')((h, key x) \<mapsto> x)"
    using hm_map_add assms(2) by metis
  moreover have "hm_map key m' (h, key x) = None"
    using unique_keys_add [OF u] by (fastforce simp: hm_map_None_iff skey_def)
  ultimately show ?thesis by (metis fun_upd_triv fun_upd_upd)
qed

lemma hm_map_replace:
  assumes "unique_keys key (contents (hm_buckets m))"
    "contents (hm_buckets m) = add_mset (h, y) M"
    "contents (hm_buckets m') = add_mset (h, x) M" "key y = key x"
  shows "hm_map key m' = (hm_map key m)((h, key x) \<mapsto> x)"
proof (rule ext, clarify)
  fix h' k'
  have u: "unique_keys key (contents (hm_buckets m'))"
    using assms by (simp add: unique_keys_def skey_def)
  have no: "(h, z) \<notin># M" if "key z = key x" for z
    using unique_keys_add [of key "(h, y)" M "(h, z)"] assms(1,2,4) that by (auto simp: skey_def)
  have "hm_map key m' (h', k') = Some z \<longleftrightarrow> ((hm_map key m)((h, key x) \<mapsto> x)) (h', k') = Some z" for z
    using no assms(4)
    by (auto simp: hm_map_iff [OF u(1)] hm_map_iff [OF assms(1)] assms(3) assms(2) [symmetric])
      (auto simp: assms(2))
  then show "hm_map key m' (h', k') = ((hm_map key m)((h, key x) \<mapsto> x)) (h', k')"
    by (metis not_None_eq)
qed

section \<open>Resizing\<close>

lemma contents_empty [simp]: "contents (replicate n (empty_bucket z)) = {#}"
  by (simp add: contents_def occ_def empty_bucket_def)

lemma occ_empty [simp]: "occ (replicate n (empty_bucket z)) = []"
  by (simp add: occ_def empty_bucket_def)

lemma rh_empty [simp]: "0 < n \<Longrightarrow> rh n (replicate n (empty_bucket z))"
  by (simp add: rh_def dibn_def empty_bucket_def)

text \<open>With an empty bucket and room in the DIB field, any probe has a clear way ahead.\<close>

lemma clear_exists:
  assumes "rh n bs" "length (occ bs) < n" "length (occ bs) < 65535" "i < n"
  obtains T where "clear n bs i T"
proof -
  obtain e where "e < n" "dibn bs e = 0"
    using empty_exists [of bs] assms by (auto simp: rh_length)
  moreover obtain T where "T < n" "(i + T) mod n = e"
    using ring_reach assms(4) calculation(1) by blast
  moreover have "dibn bs ((i + t) mod n) < 65535" for t
    using dib_le_occ [OF assms(1,2), of "(i + t) mod n"] assms by auto
  ultimately show thesis using that by (auto simp: clear_def)
qed

lemma rehash_one:
  assumes "rh n bs" "is_pow2 n" "1 < n" "length (occ bs) < n" "length (occ bs) < 65535"
    "b_dib e = 1"
  obtains bs' where "rehash_loop (n - 1) bs e (unat (b_hash e) AND (n - 1)) = Some bs'"
    "rh n bs'" "contents bs' = add_mset (slot e) (contents bs)"
proof -
  have i: "unat (b_hash e) AND (n - 1) = unat (b_hash e) mod n"
    using is_pow2_mask [OF assms(2)] by simp
  have c: "carry n bs e (unat (b_hash e) mod n)"
    using carry_home assms(3,6) by (metis gr_implies_not_zero neq0_conv)
  obtain T where "clear n bs (unat (b_hash e) mod n) T"
    using clear_exists assms by (metis gr_implies_not0 mod_less_divisor neq0_conv)
  then show thesis using rehash_loop_correct [OF assms(1,2,3) c] i that by metis
qed

lemma rehash_all_correct:
  assumes "rh n bs" "is_pow2 n" "1 < n" "length (occ bs) + length (occ es) \<le> n"
    "length (occ bs) + length (occ es) \<le> 65535"
  shows "\<exists>bs'. rehash_all (n - 1) bs es = Some bs' \<and> rh n bs' \<and> contents bs' = contents bs + contents es"
  using assms
proof (induction es arbitrary: bs)
  case Nil
  then show ?case by (simp add: contents_def occ_def)
next
  case (Cons e es)
  show ?case
  proof (cases "b_dib e = 0")
    case True
    then show ?thesis using Cons by (simp add: occ_def contents_def)
  next
    case False
    then have occ: "length (occ (e # es)) = Suc (length (occ es))"
      and con: "contents (e # es) = add_mset (slot e) (contents es)"
      by (simp_all add: occ_def contents_def)
    obtain bs' where bs': "rehash_loop (n - 1) bs (e\<lparr>b_dib := 1\<rparr>) (unat (b_hash e) AND (n - 1)) = Some bs'"
      "rh n bs'" "contents bs' = add_mset (slot e) (contents bs)"
      using rehash_one [of n bs "e\<lparr>b_dib := 1\<rparr>"] Cons.prems occ by auto
    then have "length (occ bs') = Suc (length (occ bs))" by (metis size_add_mset size_contents)
    then obtain bs'' where "rehash_all (n - 1) bs' es = Some bs''" "rh n bs''"
      "contents bs'' = contents bs' + contents es"
      using Cons.IH [of bs'] bs'(2) Cons.prems occ by auto
    then show ?thesis using False bs' con by simp
  qed
qed

text \<open>
  \<open>resize\<close> to a power of two with room for the items keeps the contents, the count and the
  capacity, and sets the thresholds for the new size.
\<close>

lemma resize_correct:
  assumes inv: "hm_inv key V m" and n: "is_pow2 n" "16 \<le> n" "hm_cap m \<le> n"
    and room: "hm_count m \<le> grow_at n" "hm_count m \<le> 65535"
  obtains m' where "resize True m n = Some (m', True)" "hm_inv key V m'"
    "contents (hm_buckets m') = contents (hm_buckets m)" "hm_count m' = hm_count m"
    "hm_growat m' = grow_at n" "hm_nbuckets m' = n" "hm_compare m' = hm_compare m"
    "hm_oom m' = hm_oom m"
proof -
  have lt: "grow_at n < n" using n by (intro grow_at_less) simp
  have cnt: "hm_count m = length (occ (hm_buckets m))" using inv by (simp add: hm_inv_def)
  obtain bs where bs: "rehash_all (n - 1) (replicate n (empty_bucket (hm_zero m))) (hm_buckets m) = Some bs"
    "rh n bs" "contents bs = contents (hm_buckets m)"
    using rehash_all_correct [of n "replicate n (empty_bucket (hm_zero m))" "hm_buckets m"]
      n room lt cnt by auto
  then have occ: "length (occ bs) = hm_count m" by (metis cnt size_contents)
  have "resize True m n = Some (m\<lparr>hm_buckets := bs, hm_nbuckets := n, hm_mask := n - 1,
      hm_growat := grow_at n, hm_shrinkat := shrink_at n\<rparr>, True)" (is "_ = Some (?m, _)")
    using bs(1) n by (simp add: resize_def hashmap_new_with_allocator_def initial_cap_pow2 Let_def)
  moreover have "hm_inv key V ?m"
    using inv n room lt bs occ grow_at_pos [of n] by (simp add: hm_inv_def)
  ultimately show thesis using that bs by simp
qed

lemma resize_oom: "resize False m n = Some (m, False)"
  by (simp add: resize_def hashmap_new_with_allocator_def Let_def)

section \<open>Insertion\<close>

lemma hm_inv_oom [simp]: "hm_inv key V (m\<lparr>hm_oom := b\<rparr>) = hm_inv key V m"
  by (simp add: hm_inv_def)

lemma hm_map_cong: "hm_buckets m = hm_buckets m' \<Longrightarrow> hm_map key m = hm_map key m'"
  by (simp add: hm_map_def)

lemma hm_map_contents:
  assumes "hm_inv key V m" "contents (hm_buckets m') = contents (hm_buckets m)"
  shows "hm_map key m' = hm_map key m"
proof (rule ext, clarify)
  fix h k
  have u: "unique_keys key (contents (hm_buckets m))" "unique_keys key (contents (hm_buckets m'))"
    using assms by (simp_all add: hm_inv_def)
  have "hm_map key m' (h, k) = Some y \<longleftrightarrow> hm_map key m (h, k) = Some y" for y
    using assms(2) by (simp add: hm_map_iff [OF u(1)] hm_map_iff [OF u(2)])
  then show "hm_map key m' (h, k) = hm_map key m (h, k)" by (metis not_None_eq)
qed

text \<open>What the growth check at the start of an insertion leaves.\<close>

lemma grow_step:
  assumes inv: "hm_inv key V m" and "hm_count m < 65535" "mem \<or> hm_count m \<noteq> hm_growat m"
  obtains m1 where
    "grow_check mem m = Some (m1, True)"
    "hm_inv key V m1" "contents (hm_buckets m1) = contents (hm_buckets m)"
    "hm_count m1 = hm_count m" "hm_count m1 < hm_growat m1" "hm_compare m1 = hm_compare m"
    "hm_oom m1 = hm_oom m"
proof (cases "hm_count m = hm_growat m")
  case False
  then show thesis using that [of m] inv by (simp add: grow_check_def hm_inv_def)
next
  case True
  let ?n = "hm_nbuckets m * 2 ^ hm_growpower m"
  have "(2::nat) ^ 1 \<le> 2 ^ hm_growpower m"
    using inv by (intro power_increasing) (auto simp: hm_inv_def)
  then have n2: "hm_nbuckets m * 2 \<le> ?n" by simp
  then have g: "hm_nbuckets m \<le> grow_at ?n" by (rule grow_at_double)
  have I: "is_pow2 (hm_nbuckets m)" "16 \<le> hm_nbuckets m" "hm_cap m \<le> hm_nbuckets m"
    "hm_growat m < hm_nbuckets m" using inv by (auto simp: hm_inv_def)
  obtain m1 where m1: "resize True m ?n = Some (m1, True)" "hm_inv key V m1"
    "contents (hm_buckets m1) = contents (hm_buckets m)" "hm_count m1 = hm_count m"
    "hm_growat m1 = grow_at ?n" "hm_compare m1 = hm_compare m" "hm_oom m1 = hm_oom m"
  proof (rule resize_correct [OF inv is_pow2_times [OF I(1)]])
    show "16 \<le> ?n" "hm_cap m \<le> ?n" "hm_count m \<le> grow_at ?n" "hm_count m \<le> 65535"
      using I n2 g True assms(2) by linarith+
  qed
  moreover have "hm_count m1 < hm_growat m1" using m1(4,5) I(4) g True by linarith
  ultimately show thesis using that True assms(3) by (simp add: grow_check_def)
qed

lemma set_loop_new:
  assumes inv: "hm_inv key V m" "hm_count m < hm_growat m" "hm_count m < 65535" and V: "V x"
    and new: "hm_map key m (h, key x) = None"
    and e: "e = \<lparr>b_hash = h, b_dib = 1, b_item = x\<rparr>"
  obtains bs where
    "set_loop (hm_compare m) (hm_mask m) (hm_buckets m) e (unat (b_hash e) AND hm_mask m) = Some (bs, None)"
    "rh (hm_nbuckets m) bs" "contents bs = add_mset (h, x) (contents (hm_buckets m))"
    "unique_keys key (contents bs)"
proof -
  let ?n = "hm_nbuckets m" and ?bs = "hm_buckets m"
  note I = inv(1) [unfolded hm_inv_def]
  have n: "is_pow2 ?n" "1 < ?n" and rh: "rh ?n ?bs" using I by auto
  have occ: "length (occ ?bs) < ?n" "length (occ ?bs) < 65535" using I inv by auto
  have slot: "slot e = (h, x)" by (simp add: slot_def e)
  have u: "unique_keys key (add_mset (h, x) (contents ?bs))"
    using I new by (intro unique_keys_addI) (auto simp: hm_map_None_iff skey_def rev_image_eqI)
  have c: "carry ?n ?bs e (unat (b_hash e) mod ?n)"
    using carry_home n(2) by (metis e bucket.select_convs(2) gr_implies_not_zero neq0_conv)
  obtain T where T: "clear ?n ?bs (unat (b_hash e) mod ?n) T"
    using clear_exists [OF rh occ] n(2) by (metis gr_implies_not0 mod_less_divisor neq0_conv)
  obtain bs where bs: "rehash_loop (?n - 1) ?bs e (unat (b_hash e) mod ?n) = Some bs" "rh ?n bs"
    "contents bs = add_mset (slot e) (contents ?bs)"
    using rehash_loop_correct [OF rh n c T] by blast
  have "set_loop (hm_compare m) (?n - 1) ?bs e (unat (b_hash e) mod ?n) = Some (bs, None)"
    using set_loop_rehash [OF rh n c T, of "hm_compare m" key V] I V u slot bs(1) by auto
  then show thesis using that bs u slot I is_pow2_mask [OF n(1)] by simp
qed

lemma set_loop_old:
  assumes inv: "hm_inv key V m" and V: "V x" and old: "hm_map key m (h, key x) = Some y"
    and e: "e = \<lparr>b_hash = h, b_dib = 1, b_item = x\<rparr>"
  obtains bs M where
    "set_loop (hm_compare m) (hm_mask m) (hm_buckets m) e (unat (b_hash e) AND hm_mask m) = Some (bs, Some y)"
    "rh (hm_nbuckets m) bs" "contents (hm_buckets m) = add_mset (h, y) M"
    "contents bs = add_mset (h, x) M" "key y = key x"
proof -
  let ?n = "hm_nbuckets m" and ?bs = "hm_buckets m"
  note I = inv(1) [unfolded hm_inv_def]
  obtain j where j: "j < ?n" "dibn ?bs j \<noteq> 0" "b_hash (?bs ! j) = h" "b_item (?bs ! j) = y" "key y = key x"
    using hm_map_index [OF inv old] .
  have rh: "rh ?n ?bs" and len: "length ?bs = ?n" using I by (auto simp: rh_length)
  let ?bs' = "?bs[j := (?bs ! j)\<lparr>b_item := x\<rparr>]"
  have "set_loop (hm_compare m) (?n - 1) ?bs e (unat h mod ?n) = Some (?bs', Some y)"
    using set_loop_present [OF rh, of "hm_compare m" key V e j "unat h mod ?n" "dibn ?bs j - 1"]
      ahead_home [OF rh j(1,2)] I V j by (simp add: e)
  moreover obtain M where M: "contents ?bs = add_mset (h, y) M"
    using slot_in_contents [of j ?bs] j len by (metis slot_def mset_add)
  moreover have "contents ?bs' = add_mset (h, x) M"
    using contents_swap [of j ?bs "(?bs ! j)\<lparr>b_item := x\<rparr>"] j len M
    by (simp add: slot_def dib_0_iff [symmetric] add_mset_commute)
  moreover have "rh ?n ?bs'" using rh by (rule rh_item)
  ultimately show thesis using that j(5) I is_pow2_mask [of ?n] by (simp add: e)
qed

text \<open>
  Insertion binds the item's hash and key to the item, keeps every other binding, and returns
  the item it replaced, if any.
\<close>

lemma hashmap_set_correct:
  assumes inv: "hm_inv key V m" and V: "V x" and room: "hm_count m < 65535"
    and mem: "mem \<or> hm_count m \<noteq> hm_growat m"
  obtains m' where "hashmap_set_with_hash mem m x h = Some (m', hm_map key m (hkey h, key x))"
    "hm_inv key V m'" "hm_map key m' = (hm_map key m)((hkey h, key x) \<mapsto> x)" "\<not> hm_oom m'"
    "hm_count m' = (if hm_map key m (hkey h, key x) = None then hm_count m + 1 else hm_count m)"
proof -
  obtain m1 where m1: "grow_check mem (m\<lparr>hm_oom := False\<rparr>) = Some (m1, True)" "hm_inv key V m1"
    "contents (hm_buckets m1) = contents (hm_buckets m)" "hm_count m1 = hm_count m"
    "hm_count m1 < hm_growat m1" "\<not> hm_oom m1"
  proof -
    let ?m0 = "m\<lparr>hm_oom := False\<rparr>"
    have P: "hm_inv key V ?m0" "hm_count ?m0 < 65535" "mem \<or> hm_count ?m0 \<noteq> hm_growat ?m0"
      using inv room mem by simp_all
    show thesis by (rule grow_step [OF P], rule that) simp_all
  qed
  have map1: "hm_map key m1 = hm_map key m" using hm_map_contents [OF inv m1(3)] .
  note I = m1(2) [unfolded hm_inv_def]
  define e where "e = \<lparr>b_hash = hkey h, b_dib = 1, b_item = x\<rparr>"
  have set: "hashmap_set_with_hash mem m x h =
     (case set_loop (hm_compare m1) (hm_mask m1) (hm_buckets m1) e (unat (b_hash e) AND hm_mask m1) of
        None \<Rightarrow> None
      | Some (bs, None) \<Rightarrow> Some (m1\<lparr>hm_buckets := bs, hm_count := hm_count m1 + 1\<rparr>, None)
      | Some (bs, Some old) \<Rightarrow> Some (m1\<lparr>hm_buckets := bs\<rparr>, Some old))"
    using m1(1) by (simp add: hashmap_set_with_hash_def Let_def e_def hkey_def)
  show thesis
  proof (cases "hm_map key m (hkey h, key x)")
    case None
    obtain bs where bs: "set_loop (hm_compare m1) (hm_mask m1) (hm_buckets m1) e
        (unat (b_hash e) AND hm_mask m1) = Some (bs, None)" "rh (hm_nbuckets m1) bs"
      "contents bs = add_mset (hkey h, x) (contents (hm_buckets m1))" "unique_keys key (contents bs)"
      using set_loop_new [OF m1(2,5) _ V _ e_def] None m1(4) room map1 by auto
    let ?m' = "m1\<lparr>hm_buckets := bs, hm_count := hm_count m1 + 1\<rparr>"
    have "length (occ bs) = Suc (hm_count m1)" using bs(3) I by (metis size_add_mset size_contents)
    then have "hm_inv key V ?m'" using I bs m1(5) V by (auto simp: hm_inv_def)
    moreover have "hm_map key ?m' = (hm_map key m)((hkey h, key x) \<mapsto> x)"
      using hm_map_add [of key "hkey h" x m1 ?m'] bs map1 by simp
    ultimately show thesis using that [of ?m'] set bs(1) None m1 by simp
  next
    case (Some y)
    obtain bs M where bs: "set_loop (hm_compare m1) (hm_mask m1) (hm_buckets m1) e
        (unat (b_hash e) AND hm_mask m1) = Some (bs, Some y)" "rh (hm_nbuckets m1) bs"
      "contents (hm_buckets m1) = add_mset (hkey h, y) M" "contents bs = add_mset (hkey h, x) M"
      "key y = key x"
      using set_loop_old [OF m1(2) V _ e_def] Some map1 by auto
    let ?m' = "m1\<lparr>hm_buckets := bs\<rparr>"
    have u: "unique_keys key (contents bs)" "unique_keys key (contents (hm_buckets m1))"
      using I bs(3,4,5) by (auto simp: unique_keys_def skey_def)
    have "length (occ bs) = hm_count m1" using bs(3,4) I by (metis size_add_mset size_contents)
    then have "hm_inv key V ?m'" using I bs u V by (auto simp: hm_inv_def)
    moreover have "hm_map key ?m' = (hm_map key m)((hkey h, key x) \<mapsto> x)"
      using hm_map_replace [OF u(2) bs(3), of ?m' x] bs(4,5) map1 by simp
    ultimately show thesis using that [of ?m'] set bs(1) Some m1 by simp
  qed
qed

lemma hashmap_set_oom:
  assumes "hm_count m = hm_growat m"
  shows "hashmap_set_with_hash False m x h = Some (m\<lparr>hm_oom := True\<rparr>, None)"
  using assms by (simp add: hashmap_set_with_hash_def grow_check_def resize_oom Let_def)

section \<open>Lookup\<close>

text \<open>The search loop returns the bucket of a bound key, and nothing for an unbound one.\<close>

lemma find_correct:
  assumes inv: "hm_inv key V m" and V: "V x"
  shows "(\<exists>j < hm_nbuckets m. find_loop (hm_compare m) (hm_mask m) (hm_buckets m) x (clip_hash h)
            (unat (clip_hash h) AND hm_mask m) = Some (Some j)
          \<and> dibn (hm_buckets m) j \<noteq> 0 \<and> slot (hm_buckets m ! j) = (hkey h, b_item (hm_buckets m ! j))
          \<and> key (b_item (hm_buckets m ! j)) = key x
          \<and> hm_map key m (hkey h, key x) = Some (b_item (hm_buckets m ! j)))
       \<or> (find_loop (hm_compare m) (hm_mask m) (hm_buckets m) x (clip_hash h)
            (unat (clip_hash h) AND hm_mask m) = Some None \<and> hm_map key m (hkey h, key x) = None)"
proof -
  let ?n = "hm_nbuckets m" and ?bs = "hm_buckets m"
  note I = inv [unfolded hm_inv_def]
  have rh: "rh ?n ?bs" and n: "is_pow2 ?n" "0 < ?n" using I by auto
  have i: "unat (clip_hash h) AND hm_mask m = unat (hkey h) mod ?n"
    using I is_pow2_mask [OF n(1)] by (simp add: unat_clip_hash)
  show ?thesis
  proof (cases "hm_map key m (hkey h, key x)")
    case None
    obtain e where e: "e < ?n" "dibn ?bs e = 0" using empty_exists [of ?bs] I by (auto simp: rh_length)
    have "unat (hkey h) mod ?n < ?n" using n(2) by simp
    then obtain T where "(unat (hkey h) mod ?n + T) mod ?n = e" using ring_reach e(1) by metis
    then have "find_loop (hm_compare m) (?n - 1) ?bs x (ucast (hkey h)) (unat (hkey h) mod ?n) = Some None"
      using I V None e by (intro find_loop_absent [of ?n ?bs _ key V]) (auto simp: hm_map_None_iff)
    then show ?thesis using None i I by (simp add: hkey_ucast)
  next
    case (Some y)
    then obtain j where j: "j < ?n" "dibn ?bs j \<noteq> 0" "b_hash (?bs ! j) = hkey h"
      "b_item (?bs ! j) = y" "key y = key x" using hm_map_index [OF inv] by metis
    have "find_loop (hm_compare m) (?n - 1) ?bs x (ucast (b_hash (?bs ! j)))
        (unat (b_hash (?bs ! j)) mod ?n) = Some (Some j)"
      using I V j ahead_home [OF rh j(1,2)] by (intro find_loop_present [of ?n ?bs _ key V]) auto
    then show ?thesis using Some j i I by (auto simp: hkey_ucast slot_def)
  qed
qed

text \<open>Lookup always returns, with the binding of the hash and key.\<close>

lemma hashmap_get_correct:
  assumes "hm_inv key V m" "V x"
  shows "hashmap_get_with_hash m x h = Some (hm_map key m (hkey h, key x))"
  using find_correct [OF assms, of h]
  by (auto simp: hashmap_get_with_hash_def Let_def dest: get_loop_find)

section \<open>Deletion\<close>

lemma vacate_contents:
  "i < length bs \<Longrightarrow> dibn bs i \<noteq> 0 \<Longrightarrow> add_mset (slot (bs ! i)) (contents (vacate bs i)) = contents bs"
  by (simp add: vacate_def contents_clear)

text \<open>The array after the backward shift has lost exactly the deleted slot.\<close>

lemma shift_correct:
  assumes inv: "hm_inv key V m" and j: "j < hm_nbuckets m" "dibn (hm_buckets m) j \<noteq> 0"
  obtains bs where "shift_loop (hm_mask m) (vacate (hm_buckets m) j) j = Some bs"
    "rh (hm_nbuckets m) bs" "add_mset (slot (hm_buckets m ! j)) (contents bs) = contents (hm_buckets m)"
proof -
  let ?n = "hm_nbuckets m" and ?bs = "hm_buckets m"
  note I = inv [unfolded hm_inv_def]
  have rh: "rh ?n ?bs" and n: "is_pow2 ?n" "2 < ?n" and len: "length ?bs = ?n"
    using I by (auto simp: rh_length)
  obtain e where e: "e < ?n" "dibn ?bs e = 0" using empty_exists [of ?bs] I len by auto
  obtain T where T: "T < ?n" "(j + T) mod ?n = e" using ring_reach j(1) e(1) by metis
  have "T \<noteq> 0" using T j e by (cases T) auto
  then obtain T' where T': "T = Suc T'" by (cases T) auto
  have "dibn (vacate ?bs j) e = 0" by (simp add: dibn_vacate e)
  then have "dibn (vacate ?bs j) ((j + Suc T') mod ?n) = 0" "Suc T' < ?n"
    using T T' by simp_all
  then obtain bs where bs: "shift_loop (?n - 1) (vacate ?bs j) j = Some bs" "rh ?n bs"
    "contents bs = contents (vacate (vacate ?bs j) j)"
    using shift_loop_correct [OF hole_vacate [OF rh n(2) j(1)] n, of T'] I by auto
  have "contents (vacate (vacate ?bs j) j) = contents (vacate ?bs j)"
    using len j(1) by (simp add: vacate_def)
  then show thesis using that bs I vacate_contents [of j ?bs] j len by simp
qed

text \<open>Shrinking keeps the contents, with or without memory.\<close>

lemma shrink_step:
  assumes inv: "hm_inv key V m" and room: "hm_count m \<le> 65535"
  obtains m' where "shrink_check mem m = Some m'" "hm_inv key V m'"
    "contents (hm_buckets m') = contents (hm_buckets m)" "hm_count m' = hm_count m"
proof (cases "hm_cap m < hm_nbuckets m \<and> hm_count m \<le> hm_shrinkat m \<and> mem")
  case False
  then have "shrink_check mem m = Some m" by (cases mem) (auto simp: shrink_check_def resize_oom)
  then show thesis using that inv by blast
next
  case True
  note I = inv [unfolded hm_inv_def]
  let ?n = "hm_nbuckets m div 2"
  have half: "is_pow2 ?n" "?n * 2 = hm_nbuckets m"
    using I by (auto simp: is_pow2_half is_pow2_even)
  have "hm_cap m * 2 \<le> hm_nbuckets m" using I True is_pow2_lt_double by blast
  moreover have "hm_count m \<le> grow_at ?n"
    using True I shrink_at_le_grow_at [of ?n] half(2) by simp
  ultimately obtain m2 where "resize True m ?n = Some (m2, True)"
    "hm_inv key V m2" "contents (hm_buckets m2) = contents (hm_buckets m)" "hm_count m2 = hm_count m"
    using resize_correct [OF inv half(1)] I room half(2) by auto
  then show thesis using that True by (simp add: shrink_check_def)
qed

text \<open>
  Deletion unbinds the hash and key and returns the item that was bound; whether the shrinking
  that may follow finds memory changes nothing of that.
\<close>

lemma hashmap_delete_correct:
  assumes inv: "hm_inv key V m" and V: "V x" and room: "hm_count m \<le> 65535"
  obtains m' where "hashmap_delete_with_hash mem m x h = Some (m', hm_map key m (hkey h, key x))"
    "hm_inv key V m'" "hm_map key m' = (hm_map key m)((hkey h, key x) := None)"
    "hm_count m' = (if hm_map key m (hkey h, key x) = None then hm_count m else hm_count m - 1)"
  using find_correct [OF inv V, of h]
proof (elim disjE exE conjE)
  assume none: "find_loop (hm_compare m) (hm_mask m) (hm_buckets m) x (clip_hash h)
      (unat (clip_hash h) AND hm_mask m) = Some None" "hm_map key m (hkey h, key x) = None"
  show thesis
  proof (rule that)
    show "hashmap_delete_with_hash mem m x h = Some (m\<lparr>hm_oom := False\<rparr>, hm_map key m (hkey h, key x))"
      using none by (simp add: hashmap_delete_with_hash_def Let_def)
    show "hm_map key (m\<lparr>hm_oom := False\<rparr>) = (hm_map key m)((hkey h, key x) := None)"
      using hm_map_contents [OF inv, of "m\<lparr>hm_oom := False\<rparr>"] none(2) by (simp add: fun_upd_idem)
  qed (use inv none in simp_all)
next
  fix j
  assume j: "j < hm_nbuckets m" "dibn (hm_buckets m) j \<noteq> 0"
    and find: "find_loop (hm_compare m) (hm_mask m) (hm_buckets m) x (clip_hash h)
      (unat (clip_hash h) AND hm_mask m) = Some (Some j)"
    and slot: "slot (hm_buckets m ! j) = (hkey h, b_item (hm_buckets m ! j))"
    and key: "key (b_item (hm_buckets m ! j)) = key x"
    and some: "hm_map key m (hkey h, key x) = Some (b_item (hm_buckets m ! j))"
  note I = inv [unfolded hm_inv_def]
  obtain bs where bs: "shift_loop (hm_mask m) (vacate (hm_buckets m) j) j = Some bs"
    "rh (hm_nbuckets m) bs" "add_mset (slot (hm_buckets m ! j)) (contents bs) = contents (hm_buckets m)"
    using shift_correct [OF inv j] .
  define m1 where "m1 = m\<lparr>hm_oom := False, hm_buckets := bs, hm_count := hm_count m - 1\<rparr>"
  have cnt: "Suc (length (occ bs)) = hm_count m"
    using bs(3) I by (metis size_add_mset size_contents)
  have "unique_keys key (contents bs)" "\<forall>s \<in># contents bs. V (snd s)"
    using I unique_keys_mono [of key "slot (hm_buckets m ! j)" "contents bs"] by (simp_all flip: bs(3))
  moreover have "length (occ (hm_buckets m)) - Suc 0 = length (occ bs)" "length (occ bs) \<le> hm_growat m"
    using I cnt by linarith+
  ultimately have inv1: "hm_inv key V m1"
    using I bs(2) by (simp add: hm_inv_def m1_def)
  have map1: "hm_map key m1 = (hm_map key m)((hkey h, key x) := None)"
    using hm_map_remove [of key m "hkey h" "b_item (hm_buckets m ! j)" m1] I bs(3) slot key
    by (simp add: m1_def)
  have cnt1: "hm_count m1 = hm_count m - 1" by (simp add: m1_def)
  obtain m2 where m2: "shrink_check mem m1 = Some m2" "hm_inv key V m2"
    "contents (hm_buckets m2) = contents (hm_buckets m1)" "hm_count m2 = hm_count m1"
  proof (rule shrink_step [OF inv1])
    show "hm_count m1 \<le> 65535" using room cnt1 by simp
  qed
  have "hashmap_delete_with_hash mem m x h = Some (m2, hm_map key m (hkey h, key x))"
    using find bs(1) some m2(1) by (simp add: hashmap_delete_with_hash_def Let_def m1_def vacate_def)
  moreover have "hm_map key m2 = (hm_map key m)((hkey h, key x) := None)"
    using hm_map_contents [OF inv1 m2(3)] map1 by simp
  ultimately show thesis using that [OF _ m2(2)] by (simp add: m2(4) some cnt1)
qed

section \<open>Creation and clearing\<close>

lemma hashmap_new_correct:
  assumes "agrees compare key V"
  obtains m where "hashmap_new True z cap s0 s1 hash compare elfree = Some m" "hm_inv key V m"
    "hm_map key m = Map.empty" "hm_count m = 0" "hm_compare m = compare" "hm_hash m = hash"
    "cap \<le> hm_nbuckets m"
proof -
  let ?n = "initial_cap cap"
  have "16 \<le> ?n" "is_pow2 ?n" "cap \<le> ?n" by (rule initial_cap_props)+
  then show thesis using that assms grow_at_pos [of ?n] grow_at_less [of ?n]
    by (simp add: hashmap_new_with_allocator_def Let_def hm_inv_def unique_keys_def hm_map_def assocs_def)
qed

lemma hashmap_clear_correct:
  assumes "hm_inv key V m" "hashmap_clear m update_cap = (m', freed)"
  shows "hm_inv key V m'" "hm_map key m' = Map.empty" "hm_count m' = 0"
    "hm_nbuckets m' = (if update_cap then hm_nbuckets m else hm_cap m)"
    "hm_elfree m \<Longrightarrow> mset freed = image_mset snd (contents (hm_buckets m))"
proof -
  define n where "n = (if update_cap then hm_nbuckets m else hm_cap m)"
  have n: "16 \<le> n" "is_pow2 n" using assms(1) by (auto simp: hm_inv_def n_def)
  have m': "m' = m\<lparr>hm_count := 0, hm_cap := n, hm_nbuckets := n,
        hm_buckets := replicate n (empty_bucket (hm_zero m)),
        hm_mask := n - 1, hm_growat := n * 3 div 4, hm_shrinkat := shrink_at n\<rparr>"
    and freed: "freed = free_elements m"
    using assms(2) by (auto simp: hashmap_clear_def Let_def n_def)
  have "n * 3 div 4 < n" "0 < n * 3 div 4" using n by auto
  then show "hm_inv key V m'" using assms(1) n by (simp add: m' hm_inv_def unique_keys_def)
  show "hm_map key m' = Map.empty" "hm_count m' = 0" "hm_nbuckets m' = (if update_cap then hm_nbuckets m else hm_cap m)"
    by (simp_all add: m' hm_map_def assocs_def n_def)
  show "mset freed = image_mset snd (contents (hm_buckets m))" if "hm_elfree m"
    using that by (simp add: freed free_elements_def contents_def occ_def slot_def
        image_mset.compositionality comp_def)
qed

end
