(* ===== verification/Hashmap_Props.thy ===== *)
theory Hashmap_Props
  imports Hashmap_Correct
begin

text \<open>
  The properties of the hash map as a client sees them, over the abstract map \<open>hm_map\<close> from
  (48-bit hash, key) to items, and the order in which iteration visits the items. The concrete
  map of the witnesses stores 64-bit words under themselves.
\<close>

section \<open>A concrete map\<close>

definition wkey :: "u64 \<Rightarrow> u64" where
  "wkey x = x"

lemma wkey_simps [simp]: "wkey (of_nat n) = of_nat n" "wkey (numeral k) = numeral k"
  by (simp_all add: wkey_def)

definition word_cmp :: "u64 \<Rightarrow> u64 \<Rightarrow> u32" where
  "word_cmp x y = (if x = y then 0 else 1)"

definition word_map :: "u64 hashmap" where
  "word_map = the (hashmap_new True 0 16 0 0 (\<lambda>x _ _. x) (Some word_cmp) True)"

lemma word_map_new:
  "hm_inv wkey (\<lambda>_. True) word_map \<and> hm_map wkey word_map = Map.empty \<and> hm_count word_map = 0
    \<and> hm_growat word_map = 9 \<and> hm_elfree word_map"
proof -
  have "agrees (Some word_cmp) wkey (\<lambda>_. True)" by (simp add: agrees_def item_matches_def word_cmp_def wkey_def)
  then obtain m where m: "hashmap_new True 0 16 0 0 (\<lambda>x _ _. x) (Some word_cmp) True = Some m"
    "hm_inv wkey (\<lambda>_. True) m" "hm_map wkey m = Map.empty" "hm_count m = 0"
    using hashmap_new_correct [of "Some word_cmp" wkey "\<lambda>_. True" 0 16 0 0 "\<lambda>x _ _. x" True] by blast
  then have "hm_growat m = 9 \<and> hm_elfree m"
    by (auto simp: hashmap_new_with_allocator_def Let_def initial_cap_def round_cap.simps grow_at_def)
  then show ?thesis using m by (simp add: word_map_def)
qed

lemmas word_map_facts = word_map_new [THEN conjunct1] word_map_new [THEN conjunct2, THEN conjunct1]
  word_map_new [THEN conjunct2, THEN conjunct2, THEN conjunct1]
  word_map_new [THEN conjunct2, THEN conjunct2, THEN conjunct2, THEN conjunct1]
  word_map_new [THEN conjunct2, THEN conjunct2, THEN conjunct2, THEN conjunct2]

section \<open>Insertion\<close>

text \<open>
  C15: \<open>hashmap_set_with_hash\<close> returns, whether or not it has to grow the table; it hands back the
  item bound to the same hash and key, if any, binds the new item, leaves every other binding
  alone, and counts one more item exactly when nothing was replaced.
\<close>

theorem set_refines_map:
  assumes "hm_inv key V m" "V x" "hm_count m < 65535"
  shows "\<exists>m'. hashmap_set_with_hash True m x h = Some (m', hm_map key m (hkey h, key x))
    \<and> hm_inv key V m' \<and> hm_map key m' = (hm_map key m)((hkey h, key x) \<mapsto> x) \<and> \<not> hm_oom m'
    \<and> hm_count m' = (if hm_map key m (hkey h, key x) = None then hm_count m + 1 else hm_count m)"
  by (rule hashmap_set_correct [OF assms, of True h]) blast+

lemma word_map_set: "\<exists>m'. hashmap_set_with_hash True word_map 7 7 = Some (m', None)
    \<and> hm_inv wkey (\<lambda>_. True) m' \<and> hm_map wkey m' = [(hkey 7, 7) \<mapsto> 7] \<and> hm_count m' = 1"
  by (rule hashmap_set_correct [where m = word_map and key = wkey and V = "\<lambda>_. True" and x = 7 and h = 7 and mem = True])
     (use word_map_facts in auto)

theorem set_refines_map_witness:
  "\<exists>m'. hashmap_set_with_hash True word_map 7 7 = Some (m', None) \<and> hm_map wkey m' (hkey 7, 7) = Some 7
    \<and> hm_count m' = 1"
  using set_refines_map [of wkey "\<lambda>_. True" word_map 7 7] word_map_facts by auto

text \<open>
  When the table is full and the allocation for a larger one fails, \<open>hashmap_set_with_hash\<close>
  inserts nothing and sets the out-of-memory flag that \<open>hashmap_oom\<close> reports; the bindings, the
  count and the invariant stay, and a later insertion that finds memory succeeds.
\<close>

theorem set_out_of_memory:
  assumes "hm_inv key V m" "hm_count m = hm_growat m" "V x" "hm_count m < 65535"
  shows "\<exists>m1 m2. hashmap_set_with_hash False m x h = Some (m1, None) \<and> hashmap_oom m1
    \<and> hm_map key m1 = hm_map key m \<and> hashmap_count m1 = hashmap_count m
    \<and> hashmap_set_with_hash True m1 x h = Some (m2, hm_map key m (hkey h, key x))
    \<and> hm_map key m2 = (hm_map key m)((hkey h, key x) \<mapsto> x) \<and> \<not> hashmap_oom m2"
proof -
  let ?m1 = "m\<lparr>hm_oom := True\<rparr>"
  have "hashmap_set_with_hash False m x h = Some (?m1, None)" using assms(2) by (rule hashmap_set_oom)
  moreover have map1: "hm_map key ?m1 = hm_map key m" by (rule hm_map_cong) simp
  have P: "hm_inv key V ?m1" "hm_count ?m1 < 65535" using assms by simp_all
  obtain m2 where "hashmap_set_with_hash True ?m1 x h = Some (m2, hm_map key ?m1 (hkey h, key x))"
    "hm_map key m2 = (hm_map key ?m1)((hkey h, key x) \<mapsto> x)" "\<not> hm_oom m2"
    by (rule hashmap_set_correct [OF P(1) assms(3) P(2), of True h]) simp
  ultimately show ?thesis using map1 by (auto simp: hashmap_oom_def hashmap_count_def)
qed

lemma set_keeps_growat:
  "hm_count m \<noteq> hm_growat m \<Longrightarrow> hashmap_set_with_hash mem m x h = Some (m', r) \<Longrightarrow> hm_growat m' = hm_growat m"
  by (auto simp: hashmap_set_with_hash_def grow_check_def Let_def split: option.splits prod.splits)

lemma word_map_filled:
  "n \<le> 9 \<Longrightarrow> \<exists>m :: u64 hashmap. hm_inv wkey (\<lambda>_. True) m \<and> hm_count m = n \<and> hm_growat m = 9
    \<and> (\<forall>i. n \<le> i \<and> i < 10 \<longrightarrow> hm_map wkey m (hkey (of_nat i), of_nat i) = None)"
proof (induction n)
  case 0
  then show ?case using word_map_facts by (intro exI [of _ word_map]) simp
next
  case (Suc n)
  then obtain m where m: "hm_inv wkey (\<lambda>_. True) m" "hm_count m = n" "hm_growat m = 9"
    "\<forall>i. n \<le> i \<and> i < 10 \<longrightarrow> hm_map wkey m (hkey (of_nat i), of_nat i) = None" by auto
  have room: "hm_count m < 65535" using m(2) Suc.prems by simp
  let ?x = "of_nat n :: u64"
  have V: "(\<lambda>_::u64. True) ?x" by simp
  have mem: "True \<or> hm_count m \<noteq> hm_growat m" by simp
  obtain m' where m': "hashmap_set_with_hash True m ?x ?x = Some (m', hm_map wkey m (hkey ?x, wkey ?x))"
    "hm_inv wkey (\<lambda>_. True) m'" "hm_map wkey m' = (hm_map wkey m)((hkey ?x, wkey ?x) \<mapsto> ?x)"
    "hm_count m' = (if hm_map wkey m (hkey ?x, wkey ?x) = None then hm_count m + 1 else hm_count m)"
    by (rule hashmap_set_correct [OF m(1) V room mem, of ?x])
  have "hm_growat m' = 9" using set_keeps_growat [OF _ m'(1)] m Suc.prems by simp
  moreover have "hm_map wkey m' (hkey (of_nat i), of_nat i) = None" if "Suc n \<le> i" "i < 10" for i
    using that m(4) of_nat_eq_64 [of i n] by (simp add: m'(3))
  ultimately show ?case using m' m(2,4) Suc.prems by (intro exI [of _ m']) simp
qed

theorem set_out_of_memory_witness:
  "\<exists>m m1 m2. hashmap_count m = 9 \<and> hashmap_set_with_hash False m (9::u64) 9 = Some (m1, None) \<and> hashmap_oom m1
    \<and> hashmap_set_with_hash True m1 9 9 = Some (m2, None) \<and> hm_map wkey m2 (hkey 9, 9) = Some 9"
proof -
  obtain m where m: "hm_inv wkey (\<lambda>_::u64. True) m" "hm_count m = 9" "hm_growat m = 9"
    "\<forall>i. 9 \<le> i \<and> i < 10 \<longrightarrow> hm_map wkey m (hkey (of_nat i), of_nat i) = None"
    using word_map_filled [of 9] by auto
  have "hm_map wkey m (hkey 9, 9) = None" using m(4) [rule_format, of 9] by simp
  then have "\<exists>m1 m2. hashmap_set_with_hash False m 9 9 = Some (m1, None) \<and> hashmap_oom m1
    \<and> hashmap_set_with_hash True m1 9 9 = Some (m2, None) \<and> hm_map wkey m2 (hkey 9, 9) = Some 9"
    using set_out_of_memory [OF m(1), of 9 9] m(2,3) by auto
  then show ?thesis using m(2) by (auto simp: hashmap_count_def)
qed

section \<open>Lookup and deletion\<close>

text \<open>
  C24: \<open>hashmap_get_with_hash\<close> returns, and what it returns is the item bound to the hash and the
  key, or NULL when there is none.
\<close>

theorem get_refines_map:
  assumes "hm_inv key V m" "V x"
  shows "hashmap_get_with_hash m x h = Some (hm_map key m (hkey h, key x))"
  by (rule hashmap_get_correct [OF assms])

theorem get_refines_map_witness:
  "\<exists>m'. hashmap_set_with_hash True word_map 7 7 = Some (m', None)
    \<and> hashmap_get_with_hash m' 7 7 = Some (Some 7) \<and> hashmap_get_with_hash m' 8 8 = Some None"
proof -
  obtain m' where m': "hashmap_set_with_hash True word_map 7 7 = Some (m', None)"
    "hm_inv wkey (\<lambda>_. True) m'" "hm_map wkey m' = [(hkey 7, 7) \<mapsto> 7]" using word_map_set by blast
  have "hashmap_get_with_hash m' 7 7 = Some (Some 7)" "hashmap_get_with_hash m' 8 8 = Some None"
    using get_refines_map [OF m'(2), of 7 7] get_refines_map [OF m'(2), of 8 8] m'(3) by simp_all
  then show ?thesis using m'(1) by blast
qed

text \<open>
  C16: \<open>hashmap_delete_with_hash\<close> returns the item bound to the hash and key and unbinds it, closing
  the gap in the probe sequence; every other binding stays, also when the table shrinks or the
  allocation for the smaller table fails, and the count drops exactly when something was removed.
\<close>

theorem delete_refines_map:
  assumes "hm_inv key V m" "V x" "hm_count m \<le> 65535"
  shows "\<exists>m'. hashmap_delete_with_hash mem m x h = Some (m', hm_map key m (hkey h, key x))
    \<and> hm_inv key V m' \<and> hm_map key m' = (hm_map key m)((hkey h, key x) := None)
    \<and> hm_count m' = (if hm_map key m (hkey h, key x) = None then hm_count m else hm_count m - 1)"
  by (rule hashmap_delete_correct [OF assms, of mem h]) blast+

theorem delete_refines_map_witness:
  "\<exists>m1 m2. hashmap_set_with_hash True word_map 7 7 = Some (m1, None)
    \<and> hashmap_delete_with_hash False m1 7 7 = Some (m2, Some 7) \<and> hm_map wkey m2 = Map.empty \<and> hm_count m2 = 0"
proof -
  obtain m1 where m1: "hashmap_set_with_hash True word_map 7 7 = Some (m1, None)"
    "hm_inv wkey (\<lambda>_. True) m1" "hm_map wkey m1 = [(hkey 7, 7) \<mapsto> 7]" "hm_count m1 = 1" using word_map_set by blast
  have "\<exists>m2. hashmap_delete_with_hash False m1 7 7 = Some (m2, Some 7) \<and> hm_map wkey m2 = Map.empty \<and> hm_count m2 = 0"
    using delete_refines_map [OF m1(2), where x = 7 and mem = False and h = 7] m1(3,4) by auto
  then show ?thesis using m1(1) by blast
qed

section \<open>Clearing\<close>

text \<open>
  \<open>hashmap_clear\<close> leaves an empty map that satisfies the invariant, at the present capacity
  or at the initial one, and hands every stored item to the free function exactly once.
\<close>

theorem clear_empties:
  assumes "hm_inv key V m" "hm_elfree m"
  shows "hm_inv key V (fst (hashmap_clear m b)) \<and> hm_map key (fst (hashmap_clear m b)) = Map.empty
    \<and> hashmap_count (fst (hashmap_clear m b)) = 0
    \<and> hm_nbuckets (fst (hashmap_clear m b)) = (if b then hm_nbuckets m else hm_cap m)
    \<and> mset (snd (hashmap_clear m b)) = image_mset snd (contents (hm_buckets m))"
  using hashmap_clear_correct [OF assms(1) prod.collapse [symmetric]] assms(2)
  by (simp add: hashmap_count_def)

theorem clear_empties_witness:
  "hm_map wkey (fst (hashmap_clear word_map True)) = Map.empty \<and> hashmap_count (fst (hashmap_clear word_map True)) = 0"
  using clear_empties [of wkey "\<lambda>_. True" word_map True] word_map_facts by simp

section \<open>Iteration\<close>

text \<open>Calling \<open>hashmap_iter\<close> until it returns false.\<close>

function iter_all :: "'a hashmap \<Rightarrow> nat \<Rightarrow> 'a list" where
  "iter_all m i = (case hashmap_iter m i of None \<Rightarrow> [] | Some (x, i') \<Rightarrow> if i < i' \<and> i' \<le> hm_nbuckets m then x # iter_all m i' else [])"
  by pat_completeness auto
termination
  by (relation "measure (\<lambda>(m, i). hm_nbuckets m - i)") auto

declare iter_all.simps [simp del]

lemma iter_all_occ:
  assumes "length (hm_buckets m) = hm_nbuckets m" "i \<le> hm_nbuckets m"
  shows "iter_all m i = map b_item (occ (drop i (hm_buckets m)))"
  using assms
proof (induction "hm_nbuckets m - i" arbitrary: i)
  case 0
  then show ?case by (simp add: iter_all.simps hashmap_iter.simps occ_def)
next
  case (Suc k)
  then have i: "i < hm_nbuckets m" by simp
  then have d: "drop i (hm_buckets m) = hm_buckets m ! i # drop (Suc i) (hm_buckets m)"
    using Suc.prems by (simp add: Cons_nth_drop_Suc)
  have IH: "iter_all m (Suc i) = map b_item (occ (drop (Suc i) (hm_buckets m)))"
    using Suc i by simp
  show ?case
  proof (cases "b_dib (hm_buckets m ! i) = 0")
    case True
    have step: "hashmap_iter m i = hashmap_iter m (Suc i)"
      using True i by (subst hashmap_iter.simps) simp
    have "\<And>x i'. hashmap_iter m j = Some (x, i') \<Longrightarrow> j < i'" for j
      by (induction m j rule: hashmap_iter.induct) (subst (asm) hashmap_iter.simps, auto split: if_splits)
    then have "iter_all m i = iter_all m (Suc i)"
      unfolding iter_all.simps [of m i] iter_all.simps [of m "Suc i"] step
      by (auto split: option.splits dest: Suc_lessD)
    then show ?thesis using IH d True by (simp add: occ_def)
  next
    case False
    have "hashmap_iter m i = Some (b_item (hm_buckets m ! i), Suc i)"
      using False i by (subst hashmap_iter.simps) simp
    then have "iter_all m i = b_item (hm_buckets m ! i) # iter_all m (Suc i)"
      using i by (subst iter_all.simps) simp
    then show ?thesis using IH d False by (simp add: occ_def)
  qed
qed

lemma scan_loop_occ:
  "scan_loop (\<lambda>x s. (s @ [x], True)) bs s = (s @ map b_item (occ bs), True)"
  by (induction bs arbitrary: s) (auto simp: occ_def)

text \<open>
  \<open>hashmap_scan\<close> with a callback that keeps going and repeated \<open>hashmap_iter\<close> visit the same
  items in the same order, every stored item exactly once.
\<close>

theorem iteration_visits_all:
  assumes "hm_inv key V m"
  shows "hashmap_scan m (\<lambda>x s. (s @ [x], True)) [] = (iter_all m 0, True)
    \<and> mset (iter_all m 0) = image_mset snd (contents (hm_buckets m))
    \<and> length (iter_all m 0) = hashmap_count m"
proof -
  have "length (hm_buckets m) = hm_nbuckets m" using assms by (simp add: hm_inv_def rh_length)
  then have it: "iter_all m 0 = map b_item (occ (hm_buckets m))" using iter_all_occ [of m 0] by simp
  moreover have "mset (map b_item (occ (hm_buckets m))) = image_mset snd (contents (hm_buckets m))"
    by (simp add: contents_def slot_def image_mset.compositionality comp_def)
  ultimately show ?thesis using assms by (simp add: hashmap_scan_def scan_loop_occ hashmap_count_def hm_inv_def)
qed

theorem iteration_visits_all_witness:
  "\<exists>m'. hashmap_set_with_hash True word_map 7 7 = Some (m', None) \<and> length (iter_all m' 0) = 1"
proof -
  obtain m' where m': "hashmap_set_with_hash True word_map 7 7 = Some (m', None)"
    "hm_inv wkey (\<lambda>_. True) m'" "hm_count m' = 1" using word_map_set by blast
  then show ?thesis using iteration_visits_all [OF m'(2)] by (auto simp: hashmap_count_def)
qed

end
