(* ===== verification/Item_Store.thy ===== *)
theory Item_Store
  imports Hashmap_Correct
begin

text \<open>
  The contract of a store of keyed items, stated as a locale, and its provider: the hash map used
  with a fixed hash of the key. The databases and the command table are the two clients. What a
  client gets is that every sequence of operations answers as a finite map from keys to items
  would, as long as the number of items stays below the limit of the map.
\<close>

section \<open>The contract\<close>

datatype ('k, 'a) store_op = Look 'k | Put 'a | Del 'k

fun run_store ::
  "('s \<Rightarrow> 'k \<Rightarrow> 'a option option) \<Rightarrow> ('s \<Rightarrow> 'a \<Rightarrow> ('s \<times> 'a option) option) \<Rightarrow>
   ('s \<Rightarrow> 'k \<Rightarrow> ('s \<times> 'a option) option) \<Rightarrow>
   ('k, 'a) store_op list \<Rightarrow> 's \<Rightarrow> ('s \<times> 'a option list) option" where
  "run_store look put del [] s = Some (s, [])"
| "run_store look put del (Look k # ops) s =
    (case look s k of None \<Rightarrow> None
     | Some r \<Rightarrow> map_option (\<lambda>(s', rs). (s', r # rs)) (run_store look put del ops s))"
| "run_store look put del (Put x # ops) s =
    (case put s x of None \<Rightarrow> None
     | Some (s1, r) \<Rightarrow> map_option (\<lambda>(s', rs). (s', r # rs)) (run_store look put del ops s1))"
| "run_store look put del (Del k # ops) s =
    (case del s k of None \<Rightarrow> None
     | Some (s1, r) \<Rightarrow> map_option (\<lambda>(s', rs). (s', r # rs)) (run_store look put del ops s1))"

fun spec_store :: "('a \<Rightarrow> 'k) \<Rightarrow> ('k, 'a) store_op list \<Rightarrow> ('k \<rightharpoonup> 'a) \<Rightarrow> ('k \<rightharpoonup> 'a) \<times> 'a option list" where
  "spec_store key [] f = (f, [])"
| "spec_store key (Look k # ops) f = (case spec_store key ops f of (f', rs) \<Rightarrow> (f', f k # rs))"
| "spec_store key (Put x # ops) f =
    (case spec_store key ops (f(key x \<mapsto> x)) of (f', rs) \<Rightarrow> (f', f (key x) # rs))"
| "spec_store key (Del k # ops) f = (case spec_store key ops (f(k := None)) of (f', rs) \<Rightarrow> (f', f k # rs))"

fun op_key :: "('a \<Rightarrow> 'k) \<Rightarrow> ('k, 'a) store_op \<Rightarrow> 'k" where
  "op_key key (Look k) = k"
| "op_key key (Put x) = key x"
| "op_key key (Del k) = k"

locale keyed_store =
  fixes inv :: "'s \<Rightarrow> bool" and ok :: "'k \<Rightarrow> bool" and cnt :: "'s \<Rightarrow> nat" and limit :: nat
    and abs :: "'s \<Rightarrow> 'k \<rightharpoonup> 'a" and key :: "'a \<Rightarrow> 'k"
    and look :: "'s \<Rightarrow> 'k \<Rightarrow> 'a option option"
    and put :: "'s \<Rightarrow> 'a \<Rightarrow> ('s \<times> 'a option) option"
    and del :: "'s \<Rightarrow> 'k \<Rightarrow> ('s \<times> 'a option) option"
  assumes look_law: "inv s \<Longrightarrow> ok k \<Longrightarrow> look s k = Some (abs s k)"
    and put_law: "inv s \<Longrightarrow> ok (key x) \<Longrightarrow> cnt s < limit \<Longrightarrow>
      \<exists>s'. put s x = Some (s', abs s (key x)) \<and> inv s' \<and> abs s' = (abs s)(key x \<mapsto> x) \<and> cnt s' \<le> cnt s + 1"
    and del_law: "inv s \<Longrightarrow> ok k \<Longrightarrow> cnt s \<le> limit \<Longrightarrow>
      \<exists>s'. del s k = Some (s', abs s k) \<and> inv s' \<and> abs s' = (abs s)(k := None) \<and> cnt s' \<le> cnt s"
begin

lemma look_put:
  assumes "inv s" "ok (key x)" "ok k" "cnt s < limit"
  shows "\<exists>s' r. put s x = Some (s', r) \<and> look s' k = Some (if k = key x then Some x else abs s k)"
  using put_law [OF assms(1,2,4)] look_law assms(3) by fastforce

lemma look_del:
  assumes "inv s" "ok k" "ok k'" "cnt s \<le> limit"
  shows "\<exists>s' r. del s k = Some (s', r) \<and> look s' k' = Some (if k' = k then None else abs s k')"
  using del_law [OF assms(1,2,4)] look_law assms(3) by fastforce

text \<open>The refinement: a run of the store answers as the finite map does and ends in its state.\<close>

lemma run_refines:
  assumes "inv s" "\<forall>q \<in> set ops. ok (op_key key q)" "cnt s + length ops \<le> limit"
  shows "\<exists>s'. run_store look put del ops s = Some (s', snd (spec_store key ops (abs s)))
           \<and> inv s' \<and> abs s' = fst (spec_store key ops (abs s))"
  using assms
proof (induction ops arbitrary: s)
  case (Cons q ops)
  have rest: "\<forall>q \<in> set ops. ok (op_key key q)" using Cons.prems(2) by simp
  show ?case
  proof (cases q)
    case (Look k)
    have "look s k = Some (abs s k)" using look_law Cons.prems Look by simp
    moreover have "cnt s + length ops \<le> limit" using Cons.prems(3) by simp
    ultimately show ?thesis using Cons.IH [OF Cons.prems(1) rest] Look by (auto split: prod.splits)
  next
    case (Put x)
    have "cnt s < limit" "ok (key x)" using Cons.prems Put by simp_all
    from put_law [OF Cons.prems(1) this(2,1)] obtain s1 where
      s1: "put s x = Some (s1, abs s (key x))" "inv s1" "abs s1 = (abs s)(key x \<mapsto> x)" "cnt s1 \<le> cnt s + 1" by blast
    have "cnt s1 + length ops \<le> limit" using s1(4) Cons.prems(3) by simp
    from Cons.IH [OF s1(2) rest this] show ?thesis using Put s1(1,3) by (auto simp: case_prod_beta simp del: fun_upd_apply)
  next
    case (Del k)
    have "cnt s \<le> limit" "ok k" using Cons.prems Del by simp_all
    from del_law [OF Cons.prems(1) this(2,1)] obtain s1 where
      s1: "del s k = Some (s1, abs s k)" "inv s1" "abs s1 = (abs s)(k := None)" "cnt s1 \<le> cnt s" by blast
    have "cnt s1 + length ops \<le> limit" using s1(4) Cons.prems(3) by simp
    from Cons.IH [OF s1(2) rest this] show ?thesis using Del s1(1,3) by (auto simp: case_prod_beta simp del: fun_upd_apply)
  qed
qed simp

end

section \<open>The hash map as provider\<close>

text \<open>
  A client fixes the key of an item, the hash of a key and the item it probes with; what it
  promises is that probing items carry their key and that the comparison decides equality of
  keys that are \<open>ok\<close>.
\<close>

definition hs_get :: "('k \<Rightarrow> 'a) \<Rightarrow> ('k \<Rightarrow> u64) \<Rightarrow> 'a hashmap \<Rightarrow> 'k \<Rightarrow> 'a option option" where
  "hs_get probe kh m k = hashmap_get_with_hash m (probe k) (kh k)"

definition hs_set :: "('a \<Rightarrow> 'k) \<Rightarrow> ('k \<Rightarrow> u64) \<Rightarrow> 'a hashmap \<Rightarrow> 'a \<Rightarrow> ('a hashmap \<times> 'a option) option" where
  "hs_set key kh m x = hashmap_set_with_hash True m x (kh (key x))"

definition hs_del :: "('k \<Rightarrow> 'a) \<Rightarrow> ('k \<Rightarrow> u64) \<Rightarrow> 'a hashmap \<Rightarrow> 'k \<Rightarrow> ('a hashmap \<times> 'a option) option" where
  "hs_del probe kh m k = hashmap_delete_with_hash True m (probe k) (kh k)"

definition hs_abs :: "('a \<Rightarrow> 'k) \<Rightarrow> ('k \<Rightarrow> u64) \<Rightarrow> 'a hashmap \<Rightarrow> 'k \<rightharpoonup> 'a" where
  "hs_abs key kh m k = hm_map key m (hkey (kh k), k)"

text \<open>The invariant adds to that of the map that every item sits under the hash of its key.\<close>

definition hs_inv :: "('a \<Rightarrow> 'k) \<Rightarrow> ('k \<Rightarrow> u64) \<Rightarrow> ('k \<Rightarrow> bool) \<Rightarrow> 'a hashmap \<Rightarrow> bool" where
  "hs_inv key kh ok m \<longleftrightarrow> hm_inv key (ok \<circ> key) m \<and> (\<forall>(h, k) \<in> dom (hm_map key m). h = hkey (kh k))"

lemma hs_abs_upd:
  assumes "hs_inv key kh ok m" "hm_map key m' = (hm_map key m)((hkey (kh k), k) := v)"
  shows "hs_abs key kh m' = (hs_abs key kh m)(k := v)"
    "hm_inv key (ok \<circ> key) m' \<Longrightarrow> hs_inv key kh ok m'"
proof -
  show "hs_abs key kh m' = (hs_abs key kh m)(k := v)"
    using assms(2) by (auto simp: hs_abs_def fun_eq_iff)
  have "\<forall>(h, k) \<in> dom (hm_map key m'). h = hkey (kh k)"
    using assms by (fastforce simp: hs_inv_def dom_def split: if_splits)
  then show "hs_inv key kh ok m'" if "hm_inv key (ok \<circ> key) m'" using that by (simp add: hs_inv_def)
qed

lemma hs_inv_hm [inv_intros]: "hs_inv key kh ok m \<Longrightarrow> hm_inv key (ok \<circ> key) m"
  by (simp add: hs_inv_def)

locale hashed_items =
  fixes key :: "'a \<Rightarrow> 'k" and probe :: "'k \<Rightarrow> 'a" and kh :: "'k \<Rightarrow> u64" and ok :: "'k \<Rightarrow> bool"
    and compare :: "'a \<Rightarrow> 'a \<Rightarrow> u32"
  assumes key_probe: "key (probe k) = k"
    and compare_law: "ok (key x) \<Longrightarrow> ok (key y) \<Longrightarrow> compare x y = 0 \<longleftrightarrow> key x = key y"
begin

lemma agrees_compare: "agrees (Some compare) key (ok \<circ> key)"
  using compare_law by (auto simp: agrees_def item_matches_def)

lemma get_law: "hs_inv key kh ok m \<Longrightarrow> ok k \<Longrightarrow> hs_get probe kh m k = Some (hs_abs key kh m k)"
  using hashmap_get_correct [OF hs_inv_hm, of key kh ok m "probe k" "kh k"]
  by (simp add: hs_get_def hs_abs_def key_probe)

lemma set_law:
  assumes "hs_inv key kh ok m" "ok (key x)" "hm_count m < 65535"
  shows "\<exists>m'. hs_set key kh m x = Some (m', hs_abs key kh m (key x)) \<and> hs_inv key kh ok m'
    \<and> hs_abs key kh m' = (hs_abs key kh m)(key x \<mapsto> x) \<and> hm_count m' \<le> hm_count m + 1"
proof -
  have V: "(ok \<circ> key) x" and mem: "True \<or> hm_count m \<noteq> hm_growat m" using assms(2) by simp_all
  obtain m' where m': "hashmap_set_with_hash True m x (kh (key x)) = Some (m', hm_map key m (hkey (kh (key x)), key x))"
    "hm_inv key (ok \<circ> key) m'" "hm_map key m' = (hm_map key m)((hkey (kh (key x)), key x) \<mapsto> x)"
    "hm_count m' = (if hm_map key m (hkey (kh (key x)), key x) = None then hm_count m + 1 else hm_count m)"
    by (rule hashmap_set_correct [OF hs_inv_hm [OF assms(1)] V assms(3) mem, of "kh (key x)"]) blast
  show ?thesis
    using m' hs_abs_upd [OF assms(1) m'(3)] by (auto simp: hs_set_def hs_abs_def)
qed

lemma delete_law:
  assumes "hs_inv key kh ok m" "ok k" "hm_count m \<le> 65535"
  shows "\<exists>m'. hs_del probe kh m k = Some (m', hs_abs key kh m k) \<and> hs_inv key kh ok m'
    \<and> hs_abs key kh m' = (hs_abs key kh m)(k := None) \<and> hm_count m' \<le> hm_count m"
proof -
  have V: "(ok \<circ> key) (probe k)" using assms(2) by (simp add: key_probe)
  obtain m' where m': "hashmap_delete_with_hash True m (probe k) (kh k) = Some (m', hm_map key m (hkey (kh k), k))"
    "hm_inv key (ok \<circ> key) m'" "hm_map key m' = (hm_map key m)((hkey (kh k), k) := None)"
    "hm_count m' = (if hm_map key m (hkey (kh k), k) = None then hm_count m else hm_count m - 1)"
    by (rule hashmap_delete_correct [OF hs_inv_hm [OF assms(1)] V assms(3), where h = "kh k" and mem = True])
       (simp add: key_probe)
  show ?thesis
    using m' hs_abs_upd [OF assms(1) m'(3)] by (auto simp: hs_del_def hs_abs_def)
qed

lemma new_law:
  "\<exists>m. hashmap_new True z cap s0 s1 hash (Some compare) elfree = Some m \<and> hs_inv key kh ok m
    \<and> hs_abs key kh m = Map.empty \<and> hm_count m = 0 \<and> hm_hash m = hash"
  by (rule hashmap_new_correct [OF agrees_compare, of z cap s0 s1 hash elfree])
     (auto simp: hs_inv_def hs_abs_def fun_eq_iff)

lemma clear_law:
  assumes "hs_inv key kh ok m"
  shows "hs_inv key kh ok (fst (hashmap_clear m b))" "hs_abs key kh (fst (hashmap_clear m b)) = Map.empty"
    "hm_count (fst (hashmap_clear m b)) = 0"
  using hashmap_clear_correct(1-3) [OF hs_inv_hm [OF assms] prod.collapse [symmetric]]
  by (auto simp: hs_inv_def hs_abs_def fun_eq_iff)

text \<open>The count is the number of bound keys.\<close>

lemma count_law:
  assumes "hs_inv key kh ok m"
  shows "hm_count m = card (dom (hs_abs key kh m))"
proof -
  have inv: "hm_inv key (ok \<circ> key) m" using assms by (rule hs_inv_hm)
  have d: "dom (hm_map key m) = set (map fst (assocs key (hm_buckets m)))"
    by (simp add: hm_map_def dom_map_of_conv_image_fst)
  have dist: "distinct (map fst (assocs key (hm_buckets m)))"
    using inv by (auto simp: hm_inv_def distinct_assocs)
  have "dom (hs_abs key kh m) = snd ` dom (hm_map key m)"
    using assms by (force simp: hs_inv_def hs_abs_def image_iff dom_def)
  moreover have "inj_on snd (dom (hm_map key m))"
  proof (rule inj_onI)
    fix p q
    assume "p \<in> dom (hm_map key m)" "q \<in> dom (hm_map key m)" "snd p = snd q"
    moreover have "\<forall>r \<in> dom (hm_map key m). fst r = hkey (kh (snd r))"
      using assms by (auto simp: hs_inv_def)
    ultimately show "p = q" by (metis prod.collapse)
  qed
  ultimately have "card (dom (hs_abs key kh m)) = card (dom (hm_map key m))"
    by (simp add: card_image)
  also have "\<dots> = length (occ (hm_buckets m))"
    unfolding d distinct_card [OF dist] by (simp add: assocs_def)
  finally show ?thesis using inv by (simp add: hm_inv_def)
qed

end

sublocale hashed_items \<subseteq> keyed_store "hs_inv key kh ok" ok hm_count 65535 "hs_abs key kh" key
  "hs_get probe kh" "hs_set key kh" "hs_del probe kh"
proof
qed (rule get_law set_law delete_law; assumption)+

end
