(* ===== verification/Hash_Functions.thy ===== *)
theory Hash_Functions
  imports Prelude "HOL-Library.Monad_Syntax"
begin

text \<open>
  The hash functions of \<^verbatim>\<open>src/include/hashmap.c\<close>: xxHash3 (the one the server routes and
  stores keys with), SipHash-2-4 and Murmur3, and the polynomial hash of \<^verbatim>\<open>src/include/kv.c\<close>.
  Data is a byte list with its length; the pointer that walks over it is the list still to be
  read. The server calls xxHash3 with lengths a client announces, so that one is also given as the
  walk of a pointer over memory, and the two agree on data inside its array. Multi-byte reads are little-endian, as on the machines the server targets.
\<close>

section \<open>Reading words\<close>

definition read_le :: "bytes \<Rightarrow> 'a::len word" where
  "read_le bs = foldr (\<lambda>b acc. push_bit 8 acc OR ucast b) bs 0"

definition XXH_read64 :: "bytes \<Rightarrow> u64" where
  "XXH_read64 p = read_le (take 8 p)"

definition XXH_read32 :: "bytes \<Rightarrow> u32" where
  "XXH_read32 p = read_le (take 4 p)"

definition XXH_rotl64 :: "u64 \<Rightarrow> nat \<Rightarrow> u64" where
  "XXH_rotl64 x r = push_bit r x OR drop_bit (64 - r) x"

section \<open>xxHash3\<close>

definition XXH_PRIME_1 :: u64 where "XXH_PRIME_1 = 11400714785074694791"
definition XXH_PRIME_2 :: u64 where "XXH_PRIME_2 = 14029467366897019727"
definition XXH_PRIME_3 :: u64 where "XXH_PRIME_3 = 1609587929392839161"
definition XXH_PRIME_4 :: u64 where "XXH_PRIME_4 = 9650029242287828579"
definition XXH_PRIME_5 :: u64 where "XXH_PRIME_5 = 2870177450012600261"

text \<open>One lane of the 32-byte loop, and the step that folds a lane into the result.\<close>

definition xxh_lane :: "u64 \<Rightarrow> bytes \<Rightarrow> u64" where
  "xxh_lane v p = XXH_rotl64 (v + XXH_read64 p * XXH_PRIME_2) 31 * XXH_PRIME_1"

definition xxh_merge :: "u64 \<Rightarrow> u64 \<Rightarrow> u64" where
  "xxh_merge h64 v =
    (h64 XOR (XXH_rotl64 (v * XXH_PRIME_2) 31 * XXH_PRIME_1)) * XXH_PRIME_1 + XXH_PRIME_4"

definition xxh_seeds :: "u64 \<Rightarrow> u64 \<times> u64 \<times> u64 \<times> u64" where
  "xxh_seeds seed = (seed + XXH_PRIME_1 + XXH_PRIME_2, seed + XXH_PRIME_2, seed + 0, seed - XXH_PRIME_1)"

fun xxh_lanes :: "u64 \<times> u64 \<times> u64 \<times> u64 \<Rightarrow> bytes \<Rightarrow> u64 \<times> u64 \<times> u64 \<times> u64" where
  "xxh_lanes (v1, v2, v3, v4) p =
    (xxh_lane v1 p, xxh_lane v2 (drop 8 p), xxh_lane v3 (drop 16 p), xxh_lane v4 (drop 24 p))"

fun xxh_converge :: "u64 \<times> u64 \<times> u64 \<times> u64 \<Rightarrow> u64" where
  "xxh_converge (v1, v2, v3, v4) =
    (let h = XXH_rotl64 v1 1 + XXH_rotl64 v2 7 + XXH_rotl64 v3 12 + XXH_rotl64 v4 18
     in xxh_merge (xxh_merge (xxh_merge (xxh_merge h v1) v2) v3) v4)"

function xxh_stripes :: "u64 \<times> u64 \<times> u64 \<times> u64 \<Rightarrow> bytes \<Rightarrow> (u64 \<times> u64 \<times> u64 \<times> u64) \<times> bytes" where
  "xxh_stripes v p =
    (if 32 \<le> length (drop 32 p) then xxh_stripes (xxh_lanes v p) (drop 32 p) else (xxh_lanes v p, drop 32 p))"
  by pat_completeness auto

termination
  by (relation "measure (\<lambda>(v, p). length p)") auto

definition xxh_init :: "bytes \<Rightarrow> u64 \<Rightarrow> u64 \<times> bytes" where
  "xxh_init p seed =
    (if 32 \<le> length p then (case xxh_stripes (xxh_seeds seed) p of (v, rest) \<Rightarrow> (xxh_converge v, rest))
     else (seed + XXH_PRIME_5, p))"

definition xxh_mix8 :: "u64 \<Rightarrow> bytes \<Rightarrow> u64" where
  "xxh_mix8 h64 p =
    XXH_rotl64 (h64 XOR (XXH_rotl64 (XXH_read64 p * XXH_PRIME_2) 31 * XXH_PRIME_1)) 27 * XXH_PRIME_1 + XXH_PRIME_4"

definition xxh_mix4 :: "u64 \<Rightarrow> bytes \<Rightarrow> u64" where
  "xxh_mix4 h64 p = XXH_rotl64 (h64 XOR (ucast (XXH_read32 p) * XXH_PRIME_1)) 23 * XXH_PRIME_2 + XXH_PRIME_3"

definition xxh_mix1 :: "u64 \<Rightarrow> u8 \<Rightarrow> u64" where
  "xxh_mix1 h64 b = XXH_rotl64 (h64 XOR (ucast b * XXH_PRIME_5)) 11 * XXH_PRIME_1"

function xxh_tail8 :: "u64 \<Rightarrow> bytes \<Rightarrow> u64 \<times> bytes" where
  "xxh_tail8 h64 p = (if 8 \<le> length p then xxh_tail8 (xxh_mix8 h64 p) (drop 8 p) else (h64, p))"
  by pat_completeness auto

termination
  by (relation "measure (\<lambda>(h, p). length p)") auto

definition xxh_tail4 :: "u64 \<times> bytes \<Rightarrow> u64 \<times> bytes" where
  "xxh_tail4 = (\<lambda>(h64, p). if 4 \<le> length p then (xxh_mix4 h64 p, drop 4 p) else (h64, p))"

fun xxh_tail1 :: "u64 \<Rightarrow> bytes \<Rightarrow> u64" where
  "xxh_tail1 h64 [] = h64"
| "xxh_tail1 h64 (b # p) = xxh_tail1 (xxh_mix1 h64 b) p"

definition xxh_avalanche :: "u64 \<Rightarrow> u64" where
  "xxh_avalanche h0 =
    (let h1 = (h0 XOR drop_bit 33 h0) * XXH_PRIME_2;
         h2 = (h1 XOR drop_bit 29 h1) * XXH_PRIME_3
     in h2 XOR drop_bit 32 h2)"

definition xxh3 :: "bytes \<Rightarrow> u64 \<Rightarrow> u64" where
  "xxh3 data seed =
    (case xxh_init data seed of (h64, p) \<Rightarrow>
     (case xxh_tail4 (xxh_tail8 (h64 + of_nat (length data)) p) of (h64', p') \<Rightarrow>
       xxh_avalanche (xxh_tail1 h64' p')))"

declare xxh_stripes.simps [simp del] xxh_tail8.simps [simp del]

section \<open>xxHash3 on memory\<close>

text \<open>
  The same function as the code computes it, over a pointer \<open>p\<close> and the memory from there to the end
  of its array: the end of the data is the address \<open>p + len\<close>, which wraps, the loops compare
  addresses, and reading outside the array is \<open>None\<close>.
\<close>

function xxh_stripes_at ::
  "u64 \<Rightarrow> u64 \<Rightarrow> u64 \<times> u64 \<times> u64 \<times> u64 \<Rightarrow> bytes \<Rightarrow> ((u64 \<times> u64 \<times> u64 \<times> u64) \<times> u64 \<times> bytes) option" where
  "xxh_stripes_at limit p v mem =
    (if length mem < 32 then None
     else if p + 32 \<le> limit then xxh_stripes_at limit (p + 32) (xxh_lanes v mem) (drop 32 mem)
     else Some (xxh_lanes v mem, p + 32, drop 32 mem))"
  by pat_completeness auto

termination
  by (relation "measure (\<lambda>(limit, p, v, mem). length mem)") auto

function xxh_tail8_at :: "u64 \<Rightarrow> u64 \<Rightarrow> u64 \<Rightarrow> bytes \<Rightarrow> (u64 \<times> u64 \<times> bytes) option" where
  "xxh_tail8_at end h64 p mem =
    (if \<not> p + 8 \<le> end then Some (h64, p, mem)
     else if length mem < 8 then None
     else xxh_tail8_at end (xxh_mix8 h64 mem) (p + 8) (drop 8 mem))"
  by pat_completeness auto

termination
  by (relation "measure (\<lambda>(end, h64, p, mem). length mem)") auto

definition xxh_tail4_at :: "u64 \<Rightarrow> u64 \<Rightarrow> u64 \<Rightarrow> bytes \<Rightarrow> (u64 \<times> u64 \<times> bytes) option" where
  "xxh_tail4_at end h64 p mem =
    (if \<not> p + 4 \<le> end then Some (h64, p, mem)
     else if length mem < 4 then None
     else Some (xxh_mix4 h64 mem, p + 4, drop 4 mem))"

fun xxh_tail1_at :: "u64 \<Rightarrow> u64 \<Rightarrow> u64 \<Rightarrow> bytes \<Rightarrow> u64 option" where
  "xxh_tail1_at end h64 p [] = (if p < end then None else Some h64)"
| "xxh_tail1_at end h64 p (b # mem) =
    (if p < end then xxh_tail1_at end (xxh_mix1 h64 b) (p + 1) mem else Some h64)"

definition xxh3_at :: "u64 \<Rightarrow> u64 \<Rightarrow> bytes \<Rightarrow> u64 \<Rightarrow> u64 option" where
  "xxh3_at p len mem seed = do {
     let end = p + len;
     (h64, p1, mem1) \<leftarrow> (if 32 \<le> len
        then map_option (\<lambda>(v, p', mem'). (xxh_converge v, p', mem')) (xxh_stripes_at (end - 32) p (xxh_seeds seed) mem)
        else Some (seed + XXH_PRIME_5, p, mem));
     (h64, p2, mem2) \<leftarrow> xxh_tail8_at end (h64 + len) p1 mem1;
     (h64, p3, mem3) \<leftarrow> xxh_tail4_at end h64 p2 mem2;
     map_option xxh_avalanche (xxh_tail1_at end h64 p3 mem3) }"

declare xxh_stripes_at.simps [simp del] xxh_tail8_at.simps [simp del]

text \<open>Where nothing wraps, exactly the bytes of the data are read.\<close>

lemma address_le: "a < 2 ^ 64 \<Longrightarrow> b < 2 ^ 64 \<Longrightarrow> (of_nat a :: u64) \<le> of_nat b \<longleftrightarrow> a \<le> b"
  by (simp add: word_le_nat_alt unat_of_nat_64)

lemma address_less: "a < 2 ^ 64 \<Longrightarrow> b < 2 ^ 64 \<Longrightarrow> (of_nat a :: u64) < of_nat b \<longleftrightarrow> a < b"
  by (simp add: word_less_nat_alt unat_of_nat_64)

lemma XXH_read_append:
  "8 \<le> length p \<Longrightarrow> XXH_read64 (p @ rest) = XXH_read64 p" "4 \<le> length p \<Longrightarrow> XXH_read32 (p @ rest) = XXH_read32 p"
  by (simp_all add: XXH_read64_def XXH_read32_def)

lemma xxh_lanes_append: "32 \<le> length p \<Longrightarrow> xxh_lanes v (p @ rest) = xxh_lanes v p"
  by (cases v) (simp add: xxh_lane_def XXH_read_append)

lemma xxh_stripes_at_data:
  assumes "32 \<le> length p" "a + length p + 32 < 2 ^ 64" "xxh_stripes v p = (v', p')"
  shows "xxh_stripes_at (of_nat (a + length p) - 32) (of_nat a) v (p @ rest)
      = Some (v', of_nat (a + length p - length p'), p' @ rest) \<and> length p' \<le> length p"
  using assms
proof (induction v p arbitrary: a rule: xxh_stripes.induct)
  case (1 v p)
  have lim: "(of_nat (a + length p) - 32 :: u64) = of_nat (a + length p - 32)" using "1.prems"(1) by (simp add: of_nat_diff)
  have step: "(of_nat a + 32 :: u64) = of_nat (a + 32)" by simp
  have le: "(of_nat a + 32 :: u64) \<le> of_nat (a + length p) - 32 \<longleftrightarrow> 32 \<le> length (drop 32 p)"
    unfolding lim step using "1.prems"(1,2) by (subst address_le) auto
  show ?case
  proof (cases "32 \<le> length (drop 32 p)")
    case True
    have "xxh_stripes (xxh_lanes v p) (drop 32 p) = (v', p')"
      using "1.prems"(3) True by (subst (asm) xxh_stripes.simps) simp
    moreover have "a + 32 + length (drop 32 p) = a + length p" using True by simp
    ultimately show ?thesis
      using "1.IH" [OF True, of "a + 32"] True "1.prems"(1,2) le xxh_lanes_append [OF "1.prems"(1), of v rest]
      by (subst xxh_stripes_at.simps) (auto simp: ac_simps)
  next
    case False
    then have "xxh_lanes v p = v'" "drop 32 p = p'"
      using "1.prems"(3) by (subst (asm) xxh_stripes.simps; simp)+
    then show ?thesis
      using False "1.prems"(1) le xxh_lanes_append [OF "1.prems"(1), of v rest]
      by (subst xxh_stripes_at.simps) (auto simp: not_le)
  qed
qed


lemma address_end: "n \<le> length p \<Longrightarrow> a + length p + 32 < 2 ^ 64 \<Longrightarrow>
    (of_nat a + of_nat n :: u64) \<le> of_nat (a + length p)"
  using address_le [of "a + n" "a + length p"] by simp

lemma address_past: "length p < n \<Longrightarrow> n \<le> 32 \<Longrightarrow> a + length p + 32 < 2 ^ 64 \<Longrightarrow>
    \<not> (of_nat a + of_nat n :: u64) \<le> of_nat (a + length p)"
  using address_le [of "a + n" "a + length p"] by simp

lemma xxh_tail8_at_data:
  assumes "a + length p + 32 < 2 ^ 64" "xxh_tail8 h p = (h', p')"
  shows "xxh_tail8_at (of_nat (a + length p)) h (of_nat a) (p @ rest)
      = Some (h', of_nat (a + length p - length p'), p' @ rest) \<and> length p' \<le> length p"
  using assms
proof (induction h p arbitrary: a rule: xxh_tail8.induct)
  case (1 h p)
  show ?case
  proof (cases "8 \<le> length p")
    case True
    have "xxh_tail8 (xxh_mix8 h p) (drop 8 p) = (h', p')"
      using "1.prems"(2) True by (subst (asm) xxh_tail8.simps) simp
    moreover have "a + 8 + length (drop 8 p) = a + length p" using True by simp
    moreover have "xxh_mix8 h (p @ rest) = xxh_mix8 h p" using True by (simp add: xxh_mix8_def XXH_read_append)
    ultimately show ?thesis
      using "1.IH" [OF True, of "a + 8"] True "1.prems"(1) address_end [of 8 p a]
      by (subst xxh_tail8_at.simps) (auto simp: ac_simps)
  next
    case False
    then have "h = h'" "p = p'" using "1.prems"(2) by (subst (asm) xxh_tail8.simps; simp)+
    then show ?thesis using address_past [of p 8 a] False "1.prems"(1) by (subst xxh_tail8_at.simps) simp
  qed
qed

lemma xxh_tail4_at_data:
  assumes "a + length p + 32 < 2 ^ 64" "xxh_tail4 (h, p) = (h', p')"
  shows "xxh_tail4_at (of_nat (a + length p)) h (of_nat a) (p @ rest)
      = Some (h', of_nat (a + length p - length p'), p' @ rest) \<and> length p' \<le> length p"
  using assms address_end [of 4 p a] address_past [of p 4 a]
  by (cases "4 \<le> length p") (auto simp: xxh_tail4_at_def xxh_tail4_def xxh_mix4_def XXH_read_append)

lemma xxh_tail1_at_data:
  assumes "a + length p + 32 < 2 ^ 64"
  shows "xxh_tail1_at (of_nat (a + length p)) h (of_nat a) (p @ rest) = Some (xxh_tail1 h p)"
  using assms
proof (induction h p arbitrary: a rule: xxh_tail1.induct)
  case (1 h)
  then show ?case by (cases rest) simp_all
next
  case (2 h b p)
  have "(of_nat a :: u64) < of_nat (a + length (b # p))" using 2(2) by (subst address_less) simp_all
  moreover have "a + 1 + length p = a + length (b # p)" by simp
  ultimately show ?case using 2(1) [of "a + 1"] 2(2) by (simp add: ac_simps)
qed

lemma xxh3_at_data:
  assumes "a + length data + 32 < 2 ^ 64"
  shows "xxh3_at (of_nat a) (of_nat (length data)) (data @ rest) seed = Some (xxh3 data seed)"
proof -
  let ?E = "of_nat (a + length data) :: u64"
  obtain h p where i: "xxh_init data seed = (h, p)" by force
  let ?a1 = "a + length data - length p"
  let ?first = "if 32 \<le> (of_nat (length data) :: u64)
        then map_option (\<lambda>(v, p', mem'). (xxh_converge v, p', mem')) (xxh_stripes_at (?E - 32) (of_nat a) (xxh_seeds seed) (data @ rest))
        else Some (seed + XXH_PRIME_5, of_nat a, data @ rest)"
  have "?first = Some (h, of_nat ?a1, p @ rest) \<and> length p \<le> length data"
  proof -
    have le: "32 \<le> (of_nat (length data) :: u64) \<longleftrightarrow> 32 \<le> length data"
      using address_le [of 32 "length data"] assms by simp
    show ?thesis
    proof (cases "32 \<le> length data")
      case True
      then obtain v where v: "xxh_stripes (xxh_seeds seed) data = (v, p)" "h = xxh_converge v"
        using i by (auto simp: xxh_init_def split: prod.splits)
      show ?thesis using xxh_stripes_at_data [OF True assms v(1)] le True v(2) by simp
    next
      case False
      then show ?thesis using i le by (auto simp: xxh_init_def)
    qed
  qed
  then have 1: "?first = Some (h, of_nat ?a1, p @ rest)" and l1: "length p \<le> length data" by blast+
  obtain h2 p2 where t8: "xxh_tail8 (h + of_nat (length data)) p = (h2, p2)" by force
  have e1: "?a1 + length p = a + length data" using l1 by simp
  let ?a2 = "?a1 + length p - length p2"
  have 2: "xxh_tail8_at ?E (h + of_nat (length data)) (of_nat ?a1) (p @ rest) = Some (h2, of_nat ?a2, p2 @ rest)"
    and l2: "length p2 \<le> length p"
    using xxh_tail8_at_data [OF _ t8, of ?a1 rest] assms l1 unfolding e1 by simp_all
  obtain h3 p3 where t4: "xxh_tail4 (h2, p2) = (h3, p3)" by force
  have e2: "?a2 + length p2 = a + length data" using l1 l2 by simp
  let ?a3 = "?a2 + length p2 - length p3"
  have 3: "xxh_tail4_at ?E h2 (of_nat ?a2) (p2 @ rest) = Some (h3, of_nat ?a3, p3 @ rest)"
    and l3: "length p3 \<le> length p2"
    using xxh_tail4_at_data [OF _ t4, of ?a2 rest] assms l1 l2 unfolding e2 by simp_all
  have e3: "?a3 + length p3 = a + length data" using l1 l2 l3 by simp
  have 4: "xxh_tail1_at ?E h3 (of_nat ?a3) (p3 @ rest) = Some (xxh_tail1 h3 p3)"
    using xxh_tail1_at_data [of ?a3 p3 h3 rest] assms unfolding e3 by simp
  have E: "of_nat a + of_nat (length data) = ?E" by simp
  show ?thesis
    unfolding xxh3_at_def Let_def E 1 bind.bind_lunit prod.case 2 3 4 using i t8 t4 by (simp add: xxh3_def)
qed

section \<open>SipHash-2-4\<close>

type_synonym sip_state = "u64 \<times> u64 \<times> u64 \<times> u64"

fun SIPROUND :: "sip_state \<Rightarrow> sip_state" where
  "SIPROUND (v0, v1, v2, v3) =
    (let v0 = v0 + v1; v1 = XXH_rotl64 v1 13; v1 = v1 XOR v0; v0 = XXH_rotl64 v0 32;
         v2 = v2 + v3; v3 = XXH_rotl64 v3 16; v3 = v3 XOR v2;
         v0 = v0 + v3; v3 = XXH_rotl64 v3 21; v3 = v3 XOR v0;
         v2 = v2 + v1; v1 = XXH_rotl64 v1 17; v1 = v1 XOR v2; v2 = XXH_rotl64 v2 32
     in (v0, v1, v2, v3))"

fun sip_absorb :: "sip_state \<Rightarrow> u64 \<Rightarrow> sip_state" where
  "sip_absorb (v0, v1, v2, v3) m =
    (case SIPROUND (SIPROUND (v0, v1, v2, v3 XOR m)) of (v0, v1, v2, v3) \<Rightarrow> (v0 XOR m, v1, v2, v3))"

function sip_blocks :: "sip_state \<Rightarrow> bytes \<Rightarrow> sip_state \<times> bytes" where
  "sip_blocks v p =
    (if 8 \<le> length p then sip_blocks (sip_absorb v (read_le (take 8 p))) (drop 8 p) else (v, p))"
  by pat_completeness auto
termination
  by (relation "measure (\<lambda>(v, p). length p)") auto

declare sip_blocks.simps [simp del]

fun sip_finish :: "sip_state \<Rightarrow> u64" where
  "sip_finish (v0, v1, v2, v3) =
    (case SIPROUND (SIPROUND (SIPROUND (SIPROUND (v0, v1, v2 XOR 0xff, v3)))) of
      (v0, v1, v2, v3) \<Rightarrow> v0 XOR v1 XOR v2 XOR v3)"

text \<open>The fall-through switch adds the 0 to 7 remaining bytes below the length byte.\<close>

definition SIP64 :: "bytes \<Rightarrow> u64 \<Rightarrow> u64 \<Rightarrow> u64" where
  "SIP64 data k0 k1 =
    (case sip_blocks (0x736f6d6570736575 XOR k0, 0x646f72616e646f6d XOR k1,
                      0x6c7967656e657261 XOR k0, 0x7465646279746573 XOR k1) data of
       (v, left) \<Rightarrow>
         sip_finish (sip_absorb v (push_bit 56 (of_nat (length data)) OR read_le left)))"

section \<open>Murmur3\<close>

definition ROTL32 :: "u32 \<Rightarrow> nat \<Rightarrow> u32" where
  "ROTL32 x r = push_bit r x OR drop_bit (32 - r) x"

definition FMIX32 :: "u32 \<Rightarrow> u32" where
  "FMIX32 h0 =
    (let h1 = (h0 XOR drop_bit 16 h0) * 0x85ebca6b;
         h2 = (h1 XOR drop_bit 13 h1) * 0xc2b2ae35
     in h2 XOR drop_bit 16 h2)"

type_synonym mm_state = "u32 \<times> u32 \<times> u32 \<times> u32"

definition mm_c1 :: u32 where "mm_c1 = 0x239b961b"
definition mm_c2 :: u32 where "mm_c2 = 0xab0e9789"
definition mm_c3 :: u32 where "mm_c3 = 0x38b34ae5"
definition mm_c4 :: u32 where "mm_c4 = 0xa1e38b93"

definition mm_k :: "u32 \<Rightarrow> u32 \<Rightarrow> nat \<Rightarrow> u32 \<Rightarrow> u32" where
  "mm_k k c r c' = ROTL32 (k * c) r * c'"

fun mm_block :: "mm_state \<Rightarrow> bytes \<Rightarrow> mm_state" where
  "mm_block (h1, h2, h3, h4) p =
    (let h1 = h1 XOR mm_k (XXH_read32 p) mm_c1 15 mm_c2;
         h1 = (ROTL32 h1 19 + h2) * 5 + 0x561ccd1b;
         h2 = h2 XOR mm_k (XXH_read32 (drop 4 p)) mm_c2 16 mm_c3;
         h2 = (ROTL32 h2 17 + h3) * 5 + 0x0bcaa747;
         h3 = h3 XOR mm_k (XXH_read32 (drop 8 p)) mm_c3 17 mm_c4;
         h3 = (ROTL32 h3 15 + h4) * 5 + 0x96cd1c35;
         h4 = h4 XOR mm_k (XXH_read32 (drop 12 p)) mm_c4 18 mm_c1;
         h4 = (ROTL32 h4 13 + h1) * 5 + 0x32ac3b17
     in (h1, h2, h3, h4))"

function mm_blocks :: "mm_state \<Rightarrow> bytes \<Rightarrow> mm_state \<times> bytes" where
  "mm_blocks h p =
    (if 16 \<le> length p then mm_blocks (mm_block h p) (drop 16 p) else (h, p))"
  by pat_completeness auto
termination
  by (relation "measure (\<lambda>(h, p). length p)") auto

declare mm_blocks.simps [simp del]

text \<open>
  The fall-through switch on the 0 to 15 bytes left: each group of up to four bytes is mixed
  into its own state word, and only when at least one byte of the group is there.
\<close>

definition mm_tail :: "mm_state \<Rightarrow> bytes \<Rightarrow> mm_state" where
  "mm_tail = (\<lambda>(h1, h2, h3, h4) rest.
    ((if 1 \<le> length rest then h1 XOR mm_k (read_le (take 4 rest)) mm_c1 15 mm_c2 else h1),
     (if 5 \<le> length rest then h2 XOR mm_k (read_le (take 4 (drop 4 rest))) mm_c2 16 mm_c3 else h2),
     (if 9 \<le> length rest then h3 XOR mm_k (read_le (take 4 (drop 8 rest))) mm_c3 17 mm_c4 else h3),
     (if 13 \<le> length rest then h4 XOR mm_k (read_le (take 4 (drop 12 rest))) mm_c4 18 mm_c1 else h4)))"

fun mm_finish :: "mm_state \<Rightarrow> u32 \<Rightarrow> u64" where
  "mm_finish (h1, h2, h3, h4) len =
    (let h1 = h1 XOR len; h2 = h2 XOR len; h3 = h3 XOR len; h4 = h4 XOR len;
         h1 = h1 + h2 + h3 + h4; h2 = h2 + h1; h3 = h3 + h1; h4 = h4 + h1;
         h1 = FMIX32 h1; h2 = FMIX32 h2; h3 = FMIX32 h3; h4 = FMIX32 h4;
         h1 = h1 + h2 + h3 + h4; h2 = h2 + h1
     in push_bit 32 (ucast h2) OR ucast h1)"

definition MM86128 :: "bytes \<Rightarrow> u32 \<Rightarrow> u64" where
  "MM86128 data seed =
    (case mm_blocks (seed, seed, seed, seed) data of (h, rest) \<Rightarrow>
       mm_finish (mm_tail h rest) (of_nat (length data)))"

section \<open>The exported functions\<close>

definition hashmap_sip :: "bytes \<Rightarrow> u64 \<Rightarrow> u64 \<Rightarrow> u64" where
  "hashmap_sip data seed0 seed1 = SIP64 data seed0 seed1"

definition hashmap_murmur :: "bytes \<Rightarrow> u64 \<Rightarrow> u64 \<Rightarrow> u64" where
  "hashmap_murmur data seed0 seed1 = MM86128 data (ucast seed0)"

definition hashmap_xxhash3 :: "bytes \<Rightarrow> u64 \<Rightarrow> u64 \<Rightarrow> u64" where
  "hashmap_xxhash3 data seed0 seed1 = xxh3 data seed0"

section \<open>Evaluation\<close>

lemmas hash_eval =
  hashmap_xxhash3_def hashmap_murmur_def
  xxh3_def xxh_init_def xxh_stripes.simps xxh_seeds_def xxh_lane_def xxh_merge_def xxh_mix8_def xxh_mix4_def xxh_mix1_def xxh_tail8.simps xxh_tail4_def
  xxh_avalanche_def XXH_read32_def XXH_read64_def read_le_def XXH_rotl64_def
  XXH_PRIME_1_def XXH_PRIME_2_def XXH_PRIME_3_def XXH_PRIME_4_def XXH_PRIME_5_def
  MM86128_def mm_blocks.simps mm_tail_def mm_k_def ROTL32_def FMIX32_def
  mm_c1_def mm_c2_def mm_c3_def mm_c4_def Let_def of_char_def

declare SIPROUND.simps [simp del] sip_absorb.simps [simp del] sip_finish.simps [simp del]

lemma sip_hello_state:
  "SIP64 (bstr ''hello'') 1 2 =
    sip_finish (sip_absorb (8317987319222330740, 7237128888997146479, 7816392313619706464,
      8387220255154660721) 360288448750052712)"
  by (simp add: SIP64_def sip_blocks.simps read_le_def of_char_def)

lemma sip_hello: "hashmap_sip (bstr ''hello'') 1 2 = 2957200328589801622"
  unfolding hashmap_sip_def sip_hello_state
  by (simp add: sip_absorb.simps sip_finish.simps SIPROUND.simps XXH_rotl64_def Let_def)

text \<open>
  On the inputs of the source's own tests the three hash functions return the values the
  tests assert.
\<close>

theorem hash_known_answers:
  "hashmap_sip (bstr ''hello'') 1 2 = 2957200328589801622
   \<and> hashmap_murmur (bstr ''hello'') 1 2 = 1682575153221130884
   \<and> hashmap_xxhash3 (bstr ''hello'') 1 2 = 2584346877953614258"
  by (intro conjI, rule sip_hello) (simp_all add: hash_eval)

end
