(* ===== verification/KV.thy ===== *)
theory KV
  imports Item_Store Hash_Functions
begin

text \<open>
  The entries of the databases, from \<^verbatim>\<open>src/include/kv.h\<close> and \<^verbatim>\<open>src/include/kv.c\<close>, and the
  database itself: the hash map of entries as the commands use it, keyed by the xxHash3 of the
  key with seed 0. A key or value is the byte list its pointer and length denote.
\<close>

section \<open>Entries\<close>

record entry =
  e_key :: bytes
  e_val :: bytes

definition keylen :: "entry \<Rightarrow> u64" where
  "keylen e = of_nat (length (e_key e))"

text \<open>
  \<^verbatim>\<open>memcmp\<close>: 0 when the first \<open>n\<close> bytes agree, else the difference at the first that does not.
\<close>

fun memcmp :: "bytes \<Rightarrow> bytes \<Rightarrow> nat \<Rightarrow> u32" where
  "memcmp (a # as) (b # bs) (Suc n) = (if a = b then memcmp as bs n else ucast a - ucast b)"
| "memcmp _ _ _ = 0"

text \<open>
  The difference of the two lengths is a \<^verbatim>\<open>size_t\<close> returned as an \<^verbatim>\<open>int\<close>: only its low 32 bits
  are kept.
\<close>

definition entry_compare :: "entry \<Rightarrow> entry \<Rightarrow> u32" where
  "entry_compare ea eb =
    (if keylen ea \<noteq> keylen eb then ucast (keylen ea - keylen eb)
     else memcmp (e_key ea) (e_key eb) (unat (keylen ea)))"

definition entry_hash_xxhash3 :: "entry \<Rightarrow> u64 \<Rightarrow> u64 \<Rightarrow> u64" where
  "entry_hash_xxhash3 ea seed0 seed1 = hashmap_xxhash3 (e_key ea) seed0 seed1"

text \<open>The multiplicative hash kept beside it; the seeds are ignored.\<close>

definition entry_hash :: "entry \<Rightarrow> u64 \<Rightarrow> u64 \<Rightarrow> u64" where
  "entry_hash ea seed0 seed1 = foldl (\<lambda>hash b. hash * 31 + ucast b) 0 (e_key ea)"

section \<open>The comparison\<close>

lemma u8_ucast_inj: "ucast (a::u8) = (ucast b::u32) \<longleftrightarrow> a = b"
  by transfer simp

lemma u8_diff_0: "ucast (a::u8) - ucast b = (0::u32) \<longleftrightarrow> a = b"
  using u8_ucast_inj by simp

lemma ucast_diff_32: "ucast (x - y) = (ucast x - ucast y :: u32)" for x y :: u64
proof -
  have "take_bit 32 (a - b) = take_bit 32 (take_bit 64 a - take_bit 64 b)" for a b :: int
  proof -
    have "take_bit 32 (take_bit 64 c) = take_bit 32 c" for c :: int by simp
    then show ?thesis by (metis take_bit_diff)
  qed
  then show ?thesis by transfer simp
qed

lemma ucast_of_nat_32: "ucast (of_nat n :: u64) = (of_nat n :: u32)"
  by transfer simp

lemma memcmp_0: "length as = n \<Longrightarrow> length bs = n \<Longrightarrow> memcmp as bs n = 0 \<longleftrightarrow> as = bs"
  by (induction as bs n rule: memcmp.induct) (auto simp: u8_ucast_inj)

text \<open>Keys the comparison is exact on: their lengths fit the \<^verbatim>\<open>int\<close> it returns.\<close>

definition key_ok :: "bytes \<Rightarrow> bool" where
  "key_ok k \<longleftrightarrow> length k < 2 ^ 32"

lemma keylen_inj: "key_ok (e_key a) \<Longrightarrow> key_ok (e_key b) \<Longrightarrow>
    keylen a = keylen b \<longleftrightarrow> length (e_key a) = length (e_key b)"
  by (auto simp: keylen_def key_ok_def word_unat_eq_iff unsigned_of_nat take_bit_nat_eq_self)

lemma keylen_diff: "key_ok (e_key a) \<Longrightarrow> key_ok (e_key b) \<Longrightarrow> ucast (keylen a - keylen b) = (0::u32)
    \<longleftrightarrow> length (e_key a) = length (e_key b)"
proof -
  assume ok: "key_ok (e_key a)" "key_ok (e_key b)"
  have "ucast (keylen a - keylen b) = (of_nat (length (e_key a)) - of_nat (length (e_key b)) :: u32)"
    by (simp add: keylen_def ucast_diff_32 ucast_of_nat_32)
  also have "\<dots> = 0 \<longleftrightarrow> (of_nat (length (e_key a)) :: u32) = of_nat (length (e_key b))" by simp
  also have "\<dots> \<longleftrightarrow> length (e_key a) = length (e_key b)"
    using ok by (auto simp: key_ok_def word_unat_eq_iff unsigned_of_nat take_bit_nat_eq_self)
  finally show ?thesis .
qed

lemma entry_compare_exact:
  assumes "key_ok (e_key a)" "key_ok (e_key b)"
  shows "entry_compare a b = 0 \<longleftrightarrow> e_key a = e_key b"
proof (cases "length (e_key a) = length (e_key b)")
  case True
  then have "unat (keylen a) = length (e_key a)"
    using assms by (simp add: keylen_def key_ok_def unsigned_of_nat take_bit_nat_eq_self)
  then show ?thesis using True keylen_inj [OF assms] by (simp add: entry_compare_def memcmp_0)
next
  case False
  then show ?thesis
    using keylen_inj [OF assms] keylen_diff [OF assms] by (auto simp: entry_compare_def)
qed

section \<open>The database\<close>

definition key_hash :: "bytes \<Rightarrow> u64" where
  "key_hash k = hashmap_xxhash3 k 0 0"

text \<open>The entry a lookup passes: only the key fields are set.\<close>

definition probe_entry :: "bytes \<Rightarrow> entry" where
  "probe_entry k = \<lparr>e_key = k, e_val = []\<rparr>"

interpretation db: hashed_items e_key probe_entry key_hash key_ok entry_compare
  by unfold_locales (simp_all add: probe_entry_def entry_compare_exact)

abbreviation db_inv :: "entry hashmap \<Rightarrow> bool" where
  "db_inv \<equiv> hs_inv e_key key_hash key_ok"

definition db_abs :: "entry hashmap \<Rightarrow> bytes \<rightharpoonup> bytes" where
  "db_abs m k = map_option e_val (hs_abs e_key key_hash m k)"

lemma db_abs_update:
  "hs_abs e_key key_hash m' = (hs_abs e_key key_hash m)(k := r) \<Longrightarrow>
    db_abs m' = (db_abs m)(k := map_option e_val r)"
  by (simp add: db_abs_def fun_eq_iff)

end
