(* ===== verification/KV_Props.thy ===== *)
theory KV_Props
  imports KV
begin

text \<open>
  The properties of a database: the hash map of entries keyed by the xxHash3 of the key. They
  rest on the interpretation of the store contract in \<open>KV\<close>.
\<close>

section \<open>A fresh database\<close>

definition demo_db :: "entry hashmap" where
  "demo_db = the (hashmap_new True \<lparr>e_key = [], e_val = []\<rparr> 16 0 0 entry_hash_xxhash3 (Some entry_compare) True)"

lemma demo_db: "db_inv demo_db \<and> hs_abs e_key key_hash demo_db = Map.empty \<and> hm_count demo_db = 0"
  using db.new_law [of "\<lparr>e_key = [], e_val = []\<rparr>" 16 0 0 entry_hash_xxhash3 True] by (auto simp: demo_db_def)

section \<open>Refinement\<close>

text \<open>
  Every sequence of lookups, insertions and deletions on a database that starts consistent and
  cannot reach 65535 entries returns, answers each operation as a finite map from keys to entries
  does, and ends consistent, in the state of that map; the growing and shrinking of the table and
  the moving of entries are not observable.
\<close>

theorem database_refines_map:
  assumes "db_inv m" "\<forall>q \<in> set ops. key_ok (op_key e_key q)" "hm_count m + length ops \<le> 65535"
  shows "\<exists>m'. run_store (hs_get probe_entry key_hash) (hs_set e_key key_hash) (hs_del probe_entry key_hash) ops m
      = Some (m', snd (spec_store e_key ops (hs_abs e_key key_hash m)))
    \<and> db_inv m' \<and> hs_abs e_key key_hash m' = fst (spec_store e_key ops (hs_abs e_key key_hash m))
    \<and> hm_count m' = card (dom (hs_abs e_key key_hash m'))"
  using db.run_refines [OF assms] db.count_law by blast

theorem database_refines_map_witness:
  "\<exists>m'. run_store (hs_get probe_entry key_hash) (hs_set e_key key_hash) (hs_del probe_entry key_hash)
      [Put \<lparr>e_key = bstr ''a'', e_val = bstr ''1''\<rparr>, Look (bstr ''a''), Del (bstr ''a''), Look (bstr ''a'')] demo_db
    = Some (m', [None, Some \<lparr>e_key = bstr ''a'', e_val = bstr ''1''\<rparr>,
        Some \<lparr>e_key = bstr ''a'', e_val = bstr ''1''\<rparr>, None])"
  using database_refines_map [of demo_db "[Put \<lparr>e_key = bstr ''a'', e_val = bstr ''1''\<rparr>, Look (bstr ''a''),
      Del (bstr ''a''), Look (bstr ''a'')]"] demo_db
  by (auto simp: key_ok_def)

section \<open>Comparison of keys\<close>

text \<open>
  On keys shorter than 2^32 bytes \<open>entry_compare\<close> is zero exactly for equal keys, and it is
  symmetric in that.
\<close>

theorem entry_compare_decides:
  assumes "length (e_key a) < 2 ^ 32" "length (e_key b) < 2 ^ 32"
  shows "(entry_compare a b = 0 \<longleftrightarrow> e_key a = e_key b) \<and> (entry_compare a b = 0 \<longleftrightarrow> entry_compare b a = 0)"
  using entry_compare_exact [of a b] entry_compare_exact [of b a] assms by (auto simp: key_ok_def)

theorem entry_compare_decides_witness:
  "entry_compare \<lparr>e_key = bstr ''ab'', e_val = []\<rparr> \<lparr>e_key = bstr ''ac'', e_val = []\<rparr> \<noteq> 0"
  using entry_compare_decides [of "\<lparr>e_key = bstr ''ab'', e_val = []\<rparr>" "\<lparr>e_key = bstr ''ac'', e_val = []\<rparr>"]
  by (simp add: of_char_def)

text \<open>
  The bound is needed: \<open>entry_compare\<close> returns only the low 32 bits of the difference of the
  lengths, so an entry whose key is exactly 2^32 bytes long compares equal to one whose key is
  empty.
\<close>

theorem entry_compare_truncates:
  assumes "length k = 2 ^ 32"
  shows "entry_compare \<lparr>e_key = k, e_val = v\<rparr> \<lparr>e_key = [], e_val = v'\<rparr> = 0"
proof -
  have "keylen \<lparr>e_key = k, e_val = v\<rparr> = 2 ^ 32" "keylen \<lparr>e_key = [], e_val = v'\<rparr> = 0"
    using assms by (simp_all add: keylen_def)
  moreover have "ucast (2 ^ 32 :: u64) = (0 :: u32)"
    using ucast_of_nat_32 [of "2 ^ 32"] by simp
  ultimately show ?thesis by (simp add: entry_compare_def)
qed

theorem entry_compare_truncates_witness:
  "entry_compare \<lparr>e_key = replicate (2 ^ 32) 0, e_val = []\<rparr> \<lparr>e_key = [], e_val = []\<rparr> = 0"
  by (rule entry_compare_truncates) (rule length_replicate)

end
