(* ===== verification/Fifo.thy ===== *)
theory Fifo
  imports Prelude
begin

text \<open>
  The contract of the queues between threads, seen from one operation at a time: a bounded FIFO
  list. \<open>fifo\<close> says nothing about a full queue, \<open>bounded_fifo\<close> adds that enqueueing on one
  is refused. Operations are partial: \<open>None\<close> is a call that does not return.
\<close>

section \<open>Draining\<close>

text \<open>Dequeue up to \<open>n\<close> times, stopping at the first empty answer: a polling loop.\<close>

fun drain :: "('s \<Rightarrow> ('s \<times> 'a option) option) \<Rightarrow> nat \<Rightarrow> 's \<Rightarrow> ('s \<times> 'a list) option" where
  "drain deq 0 s = None"
| "drain deq (Suc n) s =
    (case deq s of None \<Rightarrow> None
     | Some (s', None) \<Rightarrow> Some (s', [])
     | Some (s', Some x) \<Rightarrow> map_option (\<lambda>(s'', xs). (s'', x # xs)) (drain deq n s'))"

text \<open>Enqueue a list of elements; \<open>None\<close> as soon as a call does not return or is refused.\<close>

fun enq_all :: "('s \<Rightarrow> 'a \<Rightarrow> ('s \<times> bool) option) \<Rightarrow> 'a list \<Rightarrow> 's \<Rightarrow> 's option" where
  "enq_all enq [] s = Some s"
| "enq_all enq (x # xs) s =
    (case enq s x of Some (s', True) \<Rightarrow> enq_all enq xs s' | _ \<Rightarrow> None)"

section \<open>Contracts\<close>

locale fifo =
  fixes inv :: "'s \<Rightarrow> bool" and cap :: "'s \<Rightarrow> nat" and abs :: "'s \<Rightarrow> 'a list"
    and enq :: "'s \<Rightarrow> 'a \<Rightarrow> ('s \<times> bool) option" and deq :: "'s \<Rightarrow> ('s \<times> 'a option) option"
  assumes enq_law: "inv s \<Longrightarrow> length (abs s) < cap s \<Longrightarrow>
      \<exists>s'. enq s x = Some (s', True) \<and> inv s' \<and> abs s' = abs s @ [x] \<and> cap s' = cap s"
    and deq_law: "inv s \<Longrightarrow>
      \<exists>s'. deq s = Some (s', if abs s = [] then None else Some (hd (abs s)))
        \<and> inv s' \<and> abs s' = tl (abs s) \<and> cap s' = cap s"
    and cap_law: "inv s \<Longrightarrow> length (abs s) \<le> cap s"
begin

lemma enq_all_law:
  "inv s \<Longrightarrow> length (abs s) + length xs \<le> cap s \<Longrightarrow>
    \<exists>s'. enq_all enq xs s = Some s' \<and> inv s' \<and> abs s' = abs s @ xs \<and> cap s' = cap s"
proof (induction xs arbitrary: s)
  case (Cons x xs)
  then have "length (abs s) < cap s" by simp
  from enq_law [OF Cons.prems(1) this, of x] obtain s1 where
    s1: "enq s x = Some (s1, True)" "inv s1" "abs s1 = abs s @ [x]" "cap s1 = cap s" by blast
  have "length (abs s1) + length xs \<le> cap s1" using Cons.prems(2) s1 by simp
  from Cons.IH [OF s1(2) this] show ?case using s1 by auto
qed simp

lemma drain_law:
  "inv s \<Longrightarrow> length (abs s) < n \<Longrightarrow>
    \<exists>s'. drain deq n s = Some (s', abs s) \<and> inv s' \<and> abs s' = [] \<and> cap s' = cap s"
proof (induction n arbitrary: s)
  case (Suc n)
  from deq_law [OF Suc.prems(1)] obtain s1 where
    s1: "deq s = Some (s1, if abs s = [] then None else Some (hd (abs s)))" "inv s1"
      "abs s1 = tl (abs s)" "cap s1 = cap s" by blast
  show ?case
  proof (cases "abs s")
    case Nil
    then show ?thesis using s1 by simp
  next
    case (Cons x xs)
    then have "length (abs s1) < n" using Suc.prems(2) s1(3) by simp
    from Suc.IH [OF s1(2) this] show ?thesis using s1 Cons by auto
  qed
qed simp

text \<open>What is sent to an empty queue comes out in order.\<close>

lemma send_drain:
  assumes "inv s" "abs s = []" "length xs \<le> cap s"
  shows "\<exists>s1 s2. enq_all enq xs s = Some s1 \<and> drain deq (cap s + 1) s1 = Some (s2, xs) \<and> inv s2 \<and> abs s2 = []"
proof -
  obtain s1 where s1: "enq_all enq xs s = Some s1" "inv s1" "abs s1 = xs"
    using enq_all_law [OF assms(1), of xs] assms(2,3) by auto
  then have "length (abs s1) < cap s + 1" using assms(3) by simp
  from drain_law [OF s1(2) this] show ?thesis using s1 by auto
qed

end

locale bounded_fifo = fifo +
  assumes full_law: "inv s \<Longrightarrow> length (abs s) = cap s \<Longrightarrow> enq s x = Some (s, False)"
begin

lemma enq_total: "inv s \<Longrightarrow> \<exists>s' b. enq s x = Some (s', b) \<and> (b \<longleftrightarrow> length (abs s) < cap s)"
  using enq_law [of s x] full_law [of s x] cap_law [of s] by (cases "length (abs s) < cap s") auto

end

end
