(* ===== verification/Mpmcq.thy ===== *)
theory Mpmcq
  imports Fifo
begin

text \<open>
  The multi-producer multi-consumer ring of \<^verbatim>\<open>src/include/mpmcq.c\<close>, the mailbox of every
  reactor. Each cell carries a sequence number; the two positions and the sequence numbers are
  \<^verbatim>\<open>size_t\<close> and wrap. The operations are modelled one at a time (no other thread moves during
  a call); the claim of a position and the publication of the cell are separate steps. A call
  that spins for as long as no other thread moves is \<open>None\<close>; \<open>Mpmcq_Threads\<close> lets the others move.
\<close>

section \<open>State and operations\<close>

record 'a mpmcq_cell =
  cell_seq :: u64
  cell_data :: "'a option"

record 'a mpmcq =
  mq_buffer :: "'a mpmcq_cell list"
  mq_buffer_mask :: u64
  mq_enqueue_pos :: u64
  mq_dequeue_pos :: u64

definition mpmcq_init :: "nat \<Rightarrow> 'a mpmcq" where
  "mpmcq_init n =
    \<lparr>mq_buffer = map (\<lambda>i. \<lparr>cell_seq = of_nat i, cell_data = None\<rparr>) [0..<n],
     mq_buffer_mask = of_nat n - 1, mq_enqueue_pos = 0, mq_dequeue_pos = 0\<rparr>"

definition cell_at :: "'a mpmcq \<Rightarrow> u64 \<Rightarrow> nat" where
  "cell_at q pos = unat (pos AND mq_buffer_mask q)"

text \<open>
  The claiming loop of \<^verbatim>\<open>mpmcq_enqueue\<close>. The difference \<open>diff\<close> is unsigned, so the test
  \<open>diff < 0\<close> that would report a full queue never holds. The compare-and-exchange loads the
  current position into \<open>pos\<close> when it fails.
\<close>

partial_function (option) enqueue_claim :: "'a mpmcq \<Rightarrow> u64 \<Rightarrow> ('a mpmcq \<times> u64 option) option" where
  "enqueue_claim q pos =
    (let diff = cell_seq (mq_buffer q ! cell_at q pos) - pos
     in if diff = 0
        then (if mq_enqueue_pos q = pos then Some (q\<lparr>mq_enqueue_pos := pos + 1\<rparr>, Some pos)
              else enqueue_claim q (mq_enqueue_pos q))
        else if diff < 0 then Some (q, None)
        else enqueue_claim q (mq_enqueue_pos q))"

definition enqueue_publish :: "'a mpmcq \<Rightarrow> u64 \<Rightarrow> 'a \<Rightarrow> 'a mpmcq" where
  "enqueue_publish q pos data =
    q\<lparr>mq_buffer := (mq_buffer q)[cell_at q pos := \<lparr>cell_seq = pos + 1, cell_data = Some data\<rparr>]\<rparr>"

definition mpmcq_enqueue :: "'a mpmcq \<Rightarrow> 'a \<Rightarrow> ('a mpmcq \<times> bool) option" where
  "mpmcq_enqueue q data =
    (case enqueue_claim q (mq_enqueue_pos q) of
       None \<Rightarrow> None
     | Some (q', None) \<Rightarrow> Some (q', False)
     | Some (q', Some pos) \<Rightarrow> Some (enqueue_publish q' pos data, True))"

text \<open>In \<^verbatim>\<open>mpmcq_dequeue\<close> the difference is a signed \<^verbatim>\<open>ssize_t\<close>.\<close>

partial_function (option) dequeue_claim :: "'a mpmcq \<Rightarrow> u64 \<Rightarrow> ('a mpmcq \<times> u64 option) option" where
  "dequeue_claim q pos =
    (let diff = cell_seq (mq_buffer q ! cell_at q pos) - (pos + 1)
     in if diff = 0
        then (if mq_dequeue_pos q = pos then Some (q\<lparr>mq_dequeue_pos := pos + 1\<rparr>, Some pos)
              else dequeue_claim q (mq_dequeue_pos q))
        else if sint diff < 0 then Some (q, None)
        else dequeue_claim q (mq_dequeue_pos q))"

definition dequeue_release :: "'a mpmcq \<Rightarrow> u64 \<Rightarrow> 'a mpmcq \<times> 'a option" where
  "dequeue_release q pos =
    (let data = cell_data (mq_buffer q ! cell_at q pos)
     in (q\<lparr>mq_buffer := (mq_buffer q)[cell_at q pos :=
             (mq_buffer q ! cell_at q pos)\<lparr>cell_seq := pos + mq_buffer_mask q + 1\<rparr>]\<rparr>, data))"

definition mpmcq_dequeue :: "'a mpmcq \<Rightarrow> ('a mpmcq \<times> 'a option) option" where
  "mpmcq_dequeue q =
    (case dequeue_claim q (mq_dequeue_pos q) of
       None \<Rightarrow> None
     | Some (q', None) \<Rightarrow> Some (q', None)
     | Some (q', Some pos) \<Rightarrow> Some (dequeue_release q' pos))"

definition mpmcq_count :: "'a mpmcq \<Rightarrow> u64" where
  "mpmcq_count q = mq_enqueue_pos q - mq_dequeue_pos q"

declare enqueue_claim.simps [code] dequeue_claim.simps [code]

section \<open>The ring as a list\<close>

text \<open>
  Cell \<open>i\<close> counted from the dequeue position: the first \<open>length xs\<close> cells hold the elements
  and are stamped one above their position, the others are stamped with their position.
\<close>

definition mq_cell :: "'a mpmcq \<Rightarrow> nat \<Rightarrow> 'a mpmcq_cell" where
  "mq_cell q i = mq_buffer q ! ((unat (mq_dequeue_pos q) + i) mod length (mq_buffer q))"

definition mq_rep :: "'a mpmcq \<Rightarrow> 'a list \<Rightarrow> bool" where
  "mq_rep q xs \<longleftrightarrow> (\<exists>k. 1 \<le> k \<and> k \<le> 62 \<and> length (mq_buffer q) = 2 ^ k)
     \<and> mq_buffer_mask q = of_nat (length (mq_buffer q)) - 1
     \<and> length xs \<le> length (mq_buffer q)
     \<and> mq_enqueue_pos q = mq_dequeue_pos q + of_nat (length xs)
     \<and> (\<forall>i < length (mq_buffer q).
          if i < length xs
          then mq_cell q i = \<lparr>cell_seq = mq_dequeue_pos q + of_nat i + 1, cell_data = Some (xs ! i)\<rparr>
          else cell_seq (mq_cell q i) = mq_dequeue_pos q + of_nat i)"

definition mq_inv :: "'a mpmcq \<Rightarrow> bool" where
  "mq_inv q \<longleftrightarrow> (\<exists>xs. mq_rep q xs)"

definition mq_cap :: "'a mpmcq \<Rightarrow> nat" where
  "mq_cap q = length (mq_buffer q)"

definition mq_abs :: "'a mpmcq \<Rightarrow> 'a list" where
  "mq_abs q = map (\<lambda>i. the (cell_data (mq_cell q i))) [0..<unat (mq_enqueue_pos q - mq_dequeue_pos q)]"

lemma mq_rep_bound: "mq_rep q xs \<Longrightarrow> 2 \<le> mq_cap q \<and> mq_cap q \<le> 2 ^ 62"
proof -
  assume "mq_rep q xs"
  then obtain k where k: "1 \<le> k" "k \<le> 62" "mq_cap q = 2 ^ k" by (auto simp: mq_rep_def mq_cap_def)
  have "(2::nat) ^ 1 \<le> 2 ^ k" "(2::nat) ^ k \<le> 2 ^ 62" using k by (intro power_increasing; simp)+
  then show ?thesis using k by simp
qed

lemma mq_rep_len: "mq_rep q xs \<Longrightarrow> unat (mq_enqueue_pos q - mq_dequeue_pos q) = length xs"
proof -
  assume rep: "mq_rep q xs"
  then have "length xs < 2 ^ 64" using mq_rep_bound [OF rep] by (auto simp: mq_rep_def mq_cap_def)
  then show ?thesis using rep unat_of_nat_64 [of "length xs"] by (simp add: mq_rep_def)
qed

lemma mq_rep_abs: "mq_rep q xs \<Longrightarrow> mq_abs q = xs"
proof -
  assume rep: "mq_rep q xs"
  then have "length (mq_abs q) = length xs" by (simp add: mq_abs_def mq_rep_len)
  moreover have "mq_abs q ! i = xs ! i" if "i < length xs" for i
  proof -
    have "i < length (mq_buffer q)" using rep that by (auto simp: mq_rep_def)
    then have "mq_cell q i = \<lparr>cell_seq = mq_dequeue_pos q + of_nat i + 1, cell_data = Some (xs ! i)\<rparr>"
      using rep that by (simp add: mq_rep_def)
    moreover have "mq_abs q ! i = the (cell_data (mq_cell q i))"
      unfolding mq_abs_def using that by (subst nth_map) (simp_all only: mq_rep_len [OF rep] length_upt nth_upt, simp_all)
    ultimately show ?thesis by simp
  qed
  ultimately show ?thesis by (simp add: list_eq_iff_nth_eq)
qed

lemma mq_inv_rep: "mq_inv q \<longleftrightarrow> mq_rep q (mq_abs q)"
  using mq_rep_abs by (auto simp: mq_inv_def)

text \<open>Masking a position that wraps is the index in the ring, because the ring divides \<open>2^64\<close>.\<close>

lemma cell_at_index:
  assumes "mq_rep q xs"
  shows "cell_at q (mq_dequeue_pos q + of_nat i) = (unat (mq_dequeue_pos q) + i) mod mq_cap q"
proof -
  obtain k where k: "k \<le> 62" "length (mq_buffer q) = 2 ^ k" using assms by (auto simp: mq_rep_def)
  let ?w = "mq_dequeue_pos q + of_nat i"
  have m: "mq_buffer_mask q = 2 ^ k - 1" using assms k by (simp add: mq_rep_def)
  have "?w AND mq_buffer_mask q = take_bit k ?w"
    by (simp add: m take_bit_eq_mask mask_eq_exp_minus_1)
  then have "cell_at q ?w = unat ?w mod 2 ^ k"
    by (simp only: cell_at_def unsigned_take_bit_eq) (simp only: take_bit_eq_mod)
  also have "\<dots> = (unat (mq_dequeue_pos q) + i) mod 2 ^ 64 mod 2 ^ k"
    by (simp add: unat_word_ariths unsigned_of_nat take_bit_eq_mod mod_simps)
  also have "\<dots> = (unat (mq_dequeue_pos q) + i) mod 2 ^ k"
  proof (rule mod_mod_cancel)
    show "(2::nat) ^ k dvd 2 ^ 64" using k by (intro le_imp_power_dvd) simp
  qed
  finally show ?thesis using k by (simp add: mq_cap_def)
qed

lemma mq_cell_at: "mq_rep q xs \<Longrightarrow> mq_buffer q ! cell_at q (mq_dequeue_pos q + of_nat i) = mq_cell q i"
  by (simp add: cell_at_index mq_cell_def mq_cap_def)

lemma mq_enqueue_at: "mq_rep q xs \<Longrightarrow> mq_enqueue_pos q = mq_dequeue_pos q + of_nat (length xs)"
  by (simp add: mq_rep_def)

section \<open>Enqueue\<close>

lemma mpmcq_enqueue_ok:
  assumes rep: "mq_rep q xs" and room: "length xs < mq_cap q"
  shows "\<exists>q'. mpmcq_enqueue q x = Some (q', True) \<and> mq_rep q' (xs @ [x]) \<and> mq_cap q' = mq_cap q"
proof -
  let ?e = "mq_enqueue_pos q" and ?d = "mq_dequeue_pos q" and ?n = "mq_cap q" and ?l = "length xs"
  have e: "?e = ?d + of_nat ?l" using mq_enqueue_at [OF rep] .
  have "cell_seq (mq_cell q ?l) = ?d + of_nat ?l" using rep room by (simp add: mq_rep_def mq_cap_def)
  then have seq: "cell_seq (mq_buffer q ! cell_at q ?e) = ?e" using mq_cell_at [OF rep, of ?l] e by simp
  define q1 where "q1 = q\<lparr>mq_enqueue_pos := ?e + 1\<rparr>"
  have "enqueue_claim q ?e = Some (q1, Some ?e)"
    using seq by (subst enqueue_claim.simps) (simp add: q1_def)
  then have enq: "mpmcq_enqueue q x = Some (enqueue_publish q1 ?e x, True)" by (simp add: mpmcq_enqueue_def)
  define q2 where "q2 = enqueue_publish q1 ?e x"
  define j where "j = (unat ?d + ?l) mod ?n"
  have j: "cell_at q ?e = j" using cell_at_index [OF rep, of ?l] e by (simp add: j_def)
  have n: "0 < ?n" using mq_rep_bound [OF rep] by simp
  have q2: "q2 = q\<lparr>mq_enqueue_pos := ?e + 1, mq_buffer := (mq_buffer q)[j := \<lparr>cell_seq = ?e + 1, cell_data = Some x\<rparr>]\<rparr>"
    using j by (simp add: q2_def q1_def enqueue_publish_def cell_at_def)
  have cell: "mq_cell q2 i = (if i = ?l then \<lparr>cell_seq = ?e + 1, cell_data = Some x\<rparr> else mq_cell q i)" if "i < ?n" for i
  proof (cases "i = ?l")
    case True
    then show ?thesis using n by (simp add: q2 mq_cell_def j_def mq_cap_def)
  next
    case False
    then have "j \<noteq> (unat ?d + i) mod ?n" using ring_cancel [of "unat ?d" i ?n ?l] that room by (auto simp: j_def)
    then show ?thesis using False by (simp add: q2 mq_cell_def mq_cap_def)
  qed
  have "mq_rep q2 (xs @ [x])"
    unfolding mq_rep_def
  proof (intro conjI allI impI)
    fix i
    assume "i < length (mq_buffer q2)"
    then have i: "i < ?n" "i < length (mq_buffer q)" by (simp_all add: q2 mq_cap_def)
    have old: "if i < ?l then mq_cell q i = \<lparr>cell_seq = ?d + of_nat i + 1, cell_data = Some (xs ! i)\<rparr>
      else cell_seq (mq_cell q i) = ?d + of_nat i" using rep i(2) by (simp add: mq_rep_def)
    show "if i < length (xs @ [x])
       then mq_cell q2 i = \<lparr>cell_seq = mq_dequeue_pos q2 + of_nat i + 1, cell_data = Some ((xs @ [x]) ! i)\<rparr>
       else cell_seq (mq_cell q2 i) = mq_dequeue_pos q2 + of_nat i"
      using old cell [OF i(1)] e by (cases "i = ?l") (auto simp: q2 nth_append split: if_splits)
  qed (use rep room e in \<open>auto simp: q2 mq_rep_def mq_cap_def\<close>)
  then show ?thesis using enq by (auto simp: q2_def [symmetric] q2 mq_cap_def)
qed

text \<open>On a full queue the claiming loop never ends.\<close>

lemma enqueue_claim_full:
  assumes full: "cell_seq (mq_buffer q ! cell_at q (mq_enqueue_pos q)) \<noteq> mq_enqueue_pos q"
  shows "enqueue_claim q (mq_enqueue_pos q) = None"
proof -
  have "\<not> (r = q \<and> pos = mq_enqueue_pos q)" if "enqueue_claim r pos = Some y" for r pos y
  proof (rule enqueue_claim.raw_induct [where P = "\<lambda>r pos y. \<not> (r = q \<and> pos = mq_enqueue_pos q)", OF _ that])
    fix claim :: "'a mpmcq \<Rightarrow> u64 \<Rightarrow> ('a mpmcq \<times> u64 option) option" and r pos y
    assume IH: "\<And>r pos y. claim r pos = Some y \<Longrightarrow> \<not> (r = q \<and> pos = mq_enqueue_pos q)"
      and run: "(let diff = cell_seq (mq_buffer r ! cell_at r pos) - pos
         in if diff = 0
            then (if mq_enqueue_pos r = pos then Some (r\<lparr>mq_enqueue_pos := pos + 1\<rparr>, Some pos)
                  else claim r (mq_enqueue_pos r))
            else if diff < 0 then Some (r, None)
            else claim r (mq_enqueue_pos r)) = Some y"
    show "\<not> (r = q \<and> pos = mq_enqueue_pos q)"
    proof
      assume r: "r = q \<and> pos = mq_enqueue_pos q"
      then have "claim r (mq_enqueue_pos r) = Some y" using run full by (simp add: Let_def)
      then show False using IH r by blast
    qed
  qed
  then show ?thesis by (metis option.exhaust)
qed

lemma mpmcq_enqueue_full:
  assumes rep: "mq_rep q xs" and full: "length xs = mq_cap q"
  shows "mpmcq_enqueue q x = None"
proof -
  let ?e = "mq_enqueue_pos q" and ?d = "mq_dequeue_pos q" and ?n = "mq_cap q"
  have n: "2 \<le> ?n" "?n \<le> 2 ^ 62" using mq_rep_bound [OF rep] by simp_all
  have e: "?e = ?d + of_nat ?n" using mq_enqueue_at [OF rep] full by simp
  have "cell_at q ?e = cell_at q (?d + of_nat 0)"
    unfolding e by (simp only: cell_at_index [OF rep]) simp
  then have "cell_seq (mq_buffer q ! cell_at q ?e) = cell_seq (mq_cell q 0)"
    using mq_cell_at [OF rep, of 0] by simp
  also have "\<dots> = ?d + 1" using rep full n by (auto simp: mq_rep_def mq_cap_def dest: spec [of _ 0])
  finally have "cell_seq (mq_buffer q ! cell_at q ?e) = ?d + 1" .
  moreover have "(of_nat 1 :: u64) \<noteq> of_nat ?n" using n by (subst of_nat_eq_64) auto
  ultimately have "cell_seq (mq_buffer q ! cell_at q ?e) \<noteq> ?e" using e by simp
  then show ?thesis by (simp add: mpmcq_enqueue_def enqueue_claim_full)
qed

section \<open>Dequeue\<close>

lemma mpmcq_dequeue_empty:
  assumes rep: "mq_rep q []"
  shows "mpmcq_dequeue q = Some (q, None)"
proof -
  have "cell_seq (mq_cell q 0) = mq_dequeue_pos q"
    using rep mq_rep_bound [OF rep] by (auto simp: mq_rep_def mq_cap_def dest: spec [of _ 0])
  then have "cell_seq (mq_buffer q ! cell_at q (mq_dequeue_pos q)) - (mq_dequeue_pos q + 1) = - 1"
    using mq_cell_at [OF rep, of 0] by simp
  then have "dequeue_claim q (mq_dequeue_pos q) = Some (q, None)"
    by (subst dequeue_claim.simps) (simp add: Let_def)
  then show ?thesis by (simp add: mpmcq_dequeue_def)
qed

lemma mpmcq_dequeue_ok:
  assumes rep: "mq_rep q (x # xs)"
  shows "\<exists>q'. mpmcq_dequeue q = Some (q', Some x) \<and> mq_rep q' xs \<and> mq_cap q' = mq_cap q"
proof -
  let ?d = "mq_dequeue_pos q" and ?n = "mq_cap q"
  define j where "j = unat ?d mod ?n"
  have n: "2 \<le> ?n" using mq_rep_bound [OF rep] by simp
  have j: "cell_at q ?d = j" using cell_at_index [OF rep, of 0] by (simp add: j_def)
  have len: "Suc (length xs) \<le> ?n" using rep by (simp add: mq_rep_def mq_cap_def)
  have old: "if i < Suc (length xs) then mq_cell q i = \<lparr>cell_seq = ?d + of_nat i + 1, cell_data = Some ((x # xs) ! i)\<rparr>
      else cell_seq (mq_cell q i) = ?d + of_nat i" if "i < ?n" for i
    using rep that by (simp add: mq_rep_def mq_cap_def)
  have c0: "mq_buffer q ! j = \<lparr>cell_seq = ?d + 1, cell_data = Some x\<rparr>"
  proof -
    have "0 < ?n" using n by simp
    from old [OF this] show ?thesis by (simp add: mq_cell_def j_def mq_cap_def)
  qed
  have claim: "dequeue_claim q ?d = Some (q\<lparr>mq_dequeue_pos := ?d + 1\<rparr>, Some ?d)"
    using c0 j by (subst dequeue_claim.simps) simp
  have mask: "?d + mq_buffer_mask q + 1 = ?d + of_nat ?n"
    using rep by (simp add: mq_rep_def mq_cap_def)
  define q2 where "q2 = q\<lparr>mq_dequeue_pos := ?d + 1,
      mq_buffer := (mq_buffer q)[j := \<lparr>cell_seq = ?d + mq_buffer_mask q + 1, cell_data = Some x\<rparr>]\<rparr>"
  have deq: "mpmcq_dequeue q = Some (q2, Some x)"
    using claim c0 j by (simp add: mpmcq_dequeue_def dequeue_release_def Let_def q2_def cell_at_def)
  have pos: "(unat (?d + 1) + i) mod ?n = (unat ?d + Suc i) mod ?n" for i
  proof -
    obtain k where k: "k \<le> 62" "?n = 2 ^ k" using rep by (auto simp: mq_rep_def mq_cap_def)
    have "(2::nat) ^ k dvd 2 ^ 64" using k by (intro le_imp_power_dvd) simp
    then have "unat (?d + 1) mod ?n = (unat ?d + 1) mod ?n"
      using k(2) mod_mod_cancel [of "2 ^ k" "2 ^ 64" "unat ?d + 1"] by (simp add: unat_word_ariths)
    then show ?thesis by (metis add.assoc mod_add_left_eq plus_1_eq_Suc)
  qed
  have cell: "mq_cell q2 i = mq_cell q (Suc i)" if "Suc i < ?n" for i
  proof -
    have "j \<noteq> (unat ?d + Suc i) mod ?n" using ring_cancel [of "unat ?d" "Suc i" ?n 0] that by (auto simp: j_def)
    then show ?thesis using pos [of i] by (simp add: mq_cell_def q2_def mq_cap_def)
  qed
  have last: "cell_seq (mq_cell q2 i) = ?d + of_nat ?n" if "Suc i = ?n" for i
  proof -
    have "(unat ?d + Suc i) mod ?n = j" using that by (simp add: j_def)
    moreover have "j < length (mq_buffer q)" using n unfolding j_def mq_cap_def by (intro mod_less_divisor) linarith
    ultimately show ?thesis using pos [of i] unfolding mask [symmetric]
      by (simp add: mq_cell_def q2_def mq_cap_def)
  qed
  have "mq_rep q2 xs"
    unfolding mq_rep_def
  proof (intro conjI allI impI)
    fix i
    assume "i < length (mq_buffer q2)"
    then have i: "i < ?n" by (simp add: q2_def mq_cap_def)
    have d2: "mq_dequeue_pos q2 = ?d + 1" by (simp add: q2_def)
    show "if i < length xs
       then mq_cell q2 i = \<lparr>cell_seq = mq_dequeue_pos q2 + of_nat i + 1, cell_data = Some (xs ! i)\<rparr>
       else cell_seq (mq_cell q2 i) = mq_dequeue_pos q2 + of_nat i"
    proof (cases "Suc i < ?n")
      case True
      then show ?thesis using old [OF True] cell [OF True] d2 by (auto simp: ac_simps)
    next
      case False
      then have n': "?n = Suc i" using i by simp
      then have "(of_nat ?n :: u64) = 1 + of_nat i" by simp
      then show ?thesis using n' len last [of i] d2 by (simp add: ac_simps)
    qed
  qed (use rep in \<open>auto simp: q2_def mq_rep_def\<close>)
  then show ?thesis using deq by (auto simp: q2_def mq_cap_def)
qed

section \<open>The mailbox as a FIFO queue\<close>

interpretation mpmcq: fifo mq_inv mq_cap mq_abs mpmcq_enqueue mpmcq_dequeue
proof
  fix s :: "'a mpmcq" and x :: 'a
  assume "mq_inv s"
  then have rep: "mq_rep s (mq_abs s)" by (simp add: mq_inv_rep)
  show "length (mq_abs s) \<le> mq_cap s" using rep by (simp add: mq_rep_def mq_cap_def)
  show "length (mq_abs s) < mq_cap s \<Longrightarrow> \<exists>s'. mpmcq_enqueue s x = Some (s', True) \<and> mq_inv s'
      \<and> mq_abs s' = mq_abs s @ [x] \<and> mq_cap s' = mq_cap s"
    using mpmcq_enqueue_ok [OF rep] mq_rep_abs by (metis mq_inv_def)
  show "\<exists>s'. mpmcq_dequeue s = Some (s', if mq_abs s = [] then None else Some (hd (mq_abs s)))
      \<and> mq_inv s' \<and> mq_abs s' = tl (mq_abs s) \<and> mq_cap s' = mq_cap s"
  proof (cases "mq_abs s")
    case Nil
    then show ?thesis using mpmcq_dequeue_empty [of s] rep by (simp add: mq_inv_rep)
  next
    case (Cons y ys)
    then obtain q' where "mpmcq_dequeue s = Some (q', Some y)" "mq_rep q' ys" "mq_cap q' = mq_cap s"
      using mpmcq_dequeue_ok [of s y ys] rep by auto
    then show ?thesis using Cons mq_rep_abs by (auto simp: mq_inv_def)
  qed
qed

lemma mpmcq_init_rep:
  assumes "1 \<le> k" "k \<le> 62"
  shows "mq_rep (mpmcq_init (2 ^ k) :: 'a mpmcq) []"
  using assms by (auto simp: mq_rep_def mpmcq_init_def mq_cell_def intro: exI [of _ k])

lemma mpmcq_count_length: "mq_inv q \<Longrightarrow> unat (mpmcq_count q) = length (mq_abs q)"
  using mq_rep_len [of q "mq_abs q"] by (simp add: mq_inv_rep mpmcq_count_def)

end
