(* ===== verification/Spscq.thy ===== *)
theory Spscq
  imports Fifo
begin

text \<open>
  The single-producer single-consumer ring of \<^verbatim>\<open>src/include/spsc.c\<close>. One cell stays free, so
  a buffer of \<open>size\<close> cells holds \<open>size - 1\<close> objects. The two indices stay below \<open>size\<close>.
\<close>

section \<open>State and operations\<close>

record 'a spscq =
  sq_head :: nat
  sq_tail :: nat
  sq_buffer :: "'a option list"
  sq_size :: nat

text \<open>A cell holds a pointer; \<open>None\<close> is the NULL left by \<^verbatim>\<open>calloc\<close>.\<close>

definition spscq_create :: "nat \<Rightarrow> 'a spscq" where
  "spscq_create n = \<lparr>sq_head = 0, sq_tail = 0, sq_buffer = replicate n None, sq_size = n\<rparr>"

definition spscq_enqueue :: "'a spscq \<Rightarrow> 'a \<Rightarrow> 'a spscq \<times> bool" where
  "spscq_enqueue q obj =
    (let tail = sq_tail q;
         next_tail = (if tail + 1 = sq_size q then 0 else tail + 1)
     in if next_tail = sq_head q then (q, False)
        else (q\<lparr>sq_buffer := (sq_buffer q)[tail := Some obj], sq_tail := next_tail\<rparr>, True))"

definition spscq_dequeue :: "'a spscq \<Rightarrow> 'a spscq \<times> 'a option" where
  "spscq_dequeue q =
    (let head = sq_head q; tail = sq_tail q
     in if head = tail then (q, None)
        else (let obj = sq_buffer q ! head;
                  next_head = (if head + 1 = sq_size q then 0 else head + 1)
              in (q\<lparr>sq_head := next_head\<rparr>, obj)))"

definition spscq_is_empty :: "'a spscq \<Rightarrow> bool" where
  "spscq_is_empty q \<longleftrightarrow> sq_head q = sq_tail q"

section \<open>The ring as a list\<close>

definition sq_len :: "'a spscq \<Rightarrow> nat" where
  "sq_len q = (sq_tail q + sq_size q - sq_head q) mod sq_size q"

definition sq_abs :: "'a spscq \<Rightarrow> 'a list" where
  "sq_abs q = map (\<lambda>i. the (sq_buffer q ! ((sq_head q + i) mod sq_size q))) [0..<sq_len q]"

definition sq_inv :: "'a spscq \<Rightarrow> bool" where
  "sq_inv q \<longleftrightarrow> 0 < sq_size q \<and> length (sq_buffer q) = sq_size q \<and> sq_head q < sq_size q \<and> sq_tail q < sq_size q
     \<and> (\<forall>i < sq_len q. sq_buffer q ! ((sq_head q + i) mod sq_size q) \<noteq> None)"

lemma sq_len_less: "sq_inv q \<Longrightarrow> sq_len q < sq_size q"
  by (simp add: sq_len_def sq_inv_def)

lemma sq_tail_eq: "sq_inv q \<Longrightarrow> sq_tail q = (sq_head q + sq_len q) mod sq_size q"
  by (simp add: sq_len_def sq_inv_def mod_simps)

lemma sq_len_unique:
  assumes "sq_head q < sq_size q" "sq_tail q = (sq_head q + l) mod sq_size q" "l < sq_size q"
  shows "sq_len q = l"
proof (cases "sq_head q + l < sq_size q")
  case True
  then show ?thesis using assms by (simp add: sq_len_def)
next
  case False
  then have "sq_tail q = sq_head q + l - sq_size q" using assms by (simp add: mod_if)
  then show ?thesis using assms False by (simp add: sq_len_def)
qed

lemma spscq_enqueue_ok:
  assumes inv: "sq_inv q" and room: "sq_len q < sq_size q - 1"
  shows "\<exists>q'. spscq_enqueue q x = (q', True) \<and> sq_inv q' \<and> sq_abs q' = sq_abs q @ [x] \<and> sq_size q' = sq_size q"
proof -
  let ?n = "sq_size q" and ?h = "sq_head q" and ?l = "sq_len q"
  have b: "?h < ?n" "sq_tail q < ?n" "length (sq_buffer q) = ?n" using inv by (simp_all add: sq_inv_def)
  have tail: "sq_tail q = (?h + ?l) mod ?n" using sq_tail_eq [OF inv] .
  then have nt: "nxt ?n (sq_tail q) = (?h + Suc ?l) mod ?n" by (simp add: ring_simps)
  have ne: "nxt ?n (sq_tail q) \<noteq> ?h"
  proof
    assume "nxt ?n (sq_tail q) = ?h"
    then have "(?h + Suc ?l) mod ?n = (?h + 0) mod ?n" using nt b by simp
    moreover have "Suc ?l < ?n" using room by linarith
    ultimately show False using ring_cancel [of ?h "Suc ?l" ?n 0] by simp
  qed
  let ?q = "q\<lparr>sq_buffer := (sq_buffer q)[sq_tail q := Some x], sq_tail := nxt ?n (sq_tail q)\<rparr>"
  have q': "spscq_enqueue q x = (?q, True)" using ne b by (auto simp: spscq_enqueue_def Let_def nxt_cases split: if_splits)
  have len: "sq_len ?q = Suc ?l" using b nt room by (intro sq_len_unique) simp_all
  have old: "sq_buffer ?q ! ((?h + i) mod ?n) = sq_buffer q ! ((?h + i) mod ?n)" if "i < ?l" for i
  proof -
    have "(?h + i) mod ?n \<noteq> sq_tail q"
    proof
      assume "(?h + i) mod ?n = sq_tail q"
      then show False using ring_cancel [of ?h i ?n ?l] that sq_len_less [OF inv] tail by simp
    qed
    then show ?thesis by simp
  qed
  have new: "sq_buffer ?q ! ((?h + ?l) mod ?n) = Some x" using b by (simp flip: tail)
  have "sq_abs ?q = sq_abs q @ [x]"
    unfolding sq_abs_def len using old new by simp
  moreover have "sq_inv ?q"
    using inv b old new len by (auto simp: sq_inv_def less_Suc_eq)
  ultimately show ?thesis using q' by simp
qed

lemma spscq_enqueue_full:
  assumes inv: "sq_inv q" and full: "sq_len q = sq_size q - 1"
  shows "spscq_enqueue q x = (q, False)"
proof -
  have b: "sq_head q < sq_size q" "sq_tail q < sq_size q" using inv by (simp_all add: sq_inv_def)
  have "nxt (sq_size q) (sq_tail q) = (sq_head q + Suc (sq_len q)) mod sq_size q"
    using sq_tail_eq [OF inv] by (simp add: ring_simps)
  then have "nxt (sq_size q) (sq_tail q) = sq_head q" using b full by simp
  then show ?thesis using b by (auto simp: spscq_enqueue_def Let_def nxt_cases split: if_splits)
qed

lemma spscq_dequeue_ok:
  assumes inv: "sq_inv q"
  shows "\<exists>q'. spscq_dequeue q = (q', if sq_abs q = [] then None else Some (hd (sq_abs q)))
    \<and> sq_inv q' \<and> sq_abs q' = tl (sq_abs q) \<and> sq_size q' = sq_size q"
proof -
  let ?n = "sq_size q" and ?h = "sq_head q" and ?l = "sq_len q"
  have b: "?h < ?n" "sq_tail q < ?n" using inv by (simp_all add: sq_inv_def)
  have tail: "sq_tail q = (?h + ?l) mod ?n" using sq_tail_eq [OF inv] .
  show ?thesis
  proof (cases "?l")
    case 0
    then show ?thesis using inv b tail by (simp add: spscq_dequeue_def sq_abs_def)
  next
    case (Suc k)
    have ne: "?h \<noteq> sq_tail q"
    proof
      assume "?h = sq_tail q"
      then have "(?h + ?l) mod ?n = (?h + 0) mod ?n" using tail b by simp
      then show False using ring_cancel [of ?h ?l ?n 0] Suc sq_len_less [OF inv] by simp
    qed
    obtain y where y: "sq_buffer q ! ?h = Some y"
      using inv Suc b by (auto simp: sq_inv_def dest: spec [of _ 0])
    let ?q = "q\<lparr>sq_head := nxt ?n ?h\<rparr>"
    have q': "spscq_dequeue q = (?q, Some y)"
      using ne y b by (auto simp: spscq_dequeue_def Let_def nxt_cases)
    have len: "sq_len ?q = k"
      using b tail Suc sq_len_less [OF inv] by (intro sq_len_unique) (simp_all add: ring_simps)
    have idx: "(nxt ?n ?h + i) mod ?n = (?h + Suc i) mod ?n" for i by (simp add: ring_simps)
    have "sq_abs q = y # sq_abs ?q"
      unfolding sq_abs_def len Suc using y b
      by (simp add: idx upt_conv_Cons del: upt_Suc) (simp add: map_Suc_upt [symmetric] del: upt_Suc)
    moreover have "sq_inv ?q"
      using inv b len Suc by (auto simp: sq_inv_def idx)
    ultimately show ?thesis using q' by simp
  qed
qed

lemma length_sq_abs [simp]: "length (sq_abs q) = sq_len q"
  by (simp add: sq_abs_def)

interpretation spsc: bounded_fifo sq_inv "\<lambda>q. sq_size q - 1" sq_abs
    "\<lambda>q x. Some (spscq_enqueue q x)" "\<lambda>q. Some (spscq_dequeue q)"
proof
  fix s :: "'a spscq" and x :: 'a
  assume inv: "sq_inv s"
  show "\<exists>s'. Some (spscq_dequeue s) = Some (s', if sq_abs s = [] then None else Some (hd (sq_abs s)))
    \<and> sq_inv s' \<and> sq_abs s' = tl (sq_abs s) \<and> sq_size s' - 1 = sq_size s - 1"
    using spscq_dequeue_ok [OF inv] by auto
  show "length (sq_abs s) \<le> sq_size s - 1" using sq_len_less [OF inv] by simp
  show "length (sq_abs s) = sq_size s - 1 \<Longrightarrow> Some (spscq_enqueue s x) = Some (s, False)"
    using spscq_enqueue_full [OF inv] by simp
  show "length (sq_abs s) < sq_size s - 1 \<Longrightarrow> \<exists>s'. Some (spscq_enqueue s x) = Some (s', True) \<and> sq_inv s'
      \<and> sq_abs s' = sq_abs s @ [x] \<and> sq_size s' - 1 = sq_size s - 1"
    using spscq_enqueue_ok [OF inv, of x] by (simp, metis)
qed

lemma spscq_create_inv: "0 < n \<Longrightarrow> sq_inv (spscq_create n :: 'a spscq) \<and> sq_abs (spscq_create n :: 'a spscq) = []"
  by (simp add: spscq_create_def sq_inv_def sq_abs_def sq_len_def)

end
