(* ===== verification/Queue_Props.thy ===== *)
theory Queue_Props
  imports Mpmcq Spscq
begin

text \<open>The properties of the two queues, through their interpretations of the FIFO contract.\<close>

section \<open>The mailbox\<close>

text \<open>
  Messages enqueued into an empty mailbox come out once each and in order, whatever the
  values of its wrapping 64-bit positions and sequence numbers, and polling stops by itself; the
  mailbox is then empty and consistent again.
\<close>

theorem mailbox_fifo:
  assumes "mq_inv q" "mq_abs q = []" "length xs \<le> mq_cap q"
  shows "\<exists>q1 q2. enq_all mpmcq_enqueue xs q = Some q1 \<and> drain mpmcq_dequeue (mq_cap q + 1) q1 = Some (q2, xs)
    \<and> mq_inv q2 \<and> mq_abs q2 = [] \<and> mpmcq_count q2 = 0"
proof -
  obtain q1 q2 where q: "enq_all mpmcq_enqueue xs q = Some q1" "drain mpmcq_dequeue (mq_cap q + 1) q1 = Some (q2, xs)"
    "mq_inv q2" "mq_abs q2 = []" using mpmcq.send_drain [OF assms] by blast
  have "unat (mpmcq_count q2) = 0" using mpmcq_count_length [OF q(3)] q(4) by simp
  then show ?thesis using q by (simp add: unat_eq_0)
qed

definition demo_mailbox :: "nat mpmcq" where
  "demo_mailbox = mpmcq_init 2"

lemma demo_mailbox: "mq_inv demo_mailbox" "mq_abs demo_mailbox = []" "mq_cap demo_mailbox = 2"
proof -
  have "mq_rep demo_mailbox []" using mpmcq_init_rep [of 1] by (simp add: demo_mailbox_def)
  then show "mq_inv demo_mailbox" "mq_abs demo_mailbox = []" by (auto simp: mq_inv_def mq_rep_abs)
  show "mq_cap demo_mailbox = 2" by (simp add: demo_mailbox_def mq_cap_def mpmcq_init_def)
qed

theorem mailbox_fifo_witness:
  "\<exists>q1 q2. enq_all mpmcq_enqueue [10, 20] demo_mailbox = Some q1
    \<and> drain mpmcq_dequeue 3 q1 = Some (q2, [10, 20])"
  using mailbox_fifo [of demo_mailbox "[10, 20]"] demo_mailbox by (simp del: enq_all.simps drain.simps) blast

text \<open>
  C38: While no consumer moves, enqueueing into a full mailbox does not return: the test for a full
  queue compares an unsigned difference with zero, so the loop reloads the position and tries again
  until a cell is free, where the code means to return false.
\<close>

theorem mailbox_full_spins:
  assumes "mq_inv q" "length (mq_abs q) = mq_cap q"
  shows "mpmcq_enqueue q x = None"
  using mpmcq_enqueue_full [of q "mq_abs q" x] assms by (simp add: mq_inv_rep)

theorem mailbox_full_spins_witness:
  "\<exists>q. enq_all mpmcq_enqueue [10, 20] demo_mailbox = Some q \<and> mpmcq_enqueue q 30 = None"
proof -
  obtain q where q: "enq_all mpmcq_enqueue [10, 20] demo_mailbox = Some q" "mq_inv q" "mq_abs q = [10, 20]"
    "mq_cap q = 2"
    using mpmcq.enq_all_law [of demo_mailbox "[10, 20]"] demo_mailbox by (auto simp del: enq_all.simps)
  then show ?thesis using mailbox_full_spins [of q 30] by (auto simp del: enq_all.simps)
qed

section \<open>The single-producer single-consumer queue\<close>

text \<open>
  C39: \<open>spscq_enqueue\<close> appends when there is room and otherwise returns false and changes nothing;
  \<open>spscq_dequeue\<close> removes the oldest object or returns NULL exactly when the queue is empty; both
  keep the indices inside the buffer.
\<close>

theorem spscq_bounded_fifo:
  assumes "sq_inv q"
  shows "(\<exists>q' b. spscq_enqueue q x = (q', b) \<and> sq_inv q' \<and> sq_abs q' = (if b then sq_abs q @ [x] else sq_abs q)
        \<and> (b \<longleftrightarrow> length (sq_abs q) < sq_size q - 1))
    \<and> (\<exists>q'. spscq_dequeue q = (q', if sq_abs q = [] then None else Some (hd (sq_abs q)))
        \<and> sq_inv q' \<and> sq_abs q' = tl (sq_abs q))
    \<and> (spscq_is_empty q \<longleftrightarrow> sq_abs q = [])"
proof (intro conjI)
  show "\<exists>q' b. spscq_enqueue q x = (q', b) \<and> sq_inv q' \<and> sq_abs q' = (if b then sq_abs q @ [x] else sq_abs q)
        \<and> (b \<longleftrightarrow> length (sq_abs q) < sq_size q - 1)"
  proof (cases "length (sq_abs q) < sq_size q - 1")
    case True
    then show ?thesis using spsc.enq_law [OF assms True, of x] by auto
  next
    case False
    then have "length (sq_abs q) = sq_size q - 1" using spsc.cap_law [OF assms] by simp
    from spsc.full_law [OF assms this, of x] show ?thesis using False assms
      by (intro exI [of _ q] exI [of _ False]) simp
  qed
  show "\<exists>q'. spscq_dequeue q = (q', if sq_abs q = [] then None else Some (hd (sq_abs q)))
        \<and> sq_inv q' \<and> sq_abs q' = tl (sq_abs q)"
    using spsc.deq_law [OF assms] by auto
  have "length (sq_abs q) = 0 \<longleftrightarrow> sq_head q = sq_tail q"
  proof
    assume "length (sq_abs q) = 0"
    then show "sq_head q = sq_tail q" using sq_tail_eq [OF assms] assms by (simp add: sq_inv_def)
  next
    assume "sq_head q = sq_tail q"
    then show "length (sq_abs q) = 0" by (simp add: sq_len_def)
  qed
  then show "spscq_is_empty q \<longleftrightarrow> sq_abs q = []" unfolding spscq_is_empty_def by (metis length_0_conv)
qed

theorem spscq_bounded_fifo_witness:
  "\<exists>q. spscq_enqueue (spscq_create 2) (7 :: nat) = (q, True) \<and> sq_abs q = [7]"
proof -
  have c: "sq_inv (spscq_create 2 :: nat spscq)" "sq_abs (spscq_create 2 :: nat spscq) = []"
    using spscq_create_inv [of 2, where ?'a = nat] by simp_all
  have "sq_size (spscq_create 2 :: nat spscq) = 2" by (simp add: spscq_create_def)
  then show ?thesis using spscq_bounded_fifo [OF c(1), of 7] c(2) by (auto simp del: length_sq_abs)
qed

end
