(* ===== verification/Mpmcq_Threads.thy ===== *)
theory Mpmcq_Threads
  imports Mpmcq
begin

text \<open>
  The ring of \<^verbatim>\<open>src/include/mpmcq.c\<close> under several threads: every access to the shared memory is a
  step of its own, and the steps of any number of threads interleave. The atomic accesses and
  those ordered by them are taken in one global order; the compare-and-exchange is the weak one,
  which may fail for no reason.

  Beside the memory the state keeps what was sent (in the order in which producers claimed their
  positions) and what was received (with the position the consumer claimed).
\<close>

section \<open>The steps of a call\<close>

text \<open>
  Where a thread is: about to load a position, to read the number of a cell, to claim the
  position, to access the data, to store the number of the cell, or with its answer.
\<close>

datatype 'a access =
    Outside
  | Enq_load 'a
  | Enq_seq 'a u64
  | Enq_cas 'a u64
  | Enq_data 'a u64
  | Enq_publish 'a u64
  | Enq_done bool
  | Deq_load
  | Deq_seq u64
  | Deq_cas u64
  | Deq_data u64
  | Deq_release u64 "'a option"
  | Deq_done "'a option"

datatype 'a mq_event = Silent | Sent 'a | Received u64 "'a option"

definition seq_at :: "'a mpmcq \<Rightarrow> u64 \<Rightarrow> u64" where
  "seq_at q pos = cell_seq (mq_buffer q ! cell_at q pos)"

definition store_data :: "'a mpmcq \<Rightarrow> u64 \<Rightarrow> 'a \<Rightarrow> 'a mpmcq" where
  "store_data q pos x =
    q\<lparr>mq_buffer := (mq_buffer q)[cell_at q pos := (mq_buffer q ! cell_at q pos)\<lparr>cell_data := Some x\<rparr>]\<rparr>"

definition store_seq :: "'a mpmcq \<Rightarrow> u64 \<Rightarrow> u64 \<Rightarrow> 'a mpmcq" where
  "store_seq q pos s =
    q\<lparr>mq_buffer := (mq_buffer q)[cell_at q pos := (mq_buffer q ! cell_at q pos)\<lparr>cell_seq := s\<rparr>]\<rparr>"

inductive access_step :: "'a mpmcq \<times> 'a access \<Rightarrow> 'a mq_event \<Rightarrow> 'a mpmcq \<times> 'a access \<Rightarrow> bool" where
  enq_call: "access_step (q, Outside) Silent (q, Enq_load x)"
| enq_load: "access_step (q, Enq_load x) Silent (q, Enq_seq x (mq_enqueue_pos q))"
| enq_free: "seq_at q pos - pos = 0 \<Longrightarrow> access_step (q, Enq_seq x pos) Silent (q, Enq_cas x pos)"
| enq_refuse: "seq_at q pos - pos \<noteq> 0 \<Longrightarrow> seq_at q pos - pos < 0 \<Longrightarrow>
    access_step (q, Enq_seq x pos) Silent (q, Enq_done False)"
| enq_again: "seq_at q pos - pos \<noteq> 0 \<Longrightarrow> \<not> seq_at q pos - pos < 0 \<Longrightarrow>
    access_step (q, Enq_seq x pos) Silent (q, Enq_load x)"
| enq_claim: "mq_enqueue_pos q = pos \<Longrightarrow>
    access_step (q, Enq_cas x pos) (Sent x) (q\<lparr>mq_enqueue_pos := pos + 1\<rparr>, Enq_data x pos)"
| enq_fail: "access_step (q, Enq_cas x pos) Silent (q, Enq_seq x (mq_enqueue_pos q))"
| enq_write: "access_step (q, Enq_data x pos) Silent (store_data q pos x, Enq_publish x pos)"
| enq_publish: "access_step (q, Enq_publish x pos) Silent (store_seq q pos (pos + 1), Enq_done True)"
| enq_return: "access_step (q, Enq_done b) Silent (q, Outside)"
| deq_call: "access_step (q, Outside) Silent (q, Deq_load)"
| deq_load: "access_step (q, Deq_load) Silent (q, Deq_seq (mq_dequeue_pos q))"
| deq_full: "seq_at q pos - (pos + 1) = 0 \<Longrightarrow> access_step (q, Deq_seq pos) Silent (q, Deq_cas pos)"
| deq_empty: "seq_at q pos - (pos + 1) \<noteq> 0 \<Longrightarrow> sint (seq_at q pos - (pos + 1)) < 0 \<Longrightarrow>
    access_step (q, Deq_seq pos) Silent (q, Deq_done None)"
| deq_again: "seq_at q pos - (pos + 1) \<noteq> 0 \<Longrightarrow> \<not> sint (seq_at q pos - (pos + 1)) < 0 \<Longrightarrow>
    access_step (q, Deq_seq pos) Silent (q, Deq_load)"
| deq_claim: "mq_dequeue_pos q = pos \<Longrightarrow>
    access_step (q, Deq_cas pos) Silent (q\<lparr>mq_dequeue_pos := pos + 1\<rparr>, Deq_data pos)"
| deq_fail: "access_step (q, Deq_cas pos) Silent (q, Deq_seq (mq_dequeue_pos q))"
| deq_read: "access_step (q, Deq_data pos) Silent
    (q, Deq_release pos (cell_data (mq_buffer q ! cell_at q pos)))"
| deq_release: "access_step (q, Deq_release pos d) (Received pos d)
    (store_seq q pos (pos + mq_buffer_mask q + 1), Deq_done d)"
| deq_return: "access_step (q, Deq_done d) Silent (q, Outside)"

section \<open>Several threads\<close>

record 'a mailbox =
  mb_queue :: "'a mpmcq"
  mb_threads :: "nat \<Rightarrow> 'a access"
  mb_sent :: "'a list"
  mb_received :: "(u64 \<times> 'a option) list"

fun record_event :: "'a mq_event \<Rightarrow> 'a mailbox \<Rightarrow> 'a mailbox" where
  "record_event Silent s = s"
| "record_event (Sent x) s = s\<lparr>mb_sent := mb_sent s @ [x]\<rparr>"
| "record_event (Received pos d) s = s\<lparr>mb_received := mb_received s @ [(pos, d)]\<rparr>"

definition new_mailbox :: "nat \<Rightarrow> 'a mailbox" where
  "new_mailbox n =
    \<lparr>mb_queue = mpmcq_init n, mb_threads = \<lambda>_. Outside, mb_sent = [], mb_received = []\<rparr>"

inductive mailbox_step :: "'a mailbox \<Rightarrow> 'a mailbox \<Rightarrow> bool" where
  "access_step (mb_queue s, mb_threads s t) ev (q', a) \<Longrightarrow>
    mailbox_step s ((record_event ev s)\<lparr>mb_queue := q', mb_threads := (mb_threads s)(t := a)\<rparr>)"

inductive_cases mailbox_stepE: "mailbox_step s s'"
inductive_simps access_step_simps:
  "access_step (q, Enq_cas x pos) ev s'" "access_step (q, Deq_seq pos) ev s'"

end
