(* ===== verification/Mailbox_Correct.thy ===== *)
theory Mailbox_Correct
  imports Mpmcq_Threads
begin

text \<open>
  The invariant of the ring under interleaved threads. Positions are counted without wrapping,
  which is sound as long as fewer than \<open>2^62\<close> elements have been sent in all.

  Every cell has a current position \<open>cur\<close>: it is free for it, and then its number is the position,
  or it holds the element sent at it, and then its number is one more.
\<close>

section \<open>The invariant\<close>

definition slot_ok :: "nat \<Rightarrow> 'a mpmcq \<Rightarrow> 'a list \<Rightarrow> (nat \<Rightarrow> nat) \<Rightarrow> (nat \<Rightarrow> bool) \<Rightarrow> nat \<Rightarrow> bool" where
  "slot_ok n q sent cur filled i \<longleftrightarrow> cur i mod n = i \<and> length sent \<le> cur i + n
     \<and> unat (cell_seq (mq_buffer q ! i)) = cur i + (if filled i then 1 else 0)
     \<and> (if filled i then cur i < length sent \<and> cell_data (mq_buffer q ! i) = Some (sent ! cur i)
        else unat (mq_dequeue_pos q) \<le> cur i \<and> cur i < unat (mq_dequeue_pos q) + n)"

definition ring_ok :: "nat \<Rightarrow> 'a mpmcq \<Rightarrow> 'a list \<Rightarrow> (nat \<Rightarrow> nat) \<Rightarrow> (nat \<Rightarrow> bool) \<Rightarrow> bool" where
  "ring_ok n q sent cur filled \<longleftrightarrow> (\<exists>k. 1 \<le> k \<and> k \<le> 62 \<and> n = 2 ^ k)
     \<and> length (mq_buffer q) = n \<and> mq_buffer_mask q = of_nat n - 1
     \<and> unat (mq_enqueue_pos q) = length sent \<and> unat (mq_dequeue_pos q) \<le> length sent
     \<and> length sent \<le> unat (mq_dequeue_pos q) + n
     \<and> (\<forall>i < n. slot_ok n q sent cur filled i)"

definition free_at :: "nat \<Rightarrow> (nat \<Rightarrow> nat) \<Rightarrow> (nat \<Rightarrow> bool) \<Rightarrow> nat \<Rightarrow> bool" where
  "free_at n cur filled p \<longleftrightarrow> cur (p mod n) = p \<and> \<not> filled (p mod n)"

definition filled_at :: "nat \<Rightarrow> (nat \<Rightarrow> nat) \<Rightarrow> (nat \<Rightarrow> bool) \<Rightarrow> nat \<Rightarrow> bool" where
  "filled_at n cur filled p \<longleftrightarrow> cur (p mod n) = p \<and> filled (p mod n)"

text \<open>What a thread knows at each point of a call.\<close>

fun access_ok :: "nat \<Rightarrow> 'a mpmcq \<Rightarrow> 'a list \<Rightarrow> (nat \<Rightarrow> nat) \<Rightarrow> (nat \<Rightarrow> bool) \<Rightarrow> 'a access \<Rightarrow> bool" where
  "access_ok n q sent cur filled (Enq_cas x pos) \<longleftrightarrow> unat pos < length sent \<or> free_at n cur filled (unat pos)"
| "access_ok n q sent cur filled (Enq_data x pos) \<longleftrightarrow>
     unat pos < length sent \<and> sent ! unat pos = x \<and> free_at n cur filled (unat pos)"
| "access_ok n q sent cur filled (Enq_publish x pos) \<longleftrightarrow>
     unat pos < length sent \<and> sent ! unat pos = x \<and> free_at n cur filled (unat pos)
     \<and> cell_data (mq_buffer q ! (unat pos mod n)) = Some x"
| "access_ok n q sent cur filled (Deq_seq pos) \<longleftrightarrow> unat pos \<le> unat (mq_dequeue_pos q)"
| "access_ok n q sent cur filled (Deq_cas pos) \<longleftrightarrow>
     unat pos < unat (mq_dequeue_pos q) \<or> filled_at n cur filled (unat pos)"
| "access_ok n q sent cur filled (Deq_data pos) \<longleftrightarrow>
     unat pos < unat (mq_dequeue_pos q) \<and> filled_at n cur filled (unat pos)"
| "access_ok n q sent cur filled (Deq_release pos d) \<longleftrightarrow>
     unat pos < unat (mq_dequeue_pos q) \<and> filled_at n cur filled (unat pos) \<and> d = Some (sent ! unat pos)"
| "access_ok n q sent cur filled a \<longleftrightarrow> True"

text \<open>The claim a thread holds: the right to fill a position, or to empty it.\<close>

datatype claim = To_fill nat | To_empty nat

fun holds :: "'a access \<Rightarrow> claim option" where
  "holds (Enq_data x pos) = Some (To_fill (unat pos))"
| "holds (Enq_publish x pos) = Some (To_fill (unat pos))"
| "holds (Deq_data pos) = Some (To_empty (unat pos))"
| "holds (Deq_release pos d) = Some (To_empty (unat pos))"
| "holds a = None"

definition claims_ok :: "(nat \<Rightarrow> 'a access) \<Rightarrow> bool" where
  "claims_ok ths \<longleftrightarrow> (\<forall>t u. holds (ths t) \<noteq> None \<longrightarrow> holds (ths t) = holds (ths u) \<longrightarrow> t = u)"

text \<open>Every position that was claimed for filling has been filled or is held by a thread.\<close>

definition filling_ok :: "nat \<Rightarrow> nat \<Rightarrow> (nat \<Rightarrow> nat) \<Rightarrow> (nat \<Rightarrow> bool) \<Rightarrow> (nat \<Rightarrow> 'a access) \<Rightarrow> bool" where
  "filling_ok n e cur filled ths \<longleftrightarrow> (\<forall>p < e. p < cur (p mod n) \<or> filled_at n cur filled p
     \<or> (\<exists>t. holds (ths t) = Some (To_fill p)))"

definition received_ok ::
  "nat \<Rightarrow> nat \<Rightarrow> 'a list \<Rightarrow> (u64 \<times> 'a option) list \<Rightarrow> (nat \<Rightarrow> nat) \<Rightarrow> (nat \<Rightarrow> 'a access) \<Rightarrow> bool" where
  "received_ok n d sent received cur ths \<longleftrightarrow> distinct (map fst received)
     \<and> (\<forall>(pos, x) \<in> set received. unat pos < d \<and> x = Some (sent ! unat pos) \<and> unat pos < cur (unat pos mod n))
     \<and> (\<forall>p < d. (\<exists>pos \<in> fst ` set received. unat pos = p) \<or> (\<exists>t. holds (ths t) = Some (To_empty p)))"

definition mail_inv ::
  "nat \<Rightarrow> 'a mpmcq \<Rightarrow> (nat \<Rightarrow> 'a access) \<Rightarrow> 'a list \<Rightarrow> (u64 \<times> 'a option) list \<Rightarrow> (nat \<Rightarrow> nat) \<Rightarrow> (nat \<Rightarrow> bool) \<Rightarrow> bool" where
  "mail_inv n q ths sent received cur filled \<longleftrightarrow> ring_ok n q sent cur filled
     \<and> (\<forall>t. access_ok n q sent cur filled (ths t)) \<and> claims_ok ths
     \<and> filling_ok n (length sent) cur filled ths
     \<and> received_ok n (unat (mq_dequeue_pos q)) sent received cur ths"

definition mailbox_ok :: "nat \<Rightarrow> 'a mailbox \<Rightarrow> bool" where
  "mailbox_ok n s \<longleftrightarrow>
    (\<exists>cur filled. mail_inv n (mb_queue s) (mb_threads s) (mb_sent s) (mb_received s) cur filled)"

section \<open>Cells and positions\<close>

lemma ring_size: "ring_ok n q sent cur filled \<Longrightarrow> 2 \<le> n \<and> n \<le> 2 ^ 62"
proof -
  assume "ring_ok n q sent cur filled"
  then obtain k where k: "1 \<le> k" "k \<le> 62" "n = 2 ^ k" by (auto simp: ring_ok_def)
  have "(2::nat) ^ 1 \<le> 2 ^ k" "(2::nat) ^ k \<le> 2 ^ 62" using k by (intro power_increasing; simp)+
  then show ?thesis using k by simp
qed

lemma ring_cell:
  assumes "ring_ok n q sent cur filled"
  shows "cell_at q pos = unat pos mod n"
proof -
  obtain k where k: "k \<le> 62" "n = 2 ^ k" "mq_buffer_mask q = 2 ^ k - 1" using assms by (auto simp: ring_ok_def)
  have "pos AND mq_buffer_mask q = take_bit k pos" by (simp add: k(3) take_bit_eq_mask mask_eq_exp_minus_1)
  then show ?thesis by (simp only: cell_at_def unsigned_take_bit_eq k(2)) (simp only: take_bit_eq_mod)
qed

lemma ring_slot: "ring_ok n q sent cur filled \<Longrightarrow> slot_ok n q sent cur filled (p mod n)"
  using ring_size [of n q sent cur filled] by (auto simp: ring_ok_def)

lemma ring_len: "ring_ok n q sent cur filled \<Longrightarrow> length (mq_buffer q) = n"
  by (simp add: ring_ok_def)

text \<open>Two positions of one cell are equal or at least a lap apart.\<close>

lemma same_cell:
  fixes a b n :: nat
  assumes "a mod n = b mod n" "a < b"
  shows "a + n \<le> b"
proof -
  have "n dvd b - a" using assms by (metis mod_eq_dvd_iff_nat less_imp_le)
  then show ?thesis using assms(2) by (auto dest: dvd_imp_le)
qed

lemma seq_free:
  assumes "ring_ok n q sent cur filled" "seq_at q pos = pos"
  shows "free_at n cur filled (unat pos)"
proof -
  let ?i = "unat pos mod n"
  have s: "cur ?i mod n = ?i" "unat pos = cur ?i + (if filled ?i then 1 else 0)"
    using ring_slot [OF assms(1), of "unat pos"] assms(2) by (simp_all add: slot_ok_def seq_at_def ring_cell [OF assms(1)])
  have "\<not> filled ?i"
  proof
    assume "filled ?i"
    then have "cur ?i < unat pos" "unat pos = cur ?i + 1" using s(2) by simp_all
    with same_cell [of "cur ?i" n "unat pos"] s(1) ring_size [OF assms(1)] show False by simp
  qed
  then show ?thesis using s(2) by (simp add: free_at_def)
qed

lemma seq_filled:
  assumes "ring_ok n q sent cur filled" "seq_at q pos = pos + 1" "unat pos < 2 ^ 63"
  shows "filled_at n cur filled (unat pos)"
proof -
  let ?i = "unat pos mod n"
  have s: "cur ?i mod n = ?i" "unat pos + 1 = cur ?i + (if filled ?i then 1 else 0)"
    using ring_slot [OF assms(1), of "unat pos"] assms(2) unat_inc [OF assms(3)]
    by (simp_all add: slot_ok_def seq_at_def ring_cell [OF assms(1)])
  have "filled ?i"
  proof (rule ccontr)
    assume "\<not> filled ?i"
    then have "unat pos < cur ?i" "cur ?i = unat pos + 1" using s(2) by simp_all
    with same_cell [of "unat pos" n "cur ?i"] s(1) ring_size [OF assms(1)] show False by simp
  qed
  then show ?thesis using s(2) by (simp add: filled_at_def)
qed

section \<open>The steps that change the ring\<close>

lemma store_fields [simp]:
  "mq_enqueue_pos (store_data q pos x) = mq_enqueue_pos q" "mq_dequeue_pos (store_data q pos x) = mq_dequeue_pos q"
  "mq_buffer_mask (store_data q pos x) = mq_buffer_mask q" "length (mq_buffer (store_data q pos x)) = length (mq_buffer q)"
  "mq_enqueue_pos (store_seq q pos m) = mq_enqueue_pos q" "mq_dequeue_pos (store_seq q pos m) = mq_dequeue_pos q"
  "mq_buffer_mask (store_seq q pos m) = mq_buffer_mask q" "length (mq_buffer (store_seq q pos m)) = length (mq_buffer q)"
  by (simp_all add: store_data_def store_seq_def)

lemma store_cell:
  assumes "ring_ok n q sent cur filled" "i < n"
  shows "mq_buffer (store_data q pos x) ! i
      = (if i = unat pos mod n then (mq_buffer q ! i)\<lparr>cell_data := Some x\<rparr> else mq_buffer q ! i)"
    and "mq_buffer (store_seq q pos m) ! i
      = (if i = unat pos mod n then (mq_buffer q ! i)\<lparr>cell_seq := m\<rparr> else mq_buffer q ! i)"
  using assms(2) ring_len [OF assms(1)] by (simp_all add: store_data_def store_seq_def ring_cell [OF assms(1)])

lemma ring_mod: "ring_ok n q sent cur filled \<Longrightarrow> p mod n < n"
  using ring_size [of n q sent cur filled] by simp

lemma claim_fill_ring:
  assumes ring: "ring_ok n q sent cur filled" and free: "free_at n cur filled (length sent)" and small: "length sent < 2 ^ 62"
  shows "ring_ok n (q\<lparr>mq_enqueue_pos := mq_enqueue_pos q + 1\<rparr>) (sent @ [x]) cur filled"
proof -
  have "slot_ok n (q\<lparr>mq_enqueue_pos := mq_enqueue_pos q + 1\<rparr>) (sent @ [x]) cur filled i" if i: "i < n" for i
  proof -
    have s: "slot_ok n q sent cur filled i" using ring i by (simp add: ring_ok_def)
    have "length sent < cur i + n"
    proof (rule ccontr)
      assume "\<not> length sent < cur i + n"
      then have e: "length sent = cur i + n" using s by (simp add: slot_ok_def)
      then have "length sent mod n = i" using s by (simp add: slot_ok_def)
      then have "cur i = length sent" using free by (simp add: free_at_def)
      then show False using e ring_size [OF ring] by simp
    qed
    then show ?thesis using s by (auto simp: slot_ok_def nth_append)
  qed
  moreover have "unat (mq_enqueue_pos q + 1) = length sent + 1"
    using unat_inc [of "mq_enqueue_pos q"] ring small by (simp add: ring_ok_def)
  moreover have "length sent < unat (mq_dequeue_pos q) + n"
    using ring_slot [OF ring, of "length sent"] free by (simp add: slot_ok_def free_at_def)
  ultimately show ?thesis using ring by (simp add: ring_ok_def)
qed

lemma claim_fill_access: "access_ok n q sent cur filled a \<Longrightarrow> unat (mq_dequeue_pos q) \<le> length sent \<Longrightarrow>
    access_ok n (q\<lparr>mq_enqueue_pos := e\<rparr>) (sent @ [x]) cur filled a"
  by (cases a) (auto simp: nth_append)

lemma fill_ring:
  assumes ring: "ring_ok n q sent cur filled" and free: "free_at n cur filled (unat pos)"
  shows "ring_ok n (store_data q pos x) sent cur filled"
proof -
  have "slot_ok n (store_data q pos x) sent cur filled i" if i: "i < n" for i
  proof -
    have "slot_ok n q sent cur filled i" using ring i by (simp add: ring_ok_def)
    then show ?thesis using free i
      by (cases "i = unat pos mod n") (simp_all add: slot_ok_def store_cell [OF ring] free_at_def)
  qed
  then show ?thesis using ring by (simp add: ring_ok_def)
qed

lemma fill_access:
  assumes "ring_ok n q sent cur filled" "access_ok n q sent cur filled a" "free_at n cur filled (unat pos)"
    "holds a \<noteq> Some (To_fill (unat pos))"
  shows "access_ok n (store_data q pos x) sent cur filled a"
  using assms by (cases a) (auto simp: store_cell [OF assms(1) ring_mod [OF assms(1)]] free_at_def)

lemma publish_ring:
  assumes ring: "ring_ok n q sent cur filled" and free: "free_at n cur filled (unat pos)"
    and pos: "unat pos < length sent" "length sent < 2 ^ 62" and data: "cell_data (mq_buffer q ! (unat pos mod n)) = Some (sent ! unat pos)"
  shows "ring_ok n (store_seq q pos (pos + 1)) sent cur (filled(unat pos mod n := True))"
proof -
  have u: "unat (pos + 1) = unat pos + 1" using pos by (intro unat_inc) simp
  have "slot_ok n (store_seq q pos (pos + 1)) sent cur (filled(unat pos mod n := True)) i" if i: "i < n" for i
  proof -
    have "slot_ok n q sent cur filled i" using ring i by (simp add: ring_ok_def)
    then show ?thesis using free u pos(1) data i
      by (cases "i = unat pos mod n") (simp_all add: slot_ok_def store_cell [OF ring] free_at_def)
  qed
  then show ?thesis using ring by (simp add: ring_ok_def)
qed

lemma cell_after_publish:
  assumes "free_at n cur filled p"
  shows "free_at n cur filled r \<Longrightarrow> r \<noteq> p \<Longrightarrow> free_at n cur (filled(p mod n := True)) r"
    and "filled_at n cur filled r \<Longrightarrow> filled_at n cur (filled(p mod n := True)) r"
  using assms unfolding free_at_def filled_at_def fun_upd_apply by metis+

lemma cell_after_release:
  assumes "filled_at n cur filled p"
  shows "filled_at n cur filled r \<Longrightarrow> r \<noteq> p \<Longrightarrow> filled_at n (cur(p mod n := m)) (filled(p mod n := False)) r"
    and "free_at n cur filled r \<Longrightarrow> free_at n (cur(p mod n := m)) (filled(p mod n := False)) r"
  using assms unfolding free_at_def filled_at_def fun_upd_apply by metis+

lemma store_seq_data: "cell_data (mq_buffer (store_seq q pos m) ! i) = cell_data (mq_buffer q ! i)"
  by (cases "i = cell_at q pos"; cases "i < length (mq_buffer q)") (simp_all add: store_seq_def list_update_beyond)

lemma publish_access:
  assumes "ring_ok n q sent cur filled" "access_ok n q sent cur filled a" "free_at n cur filled (unat pos)"
    "unat pos < length sent" "holds a \<noteq> Some (To_fill (unat pos))"
  shows "access_ok n (store_seq q pos m) sent cur (filled(unat pos mod n := True)) a"
  using assms(2,4,5) cell_after_publish [OF assms(3)]
  by (cases a) (simp_all add: store_seq_data, metis+)

lemma claim_empty_ring:
  assumes ring: "ring_ok n q sent cur filled" and filled: "filled_at n cur filled (unat (mq_dequeue_pos q))" and small: "length sent < 2 ^ 62"
  shows "ring_ok n (q\<lparr>mq_dequeue_pos := mq_dequeue_pos q + 1\<rparr>) sent cur filled"
proof -
  let ?d = "unat (mq_dequeue_pos q)"
  have d: "?d < length sent" using ring_slot [OF ring, of ?d] filled by (simp add: slot_ok_def filled_at_def)
  then have u: "unat (mq_dequeue_pos q + 1) = ?d + 1" using small by (intro unat_inc) simp
  have "slot_ok n (q\<lparr>mq_dequeue_pos := mq_dequeue_pos q + 1\<rparr>) sent cur filled i" if i: "i < n" for i
  proof -
    have s: "slot_ok n q sent cur filled i" using ring i by (simp add: ring_ok_def)
    have "\<not> filled i \<Longrightarrow> cur i \<noteq> ?d" using s filled by (auto simp: slot_ok_def filled_at_def)
    then show ?thesis using s u by (auto simp: slot_ok_def)
  qed
  then show ?thesis using ring u d by (simp add: ring_ok_def)
qed

lemma claim_empty_access:
  assumes "access_ok n q sent cur filled a" "unat d = unat (mq_dequeue_pos q) + 1"
  shows "access_ok n (q\<lparr>mq_dequeue_pos := d\<rparr>) sent cur filled a"
  using assms by (cases a) auto

lemma release_ring:
  assumes ring: "ring_ok n q sent cur filled" and filled: "filled_at n cur filled (unat pos)"
    and pos: "unat pos < unat (mq_dequeue_pos q)" and small: "length sent < 2 ^ 62"
  shows "ring_ok n (store_seq q pos (pos + mq_buffer_mask q + 1)) sent
    (cur(unat pos mod n := unat pos + n)) (filled(unat pos mod n := False))"
proof -
  have n: "n \<le> 2 ^ 62" using ring_size [OF ring] by simp
  have d: "unat (mq_dequeue_pos q) \<le> length sent" "mq_buffer_mask q = of_nat n - 1" using ring by (simp_all add: ring_ok_def)
  then have "pos + mq_buffer_mask q + 1 = of_nat (unat pos + n)" by simp
  then have u: "unat (pos + mq_buffer_mask q + 1) = unat pos + n"
    using n pos d small unat_of_nat_64 [of "unat pos + n"] by simp
  have s: "slot_ok n q sent cur filled (unat pos mod n)" by (rule ring_slot [OF ring])
  have e: "length sent \<le> unat pos + n" using s filled by (simp add: slot_ok_def filled_at_def)
  have "slot_ok n (store_seq q pos (pos + mq_buffer_mask q + 1)) sent
      (cur(unat pos mod n := unat pos + n)) (filled(unat pos mod n := False)) i" if i: "i < n" for i
  proof -
    have "slot_ok n q sent cur filled i" using ring i by (simp add: ring_ok_def)
    then show ?thesis using pos d(1) u e i
      by (cases "i = unat pos mod n") (simp_all add: slot_ok_def store_cell [OF ring])
  qed
  then show ?thesis using ring by (simp add: ring_ok_def)
qed

lemma release_access:
  assumes "ring_ok n q sent cur filled" "access_ok n q sent cur filled a" "filled_at n cur filled (unat pos)"
    "unat pos < unat (mq_dequeue_pos q)" "unat (mq_dequeue_pos q) \<le> length sent" "holds a \<noteq> Some (To_empty (unat pos))"
  shows "access_ok n (store_seq q pos m) sent (cur(unat pos mod n := unat pos + n)) (filled(unat pos mod n := False)) a"
  using assms(2,4-6) cell_after_release [OF assms(3)]
  by (cases a) (simp_all add: store_seq_data, metis+)

section \<open>Preservation\<close>

lemma claims_upd:
  assumes "claims_ok ths" "\<And>u. u \<noteq> t \<Longrightarrow> holds a \<noteq> None \<Longrightarrow> holds (ths u) \<noteq> holds a"
  shows "claims_ok (ths(t := a))"
  using assms unfolding claims_ok_def by (metis fun_upd_apply)

lemma claims_other: "claims_ok ths \<Longrightarrow> holds (ths t) = Some c \<Longrightarrow> u \<noteq> t \<Longrightarrow> holds (ths u) \<noteq> Some c"
  unfolding claims_ok_def by (metis option.distinct(1))

lemma local_inv:
  assumes inv: "mail_inv n q ths sent received cur filled" and a: "holds a = holds (ths t)" "access_ok n q sent cur filled a"
  shows "mail_inv n q (ths(t := a)) sent received cur filled"
proof -
  have h: "holds ((ths(t := a)) u) = holds (ths u)" for u using a(1) by simp
  have "claims_ok (ths(t := a))" using inv unfolding mail_inv_def claims_ok_def h by blast
  then show ?thesis using inv a(2) unfolding mail_inv_def filling_ok_def received_ok_def h by simp
qed

lemma claim_fill_inv:
  assumes inv: "mail_inv n q ths sent received cur filled" and t: "ths t = Enq_cas x (mq_enqueue_pos q)"
    and small: "length sent < 2 ^ 62"
  shows "mail_inv n (q\<lparr>mq_enqueue_pos := mq_enqueue_pos q + 1\<rparr>) (ths(t := Enq_data x (mq_enqueue_pos q)))
    (sent @ [x]) received cur filled"
proof -
  let ?e = "unat (mq_enqueue_pos q)"
  have ring: "ring_ok n q sent cur filled" and acc: "\<And>u. access_ok n q sent cur filled (ths u)" and claims: "claims_ok ths"
    and fill: "filling_ok n (length sent) cur filled ths"
    and rcv: "received_ok n (unat (mq_dequeue_pos q)) sent received cur ths"
    using inv by (simp_all add: mail_inv_def)
  have e: "?e = length sent" "unat (mq_dequeue_pos q) \<le> length sent" using ring by (simp_all add: ring_ok_def)
  have free: "free_at n cur filled ?e" using acc [of t] t e by simp
  have new: "holds (ths u) \<noteq> Some (To_fill ?e)" for u using acc [of u] e by (cases "ths u") auto
  have acc': "access_ok n (q\<lparr>mq_enqueue_pos := mq_enqueue_pos q + 1\<rparr>) (sent @ [x]) cur filled
      ((ths(t := Enq_data x (mq_enqueue_pos q))) u)" for u
    using claim_fill_access [OF acc [of u] e(2)] free e by (simp add: nth_append)
  have "claims_ok (ths(t := Enq_data x (mq_enqueue_pos q)))" using new by (intro claims_upd [OF claims]) simp
  moreover have "filling_ok n (length (sent @ [x])) cur filled (ths(t := Enq_data x (mq_enqueue_pos q)))"
    unfolding filling_ok_def
  proof (intro allI impI)
    fix p
    assume "p < length (sent @ [x])"
    then consider "p < length sent" | "p = ?e" using e by fastforce
    then show "p < cur (p mod n) \<or> filled_at n cur filled p
        \<or> (\<exists>u. holds ((ths(t := Enq_data x (mq_enqueue_pos q))) u) = Some (To_fill p))"
    proof cases
      case 1
      then show ?thesis using fill t unfolding filling_ok_def by (metis fun_upd_apply holds.simps(8) option.distinct(1))
    next
      case 2
      then show ?thesis by (metis fun_upd_same holds.simps(1))
    qed
  qed
  moreover have "received_ok n (unat (mq_dequeue_pos q)) (sent @ [x]) received cur (ths(t := Enq_data x (mq_enqueue_pos q)))"
  proof -
    have "holds ((ths(t := Enq_data x (mq_enqueue_pos q))) u) = Some (To_empty p) \<longleftrightarrow> holds (ths u) = Some (To_empty p)" for u p
      using t by simp
    then show ?thesis using rcv e(2) unfolding received_ok_def by (auto simp: nth_append)
  qed
  ultimately show ?thesis
    using claim_fill_ring [OF ring _ small, of x] free e acc' by (simp add: mail_inv_def)
qed

lemma fill_inv:
  assumes inv: "mail_inv n q ths sent received cur filled" and t: "ths t = Enq_data x pos"
  shows "mail_inv n (store_data q pos x) (ths(t := Enq_publish x pos)) sent received cur filled"
proof -
  have ring: "ring_ok n q sent cur filled" and acc: "\<And>u. access_ok n q sent cur filled (ths u)" and claims: "claims_ok ths"
    using inv by (simp_all add: mail_inv_def)
  have pos: "unat pos < length sent" "sent ! unat pos = x" "free_at n cur filled (unat pos)" using acc [of t] t by simp_all
  have h: "holds ((ths(t := Enq_publish x pos)) u) = holds (ths u)" for u using t by simp
  have "access_ok n (store_data q pos x) sent cur filled ((ths(t := Enq_publish x pos)) u)" for u
  proof (cases "u = t")
    case True
    then show ?thesis using pos store_cell(1) [OF ring ring_mod [OF ring]] by simp
  next
    case False
    then show ?thesis using fill_access [OF ring acc pos(3)] claims_other [OF claims, of t] t by simp
  qed
  moreover have "claims_ok (ths(t := Enq_publish x pos))" using claims unfolding claims_ok_def h .
  ultimately show ?thesis
    using inv fill_ring [OF ring pos(3), of x] unfolding mail_inv_def filling_ok_def received_ok_def h by simp
qed

lemma publish_inv:
  assumes inv: "mail_inv n q ths sent received cur filled" and t: "ths t = Enq_publish x pos" and small: "length sent < 2 ^ 62"
  shows "mail_inv n (store_seq q pos (pos + 1)) (ths(t := Enq_done True)) sent received cur (filled(unat pos mod n := True))"
proof -
  have ring: "ring_ok n q sent cur filled" and acc: "\<And>u. access_ok n q sent cur filled (ths u)" and claims: "claims_ok ths"
    and fill: "filling_ok n (length sent) cur filled ths"
    and rcv: "received_ok n (unat (mq_dequeue_pos q)) sent received cur ths"
    using inv by (simp_all add: mail_inv_def)
  have pos: "unat pos < length sent" "sent ! unat pos = x" "free_at n cur filled (unat pos)"
    "cell_data (mq_buffer q ! (unat pos mod n)) = Some x" using acc [of t] t by simp_all
  have "access_ok n (store_seq q pos (pos + 1)) sent cur (filled(unat pos mod n := True)) ((ths(t := Enq_done True)) u)" for u
    using publish_access [OF ring acc pos(3,1)] claims_other [OF claims, of t] t by simp
  moreover have "claims_ok (ths(t := Enq_done True))" by (rule claims_upd [OF claims]) simp
  moreover have "filling_ok n (length sent) cur (filled(unat pos mod n := True)) (ths(t := Enq_done True))"
    unfolding filling_ok_def
  proof (intro allI impI)
    fix p
    assume "p < length sent"
    with fill consider "p < cur (p mod n)" | "filled_at n cur filled p" | u where "holds (ths u) = Some (To_fill p)"
      unfolding filling_ok_def by blast
    then show "p < cur (p mod n) \<or> filled_at n cur (filled(unat pos mod n := True)) p
        \<or> (\<exists>u. holds ((ths(t := Enq_done True)) u) = Some (To_fill p))"
    proof cases
      case 2
      then show ?thesis using cell_after_publish(2) [OF pos(3)] by blast
    next
      case 3
      show ?thesis
      proof (cases "u = t")
        case True
        then have "p = unat pos" using 3 t by simp
        then show ?thesis using pos(3) by (simp add: filled_at_def free_at_def)
      next
        case False
        then show ?thesis using 3 by (metis fun_upd_apply)
      qed
    qed blast
  qed
  moreover have "received_ok n (unat (mq_dequeue_pos q)) sent received cur (ths(t := Enq_done True))"
  proof -
    have "holds ((ths(t := Enq_done True)) u) = Some (To_empty p) \<longleftrightarrow> holds (ths u) = Some (To_empty p)" for u p
      using t by simp
    then show ?thesis using rcv unfolding received_ok_def by simp
  qed
  ultimately show ?thesis
    using publish_ring [OF ring pos(3,1) small] pos(2,4) by (simp add: mail_inv_def)
qed

lemma claim_empty_inv:
  assumes inv: "mail_inv n q ths sent received cur filled" and t: "ths t = Deq_cas (mq_dequeue_pos q)"
    and small: "length sent < 2 ^ 62"
  shows "mail_inv n (q\<lparr>mq_dequeue_pos := mq_dequeue_pos q + 1\<rparr>) (ths(t := Deq_data (mq_dequeue_pos q)))
    sent received cur filled"
proof -
  let ?d = "unat (mq_dequeue_pos q)" and ?a = "Deq_data (mq_dequeue_pos q)"
  have ring: "ring_ok n q sent cur filled" and acc: "\<And>u. access_ok n q sent cur filled (ths u)" and claims: "claims_ok ths"
    and fill: "filling_ok n (length sent) cur filled ths"
    and rcv: "received_ok n ?d sent received cur ths"
    using inv by (simp_all add: mail_inv_def)
  have full: "filled_at n cur filled ?d" using acc [of t] t by simp
  have d: "unat (mq_dequeue_pos q + 1) = ?d + 1" using ring small by (intro unat_inc) (simp add: ring_ok_def)
  have new: "holds (ths u) \<noteq> Some (To_empty ?d)" for u using acc [of u] by (cases "ths u") auto
  have acc': "access_ok n (q\<lparr>mq_dequeue_pos := mq_dequeue_pos q + 1\<rparr>) sent cur filled ((ths(t := ?a)) u)" for u
    using claim_empty_access [OF acc [of u] d] full d by simp
  have "claims_ok (ths(t := ?a))" using new by (intro claims_upd [OF claims]) simp
  moreover have "filling_ok n (length sent) cur filled (ths(t := ?a))"
  proof -
    have "holds ((ths(t := ?a)) u) = Some (To_fill p) \<longleftrightarrow> holds (ths u) = Some (To_fill p)" for u p using t by simp
    then show ?thesis using fill unfolding filling_ok_def by simp
  qed
  moreover have "received_ok n (?d + 1) sent received cur (ths(t := ?a))"
  proof -
    have "(\<exists>pos \<in> fst ` set received. unat pos = p) \<or> (\<exists>u. holds ((ths(t := ?a)) u) = Some (To_empty p))" if "p < ?d + 1" for p
    proof (cases "p = ?d")
      case True
      then show ?thesis by (metis fun_upd_same holds.simps(3))
    next
      case False
      then have "p < ?d" using that by simp
      with rcv consider "\<exists>r \<in> fst ` set received. unat r = p" | u where "holds (ths u) = Some (To_empty p)"
        unfolding received_ok_def by blast
      then show ?thesis
      proof cases
        case 2
        then have "u \<noteq> t" using t by auto
        then show ?thesis using 2 by (metis fun_upd_apply)
      qed blast
    qed
    moreover have "distinct (map fst received)" using rcv by (simp add: received_ok_def)
    moreover have "case r of (pos, x) \<Rightarrow> unat pos < ?d + 1 \<and> x = Some (sent ! unat pos) \<and> unat pos < cur (unat pos mod n)"
      if "r \<in> set received" for r
      using rcv that by (cases r) (auto simp: received_ok_def)
    ultimately show ?thesis unfolding received_ok_def by blast
  qed
  ultimately show ?thesis
    using claim_empty_ring [OF ring full small] acc' d by (simp add: mail_inv_def)
qed

lemma release_inv:
  assumes inv: "mail_inv n q ths sent received cur filled" and t: "ths t = Deq_release pos d" and small: "length sent < 2 ^ 62"
  shows "mail_inv n (store_seq q pos (pos + mq_buffer_mask q + 1)) (ths(t := Deq_done d)) sent (received @ [(pos, d)])
    (cur(unat pos mod n := unat pos + n)) (filled(unat pos mod n := False))"
proof -
  let ?cur = "cur(unat pos mod n := unat pos + n)" and ?filled = "filled(unat pos mod n := False)"
  have ring: "ring_ok n q sent cur filled" and acc: "\<And>u. access_ok n q sent cur filled (ths u)" and claims: "claims_ok ths"
    and fill: "filling_ok n (length sent) cur filled ths"
    and rcv: "received_ok n (unat (mq_dequeue_pos q)) sent received cur ths"
    using inv by (simp_all add: mail_inv_def)
  have pos: "unat pos < unat (mq_dequeue_pos q)" "filled_at n cur filled (unat pos)" "d = Some (sent ! unat pos)"
    using acc [of t] t by simp_all
  have dl: "unat (mq_dequeue_pos q) \<le> length sent" using ring by (simp add: ring_ok_def)
  have n: "0 < n" using ring_size [OF ring] by simp
  have up: "p < ?cur (p mod n)" if "p < cur (p mod n) \<or> p = unat pos" for p
    using that pos(2) n by (auto simp: filled_at_def)
  have "access_ok n (store_seq q pos (pos + mq_buffer_mask q + 1)) sent ?cur ?filled ((ths(t := Deq_done d)) u)" for u
    using release_access [OF ring acc pos(2,1) dl] claims_other [OF claims, of t] t by simp
  moreover have "claims_ok (ths(t := Deq_done d))" by (rule claims_upd [OF claims]) simp
  moreover have "filling_ok n (length sent) ?cur ?filled (ths(t := Deq_done d))"
    unfolding filling_ok_def
  proof (intro allI impI)
    fix p
    assume "p < length sent"
    with fill consider "p < cur (p mod n)" | "filled_at n cur filled p" | u where "holds (ths u) = Some (To_fill p)"
      unfolding filling_ok_def by blast
    then show "p < ?cur (p mod n) \<or> filled_at n ?cur ?filled p \<or> (\<exists>u. holds ((ths(t := Deq_done d)) u) = Some (To_fill p))"
    proof cases
      case 1
      then show ?thesis using up by blast
    next
      case 2
      then show ?thesis using cell_after_release(1) [OF pos(2)] up by metis
    next
      case 3
      then have "u \<noteq> t" using t by auto
      then show ?thesis using 3 by (metis fun_upd_apply)
    qed
  qed
  moreover have "received_ok n (unat (mq_dequeue_pos q)) sent (received @ [(pos, d)]) ?cur (ths(t := Deq_done d))"
  proof -
    have "unat pos \<noteq> unat r" if "(r, y) \<in> set received" for r y
      using rcv that pos(2) unfolding received_ok_def filled_at_def by fastforce
    then have "pos \<notin> fst ` set received" by force
    moreover have "(\<exists>r \<in> fst ` set (received @ [(pos, d)]). unat r = p) \<or> (\<exists>u. holds ((ths(t := Deq_done d)) u) = Some (To_empty p))"
      if p: "p < unat (mq_dequeue_pos q)" for p
    proof (cases "p = unat pos")
      case False
      from rcv p consider "\<exists>r \<in> fst ` set received. unat r = p" | u where "holds (ths u) = Some (To_empty p)"
        unfolding received_ok_def by blast
      then show ?thesis
      proof cases
        case 2
        then have "u \<noteq> t" using t False by auto
        then show ?thesis using 2 by (metis fun_upd_apply)
      qed auto
    qed auto
    ultimately show ?thesis using rcv pos up n unfolding received_ok_def by auto
  qed
  ultimately show ?thesis
    using release_ring [OF ring pos(2,1) small] by (simp add: mail_inv_def)
qed

lemma access_step_inv:
  assumes "access_step (q, ths t) ev (q', a)" "mail_inv n q ths sent received cur filled" "length sent < 2 ^ 62"
  shows "\<exists>cur' filled'. mail_inv n q' (ths(t := a))
    (case ev of Sent x \<Rightarrow> sent @ [x] | _ \<Rightarrow> sent)
    (case ev of Received pos d \<Rightarrow> received @ [(pos, d)] | _ \<Rightarrow> received) cur' filled'"
proof -
  have ring: "ring_ok n q sent cur filled" and acc: "access_ok n q sent cur filled (ths t)"
    using assms(2) by (simp_all add: mail_inv_def)
  note loc = local_inv [OF assms(2), of a t]
  from assms(1) show ?thesis
  proof cases
    case (enq_free pos x)
    then have "free_at n cur filled (unat pos)" using seq_free [OF ring, of pos] by simp
    then show ?thesis using enq_free loc by auto
  next
    case (enq_claim pos x)
    then show ?thesis using claim_fill_inv [OF assms(2) _ assms(3), of t x] by auto
  next
    case (enq_write x pos)
    then show ?thesis using fill_inv [OF assms(2), of t x pos] by auto
  next
    case (enq_publish x pos)
    then show ?thesis using publish_inv [OF assms(2) _ assms(3), of t x pos] by auto
  next
    case (deq_full pos)
    have "unat pos < 2 ^ 63" using acc deq_full ring assms(3) by (simp add: ring_ok_def)
    then have "filled_at n cur filled (unat pos)" using seq_filled [OF ring, of pos] deq_full by simp
    then show ?thesis using deq_full loc by auto
  next
    case (deq_claim pos)
    then show ?thesis using claim_empty_inv [OF assms(2) _ assms(3), of t] by auto
  next
    case (deq_read pos)
    then have "filled_at n cur filled (unat pos)" using acc by simp
    then have "cell_data (mq_buffer q ! cell_at q pos) = Some (sent ! unat pos)"
      using ring_slot [OF ring, of "unat pos"] by (simp add: ring_cell [OF ring] slot_ok_def filled_at_def)
    then show ?thesis using deq_read loc acc by auto
  next
    case (deq_release pos d)
    then show ?thesis using release_inv [OF assms(2) _ assms(3), of t pos d] by auto
  qed (use loc in auto)
qed

lemma mailbox_step_ok:
  assumes "mailbox_step s s'" "mailbox_ok n s" "length (mb_sent s) < 2 ^ 62"
  shows "mailbox_ok n s'"
  using assms(1)
proof cases
  case (1 t ev q' a)
  obtain cur filled where inv: "mail_inv n (mb_queue s) (mb_threads s) (mb_sent s) (mb_received s) cur filled"
    using assms(2) by (auto simp: mailbox_ok_def)
  show ?thesis using access_step_inv [OF 1(2) inv assms(3)] 1(1) by (cases ev) (auto simp: mailbox_ok_def)
qed

lemma mailbox_step_sent: "mailbox_step s s' \<Longrightarrow> length (mb_sent s) \<le> length (mb_sent s')"
  by (erule mailbox_stepE, rename_tac ev q' a, case_tac ev) auto

lemma new_mailbox_ok:
  assumes "1 \<le> k" "k \<le> 62"
  shows "mailbox_ok (2 ^ k) (new_mailbox (2 ^ k))"
proof -
  have "(2::nat) ^ k \<le> 2 ^ 62" using assms by (intro power_increasing) auto
  then have "unat (of_nat i :: u64) = i" if "i < 2 ^ k" for i using that by (intro unat_of_nat_64) simp
  then have "mail_inv (2 ^ k) (mpmcq_init (2 ^ k)) (\<lambda>_. Outside) [] [] (\<lambda>i. i) (\<lambda>_. False)"
    using assms by (auto simp: mail_inv_def ring_ok_def slot_ok_def mpmcq_init_def claims_ok_def filling_ok_def received_ok_def)
  then show ?thesis by (auto simp: mailbox_ok_def new_mailbox_def)
qed

lemma mailbox_run_ok:
  assumes "mailbox_step\<^sup>*\<^sup>* (new_mailbox (2 ^ k)) s" "1 \<le> k" "k \<le> 62" "length (mb_sent s) < 2 ^ 62"
  shows "mailbox_ok (2 ^ k) s"
  using assms(1,4)
proof (induction rule: rtranclp_induct)
  case base
  then show ?case using new_mailbox_ok [OF assms(2,3)] by simp
next
  case (step s s')
  then have "length (mb_sent s) < 2 ^ 62" using mailbox_step_sent [of s s'] by simp
  then show ?case using step mailbox_step_ok by blast
qed

end
