(* ===== verification/Mailbox_Props.thy ===== *)
theory Mailbox_Props
  imports Mailbox_Correct
begin

text \<open>
  The contract of the mailboxes when any number of threads use them at once, and its relation to
  the model of one operation at a time that the rest of the development uses.
\<close>

section \<open>One operation at a time\<close>

text \<open>The steps of one thread while no other moves, with the events that are not silent.\<close>

inductive calls :: "'a mpmcq \<times> 'a access \<Rightarrow> 'a mq_event list \<Rightarrow> 'a mpmcq \<times> 'a access \<Rightarrow> bool" where
  calls_refl: "calls s [] s"
| calls_silent: "access_step s Silent s' \<Longrightarrow> calls s' evs s'' \<Longrightarrow> calls s evs s''"
| calls_event: "access_step s ev s' \<Longrightarrow> ev \<noteq> Silent \<Longrightarrow> calls s' evs s'' \<Longrightarrow> calls s (ev # evs) s''"

lemma calls_trans: "calls s evs s' \<Longrightarrow> calls s' evs' s'' \<Longrightarrow> calls s (evs @ evs') s''"
  by (induction rule: calls.induct) (auto intro: calls.intros)

lemma calls_one: "access_step s ev s' \<Longrightarrow> calls s (if ev = Silent then [] else [ev]) s'"
  by (auto intro: calls.intros)

definition enq_reaches :: "'a \<Rightarrow> 'a mpmcq \<Rightarrow> u64 \<Rightarrow> 'a mpmcq \<times> u64 option \<Rightarrow> bool" where
  "enq_reaches x q pos y \<longleftrightarrow> (case snd y of
      None \<Rightarrow> calls (q, Enq_seq x pos) [] (fst y, Enq_done False)
    | Some p \<Rightarrow> calls (q, Enq_seq x pos) [Sent x] (fst y, Enq_data x p))"

definition deq_reaches :: "'a mpmcq \<Rightarrow> u64 \<Rightarrow> 'a mpmcq \<times> u64 option \<Rightarrow> bool" where
  "deq_reaches q pos y \<longleftrightarrow> (case snd y of
      None \<Rightarrow> calls (q, Deq_seq pos) [] (fst y, Deq_done None)
    | Some p \<Rightarrow> calls (q, Deq_seq pos) [] (fst y, Deq_data p))"

lemma enq_reaches_via: "(\<And>evs s. calls (q, Enq_seq x pos') evs s \<Longrightarrow> calls (q, Enq_seq x pos) evs s) \<Longrightarrow>
    enq_reaches x q pos' y \<Longrightarrow> enq_reaches x q pos y"
  by (auto simp: enq_reaches_def split: option.splits)

lemma deq_reaches_via: "(\<And>evs s. calls (q, Deq_seq pos') evs s \<Longrightarrow> calls (q, Deq_seq pos) evs s) \<Longrightarrow>
    deq_reaches q pos' y \<Longrightarrow> deq_reaches q pos y"
  by (auto simp: deq_reaches_def split: option.splits)

lemma enqueue_claim_calls: "enqueue_claim q pos = Some y \<Longrightarrow> enq_reaches x q pos y"
proof (rule enqueue_claim.raw_induct [where P = "enq_reaches x", rotated], assumption)
  fix claim :: "'a mpmcq \<Rightarrow> u64 \<Rightarrow> ('a mpmcq \<times> u64 option) option" and q pos y
  assume IH: "\<And>q pos y. claim q pos = Some y \<Longrightarrow> enq_reaches x q pos y"
    and run: "(let diff = cell_seq (mq_buffer q ! cell_at q pos) - pos
       in if diff = 0
          then (if mq_enqueue_pos q = pos then Some (q\<lparr>mq_enqueue_pos := pos + 1\<rparr>, Some pos)
                else claim q (mq_enqueue_pos q))
          else if diff < 0 then Some (q, None)
          else claim q (mq_enqueue_pos q)) = Some y"
  let ?diff = "seq_at q pos - pos"
  consider "?diff = 0" "mq_enqueue_pos q = pos" | "?diff = 0" "mq_enqueue_pos q \<noteq> pos" | "?diff \<noteq> 0" "\<not> ?diff < 0"
    by force
  then show "enq_reaches x q pos y"
  proof cases
    case 1
    then have "y = (q\<lparr>mq_enqueue_pos := pos + 1\<rparr>, Some pos)" using run by (simp add: seq_at_def)
    then show ?thesis using calls_silent [OF enq_free [OF 1(1)] calls_event [OF enq_claim [OF 1(2)] _ calls_refl]]
      by (simp add: enq_reaches_def)
  next
    case 2
    then have "claim q (mq_enqueue_pos q) = Some y" using run by (simp add: seq_at_def)
    from IH [OF this] show ?thesis
      by (rule enq_reaches_via [rotated]) (rule calls_silent [OF enq_free [OF 2(1)] calls_silent [OF enq_fail]])
  next
    case 3
    then have "claim q (mq_enqueue_pos q) = Some y" using run by (simp add: seq_at_def)
    from IH [OF this] show ?thesis
      by (rule enq_reaches_via [rotated]) (rule calls_silent [OF enq_again [OF 3] calls_silent [OF enq_load]])
  qed
qed

lemma dequeue_claim_calls: "dequeue_claim q pos = Some y \<Longrightarrow> deq_reaches q pos y"
proof (rule dequeue_claim.raw_induct [where P = deq_reaches, rotated], assumption)
  fix claim :: "'a mpmcq \<Rightarrow> u64 \<Rightarrow> ('a mpmcq \<times> u64 option) option" and q pos y
  assume IH: "\<And>q pos y. claim q pos = Some y \<Longrightarrow> deq_reaches q pos y"
    and run: "(let diff = cell_seq (mq_buffer q ! cell_at q pos) - (pos + 1)
       in if diff = 0
          then (if mq_dequeue_pos q = pos then Some (q\<lparr>mq_dequeue_pos := pos + 1\<rparr>, Some pos)
                else claim q (mq_dequeue_pos q))
          else if sint diff < 0 then Some (q, None)
          else claim q (mq_dequeue_pos q)) = Some y"
  let ?diff = "seq_at q pos - (pos + 1)"
  consider "?diff = 0" "mq_dequeue_pos q = pos" | "?diff = 0" "mq_dequeue_pos q \<noteq> pos"
    | "?diff \<noteq> 0" "sint ?diff < 0" | "?diff \<noteq> 0" "\<not> sint ?diff < 0"
    by blast
  then show "deq_reaches q pos y"
  proof cases
    case 1
    then have "y = (q\<lparr>mq_dequeue_pos := pos + 1\<rparr>, Some pos)" using run by (simp add: seq_at_def)
    then show ?thesis using calls_silent [OF deq_full [OF 1(1)] calls_silent [OF deq_claim [OF 1(2)] calls_refl]]
      by (simp add: deq_reaches_def)
  next
    case 2
    then have "claim q (mq_dequeue_pos q) = Some y" using run by (simp add: seq_at_def)
    from IH [OF this] show ?thesis
      by (rule deq_reaches_via [rotated]) (rule calls_silent [OF deq_full [OF 2(1)] calls_silent [OF deq_fail]])
  next
    case 3
    then have "y = (q, None)" using run by (simp add: seq_at_def)
    then show ?thesis using calls_silent [OF deq_empty [OF 3] calls_refl] by (simp add: deq_reaches_def)
  next
    case 4
    then have "claim q (mq_dequeue_pos q) = Some y" using run by (simp add: seq_at_def)
    from IH [OF this] show ?thesis
      by (rule deq_reaches_via [rotated]) (rule calls_silent [OF deq_again [OF 4] calls_silent [OF deq_load]])
  qed
qed

lemma publish_stores: "enqueue_publish q pos x = store_seq (store_data q pos x) pos (pos + 1)"
proof -
  obtain m d where "mq_buffer q ! unat (pos AND mq_buffer_mask q) = \<lparr>cell_seq = m, cell_data = d\<rparr>"
    by (cases "mq_buffer q ! unat (pos AND mq_buffer_mask q)")
  then show ?thesis
    by (cases "cell_at q pos < length (mq_buffer q)")
      (simp_all add: enqueue_publish_def store_seq_def store_data_def cell_at_def list_update_beyond)
qed

lemma enqueue_alone:
  assumes "mpmcq_enqueue q x = Some (q', b)"
  shows "calls (q, Outside) (if b then [Sent x] else []) (q', Enq_done b)"
proof -
  obtain q1 r where claim: "enqueue_claim q (mq_enqueue_pos q) = Some (q1, r)"
    and res: "(q', b) = (case r of None \<Rightarrow> (q1, False) | Some p \<Rightarrow> (enqueue_publish q1 p x, True))"
    using assms by (auto simp: mpmcq_enqueue_def split: option.splits)
  note start = calls_silent [OF enq_call calls_silent [OF enq_load]]
  note reach = enqueue_claim_calls [OF claim, of x, unfolded enq_reaches_def]
  show ?thesis
  proof (cases r)
    case None
    then show ?thesis using start reach res by simp
  next
    case (Some p)
    have pub: "calls (q1, Enq_data x p) [] (q', Enq_done True)"
      using calls_silent [OF enq_write calls_silent [OF enq_publish calls_refl]] res Some by (simp add: publish_stores)
    have "calls (q, Enq_seq x (mq_enqueue_pos q)) [Sent x] (q1, Enq_data x p)" using reach Some by simp
    from start [OF calls_trans [OF this pub]] show ?thesis using res Some by simp
  qed
qed

lemma dequeue_alone:
  assumes "mpmcq_dequeue q = Some (q', d)"
  shows "\<exists>evs. calls (q, Outside) evs (q', Deq_done d) \<and> (evs = [] \<and> d = None \<or> (\<exists>pos. evs = [Received pos d]))"
proof -
  obtain q1 r where claim: "dequeue_claim q (mq_dequeue_pos q) = Some (q1, r)"
    and res: "(q', d) = (case r of None \<Rightarrow> (q1, None) | Some p \<Rightarrow> dequeue_release q1 p)"
    using assms by (auto simp: mpmcq_dequeue_def split: option.splits)
  note start = calls_silent [OF deq_call calls_silent [OF deq_load]]
  note reach = dequeue_claim_calls [OF claim, unfolded deq_reaches_def]
  show ?thesis
  proof (cases r)
    case None
    then have "calls (q, Deq_seq (mq_dequeue_pos q)) [] (q', Deq_done d)" "d = None" using reach res by simp_all
    then show ?thesis using start by blast
  next
    case (Some p)
    have q': "q' = store_seq q1 p (p + mq_buffer_mask q1 + 1)" "d = cell_data (mq_buffer q1 ! cell_at q1 p)"
      using res Some by (simp_all add: dequeue_release_def store_seq_def Let_def)
    have "calls (q1, Deq_release p d) [Received p d] (q', Deq_done d)"
      unfolding q'(1) by (rule calls_event [OF deq_release _ calls_refl]) simp
    then have rel: "calls (q1, Deq_data p) [Received p d] (q', Deq_done d)"
      unfolding q'(2) by (rule calls_silent [OF deq_read])
    have "calls (q, Deq_seq (mq_dequeue_pos q)) [] (q1, Deq_data p)" using reach Some by simp
    from start [OF calls_trans [OF this rel]] show ?thesis by auto
  qed
qed

text \<open>A thread's steps are steps of the mailbox.\<close>

lemma record_fields [simp]:
  "mb_queue (record_event ev s) = mb_queue s" "mb_threads (record_event ev s) = mb_threads s"
  by (cases ev; simp)+

lemma record_upd: "record_event ev (s\<lparr>mb_queue := q, mb_threads := ths\<rparr>) = (record_event ev s)\<lparr>mb_queue := q, mb_threads := ths\<rparr>"
  by (cases ev) simp_all

lemma fold_record_fields [simp]:
  "mb_queue (fold record_event evs s) = mb_queue s" "mb_threads (fold record_event evs s) = mb_threads s"
  by (induction evs arbitrary: s) simp_all

lemma fold_record_upd:
  "fold record_event evs (s\<lparr>mb_queue := q, mb_threads := ths\<rparr>) = (fold record_event evs s)\<lparr>mb_queue := q, mb_threads := ths\<rparr>"
  by (induction evs arbitrary: s) (simp_all add: record_upd)

lemma calls_lift:
  assumes "calls (q, a) evs (q', a')" "mb_queue s = q" "mb_threads s t = a"
  shows "mailbox_step\<^sup>*\<^sup>* s ((fold record_event evs s)\<lparr>mb_queue := q', mb_threads := (mb_threads s)(t := a')\<rparr>)"
  using assms
proof (induction "(q, a)" evs "(q', a')" arbitrary: q a s rule: calls.induct)
  case calls_refl
  then have "s\<lparr>mb_queue := q', mb_threads := (mb_threads s)(t := a')\<rparr> = s" by (cases s) auto
  then show ?case by simp
next
  case (calls_silent qa evs q a)
  obtain q1 a1 where qa: "qa = (q1, a1)" by force
  let ?s = "s\<lparr>mb_queue := q1, mb_threads := (mb_threads s)(t := a1)\<rparr>"
  have "mailbox_step s ((record_event Silent s)\<lparr>mb_queue := q1, mb_threads := (mb_threads s)(t := a1)\<rparr>)"
    by (rule mailbox_step.intros) (use calls_silent qa in simp)
  then have "mailbox_step s ?s" by simp
  moreover have "mailbox_step\<^sup>*\<^sup>* ?s ((fold record_event evs ?s)\<lparr>mb_queue := q', mb_threads := (mb_threads ?s)(t := a')\<rparr>)"
    using calls_silent(3) [OF qa, of ?s] by simp
  ultimately show ?case by (simp add: fold_record_upd converse_rtranclp_into_rtranclp)
next
  case (calls_event ev qa evs q a)
  obtain q1 a1 where qa: "qa = (q1, a1)" by force
  let ?s = "(record_event ev s)\<lparr>mb_queue := q1, mb_threads := (mb_threads s)(t := a1)\<rparr>"
  have "mailbox_step s ?s" by (rule mailbox_step.intros) (use calls_event qa in simp)
  moreover have "mailbox_step\<^sup>*\<^sup>* ?s ((fold record_event evs ?s)\<lparr>mb_queue := q', mb_threads := (mb_threads ?s)(t := a')\<rparr>)"
    using calls_event(4) [OF qa, of ?s] by simp
  ultimately show ?case by (simp add: fold_record_upd converse_rtranclp_into_rtranclp)
qed

text \<open>
  The model of one operation at a time runs the code's own steps: a call of \<open>mpmcq_enqueue\<close> or
  \<open>mpmcq_dequeue\<close> that returns is the sequence of steps that a thread takes when no other moves,
  with the same answer, the same memory, and the element sent or received.
\<close>

lemma calls_run_alone:
  "(mpmcq_enqueue q x = Some (q', b) \<longrightarrow> calls (q, Outside) (if b then [Sent x] else []) (q', Enq_done b))
    \<and> (mpmcq_dequeue q = Some (q'', d) \<longrightarrow> (\<exists>evs. calls (q, Outside) evs (q'', Deq_done d)
        \<and> (evs = [] \<and> d = None \<or> (\<exists>pos. evs = [Received pos d]))))"
  using enqueue_alone [of q x q' b] dequeue_alone [of q q'' d] by blast

section \<open>Nothing is lost, duplicated or reordered\<close>

lemma run_inv:
  assumes "mailbox_step\<^sup>*\<^sup>* (new_mailbox (2 ^ k)) s" "1 \<le> k" "k \<le> 62" "length (mb_sent s) < 2 ^ 62"
  obtains cur filled where
    "mail_inv (2 ^ k) (mb_queue s) (mb_threads s) (mb_sent s) (mb_received s) cur filled"
  using mailbox_run_ok [OF assms] by (auto simp: mailbox_ok_def)

text \<open>Runs for the witnesses, on a ring of two cells.\<close>

lemma claim_alone: "seq_at q (mq_enqueue_pos q) = mq_enqueue_pos q \<Longrightarrow>
    calls (q, Outside) [Sent x] (q\<lparr>mq_enqueue_pos := mq_enqueue_pos q + 1\<rparr>, Enq_data x (mq_enqueue_pos q))"
  by (rule calls_silent [OF enq_call calls_silent [OF enq_load calls_silent [OF enq_free calls_event [OF enq_claim _ calls_refl]]]])
    simp_all

lemma demo_seq: "seq_at ((mpmcq_init 2)\<lparr>mq_enqueue_pos := e\<rparr>) 0 = 0" "seq_at ((mpmcq_init 2)\<lparr>mq_enqueue_pos := e\<rparr>) 1 = 1"
  by (simp_all add: seq_at_def cell_at_def mpmcq_init_def numeral_2_eq_2)

lemma demo_claimed:
  obtains s :: "nat mailbox" where "mailbox_step\<^sup>*\<^sup>* (new_mailbox (2 ^ 1)) s"
    "mb_queue s = (mpmcq_init 2)\<lparr>mq_enqueue_pos := 1\<rparr>" "mb_sent s = [5]" "mb_received s = []"
    "mb_threads s = (\<lambda>_. Outside)(0 := Enq_data 5 0)"
proof -
  have q: "mb_queue (new_mailbox (2 ^ 1) :: nat mailbox) = (mpmcq_init 2)\<lparr>mq_enqueue_pos := 0\<rparr>"
    by (simp add: new_mailbox_def mpmcq_init_def)
  have "calls (mb_queue (new_mailbox (2 ^ 1)), Outside) [Sent 5] ((mpmcq_init 2)\<lparr>mq_enqueue_pos := 1\<rparr>, Enq_data (5 :: nat) 0)"
    using claim_alone [of "(mpmcq_init 2)\<lparr>mq_enqueue_pos := 0\<rparr>" "5 :: nat"] unfolding q by (simp add: demo_seq)
  from calls_lift [OF this refl, of 0] show thesis by (rule that [rotated 0]) (simp_all add: new_mailbox_def)
qed

lemma demo_two_claims:
  obtains s :: "nat mailbox" where "mailbox_step\<^sup>*\<^sup>* (new_mailbox (2 ^ 1)) s" "mb_sent s = [5, 6]"
    "mb_threads s 0 = Enq_data 5 0" "mb_threads s 1 = Enq_data 6 1"
proof -
  obtain s :: "nat mailbox" where s: "mailbox_step\<^sup>*\<^sup>* (new_mailbox (2 ^ 1)) s"
    "mb_queue s = (mpmcq_init 2)\<lparr>mq_enqueue_pos := 1\<rparr>" "mb_sent s = [5]" "mb_threads s = (\<lambda>_. Outside)(0 := Enq_data 5 0)"
    by (rule demo_claimed)
  have "calls (mb_queue s, Outside) [Sent 6] ((mpmcq_init 2)\<lparr>mq_enqueue_pos := 2\<rparr>, Enq_data 6 1)"
    using claim_alone [of "mb_queue s" "6 :: nat"] unfolding s(2) by (simp add: demo_seq)
  from rtranclp_trans [OF s(1) calls_lift [OF this refl, of 1]] show thesis
    by (rule that) (use s in simp_all)
qed

lemma demo_delivered:
  obtains s :: "nat mailbox" and pos where "mailbox_step\<^sup>*\<^sup>* (new_mailbox (2 ^ 1)) s" "mb_sent s = [5]"
    "mb_received s = [(pos, Some 5)]" "\<forall>t. holds (mb_threads s t) = None"
proof -
  let ?s = "new_mailbox (2 ^ 1) :: nat mailbox"
  have rep: "mq_rep (mpmcq_init (2 ^ 1) :: nat mpmcq) []" by (rule mpmcq_init_rep) simp_all
  then have "0 < mq_cap (mpmcq_init (2 ^ 1) :: nat mpmcq)" using mq_rep_bound by fastforce
  then obtain q1 where q1: "mpmcq_enqueue (mpmcq_init (2 ^ 1)) 5 = Some (q1, True)" "mq_rep q1 [5 :: nat]"
    using mpmcq_enqueue_ok [OF rep, of 5] by auto
  obtain q2 where q2: "mpmcq_dequeue q1 = Some (q2, Some 5)" using mpmcq_dequeue_ok [OF q1(2)] by blast
  obtain evs pos where d: "calls (q1, Outside) evs (q2, Deq_done (Some 5))" "evs = [Received pos (Some 5)]"
    using dequeue_alone [OF q2] by blast
  let ?s1 = "(fold record_event [Sent 5] ?s)\<lparr>mb_queue := q1, mb_threads := (mb_threads ?s)(0 := Enq_done True)\<rparr>"
  let ?s2 = "(fold record_event evs ?s1)\<lparr>mb_queue := q2, mb_threads := (mb_threads ?s1)(1 := Deq_done (Some 5))\<rparr>"
  have "mailbox_step\<^sup>*\<^sup>* ?s ?s1"
    using calls_lift [OF enqueue_alone [OF q1(1)], of ?s 0] by (simp add: new_mailbox_def)
  moreover have "mailbox_step\<^sup>*\<^sup>* ?s1 ?s2" by (rule calls_lift [OF d(1)]) (simp_all add: new_mailbox_def)
  ultimately have "mailbox_step\<^sup>*\<^sup>* ?s ?s2" by (rule rtranclp_trans)
  then show thesis by (rule that) (simp_all add: new_mailbox_def d(2))
qed

text \<open>
  C6: However the threads interleave, every element that was received is the one that was sent at
  the claimed position, and no position is received twice: nothing is received that was not sent,
  and nothing is received more than once.
\<close>

theorem mailbox_exactly_once:
  assumes "mailbox_step\<^sup>*\<^sup>* (new_mailbox (2 ^ k)) s" "1 \<le> k" "k \<le> 62" "length (mb_sent s) < 2 ^ 62"
  shows "distinct (map fst (mb_received s))
    \<and> (\<forall>(pos, x) \<in> set (mb_received s). unat pos < length (mb_sent s) \<and> x = Some (mb_sent s ! unat pos))"
proof -
  obtain cur filled where inv: "mail_inv (2 ^ k) (mb_queue s) (mb_threads s) (mb_sent s) (mb_received s) cur filled"
    by (rule run_inv [OF assms])
  then have "unat (mq_dequeue_pos (mb_queue s)) \<le> length (mb_sent s)" by (simp add: mail_inv_def ring_ok_def)
  then show ?thesis using inv by (fastforce simp: mail_inv_def received_ok_def)
qed

theorem mailbox_exactly_once_witness:
  "\<exists>(s :: nat mailbox) pos. mailbox_step\<^sup>*\<^sup>* (new_mailbox (2 ^ 1)) s \<and> mb_received s = [(pos, Some 5)]
     \<and> mb_sent s ! unat pos = 5"
proof -
  obtain s :: "nat mailbox" and pos where s: "mailbox_step\<^sup>*\<^sup>* (new_mailbox (2 ^ 1)) s" "mb_sent s = [5]"
    "mb_received s = [(pos, Some 5)]" by (rule demo_delivered)
  with mailbox_exactly_once [OF s(1)] show ?thesis by auto
qed

section \<open>No data race\<close>

fun touches :: "'a access \<Rightarrow> u64 option" where
  "touches (Enq_data x pos) = Some pos"
| "touches (Deq_data pos) = Some pos"
| "touches a = None"

text \<open>
  C22: The data of the cells is free of races: two threads are never about to access the data of the
  same cell at the same time, be it to write or to read it.
\<close>

theorem no_data_race:
  assumes "mailbox_step\<^sup>*\<^sup>* (new_mailbox (2 ^ k)) s" "1 \<le> k" "k \<le> 62" "length (mb_sent s) < 2 ^ 62"
    "t \<noteq> u" "touches (mb_threads s t) = Some pos" "touches (mb_threads s u) = Some pos'"
  shows "cell_at (mb_queue s) pos \<noteq> cell_at (mb_queue s) pos'"
proof
  assume cell: "cell_at (mb_queue s) pos = cell_at (mb_queue s) pos'"
  obtain cur filled where inv: "mail_inv (2 ^ k) (mb_queue s) (mb_threads s) (mb_sent s) (mb_received s) cur filled"
    by (rule run_inv [OF assms(1-4)])
  have ring: "ring_ok (2 ^ k) (mb_queue s) (mb_sent s) cur filled" and claims: "claims_ok (mb_threads s)"
    using inv by (simp_all add: mail_inv_def)
  have know: "access_ok (2 ^ k) (mb_queue s) (mb_sent s) cur filled (mb_threads s v)" for v
    using inv by (simp add: mail_inv_def)
  have same: "unat pos mod 2 ^ k = unat pos' mod 2 ^ k" using cell by (simp add: ring_cell [OF ring])
  have "holds (mb_threads s t) = holds (mb_threads s u)" "holds (mb_threads s t) \<noteq> None"
    using assms(6,7) know [of t] know [of u] same
    by (cases "mb_threads s t"; cases "mb_threads s u"; force simp: free_at_def filled_at_def)+
  then show False using claims assms(5) unfolding claims_ok_def by blast
qed

theorem no_data_race_witness:
  "\<exists>s :: nat mailbox. mailbox_step\<^sup>*\<^sup>* (new_mailbox (2 ^ 1)) s \<and> mb_threads s 0 = Enq_data 5 0
     \<and> mb_threads s 1 = Enq_data 6 1 \<and> cell_at (mb_queue s) 0 \<noteq> cell_at (mb_queue s) 1"
proof -
  obtain s :: "nat mailbox" where s: "mailbox_step\<^sup>*\<^sup>* (new_mailbox (2 ^ 1)) s" "mb_sent s = [5, 6]"
    "mb_threads s 0 = Enq_data 5 0" "mb_threads s 1 = Enq_data 6 1" by (rule demo_two_claims)
  with no_data_race [OF s(1), of 0 1 0 1] show ?thesis by auto
qed

section \<open>An idle mailbox is a queue\<close>

lemma received_at:
  "received_ok n d sent received cur ths \<Longrightarrow> p < d \<Longrightarrow> (\<And>t. holds (ths t) \<noteq> Some (To_empty p)) \<Longrightarrow>
    \<exists>r \<in> fst ` set received. unat r = p"
  unfolding received_ok_def by blast

lemma received_cur:
  "received_ok n d sent received cur ths \<Longrightarrow> r \<in> fst ` set received \<Longrightarrow> unat r < cur (unat r mod n)"
  unfolding received_ok_def by fastforce

lemma idle_received:
  assumes "received_ok n d sent received cur ths" "\<And>t. holds (ths t) = None" "d \<le> length sent" "length sent < 2 ^ 62"
  shows "length received = d" "mset (map snd received) = mset (map Some (take d sent))"
proof -
  let ?ps = "map unat (map fst received)"
  have "inj_on unat (set (map fst received))" by (metis inj_onI word_eq_iff_unsigned)
  then have dist: "distinct ?ps" using assms(1) by (simp only: received_ok_def distinct_map simp_thms)
  have "set ?ps = {..<d}" using assms(1,2) unfolding received_ok_def by (auto 4 4 simp: image_iff)
  then have "set ?ps = set [0..<d]" by (simp only: set_upt atLeast0LessThan)
  then have ps: "mset ?ps = mset [0..<d]" by (rule iffD1 [OF set_eq_iff_mset_eq_distinct [OF dist distinct_upt]])
  from arg_cong [OF this, of size] show len: "length received = d" by simp
  have "map snd received = map (\<lambda>p. Some (sent ! p)) ?ps"
    using assms(1) by (auto simp: received_ok_def)
  then have "mset (map snd received) = image_mset (\<lambda>p. Some (sent ! p)) (mset ?ps)" by (metis mset_map)
  also have "\<dots> = mset (map (\<lambda>p. Some (sent ! p)) [0..<d])" unfolding ps by simp
  also have "map (\<lambda>p. Some (sent ! p)) [0..<d] = map Some (take d sent)"
    using assms(3) by (intro nth_equalityI) simp_all
  finally show "mset (map snd received) = mset (map Some (take d sent))" .
qed

lemma idle_rep:
  assumes inv: "mail_inv n q ths sent received cur filled" and idle: "\<And>t. holds (ths t) = None" and small: "length sent < 2 ^ 62"
  shows "mq_rep q (drop (unat (mq_dequeue_pos q)) sent)"
proof -
  let ?d = "unat (mq_dequeue_pos q)" and ?e = "length sent"
  have ring: "ring_ok n q sent cur filled" and fill: "filling_ok n ?e cur filled ths"
    and rcv: "received_ok n ?d sent received cur ths" using inv by (simp_all add: mail_inv_def)
  have n: "2 \<le> n" "n \<le> 2 ^ 62" "length (mq_buffer q) = n" using ring_size [OF ring] ring_len [OF ring] by simp_all
  have de: "unat (mq_enqueue_pos q) = ?e" "?d \<le> ?e" "?e \<le> ?d + n" using ring by (simp_all add: ring_ok_def)
  have seq: "cell_seq c = mq_dequeue_pos q + of_nat m" if "unat (cell_seq c) = ?d + m" for c :: "'a mpmcq_cell" and m
    using that by (metis of_nat_add of_nat_unat ucast_id)
  have cell: "if i < length (drop ?d sent)
      then mq_cell q i = \<lparr>cell_seq = mq_dequeue_pos q + of_nat i + 1, cell_data = Some (drop ?d sent ! i)\<rparr>
      else cell_seq (mq_cell q i) = mq_dequeue_pos q + of_nat i" if i: "i < n" for i
  proof -
    let ?p = "?d + i" and ?c = "mq_cell q i"
    let ?j = "?p mod n"
    have c: "?c = mq_buffer q ! ?j" using n by (simp add: mq_cell_def)
    have slot: "slot_ok n q sent cur filled ?j" by (rule ring_slot [OF ring])
    show ?thesis
    proof (cases "?p < ?e")
      case True
      have "filled_at n cur filled ?p"
      proof (rule ccontr)
        assume "\<not> filled_at n cur filled ?p"
        then have "?p < cur ?j" using fill idle True unfolding filling_ok_def by fastforce
        then have "?p + n \<le> cur ?j" using slot same_cell [of ?p n "cur ?j"] by (simp add: slot_ok_def)
        then show False using slot de(3) by (auto simp: slot_ok_def split: if_splits)
      qed
      then have u: "unat (cell_seq ?c) = ?d + (i + 1)" "cell_data ?c = Some (sent ! ?p)"
        using slot by (simp_all add: c slot_ok_def filled_at_def)
      have "cell_seq ?c = mq_dequeue_pos q + of_nat (i + 1)" by (rule seq [OF u(1)])
      then show ?thesis using u(2) True by (cases ?c) (simp add: ac_simps)
    next
      case False
      have "\<not> filled ?j"
      proof
        assume f: "filled ?j"
        then have lt: "cur ?j < ?p" using slot False by (simp add: slot_ok_def)
        then have "cur ?j + n \<le> ?p" using slot same_cell [of "cur ?j" n ?p] by (simp add: slot_ok_def)
        then have old: "cur ?j < ?d" using i by simp
        have "\<exists>r \<in> fst ` set received. unat r = cur ?j" by (rule received_at [OF rcv old]) (simp add: idle)
        then obtain r where "r \<in> fst ` set received" "unat r = cur ?j" ..
        then have "cur ?j < cur (cur ?j mod n)" using received_cur [OF rcv, of r] by simp
        moreover have "cur ?j mod n = ?j" using slot by (simp add: slot_ok_def)
        ultimately show False by simp
      qed
      then have b: "unat (cell_seq ?c) = cur ?j" "?d \<le> cur ?j" "cur ?j < ?d + n" "cur ?j mod n = ?j"
        using slot by (simp_all add: c slot_ok_def)
      have "cur ?j = ?p"
        using same_cell [of "cur ?j" n ?p] same_cell [of ?p n "cur ?j"] b(2-4) i
        by (cases "cur ?j" ?p rule: linorder_cases) auto
      then have "cell_seq ?c = mq_dequeue_pos q + of_nat i" using seq [of ?c i] b(1) by simp
      then show ?thesis using False by simp
    qed
  qed
  have "mq_enqueue_pos q = mq_dequeue_pos q + of_nat (length (drop ?d sent))"
    using de by (metis of_nat_add of_nat_unat ucast_id length_drop le_add_diff_inverse)
  then show ?thesis using ring cell n de unfolding mq_rep_def ring_ok_def by auto
qed

text \<open>
  C8: Whenever no thread is between claiming a position and storing the cell's number, the ring
  represents exactly the elements that have been sent and not received, in the order in which
  they were sent: it is in a state of the model of one operation at a time, and the received
  elements are exactly the first ones sent.
\<close>

theorem idle_mailbox_refines_queue:
  assumes "mailbox_step\<^sup>*\<^sup>* (new_mailbox (2 ^ k)) s" "1 \<le> k" "k \<le> 62" "length (mb_sent s) < 2 ^ 62"
    "\<forall>t. holds (mb_threads s t) = None"
  shows "mq_inv (mb_queue s) \<and> mq_abs (mb_queue s) = drop (length (mb_received s)) (mb_sent s)
    \<and> mset (map snd (mb_received s)) = mset (map Some (take (length (mb_received s)) (mb_sent s)))"
proof -
  obtain cur filled where inv: "mail_inv (2 ^ k) (mb_queue s) (mb_threads s) (mb_sent s) (mb_received s) cur filled"
    by (rule run_inv [OF assms(1-4)])
  let ?d = "unat (mq_dequeue_pos (mb_queue s))"
  have "?d \<le> length (mb_sent s)" using inv by (simp add: mail_inv_def ring_ok_def)
  then have "length (mb_received s) = ?d" "mset (map snd (mb_received s)) = mset (map Some (take ?d (mb_sent s)))"
    using idle_received [of _ ?d "mb_sent s" "mb_received s" cur "mb_threads s"] inv assms(4,5) by (auto simp: mail_inv_def)
  moreover have "mq_rep (mb_queue s) (drop ?d (mb_sent s))" using idle_rep [OF inv _ assms(4)] assms(5) by simp
  ultimately show ?thesis using mq_rep_abs by (auto simp: mq_inv_def)
qed

theorem idle_mailbox_refines_queue_witness:
  "\<exists>s :: nat mailbox. mailbox_step\<^sup>*\<^sup>* (new_mailbox (2 ^ 1)) s \<and> mb_sent s = [5]
     \<and> mq_inv (mb_queue s) \<and> mq_abs (mb_queue s) = []"
proof -
  obtain s :: "nat mailbox" and pos where s: "mailbox_step\<^sup>*\<^sup>* (new_mailbox (2 ^ 1)) s" "mb_sent s = [5]"
    "mb_received s = [(pos, Some 5)]" "\<forall>t. holds (mb_threads s t) = None" by (rule demo_delivered)
  with idle_mailbox_refines_queue [OF s(1) _ _ _ s(4)] show ?thesis by auto
qed

section \<open>The empty answer\<close>

lemma sint_diff_nonneg:
  fixes a b :: u64
  assumes "unat a \<le> unat b" "unat b - unat a < 2 ^ 63"
  shows "0 \<le> sint (b - a)"
proof -
  have "b - a = of_nat (unat b - unat a)" using assms(1) by (simp add: of_nat_diff)
  moreover have "sint (of_nat (unat b - unat a) :: u64) = int (unat b - unat a)"
    using assms(2) by (simp add: signed_of_nat signed_take_bit_int_eq_self)
  ultimately show ?thesis by simp
qed

text \<open>
  C29: A consumer answers that the mailbox is empty only when every element sent has been claimed by
  a consumer, or when the next one is still being stored by the producer that claimed its
  position.
\<close>

theorem empty_answer_justified:
  assumes "mailbox_step\<^sup>*\<^sup>* (new_mailbox (2 ^ k)) s" "1 \<le> k" "k \<le> 62" "length (mb_sent s) < 2 ^ 62"
    "mb_threads s t = Deq_seq pos" "access_step (mb_queue s, Deq_seq pos) ev (q', Deq_done None)"
  shows "unat (mq_dequeue_pos (mb_queue s)) = length (mb_sent s)
    \<or> (\<exists>u. holds (mb_threads s u) = Some (To_fill (unat (mq_dequeue_pos (mb_queue s)))))"
proof -
  let ?q = "mb_queue s" and ?n = "(2::nat) ^ k"
  let ?d = "unat (mq_dequeue_pos ?q)" and ?p = "unat pos" and ?e = "length (mb_sent s)"
  obtain cur filled where inv: "mail_inv ?n ?q (mb_threads s) (mb_sent s) (mb_received s) cur filled"
    by (rule run_inv [OF assms(1-4)])
  have ring: "ring_ok ?n ?q (mb_sent s) cur filled" and fill: "filling_ok ?n ?e cur filled (mb_threads s)"
    using inv by (simp_all add: mail_inv_def)
  have "access_ok ?n ?q (mb_sent s) cur filled (mb_threads s t)" using inv by (simp add: mail_inv_def)
  then have pd: "?p \<le> ?d" "?d \<le> ?e" using assms(5) ring by (simp_all add: ring_ok_def)
  have slot: "slot_ok ?n ?q (mb_sent s) cur filled (?p mod ?n)" by (rule ring_slot [OF ring])
  let ?c = "cur (?p mod ?n)" and ?f = "filled (?p mod ?n)"
  have seq: "unat (seq_at ?q pos) = ?c + (if ?f then 1 else 0)" "?c < 2 ^ 63" "?c mod ?n = ?p mod ?n"
    using slot ring_size [OF ring] assms(4) pd by (auto simp: slot_ok_def seq_at_def ring_cell [OF ring] split: if_splits)
  have u: "unat (pos + 1) = ?p + 1" using pd assms(4) by (intro unat_inc) simp
  have neg: "sint (seq_at ?q pos - (pos + 1)) < 0" using assms(6) by (auto simp: access_step_simps)
  have low: "unat (seq_at ?q pos) \<le> ?p"
    using sint_diff_nonneg [of "pos + 1" "seq_at ?q pos"] neg u seq(1,2) by force
  show ?thesis
  proof (cases ?f)
    case True
    then have "?c + ?n \<le> ?p" using same_cell [of ?c ?n ?p] seq low by simp
    then have "?e \<le> ?p" using slot by (simp add: slot_ok_def)
    then show ?thesis using pd by simp
  next
    case False
    then have "?c = ?d" "?p = ?d" using slot seq(1) low pd by (simp_all add: slot_ok_def)
    then have "\<not> ?d < cur (?d mod ?n)" "\<not> filled_at ?n cur filled ?d" using False by (simp_all add: filled_at_def)
    then show ?thesis using fill pd(2) unfolding filling_ok_def by (metis le_neq_implies_less)
  qed
qed

theorem empty_answer_justified_witness:
  "\<exists>(s :: nat mailbox) u. mailbox_step\<^sup>*\<^sup>* (new_mailbox (2 ^ 1)) s \<and> mb_sent s = [5] \<and> mb_threads s 1 = Deq_seq 0
     \<and> holds (mb_threads s u) = Some (To_fill 0)"
proof -
  obtain s :: "nat mailbox" where s: "mailbox_step\<^sup>*\<^sup>* (new_mailbox (2 ^ 1)) s"
    "mb_queue s = (mpmcq_init 2)\<lparr>mq_enqueue_pos := 1\<rparr>" "mb_sent s = [5]" "mb_threads s = (\<lambda>_. Outside)(0 := Enq_data 5 0)"
    by (rule demo_claimed)
  let ?s = "s\<lparr>mb_queue := mb_queue s, mb_threads := (mb_threads s)(1 := Deq_seq 0)\<rparr>"
  have "mq_dequeue_pos (mb_queue s) = 0" using s(2) by (simp add: mpmcq_init_def)
  then have "calls (mb_queue s, Outside) [] (mb_queue s, Deq_seq 0)"
    using calls_silent [OF deq_call calls_silent [OF deq_load calls_refl], of "mb_queue s"] by simp
  then have run: "mailbox_step\<^sup>*\<^sup>* (new_mailbox (2 ^ 1)) ?s"
    using calls_lift [of "mb_queue s" Outside "[]" "mb_queue s" "Deq_seq 0" s 1] s(1,4) by (auto intro: rtranclp_trans)
  have "access_step (mb_queue ?s, Deq_seq 0) Silent (mb_queue s, Deq_done None)"
    using deq_empty [of "mb_queue s" 0] s(2) by (simp add: demo_seq)
  from empty_answer_justified [OF run _ _ _ _ this, of 1] s run \<open>mq_dequeue_pos (mb_queue s) = 0\<close> show ?thesis by auto
qed

end
