(* ===== verification/Text_Format.thy ===== *)
theory Text_Format
  imports Prelude
begin

text \<open>
  The text the server writes and reads with the C library: decimal output (\<^verbatim>\<open>%zu\<close>,
  \<^verbatim>\<open>%ld\<close>), bounded string output (\<^verbatim>\<open>%s\<close>, \<^verbatim>\<open>%.*s\<close>) and
  \<^verbatim>\<open>strtoull\<close> in base 10. The facts below are what the protocol and the counters rely on:
  the digits of a number denote it, and how many there are.
\<close>

section \<open>Decimal digits\<close>

definition is_digit :: "u8 \<Rightarrow> bool" where
  "is_digit c \<longleftrightarrow> 48 \<le> c \<and> c \<le> 57"

definition digit_val :: "u8 \<Rightarrow> nat" where
  "digit_val c = unat (c - 48)"

definition digit_char :: "nat \<Rightarrow> u8" where
  "digit_char d = 48 + of_nat d"

function dec_digits :: "nat \<Rightarrow> bytes" where
  "dec_digits n = (if n < 10 then [digit_char n] else dec_digits (n div 10) @ [digit_char (n mod 10)])"
  by pat_completeness auto
termination
  by (relation "measure id") auto

declare dec_digits.simps [simp del]

definition dec_val :: "bytes \<Rightarrow> nat" where
  "dec_val ds = foldl (\<lambda>acc c. acc * 10 + digit_val c) 0 ds"

lemma digit_cases: "d < 10 \<Longrightarrow> d \<in> {0, 1, 2, 3, 4, 5, 6, 7, 8, 9::nat}"
  by auto

lemma digit_char_digit [simp]: "d < 10 \<Longrightarrow> is_digit (digit_char d)"
  by (drule digit_cases) (auto simp: is_digit_def digit_char_def)

lemma digit_val_char [simp]: "d < 10 \<Longrightarrow> digit_val (digit_char d) = d"
  by (drule digit_cases) (auto simp: digit_val_def digit_char_def)

lemma digit_unat: "is_digit c \<Longrightarrow> unat c = 48 + digit_val c \<and> digit_val c < 10"
  by (auto simp: is_digit_def digit_val_def word_le_nat_alt unat_sub)

lemma digit_char_val: "is_digit c \<Longrightarrow> digit_char (digit_val c) = c"
  by (simp add: digit_char_def digit_val_def)

lemma dec_val_Nil [simp]: "dec_val [] = 0"
  by (simp add: dec_val_def)

lemma dec_val_snoc [simp]: "dec_val (ds @ [c]) = dec_val ds * 10 + digit_val c"
  by (simp add: dec_val_def)

lemma dec_val_acc: "foldl (\<lambda>acc c. acc * 10 + digit_val c) n ds = n * 10 ^ length ds + dec_val ds"
proof (induction ds rule: rev_induct)
  case (snoc c ds)
  then show ?case by (simp add: algebra_simps)
qed (simp add: dec_val_def)

lemma dec_val_ge: "n \<le> foldl (\<lambda>acc c. acc * 10 + digit_val c) n ds"
  unfolding dec_val_acc by (simp add: trans_le_add1)

lemma dec_val_Cons: "dec_val (c # ds) = digit_val c * 10 ^ length ds + dec_val ds"
  using dec_val_acc [of "digit_val c" ds] by (simp add: dec_val_def)

lemma dec_digits_nonempty [simp]: "dec_digits n \<noteq> []"
  by (subst dec_digits.simps) simp

lemma dec_digits_digits: "\<forall>c \<in> set (dec_digits n). is_digit c"
proof (induction n rule: dec_digits.induct)
  case (1 n)
  then show ?case by (subst dec_digits.simps) auto
qed

lemma dec_val_digits [simp]: "dec_val (dec_digits n) = n"
proof (induction n rule: dec_digits.induct)
  case (1 n)
  then show ?case
    by (subst dec_digits.simps) (auto simp: dec_val_snoc [of "[]", simplified])
qed

lemma length_dec_digits: "0 < k \<Longrightarrow> length (dec_digits n) \<le> k \<longleftrightarrow> n < 10 ^ k"
proof (induction k arbitrary: n)
  case (Suc k)
  show ?case
  proof (cases "n < 10")
    case True
    have "n < 10 ^ Suc k" using True by (rule less_le_trans) simp
    then show ?thesis using True by (subst dec_digits.simps) simp
  next
    case False
    then have "length (dec_digits n) = Suc (length (dec_digits (n div 10)))"
      by (subst dec_digits.simps) simp
    moreover have "length (dec_digits (n div 10)) \<le> k \<longleftrightarrow> n div 10 < 10 ^ k"
      using Suc.IH [of "n div 10"] False by (cases k) auto
    moreover have "n div 10 < 10 ^ k \<longleftrightarrow> n < 10 ^ Suc k" by (simp add: div_less_iff_less_mult mult.commute)
    ultimately show ?thesis by simp
  qed
qed simp

section \<open>Formatted output\<close>

definition fmt_zu :: "u64 \<Rightarrow> bytes" where
  "fmt_zu n = dec_digits (unat n)"

text \<open>\<^verbatim>\<open>%ld\<close> of a 64-bit value read as a signed number.\<close>

definition fmt_ld :: "u64 \<Rightarrow> bytes" where
  "fmt_ld v = (if sint v < 0 then 45 # dec_digits (nat (- sint v)) else dec_digits (nat (sint v)))"

text \<open>\<^verbatim>\<open>%s\<close> stops at the first NUL; \<^verbatim>\<open>%.*s\<close> also stops after the given number of bytes.\<close>

definition fmt_s :: "bytes \<Rightarrow> bytes" where
  "fmt_s s = takeWhile (\<lambda>c. c \<noteq> 0) s"

definition fmt_prec_s :: "nat \<Rightarrow> bytes \<Rightarrow> bytes" where
  "fmt_prec_s n s = takeWhile (\<lambda>c. c \<noteq> 0) (take n s)"

text \<open>\<^verbatim>\<open>snprintf\<close> into a buffer of \<open>n\<close> bytes keeps at most \<open>n - 1\<close> of the output.\<close>

definition snprintf_out :: "nat \<Rightarrow> bytes \<Rightarrow> bytes" where
  "snprintf_out n out = take (n - 1) out"

lemma fmt_s_id: "0 \<notin> set s \<Longrightarrow> fmt_s s = s"
  by (auto simp: fmt_s_def takeWhile_eq_all_conv)

lemma length_fmt_ld:
  "length (fmt_ld v) \<le> 20"
proof -
  have b: "- (2 ^ 63) \<le> sint v" "sint v < 2 ^ 63"
    using sint_ge [of v] sint_lt [of v] by simp_all
  show ?thesis
  proof (cases "sint v < 0")
    case True
    then have "nat (- sint v) < 10 ^ 19" using b by simp
    then have "length (dec_digits (nat (- sint v))) \<le> 19" by (simp add: length_dec_digits)
    then show ?thesis using True by (simp add: fmt_ld_def)
  next
    case False
    then have "nat (sint v) < 10 ^ 20" using b by simp
    then show ?thesis using False by (simp add: fmt_ld_def length_dec_digits)
  qed
qed

section \<open>strtoull\<close>

definition is_space :: "u8 \<Rightarrow> bool" where
  "is_space c \<longleftrightarrow> c = 32 \<or> (9 \<le> c \<and> c \<le> 13)"

text \<open>
  \<^verbatim>\<open>strtoull (s, \<dots>, 10)\<close> of a NUL-terminated string: the value, and whether it sets
  \<^verbatim>\<open>errno\<close> to \<^verbatim>\<open>ERANGE\<close>. Leading white space and one sign are skipped, a text
  without digits is 0, a minus sign negates modulo \<open>2^64\<close>.
\<close>

definition strtoull10 :: "bytes \<Rightarrow> u64 \<times> bool" where
  "strtoull10 s =
    (let t = dropWhile is_space s;
         neg = (case t of c # _ \<Rightarrow> c = 45 | [] \<Rightarrow> False);
         u = (case t of c # cs \<Rightarrow> if c = 45 \<or> c = 43 then cs else t | [] \<Rightarrow> []);
         n = dec_val (takeWhile is_digit u)
     in if 2 ^ 64 \<le> n then (- 1, True)
        else (if neg then - of_nat n else of_nat n, False))"

end
