(* ===== verification/Protocol.thy ===== *)
theory Protocol
  imports Text_Format "HOL-Library.Monad_Syntax"
begin

text \<open>
  The connection and the wire protocol, from \<^verbatim>\<open>src/include/protocol.h\<close> and
  \<^verbatim>\<open>src/include/protocol.c\<close>: the reply writers over the send buffer and the two request parsers
  over the receive buffer.

  Pointers into \<^verbatim>\<open>recv_buf\<close> are 64-bit offsets from its first byte; comparisons of pointers are
  made on addresses, \<open>c_base\<close> plus the offset, so that they wrap as they do on the machine. A
  read outside \<^verbatim>\<open>recv_buf\<close>, and a write outside \<^verbatim>\<open>send_buf\<close>, is undefined in C: it is the result
  \<open>PARSE_FAULT\<close> of a parser and \<open>None\<close> of a writer.
\<close>

section \<open>Connections\<close>

definition MESSAGE_MAX_LENGTH :: nat where "MESSAGE_MAX_LENGTH = 8192"
definition MAX_ARGC :: u64 where "MAX_ARGC = 64"

definition BLOCKED :: u32 where "BLOCKED = 4"
definition DISPATCH_WAITING :: u32 where "DISPATCH_WAITING = 8"
definition END :: u32 where "END = 0x80000000"

record conn =
  c_fd :: nat
  c_flags :: u32
  c_shard_id :: nat
  c_db :: u64
  c_base :: u64
  c_recv_buf_size :: nat
  c_recv_buf_read :: nat
  c_recv_buf :: bytes
  c_send_buf_size :: nat
  c_send_buf_sent :: nat
  c_send_buf :: bytes

record cmd_args =
  a_buf :: u64
  a_argc :: u64
  a_len :: u64
  a_offsets :: "u64 list"
  a_lens :: "u64 list"

section \<open>Writing replies\<close>

definition store_at :: "conn \<Rightarrow> nat \<Rightarrow> bytes \<Rightarrow> conn option" where
  "store_at c p bs =
    (if p + length bs \<le> MESSAGE_MAX_LENGTH
     then Some (c\<lparr>c_send_buf := take p (c_send_buf c) @ bs @ drop (p + length bs) (c_send_buf c)\<rparr>)
     else None)"

text \<open>\<^verbatim>\<open>sprintf\<close> at the end of the send buffer: the output and its NUL are stored.\<close>

definition send_sprintf :: "conn \<Rightarrow> bytes \<Rightarrow> conn option" where
  "send_sprintf c out = do {
     c' \<leftarrow> store_at c (c_send_buf_size c) (out @ [0]);
     Some (c'\<lparr>c_send_buf_size := c_send_buf_size c + length out\<rparr>) }"

definition write_simple_error :: "conn \<Rightarrow> bytes \<Rightarrow> bytes \<Rightarrow> conn option" where
  "write_simple_error c prefix msg =
    send_sprintf c (bstr ''-'' @ fmt_s prefix @ bstr '' '' @ fmt_s msg @ crlf)"

definition write_simple_generic_error :: "conn \<Rightarrow> bytes \<Rightarrow> conn option" where
  "write_simple_generic_error c msg = write_simple_error c (bstr ''ERR'') msg"

definition write_simple_string :: "conn \<Rightarrow> bytes \<Rightarrow> nat \<Rightarrow> conn option" where
  "write_simple_string c msg n = send_sprintf c (bstr ''+'' @ fmt_prec_s n msg @ crlf)"

definition write_bulk_string :: "conn \<Rightarrow> bytes \<Rightarrow> conn option" where
  "write_bulk_string c data =
    (let buf = c_send_buf_size c; w1 = length (bstr ''$'' @ fmt_zu (of_nat (length data)))
     in do {
       c1 \<leftarrow> store_at c buf (bstr ''$'' @ fmt_zu (of_nat (length data)) @ [0]);
       c2 \<leftarrow> store_at c1 (buf + w1) crlf;
       c3 \<leftarrow> store_at c2 (buf + w1 + 2) data;
       c4 \<leftarrow> store_at c3 (buf + w1 + 2 + length data) crlf;
       Some (c4\<lparr>c_send_buf_size := c_send_buf_size c + (w1 + 2 + length data + 2)\<rparr>) })"

definition write_null_bulk_string :: "conn \<Rightarrow> conn option" where
  "write_null_bulk_string c = send_sprintf c (bstr ''$-1'' @ crlf)"

definition write_integer :: "conn \<Rightarrow> u64 \<Rightarrow> conn option" where
  "write_integer c val = send_sprintf c (bstr '':'' @ fmt_ld val @ crlf)"

definition write_array_header :: "conn \<Rightarrow> u64 \<Rightarrow> conn option" where
  "write_array_header c n = send_sprintf c (bstr ''*'' @ fmt_zu n @ crlf)"

section \<open>Parsing\<close>

datatype 'a parse =
  PARSE_OK 'a | PARSE_ERROR | PARSE_ERROR_INVALID_ARGC | PARSE_INCOMPLETE | PARSE_FAULT

fun bind_parse :: "'a parse \<Rightarrow> ('a \<Rightarrow> 'b parse) \<Rightarrow> 'b parse" where
  "bind_parse (PARSE_OK x) f = f x"
| "bind_parse PARSE_ERROR f = PARSE_ERROR"
| "bind_parse PARSE_ERROR_INVALID_ARGC f = PARSE_ERROR_INVALID_ARGC"
| "bind_parse PARSE_INCOMPLETE f = PARSE_INCOMPLETE"
| "bind_parse PARSE_FAULT f = PARSE_FAULT"

definition peek :: "conn \<Rightarrow> u64 \<Rightarrow> u8 option" where
  "peek c p = (if unat p < MESSAGE_MAX_LENGTH then Some (c_recv_buf c ! unat p) else None)"

definition ptr_le :: "conn \<Rightarrow> u64 \<Rightarrow> u64 \<Rightarrow> bool" where
  "ptr_le c p q \<longleftrightarrow> c_base c + p \<le> c_base c + q"

text \<open>The digit loop of \<^verbatim>\<open>parse_number\<close>, up to the carriage return; it looks at \<^verbatim>\<open>*end\<close> too.\<close>

function parse_digits :: "conn \<Rightarrow> u64 \<Rightarrow> u64 \<Rightarrow> u64 \<Rightarrow> (u64 \<times> u64) parse" where
  "parse_digits c p ed res =
    (if \<not> ptr_le c p ed then PARSE_INCOMPLETE
     else if MESSAGE_MAX_LENGTH \<le> unat p then PARSE_FAULT
     else (let b = c_recv_buf c ! unat p in
       if b = CR then PARSE_OK (p, res)
       else if b < 48 \<or> 57 < b then PARSE_ERROR
       else if (- 1 - ucast (b - 48)) div 10 < res then PARSE_ERROR
       else parse_digits c (p + 1) ed (res * 10 + ucast (b - 48))))"
  by pat_completeness auto
termination
proof (relation "measure (\<lambda>(c, p, ed, res). MESSAGE_MAX_LENGTH - unat p)")
  fix c :: conn and p ed res :: u64 and x :: u8
  assume "\<not> MESSAGE_MAX_LENGTH \<le> unat p"
  then have "unat (p + 1) = unat p + 1" by (auto simp: MESSAGE_MAX_LENGTH_def unat_word_ariths)
  then show "((c, p + 1, ed, res * 10 + ucast (x - 48)), c, p, ed, res)
      \<in> measure (\<lambda>(c, p, ed, res). MESSAGE_MAX_LENGTH - unat p)"
    using \<open>\<not> MESSAGE_MAX_LENGTH \<le> unat p\<close> by simp
qed simp

declare parse_digits.simps [simp del]

definition parse_number :: "conn \<Rightarrow> u64 \<Rightarrow> u64 \<Rightarrow> (u64 \<times> u64) parse" where
  "parse_number c cur ed =
    bind_parse (parse_digits c cur ed 0) (\<lambda>(p, res).
      if \<not> ptr_le c (p + 2) ed then PARSE_INCOMPLETE else PARSE_OK (p + 2, res))"

fun parse_args :: "conn \<Rightarrow> u64 \<Rightarrow> u64 \<Rightarrow> nat \<Rightarrow> u64 \<Rightarrow> u64 list \<Rightarrow> u64 list \<Rightarrow>
    (u64 \<times> u64 list \<times> u64 list) parse" where
  "parse_args c start ed 0 cur offs lens = PARSE_OK (cur, offs, lens)"
| "parse_args c start ed (Suc n) cur offs lens =
    (if cur = ed then PARSE_INCOMPLETE
     else case peek c cur of
       None \<Rightarrow> PARSE_FAULT
     | Some b \<Rightarrow>
        if b \<noteq> 36 then PARSE_ERROR
        else bind_parse (parse_number c (cur + 1) ed) (\<lambda>(cur', arglen).
          if \<not> ptr_le c (cur' + arglen + 2) ed then PARSE_INCOMPLETE
          else parse_args c start ed n (cur' + arglen + 2) (offs @ [cur' - start]) (lens @ [arglen])))"

definition parse_resp_request :: "conn \<Rightarrow> cmd_args parse" where
  "parse_resp_request c =
    (let start = of_nat (c_recv_buf_read c); ed = start + of_nat (c_recv_buf_size c)
     in if start = ed then PARSE_INCOMPLETE
        else bind_parse (parse_number c (start + 1) ed) (\<lambda>(cur, argc).
          if MAX_ARGC < argc then PARSE_ERROR_INVALID_ARGC
          else if \<not> ptr_le c (cur + 2) ed then PARSE_INCOMPLETE
          else bind_parse (parse_args c start ed (unat argc) cur [] []) (\<lambda>(cur', offs, lens).
            PARSE_OK \<lparr>a_buf = start, a_argc = argc, a_len = cur' - start,
                      a_offsets = offs, a_lens = lens\<rparr>)))"

text \<open>
  The loop of \<^verbatim>\<open>parse_inline_request\<close> over the received bytes: \<open>i\<close> is the index, the record holds
  the locals. It ends at the line feed with the index and the locals.
\<close>

record inline_state =
  il_offsets :: "u64 list"
  il_lens :: "u64 list"
  il_offset :: nat
  il_len :: nat
  il_in_arg :: bool
  il_crlf :: bool

definition il_close :: "inline_state \<Rightarrow> inline_state" where
  "il_close s =
    (if il_in_arg s
     then s\<lparr>il_offsets := il_offsets s @ [of_nat (il_offset s)],
            il_lens := il_lens s @ [of_nat (il_len s)], il_in_arg := False\<rparr>
     else s)"

fun inline_loop :: "bytes \<Rightarrow> nat \<Rightarrow> inline_state \<Rightarrow> (nat \<times> inline_state) parse" where
  "inline_loop [] i s = PARSE_INCOMPLETE"
| "inline_loop (b # bs) i s =
    (if b = 32 then inline_loop bs (i + 1) (il_close s)
     else if b = CR then inline_loop bs (i + 1) ((il_close s)\<lparr>il_crlf := True\<rparr>)
     else if b = LF then (if il_crlf s then PARSE_OK (i, s\<lparr>il_crlf := False\<rparr>) else PARSE_ERROR)
     else if \<not> il_in_arg s \<and> of_nat (length (il_offsets s)) = MAX_ARGC then PARSE_ERROR_INVALID_ARGC
     else inline_loop bs (i + 1)
       (if il_in_arg s then s\<lparr>il_len := il_len s + 1\<rparr>
        else s\<lparr>il_offset := i, il_len := 1, il_in_arg := True\<rparr>))"

definition inline_start :: inline_state where
  "inline_start = \<lparr>il_offsets = [], il_lens = [], il_offset = 0, il_len = 0, il_in_arg = False,
     il_crlf = False\<rparr>"

definition received :: "conn \<Rightarrow> bytes" where
  "received c = take (c_recv_buf_size c) (drop (c_recv_buf_read c) (c_recv_buf c))"

definition parse_inline_request :: "conn \<Rightarrow> cmd_args parse" where
  "parse_inline_request c =
    bind_parse (inline_loop (received c) 0 inline_start) (\<lambda>(i, s0).
      let s = il_close s0
      in PARSE_OK \<lparr>a_buf = of_nat (c_recv_buf_read c), a_argc = of_nat (length (il_offsets s)),
           a_len = of_nat (i + 1), a_offsets = il_offsets s, a_lens = il_lens s\<rparr>)"

text \<open>The bytes of an argument, as \<^verbatim>\<open>args->buf + args->offsets[i]\<close> and \<^verbatim>\<open>args->lens[i]\<close> denote them.\<close>

definition arg_bytes :: "conn \<Rightarrow> cmd_args \<Rightarrow> nat \<Rightarrow> bytes option" where
  "arg_bytes c args i =
    (let p = unat (a_buf args + a_offsets args ! i); n = unat (a_lens args ! i)
     in if p + n \<le> MESSAGE_MAX_LENGTH then Some (take n (drop p (c_recv_buf c))) else None)"

end
