(* ===== verification/Protocol_Correct.thy ===== *)
theory Protocol_Correct
  imports Protocol
begin

text \<open>
  What the protocol code computes. Requests: the parser inverts the client's encoding of an
  argument list (the RESP form) and of a line of words (the inline form), whatever follows them
  in the buffer. Replies: every writer appends its reply to the pending output, or would leave
  the buffer.
\<close>

section \<open>Well-formed connections\<close>

definition conn_ok :: "conn \<Rightarrow> bool" where
  "conn_ok c \<longleftrightarrow> length (c_recv_buf c) = MESSAGE_MAX_LENGTH \<and> length (c_send_buf c) = MESSAGE_MAX_LENGTH
     \<and> c_recv_buf_read c + c_recv_buf_size c \<le> MESSAGE_MAX_LENGTH
     \<and> c_send_buf_sent c \<le> c_send_buf_size c \<and> c_send_buf_size c \<le> MESSAGE_MAX_LENGTH
     \<and> c_base c < 2 ^ 63"

lemma ptr_le_small:
  assumes "c_base c < 2 ^ 63" "a < 2 ^ 63" "b < 2 ^ 63"
  shows "ptr_le c (of_nat a) (of_nat b) \<longleftrightarrow> a \<le> b"
proof -
  have "unat (c_base c) < 2 ^ 63" using assms(1) by (simp add: word_less_nat_alt)
  then have "unat (c_base c + of_nat n) = unat (c_base c) + n" if "n < 2 ^ 63" for n
    using that by (simp add: unat_word_ariths unat_of_nat_64)
  then show ?thesis using assms by (simp add: ptr_le_def word_le_nat_alt)
qed

section \<open>Numbers\<close>

lemma digit_step:
  assumes d: "is_digit d" and le: "r * 10 + digit_val d < 2 ^ 64"
  shows "\<not> (- 1 - ucast (d - 48)) div 10 < (of_nat r :: u64)"
    "of_nat r * 10 + ucast (d - 48) = (of_nat (r * 10 + digit_val d) :: u64)"
proof -
  have v: "ucast (d - 48) = (of_nat (digit_val d) :: u64)" by (simp add: digit_val_def)
  have dv: "digit_val d < 10" using digit_unat [OF d] by simp
  show "of_nat r * 10 + ucast (d - 48) = (of_nat (r * 10 + digit_val d) :: u64)" by (simp add: v)
  have "(- 1 - of_nat (digit_val d) :: u64) = of_nat (2 ^ 64 - 1 - digit_val d)"
    using dv by (subst of_nat_diff) simp_all
  then have "unat ((- 1 - of_nat (digit_val d)) div 10 :: u64) = (2 ^ 64 - 1 - digit_val d) div 10"
    by (simp only: unat_div_distrib unat_of_nat_64) (simp add: unat_of_nat_64)
  moreover have "r \<le> (2 ^ 64 - 1 - digit_val d) div 10"
    using le by (simp add: less_eq_div_iff_mult_less_eq)
  ultimately show "\<not> (- 1 - ucast (d - 48)) div 10 < (of_nat r :: u64)"
    using le by (simp add: v word_less_nat_alt unat_of_nat_64)
qed

lemma parse_digits_step:
  assumes "conn_ok c" "drop n (c_recv_buf c) = d # rest" "is_digit d" "n \<le> e" "e \<le> MESSAGE_MAX_LENGTH"
    "r * 10 + digit_val d < 2 ^ 64"
  shows "parse_digits c (of_nat n) (of_nat e) (of_nat r)
    = parse_digits c (of_nat (Suc n)) (of_nat e) (of_nat (r * 10 + digit_val d))"
proof -
  have n: "n < length (c_recv_buf c)" using assms(2) by (metis drop_all leI list.distinct(1))
  then have b: "c_recv_buf c ! n = d" using assms(2) by (simp add: nth_via_drop)
  have small: "n < 8192" "c_base c < 2 ^ 63" "e \<le> 8192"
    using n assms by (auto simp: conn_ok_def MESSAGE_MAX_LENGTH_def)
  have nb: "d \<noteq> CR" "\<not> (d < 48 \<or> 57 < d)" using assms(3) by (auto simp: is_digit_def)
  show ?thesis
    using small nb digit_step [OF assms(3,6)] b assms(4)
    by (subst parse_digits.simps)
       (simp add: ptr_le_small unat_of_nat_64 MESSAGE_MAX_LENGTH_def Let_def add.commute)
qed

text \<open>
  The digit loop reads the digits up to the carriage return; \<open>r\<close> is the number read before.
\<close>

lemma parse_digits_ok:
  assumes "conn_ok c" "drop n (c_recv_buf c) = ds @ CR # rest" "\<forall>d \<in> set ds. is_digit d"
    "n + length ds \<le> e" "e \<le> MESSAGE_MAX_LENGTH" "foldl (\<lambda>acc d. acc * 10 + digit_val d) r ds < 2 ^ 64"
  shows "parse_digits c (of_nat n) (of_nat e) (of_nat r)
    = PARSE_OK (of_nat (n + length ds), of_nat (foldl (\<lambda>acc d. acc * 10 + digit_val d) r ds))"
  using assms
proof (induction ds arbitrary: n r)
  case Nil
  have n: "n < length (c_recv_buf c)" using Nil.prems(2) by (metis append_Nil drop_all leI list.distinct(1))
  then have b: "c_recv_buf c ! n = CR" using Nil.prems(2) by (simp add: nth_via_drop)
  have "n < 8192" "c_base c < 2 ^ 63" using n Nil.prems(1) by (auto simp: conn_ok_def MESSAGE_MAX_LENGTH_def)
  then show ?case using b Nil.prems
    by (subst parse_digits.simps) (simp add: ptr_le_small unat_of_nat_64 MESSAGE_MAX_LENGTH_def)
next
  case (Cons d ds)
  have d: "is_digit d" using Cons.prems(3) by simp
  have step: "r * 10 + digit_val d < 2 ^ 64"
    using Cons.prems(6) dec_val_ge [of "r * 10 + digit_val d" ds] by simp
  have tl': "drop (Suc n) (c_recv_buf c) = ds @ CR # rest"
    using Cons.prems(2) by (metis append_Cons drop_Suc list.sel(3) tl_drop)
  have IH: "parse_digits c (of_nat (Suc n)) (of_nat e) (of_nat (r * 10 + digit_val d))
    = PARSE_OK (of_nat (Suc n + length ds), of_nat (foldl (\<lambda>acc d. acc * 10 + digit_val d) (r * 10 + digit_val d) ds))"
    using Cons.prems by (intro Cons.IH [OF Cons.prems(1) tl']) simp_all
  then show ?case
    using parse_digits_step [OF Cons.prems(1) _ d _ _ step, of n "ds @ CR # rest" e] Cons.prems(2,4,5) by simp
qed

text \<open>A byte that is neither a digit nor CR ends the loop with an error, up to the byte at the end.\<close>

lemma parse_digits_bad:
  assumes "conn_ok c" "drop n (c_recv_buf c) = ds @ b # rest" "\<forall>d \<in> set ds. is_digit d"
    "n + length ds \<le> e" "e < MESSAGE_MAX_LENGTH" "foldl (\<lambda>acc d. acc * 10 + digit_val d) r ds < 2 ^ 64"
    "\<not> is_digit b" "b \<noteq> CR"
  shows "parse_digits c (of_nat n) (of_nat e) (of_nat r) = PARSE_ERROR"
  using assms
proof (induction ds arbitrary: n r)
  case Nil
  have n: "n < length (c_recv_buf c)" using Nil.prems(2) by (metis append_Nil drop_all leI list.distinct(1))
  then have b: "c_recv_buf c ! n = b" using Nil.prems(2) by (simp add: nth_via_drop)
  have "n < 8192" "c_base c < 2 ^ 63" using n Nil.prems(1) by (auto simp: conn_ok_def MESSAGE_MAX_LENGTH_def)
  moreover have "b < 48 \<or> 57 < b" using Nil.prems(7) by (auto simp: is_digit_def)
  ultimately show ?case using b Nil.prems
    by (subst parse_digits.simps) (simp add: ptr_le_small unat_of_nat_64 MESSAGE_MAX_LENGTH_def Let_def)
next
  case (Cons d ds)
  have d: "is_digit d" using Cons.prems(3) by simp
  have step: "r * 10 + digit_val d < 2 ^ 64"
    using Cons.prems(6) dec_val_ge [of "r * 10 + digit_val d" ds] by simp
  have tl': "drop (Suc n) (c_recv_buf c) = ds @ b # rest"
    using Cons.prems(2) by (metis append_Cons drop_Suc list.sel(3) tl_drop)
  have "parse_digits c (of_nat (Suc n)) (of_nat e) (of_nat (r * 10 + digit_val d)) = PARSE_ERROR"
    using Cons.prems by (intro Cons.IH [OF Cons.prems(1) tl']) simp_all
  then show ?case
    using parse_digits_step [OF Cons.prems(1) _ d _ _ step, of n "ds @ b # rest" e] Cons.prems(2,4,5) by simp
qed

lemma parse_number_ok:
  assumes "conn_ok c" "drop n (c_recv_buf c) = dec_digits v @ crlf @ rest" "v < 2 ^ 64"
    "n + length (dec_digits v) + 2 \<le> e" "e \<le> MESSAGE_MAX_LENGTH"
  shows "parse_number c (of_nat n) (of_nat e)
    = PARSE_OK (of_nat (n + length (dec_digits v) + 2), of_nat v)"
proof -
  have "foldl (\<lambda>acc d. acc * 10 + digit_val d) 0 (dec_digits v) = v"
    using dec_val_digits [of v] by (simp add: dec_val_def)
  then have "parse_digits c (of_nat n) (of_nat e) 0 = PARSE_OK (of_nat (n + length (dec_digits v)), of_nat v)"
    using parse_digits_ok [of c n "dec_digits v" "LF # rest" e 0] assms dec_digits_digits by simp
  moreover have "ptr_le c (of_nat (n + length (dec_digits v)) + 2) (of_nat e)"
  proof -
    have "ptr_le c (of_nat (n + length (dec_digits v) + 2)) (of_nat e)"
      using assms by (subst ptr_le_small) (auto simp: conn_ok_def MESSAGE_MAX_LENGTH_def)
    then show ?thesis by (simp add: ac_simps)
  qed
  ultimately show ?thesis by (simp add: parse_number_def)
qed

section \<open>Requests as arrays of bulk strings\<close>

text \<open>The client's encoding.\<close>

definition resp_bulk :: "bytes \<Rightarrow> bytes" where
  "resp_bulk s = bstr ''$'' @ dec_digits (length s) @ crlf @ s @ crlf"

definition resp_encode :: "bytes list \<Rightarrow> bytes" where
  "resp_encode args = bstr ''*'' @ dec_digits (length args) @ crlf @ concat (map resp_bulk args)"

fun arg_starts :: "nat \<Rightarrow> bytes list \<Rightarrow> nat list" where
  "arg_starts n [] = []"
| "arg_starts n (s # ss) =
    (n + 1 + length (dec_digits (length s)) + 2) # arg_starts (n + length (resp_bulk s)) ss"

lemma parse_args_ok:
  assumes "conn_ok c" "drop (st + n) (c_recv_buf c) = concat (map resp_bulk ss) @ rest"
    "st + n + length (concat (map resp_bulk ss)) \<le> e" "e \<le> MESSAGE_MAX_LENGTH"
  shows "parse_args c (of_nat st) (of_nat e) (length ss) (of_nat (st + n)) offs lens
    = PARSE_OK (of_nat (st + n + length (concat (map resp_bulk ss))),
        offs @ map of_nat (arg_starts n ss), lens @ map (of_nat \<circ> length) ss)"
  using assms
proof (induction ss arbitrary: n offs lens)
  case (Cons s ss)
  define k where "k = length (dec_digits (length s))"
  define n1 where "n1 = st + n + 1 + k + 2"
  have len: "length (resp_bulk s) = 1 + k + 2 + length s + 2" by (simp add: resp_bulk_def k_def)
  have e: "n1 + length s + 2 \<le> e" "e \<le> 8192"
    using Cons.prems(3,4) len by (simp_all add: n1_def MESSAGE_MAX_LENGTH_def)
  have d: "drop (st + n) (c_recv_buf c) = 36 # dec_digits (length s) @ crlf @ s @ crlf @ concat (map resp_bulk ss) @ rest"
    using Cons.prems(2) resp_bulk_def [of s] by (simp add: of_char_def)
  have "st + n < length (c_recv_buf c)" using d by (metis drop_all leI list.distinct(1))
  then have b: "c_recv_buf c ! (st + n) = 36" using d by (simp add: nth_via_drop)
  have d1: "drop (st + n + 1) (c_recv_buf c) = dec_digits (length s) @ crlf @ (s @ crlf @ concat (map resp_bulk ss) @ rest)"
    using d by (metis Suc_eq_plus1 drop_Suc list.sel(3) tl_drop)
  have pn: "parse_number c (of_nat (st + n) + 1) (of_nat e) = PARSE_OK (of_nat n1, of_nat (length s))"
    using parse_number_ok [OF Cons.prems(1) d1, of e] e Cons.prems(4) by (simp add: n1_def k_def add.commute)
  have "drop (n1 + length s + 2) (c_recv_buf c) = drop (k + 2 + length s + 2) (drop (st + n + 1) (c_recv_buf c))"
    by (simp add: n1_def add.commute add.left_commute)
  also have "\<dots> = drop (length (dec_digits (length s) @ crlf @ s @ crlf))
      ((dec_digits (length s) @ crlf @ s @ crlf) @ concat (map resp_bulk ss) @ rest)"
    unfolding d1 by (simp only: k_def length_append append_assoc list.size add.assoc) simp
  also have "\<dots> = concat (map resp_bulk ss) @ rest" by (rule drop_length_append)
  finally have d2: "drop (st + (n + length (resp_bulk s))) (c_recv_buf c) = concat (map resp_bulk ss) @ rest"
    by (simp add: n1_def len add.commute add.left_commute)
  have ptr: "ptr_le c (of_nat n1 + of_nat (length s) + 2) (of_nat e)"
  proof -
    have "ptr_le c (of_nat (n1 + length s + 2)) (of_nat e)"
      using e Cons.prems(1) by (subst ptr_le_small) (auto simp: conn_ok_def)
    then show ?thesis by (simp add: ac_simps)
  qed
  have ne: "(of_nat (st + n) :: u64) \<noteq> of_nat e"
    using e by (subst of_nat_eq_64) (auto simp: n1_def)
  have next_cur: "of_nat n1 + of_nat (length s) + 2 = (of_nat (st + (n + length (resp_bulk s))) :: u64)"
    by (simp add: n1_def len)
  have off: "of_nat n1 - of_nat st = (of_nat (n + 1 + k + 2) :: u64)" by (simp add: n1_def)
  have pk: "peek c (of_nat (st + n)) = Some 36"
    using e b unat_of_nat_64 [of "st + n"]
    by (simp add: peek_def MESSAGE_MAX_LENGTH_def n1_def del: of_nat_add)
  have "parse_args c (of_nat st) (of_nat e) (length (s # ss)) (of_nat (st + n)) offs lens
    = parse_args c (of_nat st) (of_nat e) (length ss) (of_nat (st + (n + length (resp_bulk s))))
        (offs @ [of_nat (n + 1 + k + 2)]) (lens @ [of_nat (length s)])"
    unfolding next_cur [symmetric]
    using ne pk pn ptr off by (simp only: list.size parse_args.simps add_0_right add_Suc_right) simp
  also have "\<dots> = PARSE_OK (of_nat (st + (n + length (resp_bulk s)) + length (concat (map resp_bulk ss))),
        (offs @ [of_nat (n + 1 + k + 2)]) @ map of_nat (arg_starts (n + length (resp_bulk s)) ss),
        (lens @ [of_nat (length s)]) @ map (of_nat \<circ> length) ss)"
    using Cons.prems(3,4) by (intro Cons.IH [OF Cons.prems(1) d2]) simp_all
  finally show ?case by (simp add: k_def add.assoc)
qed simp

text \<open>The slices the parser records hold the strings.\<close>

lemma arg_starts_slices:
  assumes "i < length ss"
  shows "take (length (ss ! i)) (drop (arg_starts (length pre) ss ! i)
           (pre @ concat (map resp_bulk ss) @ rest)) = ss ! i
       \<and> arg_starts (length pre) ss ! i + length (ss ! i) \<le> length (pre @ concat (map resp_bulk ss))"
  using assms
proof (induction ss arbitrary: i pre)
  case (Cons s ss)
  show ?case
  proof (cases i)
    case 0
    let ?h = "pre @ bstr ''$'' @ dec_digits (length s) @ crlf"
    have "drop (arg_starts (length pre) (s # ss) ! 0) (pre @ concat (map resp_bulk (s # ss)) @ rest)
      = drop (length ?h) (?h @ s @ crlf @ concat (map resp_bulk ss) @ rest)"
      by (simp add: resp_bulk_def add.assoc)
    also have "\<dots> = s @ crlf @ concat (map resp_bulk ss) @ rest" by (rule drop_length_append)
    finally have "drop (arg_starts (length pre) (s # ss) ! 0) (pre @ concat (map resp_bulk (s # ss)) @ rest)
      = s @ crlf @ concat (map resp_bulk ss) @ rest" .
    then show ?thesis unfolding 0 by (simp only: nth_Cons_0) (simp add: resp_bulk_def)
  next
    case (Suc j)
    then show ?thesis using Cons.IH [of j "pre @ resp_bulk s"] Cons.prems
      by (simp del: take_append drop_append)
  qed
qed simp

lemma arg_starts_follow:
  assumes "i < length ss"
  shows "\<exists>r. drop (arg_starts (length pre) ss ! i) (pre @ concat (map resp_bulk ss) @ rest) = ss ! i @ crlf @ r"
  using assms
proof (induction ss arbitrary: i pre)
  case (Cons s ss)
  show ?case
  proof (cases i)
    case 0
    let ?h = "pre @ bstr ''$'' @ dec_digits (length s) @ crlf"
    have "drop (arg_starts (length pre) (s # ss) ! 0) (pre @ concat (map resp_bulk (s # ss)) @ rest)
      = drop (length ?h) (?h @ s @ crlf @ concat (map resp_bulk ss) @ rest)"
      by (simp add: resp_bulk_def add.assoc)
    also have "\<dots> = s @ crlf @ concat (map resp_bulk ss) @ rest" by (rule drop_length_append)
    finally show ?thesis unfolding 0 by (simp only: nth_Cons_0) blast
  next
    case (Suc j)
    then show ?thesis using Cons.IH [of j "pre @ resp_bulk s"] Cons.prems
      by (simp del: take_append drop_append)
  qed
qed simp

lemma length_arg_starts [simp]: "length (arg_starts n ss) = length ss"
  by (induction n ss rule: arg_starts.induct) simp_all

text \<open>The argument list of a parse result.\<close>

definition args_of :: "conn \<Rightarrow> cmd_args \<Rightarrow> bytes option list" where
  "args_of c args = map (arg_bytes c args) [0..<unat (a_argc args)]"

lemma length_received: "conn_ok c \<Longrightarrow> length (received c) = c_recv_buf_size c"
  by (auto simp: received_def conn_ok_def min_def)

lemma received_drop:
  assumes "conn_ok c" "received c = xs @ ys"
  obtains rest where "drop (c_recv_buf_read c) (c_recv_buf c) = xs @ rest"
    "c_recv_buf_read c + length xs \<le> c_recv_buf_read c + c_recv_buf_size c"
proof -
  have "drop (c_recv_buf_read c) (c_recv_buf c) = xs @ ys @ drop (c_recv_buf_size c) (drop (c_recv_buf_read c) (c_recv_buf c))"
    using assms(2) append_take_drop_id [of "c_recv_buf_size c" "drop (c_recv_buf_read c) (c_recv_buf c)"]
    by (simp add: received_def)
  moreover have "length xs \<le> c_recv_buf_size c"
    using arg_cong [OF assms(2), of length] assms(1) by (simp add: received_def conn_ok_def)
  ultimately show thesis using that by simp
qed

lemma parse_resp_ok:
  assumes ok: "conn_ok c" and recv: "received c = resp_encode ss @ ys" and ss: "ss \<noteq> []" "length ss \<le> 64"
  defines "h \<equiv> 1 + length (dec_digits (length ss)) + 2"
  shows "parse_resp_request c = PARSE_OK
    \<lparr>a_buf = of_nat (c_recv_buf_read c), a_argc = of_nat (length ss), a_len = of_nat (length (resp_encode ss)),
     a_offsets = map of_nat (arg_starts h ss), a_lens = map (of_nat \<circ> length) ss\<rparr>"
proof -
  define st where "st = c_recv_buf_read c"
  define e where "e = st + c_recv_buf_size c"
  obtain rest where dr: "drop st (c_recv_buf c) = resp_encode ss @ rest" and fit: "st + length (resp_encode ss) \<le> e"
    using received_drop [OF ok recv] unfolding st_def e_def by blast
  have e: "e \<le> 8192" using ok by (simp add: conn_ok_def e_def st_def MESSAGE_MAX_LENGTH_def)
  have len: "length (resp_encode ss) = h + length (concat (map resp_bulk ss))"
    by (simp add: resp_encode_def h_def)
  have "5 \<le> length (concat (map resp_bulk ss))"
    using ss(1) by (cases ss) (simp_all add: resp_bulk_def)
  then have h: "st + h + 2 \<le> e" "st + h + length (concat (map resp_bulk ss)) \<le> e" using fit len by simp_all
  have d1: "drop (st + 1) (c_recv_buf c) = dec_digits (length ss) @ crlf @ concat (map resp_bulk ss) @ rest"
    using arg_cong [OF dr, of tl] by (simp add: resp_encode_def drop_Suc tl_drop)
  have pn: "parse_number c (of_nat (st + 1)) (of_nat e) = PARSE_OK (of_nat (st + h), of_nat (length ss))"
    using parse_number_ok [OF ok d1, of e] ss(2) h e by (simp add: h_def MESSAGE_MAX_LENGTH_def ac_simps)
  have dh: "drop (st + h) (c_recv_buf c) = concat (map resp_bulk ss) @ rest"
  proof -
    have "drop (st + h) (c_recv_buf c) = drop h (drop st (c_recv_buf c))" by (simp add: add.commute)
    also have "\<dots> = drop (length (bstr ''*'' @ dec_digits (length ss) @ crlf))
        ((bstr ''*'' @ dec_digits (length ss) @ crlf) @ concat (map resp_bulk ss) @ rest)"
      unfolding dr by (simp add: resp_encode_def h_def)
    finally show ?thesis by (simp only: drop_length_append)
  qed
  have pa: "parse_args c (of_nat st) (of_nat e) (length ss) (of_nat (st + h)) [] []
    = PARSE_OK (of_nat (st + length (resp_encode ss)), map of_nat (arg_starts h ss), map (of_nat \<circ> length) ss)"
    using parse_args_ok [OF ok dh, of e "[]" "[]"] h e len by (simp add: MESSAGE_MAX_LENGTH_def ac_simps)
  have argc: "\<not> MAX_ARGC < (of_nat (length ss) :: u64)" "unat (of_nat (length ss) :: u64) = length ss"
    using ss(2) by (simp_all add: MAX_ARGC_def word_less_nat_alt unat_of_nat_64)
  have ptr: "ptr_le c (of_nat (st + h + 2)) (of_nat e)"
    using h e ok by (subst ptr_le_small) (auto simp: conn_ok_def)
  have ne: "of_nat (c_recv_buf_size c) \<noteq> (0 :: u64)"
    using h e of_nat_eq_64 [of "c_recv_buf_size c" 0] by (simp add: e_def)
  show ?thesis
    using ne pn argc pa ptr unfolding parse_resp_request_def
    by (simp add: Let_def ac_simps flip: st_def e_def of_nat_add)
       (simp add: ac_simps)
qed

text \<open>Slices of the receive buffer given by plain numbers.\<close>

lemma arg_bytes_slice:
  assumes "conn_ok c" "a_offsets args ! i = of_nat off" "a_lens args ! i = of_nat len"
    "a_buf args = of_nat (c_recv_buf_read c)" "off + len \<le> c_recv_buf_size c"
  shows "arg_bytes c args i = Some (take len (drop off (received c)))"
proof -
  have b: "c_recv_buf_read c + off + len \<le> 8192" using assms(1,5) by (simp add: conn_ok_def MESSAGE_MAX_LENGTH_def)
  then have "unat (of_nat (c_recv_buf_read c + off) :: u64) = c_recv_buf_read c + off" "unat (of_nat len :: u64) = len"
    by (simp_all add: unat_of_nat_64 del: of_nat_add)
  then have "arg_bytes c args i = Some (take len (drop (c_recv_buf_read c + off) (c_recv_buf c)))"
    using b assms(2-4) by (simp add: arg_bytes_def Let_def MESSAGE_MAX_LENGTH_def)
  moreover have "take len (drop off (received c)) = take len (drop (c_recv_buf_read c + off) (c_recv_buf c))"
    using assms(5) by (simp add: received_def drop_take min_def add.commute)
  ultimately show ?thesis by simp
qed

lemma parse_resp_args:
  assumes ok: "conn_ok c" and recv: "received c = resp_encode ss @ ys" and ss: "ss \<noteq> []" "length ss \<le> 64"
  obtains args where "parse_resp_request c = PARSE_OK args" "a_argc args = of_nat (length ss)"
    "a_len args = of_nat (length (resp_encode ss))" "a_buf args = of_nat (c_recv_buf_read c)"
    "length (a_lens args) = length ss" "length (a_offsets args) = length ss"
    "\<And>i. i < length ss \<Longrightarrow> a_lens args ! i = of_nat (length (ss ! i)) \<and> arg_bytes c args i = Some (ss ! i)"
    "\<And>i. i < length ss \<Longrightarrow> \<exists>r. drop (unat (a_buf args + a_offsets args ! i)) (c_recv_buf c) = ss ! i @ crlf @ r"
proof -
  let ?h = "bstr ''*'' @ dec_digits (length ss) @ crlf"
  let ?args = "\<lparr>a_buf = of_nat (c_recv_buf_read c), a_argc = of_nat (length ss), a_len = of_nat (length (resp_encode ss)),
     a_offsets = map of_nat (arg_starts (length ?h) ss), a_lens = map (of_nat \<circ> length) ss\<rparr> :: cmd_args"
  have "length (received c) = c_recv_buf_size c" using ok by (auto simp: received_def conn_ok_def min_def)
  then have fit: "length (resp_encode ss) \<le> c_recv_buf_size c" using recv by simp
  have "arg_bytes c ?args i = Some (ss ! i)" if i: "i < length ss" for i
  proof -
    note sl = arg_starts_slices [OF i, of ?h ys]
    have "arg_bytes c ?args i = Some (take (length (ss ! i)) (drop (arg_starts (length ?h) ss ! i) (received c)))"
    proof (rule arg_bytes_slice [OF ok])
      show "arg_starts (length ?h) ss ! i + length (ss ! i) \<le> c_recv_buf_size c"
        using sl fit by (simp add: resp_encode_def)
    qed (use i in simp_all)
    also have "received c = ?h @ concat (map resp_bulk ss) @ ys" using recv by (simp add: resp_encode_def)
    finally show ?thesis using sl by (simp only: )
  qed
  moreover have "\<exists>r. drop (unat (a_buf ?args + a_offsets ?args ! i)) (c_recv_buf c) = ss ! i @ crlf @ r"
    if i: "i < length ss" for i
  proof -
    let ?o = "arg_starts (length ?h) ss ! i"
    have "?o \<le> c_recv_buf_size c" using arg_starts_slices [OF i, of ?h ys] fit by (simp add: resp_encode_def)
    then have "unat (of_nat (c_recv_buf_read c + ?o) :: u64) = c_recv_buf_read c + ?o"
      using ok by (intro unat_of_nat_64) (simp add: conn_ok_def MESSAGE_MAX_LENGTH_def)
    moreover obtain more where "drop (c_recv_buf_read c) (c_recv_buf c) = resp_encode ss @ more"
      by (rule received_drop [OF ok recv])
    then have "drop (c_recv_buf_read c + ?o) (c_recv_buf c) = drop ?o (?h @ concat (map resp_bulk ss) @ more)"
      by (simp only: drop_drop [symmetric] add.commute [of _ ?o]) (simp add: resp_encode_def)
    ultimately show ?thesis using arg_starts_follow [OF i, of ?h more] i by simp
  qed
  ultimately show thesis using that [of ?args] parse_resp_ok [OF assms] by simp
qed

section \<open>Inline requests\<close>

text \<open>The words of a line.\<close>

fun words_from :: "bytes \<Rightarrow> bytes \<Rightarrow> bytes list" where
  "words_from w [] = (if w = [] then [] else [w])"
| "words_from w (b # bs) =
    (if b = 32 then (if w = [] then [] else [w]) @ words_from [] bs else words_from (w @ [b]) bs)"

definition inline_words :: "bytes \<Rightarrow> bytes list" where
  "inline_words line = words_from [] line"

text \<open>The slices recorded in the locals are the words of the bytes read so far.\<close>

definition il_ok :: "bytes \<Rightarrow> bytes list \<Rightarrow> bytes \<Rightarrow> inline_state \<Rightarrow> bool" where
  "il_ok pre ws w s \<longleftrightarrow>
     (\<exists>os ls. il_offsets s = map of_nat os \<and> il_lens s = map of_nat ls \<and> length os = length ls
        \<and> map2 (\<lambda>p l. take l (drop p pre)) os ls = ws \<and> (\<forall>(p, l) \<in> set (zip os ls). p + l \<le> length pre))
   \<and> (il_in_arg s \<longleftrightarrow> w \<noteq> [])
   \<and> (w \<noteq> [] \<longrightarrow> (\<exists>p0. pre = p0 @ w \<and> il_offset s = length p0 \<and> il_len s = length w))"

lemma il_slices_extend:
  "\<forall>(p, l) \<in> set (zip os ls). p + l \<le> length pre \<Longrightarrow>
    map2 (\<lambda>p l. take l (drop p (pre @ xs))) os ls = map2 (\<lambda>p l. take l (drop p pre)) os ls"
  by (induction os ls rule: list_induct2') auto

lemma il_ok_extend:
  "il_ok pre ws [] s \<Longrightarrow> il_ok (pre @ xs) ws [] s"
  unfolding il_ok_def by (fastforce simp: il_slices_extend)

lemma il_ok_close:
  assumes "il_ok pre ws w s"
  shows "il_ok pre (ws @ (if w = [] then [] else [w])) [] (il_close s)"
proof (cases "w = []")
  case True
  then show ?thesis using assms by (auto simp: il_ok_def il_close_def)
next
  case False
  obtain os ls p0 where s: "il_offsets s = map of_nat os" "il_lens s = map of_nat ls" "length os = length ls"
      "map2 (\<lambda>p l. take l (drop p pre)) os ls = ws" "\<forall>(p, l) \<in> set (zip os ls). p + l \<le> length pre"
      "il_in_arg s" "pre = p0 @ w" "il_offset s = length p0" "il_len s = length w"
    using assms False by (auto simp: il_ok_def)
  let ?os = "os @ [length p0]" and ?ls = "ls @ [length w]"
  have "il_offsets (il_close s) = map of_nat ?os" "il_lens (il_close s) = map of_nat ?ls" "length ?os = length ?ls"
    "map2 (\<lambda>p l. take l (drop p pre)) ?os ?ls = ws @ [w]" "\<forall>(p, l) \<in> set (zip ?os ?ls). p + l \<le> length pre"
    "\<not> il_in_arg (il_close s)"
    using s by (simp_all add: il_close_def)
  then show ?thesis using False unfolding il_ok_def
    by (intro conjI exI [of _ ?os] exI [of _ ?ls]) simp_all
qed

lemma il_close_simps [simp]: "il_crlf (il_close s) = il_crlf s"
  by (simp add: il_close_def)

lemma il_ok_len: "il_ok pre ws w s \<Longrightarrow> length (il_offsets s) = length ws"
  by (auto simp: il_ok_def)

lemma il_ok_char:
  assumes "il_ok pre ws w s"
  shows "il_ok (pre @ [b]) ws (w @ [b])
    (if il_in_arg s then s\<lparr>il_len := il_len s + 1\<rparr> else s\<lparr>il_offset := length pre, il_len := 1, il_in_arg := True\<rparr>)"
  using assms unfolding il_ok_def by (cases "w = []") (fastforce simp: il_slices_extend)+

lemma words_from_pos: "w \<noteq> [] \<Longrightarrow> 0 < length (words_from w line)"
  by (induction line arbitrary: w) auto

lemma inline_loop_ok:
  assumes "il_ok pre ws w s" "CR \<notin> set line" "LF \<notin> set line" "length ws + length (words_from w line) \<le> 64"
  shows "\<exists>s'. inline_loop (line @ crlf @ ys) (length pre) s = PARSE_OK (length pre + length line + 1, s')
    \<and> il_ok (pre @ line) (ws @ words_from w line) [] s'"
  using assms
proof (induction line arbitrary: pre ws w s)
  case Nil
  have "il_ok pre (ws @ (if w = [] then [] else [w])) [] (il_close s)" using Nil.prems(1) by (rule il_ok_close)
  then show ?case by (auto simp: il_ok_def)
next
  case (Cons b line)
  show ?case
  proof (cases "b = 32")
    case True
    have "il_ok (pre @ [b]) (ws @ (if w = [] then [] else [w])) [] (il_close s)"
      using il_ok_extend [OF il_ok_close [OF Cons.prems(1)]] .
    from Cons.IH [OF this] show ?thesis using Cons.prems True by (cases "w = []") simp_all
  next
    case False
    have le: "Suc (length ws) \<le> 64"
    proof -
      have "0 < length (words_from (w @ [b]) line)" by (rule words_from_pos) simp
      then show ?thesis using Cons.prems(4) False by (simp del: length_greater_0_conv)
    qed
    have "\<not> (\<not> il_in_arg s \<and> of_nat (length (il_offsets s)) = MAX_ARGC)"
      using le il_ok_len [OF Cons.prems(1)] Cons.prems(1)
      by (auto simp: il_ok_def MAX_ARGC_def word_unat_eq_iff unat_of_nat_64)
    moreover have "b \<noteq> CR" "b \<noteq> LF" using Cons.prems by auto
    moreover define s1 where "s1 =
      (if il_in_arg s then s\<lparr>il_len := il_len s + 1\<rparr>
       else s\<lparr>il_offset := length pre, il_len := 1, il_in_arg := True\<rparr>)"
    ultimately have "inline_loop ((b # line) @ crlf @ ys) (length pre) s
        = inline_loop (line @ crlf @ ys) (length (pre @ [b])) s1"
      using False by (simp only: append_Cons inline_loop.simps if_False) simp
    moreover have "il_ok (pre @ [b]) ws (w @ [b]) s1"
      unfolding s1_def by (rule il_ok_char [OF Cons.prems(1)])
    from Cons.IH [OF this] have "\<exists>s'. inline_loop (line @ crlf @ ys) (length (pre @ [b])) s1
        = PARSE_OK (length (pre @ [b]) + length line + 1, s')
      \<and> il_ok ((pre @ [b]) @ line) (ws @ words_from (w @ [b]) line) [] s'"
      using Cons.prems False by simp
    ultimately show ?thesis using False by simp
  qed
qed

text \<open>A line of words is parsed into its words, and what follows the line is left alone.\<close>

lemma parse_inline_args:
  assumes ok: "conn_ok c" and recv: "received c = line @ crlf @ ys"
    and line: "CR \<notin> set line" "LF \<notin> set line" "length (inline_words line) \<le> 64"
  obtains args where "parse_inline_request c = PARSE_OK args"
    "a_argc args = of_nat (length (inline_words line))" "a_len args = of_nat (length line + 2)"
    "a_buf args = of_nat (c_recv_buf_read c)"
    "\<And>i. i < length (inline_words line) \<Longrightarrow>
       a_lens args ! i = of_nat (length (inline_words line ! i)) \<and> arg_bytes c args i = Some (inline_words line ! i)"
proof -
  have "il_ok [] [] [] inline_start" by (simp add: il_ok_def inline_start_def)
  then obtain s where s: "inline_loop (line @ crlf @ ys) 0 inline_start = PARSE_OK (length line + 1, s)"
    "il_ok line (inline_words line) [] s"
    using inline_loop_ok [of "[]" "[]" "[]" inline_start line ys] line by (auto simp: inline_words_def)
  have cl: "il_close s = s" using s(2) by (simp add: il_ok_def il_close_def)
  obtain ps ls where p: "il_offsets s = map of_nat ps" "il_lens s = map of_nat ls" "length ps = length ls"
      "map2 (\<lambda>p l. take l (drop p line)) ps ls = inline_words line"
      "\<forall>(p, l) \<in> set (zip ps ls). p + l \<le> length line"
    using s(2) by (auto simp: il_ok_def)
  let ?args = "\<lparr>a_buf = of_nat (c_recv_buf_read c), a_argc = of_nat (length (il_offsets s)),
           a_len = of_nat (length line + 1 + 1), a_offsets = il_offsets s, a_lens = il_lens s\<rparr> :: cmd_args"
  have n: "length (inline_words line) = length ps" using p(3) by (simp flip: p(4))
  have sz: "length line + 2 \<le> c_recv_buf_size c"
    using arg_cong [OF recv, of length] ok by (auto simp: received_def conn_ok_def)
  have "parse_inline_request c = PARSE_OK ?args"
    using s(1) recv cl by (simp add: parse_inline_request_def Let_def)
  moreover have "a_lens ?args ! i = of_nat (length (inline_words line ! i)) \<and> arg_bytes c ?args i = Some (inline_words line ! i)"
    if i: "i < length (inline_words line)" for i
  proof -
    have w: "inline_words line ! i = take (ls ! i) (drop (ps ! i) line)"
      using i n p(3) by (simp flip: p(4))
    have b: "ps ! i + ls ! i \<le> length line"
      using p(3,5) i n by (metis (mono_tags, lifting) case_prodD nth_mem nth_zip length_zip min.idem)
    have "arg_bytes c ?args i = Some (take (ls ! i) (drop (ps ! i) (received c)))"
      using b sz i n p(1-3) by (intro arg_bytes_slice [OF ok]) simp_all
    then show ?thesis using b w i n p(2,3) recv by simp
  qed
  ultimately show thesis using that [of ?args] n p(1) by simp
qed

section \<open>Replies\<close>

text \<open>The output not yet discarded, and the encodings of the replies.\<close>

definition pending :: "conn \<Rightarrow> bytes" where
  "pending c = take (c_send_buf_size c) (c_send_buf c)"

definition resp_simple :: "bytes \<Rightarrow> bytes" where
  "resp_simple s = bstr ''+'' @ s @ crlf"

definition resp_error :: "bytes \<Rightarrow> bytes" where
  "resp_error s = bstr ''-ERR '' @ s @ crlf"

definition resp_null :: bytes where
  "resp_null = bstr ''$-1'' @ crlf"

definition resp_integer :: "u64 \<Rightarrow> bytes" where
  "resp_integer v = bstr '':'' @ fmt_ld v @ crlf"

text \<open>
  \<open>replied c out c'\<close>: \<open>c'\<close> is \<open>c\<close> with \<open>out\<close> appended to its pending output and nothing else
  of the connection changed.
\<close>

definition replied :: "conn \<Rightarrow> bytes \<Rightarrow> conn \<Rightarrow> bool" where
  "replied c out c' \<longleftrightarrow> pending c' = pending c @ out \<and> conn_ok c'
     \<and> (\<exists>buf. c' = c\<lparr>c_send_buf := buf, c_send_buf_size := c_send_buf_size c + length out\<rparr>)"

lemma store_at_ok:
  assumes "length (c_send_buf c) = MESSAGE_MAX_LENGTH" "p + length bs \<le> MESSAGE_MAX_LENGTH"
  obtains buf where "store_at c p bs = Some (c\<lparr>c_send_buf := buf\<rparr>)" "length buf = MESSAGE_MAX_LENGTH"
    "take p buf = take p (c_send_buf c)" "take (p + length bs) buf = take p (c_send_buf c) @ bs"
proof
  let ?buf = "take p (c_send_buf c) @ bs @ drop (p + length bs) (c_send_buf c)"
  show "store_at c p bs = Some (c\<lparr>c_send_buf := ?buf\<rparr>)" using assms by (simp add: store_at_def)
  show "length ?buf = MESSAGE_MAX_LENGTH" "take p ?buf = take p (c_send_buf c)"
    "take (p + length bs) ?buf = take p (c_send_buf c) @ bs"
    using assms by simp_all
qed

lemma send_sprintf_ok:
  assumes ok: "conn_ok c" and fit: "c_send_buf_size c + length out < MESSAGE_MAX_LENGTH"
  obtains c' where "send_sprintf c out = Some c'" "replied c out c'"
proof -
  let ?p = "c_send_buf_size c"
  obtain buf where buf: "store_at c ?p (out @ [0]) = Some (c\<lparr>c_send_buf := buf\<rparr>)"
    "length buf = MESSAGE_MAX_LENGTH" "take (?p + length (out @ [0])) buf = take ?p (c_send_buf c) @ out @ [0]"
    using store_at_ok [of c ?p "out @ [0]"] assms by (auto simp: conn_ok_def)
  have "take (?p + length out) buf = take (?p + length out) (take (?p + length (out @ [0])) buf)"
    by simp
  also have "\<dots> = take ?p (c_send_buf c) @ out"
    unfolding buf(3) using ok by (simp add: conn_ok_def)
  finally have "pending (c\<lparr>c_send_buf := buf, c_send_buf_size := ?p + length out\<rparr>) = pending c @ out"
    by (simp add: pending_def)
  then show thesis
    using that [of "c\<lparr>c_send_buf := buf, c_send_buf_size := ?p + length out\<rparr>"] buf(1,2) fit ok
    by (auto simp: send_sprintf_def replied_def conn_ok_def)
qed

lemma send_sprintf_overflow:
  "MESSAGE_MAX_LENGTH \<le> c_send_buf_size c + length out \<Longrightarrow> send_sprintf c out = None"
  by (simp add: send_sprintf_def store_at_def)

lemma send_sprintf_some: "send_sprintf c out = Some c' \<Longrightarrow> conn_ok c \<Longrightarrow> replied c out c'"
  using send_sprintf_ok [of c out] send_sprintf_overflow [of c out] by (metis leI option.distinct(1) option.inject)

text \<open>A bulk string is stored in four pieces; the NUL of the first is overwritten by the second.\<close>

lemma store_at_extend:
  assumes "length (c_send_buf c) = MESSAGE_MAX_LENGTH" "take p (c_send_buf c) = xs" "p = length xs"
    "p + length bs \<le> MESSAGE_MAX_LENGTH"
  shows "\<exists>buf. store_at c p bs = Some (c\<lparr>c_send_buf := buf\<rparr>) \<and> length buf = MESSAGE_MAX_LENGTH
    \<and> take (p + length bs) buf = xs @ bs"
  using store_at_ok [of c p bs] assms by (metis)

lemma write_bulk_string_ok:
  assumes ok: "conn_ok c" and fit: "c_send_buf_size c + length (resp_bulk d) \<le> MESSAGE_MAX_LENGTH"
  obtains c' where "write_bulk_string c d = Some c'" "replied c (resp_bulk d) c'"
proof -
  let ?p = "c_send_buf_size c"
  define h where "h = bstr ''$'' @ dec_digits (length d)"
  have len: "length (resp_bulk d) = length h + 2 + length d + 2" by (simp add: resp_bulk_def h_def)
  have "length d < 2 ^ 64" using fit len by (simp add: MESSAGE_MAX_LENGTH_def)
  then have h: "bstr ''$'' @ fmt_zu (of_nat (length d)) = h" by (simp add: h_def fmt_zu_def unat_of_nat_64)
  define P where "P = pending c"
  have P: "take ?p (c_send_buf c) = P" "?p = length P" "length (c_send_buf c) = MESSAGE_MAX_LENGTH"
    using ok by (simp_all add: P_def pending_def conn_ok_def)
  obtain b1 where b1: "store_at c ?p (h @ [0]) = Some (c\<lparr>c_send_buf := b1\<rparr>)" "length b1 = MESSAGE_MAX_LENGTH"
    "take (?p + length (h @ [0])) b1 = P @ h @ [0]"
    using store_at_extend [OF P(3,1,2), of "h @ [0]"] fit len by auto
  have t1: "take (?p + length h) b1 = P @ h"
    using arg_cong [OF b1(3), of "take (?p + length h)"] P(2) by simp
  obtain b2 where b2: "store_at (c\<lparr>c_send_buf := b1\<rparr>) (?p + length h) crlf = Some (c\<lparr>c_send_buf := b2\<rparr>)"
    "length b2 = MESSAGE_MAX_LENGTH" "take (?p + length h + 2) b2 = (P @ h) @ crlf"
    using store_at_extend [of "c\<lparr>c_send_buf := b1\<rparr>" "?p + length h" "P @ h" crlf] b1 t1 P(2) fit len by auto
  obtain b3 where b3: "store_at (c\<lparr>c_send_buf := b2\<rparr>) (?p + length h + 2) d = Some (c\<lparr>c_send_buf := b3\<rparr>)"
    "length b3 = MESSAGE_MAX_LENGTH" "take (?p + length h + 2 + length d) b3 = ((P @ h) @ crlf) @ d"
    using store_at_extend [of "c\<lparr>c_send_buf := b2\<rparr>" "?p + length h + 2" "(P @ h) @ crlf" d] b2 P(2) fit len by auto
  obtain b4 where b4: "store_at (c\<lparr>c_send_buf := b3\<rparr>) (?p + length h + 2 + length d) crlf = Some (c\<lparr>c_send_buf := b4\<rparr>)"
    "length b4 = MESSAGE_MAX_LENGTH" "take (?p + length h + 2 + length d + 2) b4 = (((P @ h) @ crlf) @ d) @ crlf"
    using store_at_extend [of "c\<lparr>c_send_buf := b3\<rparr>" "?p + length h + 2 + length d" "((P @ h) @ crlf) @ d" crlf]
      b3 P(2) fit len by auto
  let ?c' = "c\<lparr>c_send_buf := b4, c_send_buf_size := ?p + length (resp_bulk d)\<rparr>"
  have "write_bulk_string c d = Some ?c'"
    unfolding write_bulk_string_def Let_def h using b1(1) b2(1) b3(1) b4(1) h len
    by (simp add: add.assoc flip: append_assoc)
  moreover have "pending ?c' = pending c @ resp_bulk d"
    using b4(3) by (simp add: pending_def len P(1) resp_bulk_def h_def add.assoc)
  ultimately show thesis using that [of ?c'] ok fit b4(2) by (auto simp: replied_def conn_ok_def)
qed

end
