(* ===== verification/Protocol_Props.thy ===== *)
theory Protocol_Props
  imports Protocol_Correct
begin

text \<open>
  The properties of the protocol code: the parsers invert the client's encodings, the writers
  produce the replies, and where the parsers and writers leave their buffers.
\<close>

section \<open>A concrete connection\<close>

definition demo_conn :: "bytes \<Rightarrow> conn" where
  "demo_conn data =
    \<lparr>c_fd = 5, c_flags = 0, c_shard_id = 0, c_db = 0, c_base = 4096,
     c_recv_buf_size = length data, c_recv_buf_read = 0,
     c_recv_buf = data @ replicate (MESSAGE_MAX_LENGTH - length data) 0,
     c_send_buf_size = 0, c_send_buf_sent = 0, c_send_buf = replicate MESSAGE_MAX_LENGTH 0\<rparr>"

lemma demo_conn:
  assumes "length data \<le> MESSAGE_MAX_LENGTH"
  shows "conn_ok (demo_conn data)" "received (demo_conn data) = data"
    "c_recv_buf_read (demo_conn data) = 0" "c_send_buf_size (demo_conn data) = 0"
  using assms by (simp_all add: demo_conn_def conn_ok_def received_def)

lemma demo_conn_buf: "c_recv_buf (demo_conn data) = data @ replicate (MESSAGE_MAX_LENGTH - length data) 0"
  "c_recv_buf_size (demo_conn data) = length data"
  by (simp_all add: demo_conn_def)

section \<open>Requests\<close>

text \<open>
  C18: \<open>parse_resp_request\<close> inverts the encoding of a request: on a buffer that starts with the
  encoding of 1 to 64 strings, whatever bytes they hold and whatever follows, it accepts, reports
  exactly these strings as arguments, and consumes exactly the bytes of the encoding.
\<close>

theorem resp_request_roundtrip:
  assumes "conn_ok c" "received c = resp_encode ss @ ys" "ss \<noteq> []" "length ss \<le> 64"
  shows "\<exists>args. parse_resp_request c = PARSE_OK args \<and> args_of c args = map Some ss
    \<and> a_len args = of_nat (length (resp_encode ss))"
proof -
  obtain args where a: "parse_resp_request c = PARSE_OK args" "a_argc args = of_nat (length ss)"
    "a_len args = of_nat (length (resp_encode ss))"
    "\<And>i. i < length ss \<Longrightarrow> a_lens args ! i = of_nat (length (ss ! i)) \<and> arg_bytes c args i = Some (ss ! i)"
    by (rule parse_resp_args [OF assms], rule that, assumption+)
  have "unat (a_argc args) = length ss" using a(2) assms(4) by (simp add: unat_of_nat_64)
  then have "args_of c args = map Some ss"
    using a(4) by (intro nth_equalityI) (simp_all add: args_of_def)
  then show ?thesis using a by blast
qed

theorem resp_request_roundtrip_witness:
  "\<exists>args. parse_resp_request (demo_conn (resp_encode [bstr ''ECHO'', [CR, LF, 0]] @ bstr ''junk'')) = PARSE_OK args
    \<and> args_of (demo_conn (resp_encode [bstr ''ECHO'', [CR, LF, 0]] @ bstr ''junk'')) args
      = [Some (bstr ''ECHO''), Some [CR, LF, 0]]"
proof -
  let ?ss = "[bstr ''ECHO'', [CR, LF, 0]] :: bytes list"
  have "length (resp_encode ?ss @ bstr ''junk'') \<le> MESSAGE_MAX_LENGTH"
    by (simp add: resp_encode_def resp_bulk_def dec_digits.simps MESSAGE_MAX_LENGTH_def)
  from resp_request_roundtrip [OF demo_conn(1,2) [OF this]] show ?thesis by simp blast
qed

text \<open>
  C25: \<open>parse_inline_request\<close> splits a line at its spaces: on a buffer that starts with a line
  without CR and LF, ended by CR LF and holding at most 64 words, it accepts, reports exactly the
  words as arguments and consumes the line with its end.
\<close>

theorem inline_request_words:
  assumes "conn_ok c" "received c = line @ crlf @ ys" "CR \<notin> set line" "LF \<notin> set line"
    "length (inline_words line) \<le> 64"
  shows "\<exists>args. parse_inline_request c = PARSE_OK args \<and> args_of c args = map Some (inline_words line)
    \<and> a_len args = of_nat (length line + 2)"
proof -
  obtain args where a: "parse_inline_request c = PARSE_OK args" "a_argc args = of_nat (length (inline_words line))"
    "a_len args = of_nat (length line + 2)"
    "\<And>i. i < length (inline_words line) \<Longrightarrow> a_lens args ! i = of_nat (length (inline_words line ! i))
       \<and> arg_bytes c args i = Some (inline_words line ! i)"
    by (rule parse_inline_args [OF assms], rule that, assumption+)
  have "unat (a_argc args) = length (inline_words line)" using a(2) assms(5) by (simp add: unat_of_nat_64)
  then have "args_of c args = map Some (inline_words line)"
    using a(4) by (intro nth_equalityI) (simp_all add: args_of_def)
  then show ?thesis using a by blast
qed

theorem inline_request_words_witness:
  "\<exists>args. parse_inline_request (demo_conn (bstr ''SET  k v'' @ crlf @ bstr ''GET'')) = PARSE_OK args
    \<and> args_of (demo_conn (bstr ''SET  k v'' @ crlf @ bstr ''GET'')) args
      = [Some (bstr ''SET''), Some (bstr ''k''), Some (bstr ''v'')] \<and> a_len args = 10"
proof -
  have "length (bstr ''SET  k v'' @ crlf @ bstr ''GET'') \<le> MESSAGE_MAX_LENGTH" by (simp add: MESSAGE_MAX_LENGTH_def)
  note d = demo_conn(1,2) [OF this]
  have w: "inline_words (bstr ''SET  k v'') = [bstr ''SET'', bstr ''k'', bstr ''v'']"
    by (simp add: inline_words_def of_char_def)
  have "CR \<notin> set (bstr ''SET  k v'')" "LF \<notin> set (bstr ''SET  k v'')"
    by (simp_all add: of_char_def)
  from inline_request_words [OF d this] w show ?thesis by simp
qed

section \<open>Faults of the request parser\<close>

text \<open>
  A request whose argument count has not been followed by its CR yet is incomplete, but
  \<open>parse_number\<close> looks at the byte after the received data: whenever that byte is neither a digit
  nor CR, as on a fresh connection, the request is rejected as malformed.
\<close>

theorem split_request_rejected:
  assumes "conn_ok c" "received c = bstr ''*'' @ dec_digits v" "v < 2 ^ 64"
    "c_recv_buf_read c + c_recv_buf_size c < MESSAGE_MAX_LENGTH"
    "b = c_recv_buf c ! (c_recv_buf_read c + c_recv_buf_size c)" "\<not> is_digit b" "b \<noteq> CR"
  shows "parse_resp_request c = PARSE_ERROR"
proof -
  define st where "st = c_recv_buf_read c"
  define ds where "ds = dec_digits v"
  have size: "c_recv_buf_size c = Suc (length ds)"
    using arg_cong [OF assms(2), of length] length_received [OF assms(1)] by (simp add: ds_def)
  have len: "st + Suc (length ds) < 8192" "length (c_recv_buf c) = 8192"
    using assms(1,4) size by (simp_all add: st_def conn_ok_def MESSAGE_MAX_LENGTH_def)
  have "drop st (c_recv_buf c) = received c @ drop (Suc (length ds)) (drop st (c_recv_buf c))"
    by (simp only: received_def append_take_drop_id st_def flip: size)
  moreover have "drop (Suc (length ds)) (drop st (c_recv_buf c)) = b # drop (st + Suc (length ds) + 1) (c_recv_buf c)"
    using len assms(5) size by (simp add: st_def Cons_nth_drop_Suc add.commute)
  ultimately have "drop st (c_recv_buf c) = bstr ''*'' @ ds @ b # drop (st + Suc (length ds) + 1) (c_recv_buf c)"
    using assms(2) by (simp add: ds_def)
  from arg_cong [OF this, of tl]
  have dr: "drop (st + 1) (c_recv_buf c) = ds @ b # drop (st + Suc (length ds) + 1) (c_recv_buf c)"
    by (simp add: drop_Suc tl_drop)
  have "foldl (\<lambda>acc d. acc * 10 + digit_val d) 0 ds = v"
    using dec_val_digits [of v] by (simp add: dec_val_def ds_def)
  then have "parse_digits c (of_nat (st + 1)) (of_nat (st + 1 + length ds)) (of_nat 0) = PARSE_ERROR"
    using assms(1,3,6,7) dr len dec_digits_digits [of v] unfolding ds_def [symmetric]
    by (intro parse_digits_bad [where b = b]) (auto simp: MESSAGE_MAX_LENGTH_def)
  then have "parse_number c (of_nat st + 1) (of_nat st + of_nat (Suc (length ds))) = PARSE_ERROR"
    by (simp add: parse_number_def ac_simps)
  moreover have "of_nat (Suc (length ds)) \<noteq> (0 :: u64)"
    using of_nat_eq_64 [of "Suc (length ds)" 0] len by simp
  ultimately show ?thesis by (simp add: parse_resp_request_def Let_def size flip: st_def)
qed

theorem split_request_rejected_witness:
  "parse_resp_request (demo_conn (bstr ''*'' @ dec_digits 2)) = PARSE_ERROR"
proof -
  have len: "length (bstr ''*'' @ dec_digits 2) = 2" by (simp add: dec_digits.simps)
  then have "length (bstr ''*'' @ dec_digits 2) \<le> MESSAGE_MAX_LENGTH" by (simp add: MESSAGE_MAX_LENGTH_def)
  note d = demo_conn [OF this]
  have "c_recv_buf (demo_conn (bstr ''*'' @ dec_digits 2)) ! 2 = 0"
    using len by (simp add: demo_conn_buf nth_append MESSAGE_MAX_LENGTH_def)
  then show ?thesis
    using split_request_rejected [OF d(1,2), of 0] d(3) len
    by (simp add: demo_conn_buf MESSAGE_MAX_LENGTH_def is_digit_def)
qed

section \<open>Replies\<close>

text \<open>A client's reader of bulk strings: the length, then that many bytes.\<close>

definition read_bulk :: "bytes \<Rightarrow> (bytes \<times> bytes) option" where
  "read_bulk bs =
    (case bs of [] \<Rightarrow> None
     | b # bs' \<Rightarrow>
        if b \<noteq> 36 then None
        else (let ds = takeWhile is_digit bs'; n = dec_val ds; rest = drop (length ds + 2) bs'
              in if ds = [] \<or> length rest < n + 2 then None else Some (take n rest, drop (n + 2) rest)))"

lemma read_resp_bulk: "read_bulk (resp_bulk d @ rest) = Some (d, rest)"
proof -
  have "resp_bulk d @ rest = 36 # dec_digits (length d) @ crlf @ d @ crlf @ rest"
    by (simp add: resp_bulk_def of_char_def)
  moreover have "takeWhile is_digit (dec_digits (length d) @ crlf @ d @ crlf @ rest) = dec_digits (length d)"
    using dec_digits_digits [of "length d"] by (simp add: takeWhile_append is_digit_def)
  ultimately show ?thesis by (simp add: read_bulk_def Let_def)
qed

text \<open>
  C26: \<open>write_bulk_string\<close> appends one bulk string to the pending output as long as it fits the
  send buffer, changes nothing else of the connection, and a client that reads the length first
  gets exactly the value back, whatever bytes it holds and whatever reply follows.
\<close>

theorem bulk_reply_roundtrip:
  assumes "conn_ok c" "c_send_buf_size c + length (resp_bulk d) \<le> MESSAGE_MAX_LENGTH"
  shows "\<exists>c' out. write_bulk_string c d = Some c' \<and> pending c' = pending c @ out
    \<and> read_bulk (out @ rest) = Some (d, rest) \<and> conn_ok c'
    \<and> c' = c\<lparr>c_send_buf := c_send_buf c', c_send_buf_size := c_send_buf_size c'\<rparr>"
proof -
  obtain c' where "write_bulk_string c d = Some c'" "replied c (resp_bulk d) c'"
    by (rule write_bulk_string_ok [OF assms])
  then show ?thesis using read_resp_bulk by (intro exI [of _ c'] exI [of _ "resp_bulk d"]) (auto simp: replied_def)
qed

theorem bulk_reply_roundtrip_witness:
  "\<exists>c' out. write_bulk_string (demo_conn []) [0, 13, 10] = Some c' \<and> pending c' = out
    \<and> read_bulk (out @ [43]) = Some ([0, 13, 10], [43])"
proof -
  have "conn_ok (demo_conn [])" "pending (demo_conn []) = []" "c_send_buf_size (demo_conn []) = 0"
    using demo_conn [of "[]"] by (simp_all add: pending_def)
  then show ?thesis
    using bulk_reply_roundtrip [of "demo_conn []" "[0, 13, 10]" "[43]"]
    by (simp add: resp_bulk_def dec_digits.simps MESSAGE_MAX_LENGTH_def) blast
qed

end
