(* ===== verification/World.thy ===== *)
theory World
  imports KV Protocol Mpmcq
begin

text \<open>
  The shared state of the server, from \<^verbatim>\<open>src/include/state.h\<close>, \<^verbatim>\<open>src/include/reactor.h\<close>,
  \<^verbatim>\<open>src/include/bitset.h\<close> and the contexts of \<^verbatim>\<open>src/include/commands.h\<close>: shards with their
  databases, reactors with their mailboxes, the command table and the connections.

  Connections live in a heap indexed by pointers, because a message in flight keeps a pointer to
  its connection; a freed connection is no longer in the heap. Shards and reactors are numbered
  alike, as \<^verbatim>\<open>init_shards\<close> sets them up.
\<close>

section \<open>Messages between shards\<close>

text \<open>
  What a keyed command does on the shard that owns the key, with the fields its request context
  adds, and what the response context carries back.
\<close>

datatype keyed_op = OpGet | OpSet bytes | OpDel | OpPing u64 | OpModify u64

datatype keyed_res = ResEntry "entry option" | ResOK | ResInt u64

record cb_context =
  cb_src :: nat
  cb_dst :: nat
  cb_conn :: nat

datatype message =
    Request (msg_ctx: cb_context) (req_key: bytes) (req_hash: u64) (req_op: keyed_op)
  | Response (msg_ctx: cb_context) (resp_res: keyed_res)

section \<open>Commands, shards, reactors\<close>

datatype command_func =
    Cmd_ping | Cmd_echo | Cmd_quit | Cmd_get | Cmd_set | Cmd_del | Cmd_shutdown | Cmd_flushall
  | Cmd_select | Cmd_incr | Cmd_decr | Cmd_incrby | Cmd_decrby | Cmd_dispatch_ping

record command =
  cm_name :: bytes
  cm_arity :: u64
  cm_func :: "command_func option"

record shard =
  s_shard_id :: nat
  s_dbs :: "entry hashmap list"

text \<open>
  \<open>r_wakeup\<close> is the counter of the event descriptor and \<open>r_errno\<close> the \<^verbatim>\<open>errno\<close> of the
  reactor's thread; \<open>r_conns\<close> is the vector of connection pointers indexed by descriptor.
\<close>

record reactor =
  r_id :: nat
  r_running :: bool
  r_wakeup :: nat
  r_cb_queue :: "message mpmcq"
  r_soft_notify :: u64
  r_sleeping :: bool
  r_conns :: "nat option list"
  r_errno :: nat

record world =
  w_num_dbs :: nat
  w_commands :: "command hashmap"
  w_shards :: "shard list"
  w_reactors :: "reactor list"
  w_conns :: "nat \<Rightarrow> conn option"

definition upd_conn :: "nat \<Rightarrow> conn \<Rightarrow> world \<Rightarrow> world" where
  "upd_conn p c w = w\<lparr>w_conns := (w_conns w)(p := Some c)\<rparr>"

definition upd_reactor :: "nat \<Rightarrow> (reactor \<Rightarrow> reactor) \<Rightarrow> world \<Rightarrow> world" where
  "upd_reactor i f w = w\<lparr>w_reactors := (w_reactors w)[i := f (w_reactors w ! i)]\<rparr>"

definition upd_db :: "nat \<Rightarrow> nat \<Rightarrow> entry hashmap \<Rightarrow> world \<Rightarrow> world" where
  "upd_db i j db w =
    w\<lparr>w_shards := (w_shards w)[i := (w_shards w ! i)\<lparr>s_dbs := (s_dbs (w_shards w ! i))[j := db]\<rparr>]\<rparr>"

text \<open>\<^verbatim>\<open>shard->dbs[conn->db]\<close>; outside the array it is undefined.\<close>

definition get_db :: "world \<Rightarrow> nat \<Rightarrow> u64 \<Rightarrow> entry hashmap option" where
  "get_db w i j =
    (if i < length (w_shards w) \<and> unat j < length (s_dbs (w_shards w ! i))
     then Some (s_dbs (w_shards w ! i) ! unat j) else None)"

section \<open>The notification bits\<close>

text \<open>
  \<^verbatim>\<open>1 << bit\<close> is computed in a 32-bit \<^verbatim>\<open>int\<close> and sign-extended to the 64-bit set.
\<close>

definition int_bit :: "nat \<Rightarrow> u64" where
  "int_bit b = scast (push_bit b (1 :: u32))"

definition BITSET64_SET :: "u64 \<Rightarrow> nat \<Rightarrow> u64" where
  "BITSET64_SET s b = s OR int_bit b"

definition BITSET64_GET :: "u64 \<Rightarrow> nat \<Rightarrow> bool" where
  "BITSET64_GET s b \<longleftrightarrow> s AND int_bit b \<noteq> 0"

definition BITSET64_CLEAR :: "u64 \<Rightarrow> nat \<Rightarrow> u64" where
  "BITSET64_CLEAR s b = s AND NOT (int_bit b)"

section \<open>Reactor messages\<close>

definition reactor_send_message :: "nat \<Rightarrow> message \<Rightarrow> world \<Rightarrow> (world \<times> bool) option" where
  "reactor_send_message target msg w = do {
     (q, sent) \<leftarrow> mpmcq_enqueue (r_cb_queue (w_reactors w ! target)) msg;
     Some (upd_reactor target (\<lambda>r. r\<lparr>r_cb_queue := q\<rparr>) w, sent) }"

definition reactor_has_pending_messages :: "world \<Rightarrow> nat \<Rightarrow> bool" where
  "reactor_has_pending_messages w i \<longleftrightarrow> 0 < mpmcq_count (r_cb_queue (w_reactors w ! i))"

definition notify :: "nat \<Rightarrow> nat \<Rightarrow> world \<Rightarrow> world" where
  "notify self target w =
    upd_reactor self (\<lambda>r. r\<lparr>r_soft_notify := BITSET64_SET (r_soft_notify r) target\<rparr>) w"

text \<open>
  \<open>reactor_wakeup_pending\<close> rings the event descriptor of every marked reactor that was asleep,
  and clears the marks. The result says whether any was.
\<close>

definition wakeup_target :: "nat \<Rightarrow> nat \<Rightarrow> world \<Rightarrow> world \<times> bool" where
  "wakeup_target self i w =
    (if BITSET64_GET (r_soft_notify (w_reactors w ! self)) i \<and> r_sleeping (w_reactors w ! i)
     then (upd_reactor i (\<lambda>r. r\<lparr>r_sleeping := False, r_wakeup := r_wakeup r + 1\<rparr>) w, True)
     else (w, False))"

fun wakeup_loop :: "nat \<Rightarrow> nat list \<Rightarrow> world \<times> bool \<Rightarrow> world \<times> bool" where
  "wakeup_loop self [] (w, notified) = (w, notified)"
| "wakeup_loop self (i # is) (w, notified) =
    (case wakeup_target self i w of (w', rung) \<Rightarrow> wakeup_loop self is (w', notified \<or> rung))"

definition BITSET64_RESET :: "nat \<Rightarrow> world \<Rightarrow> world" where
  "BITSET64_RESET self w = upd_reactor self (\<lambda>r. r\<lparr>r_soft_notify := 0\<rparr>) w"

definition reactor_wakeup_pending :: "nat \<Rightarrow> world \<Rightarrow> world \<times> bool" where
  "reactor_wakeup_pending self w =
    (case wakeup_loop self [0..<length (w_shards w)] (w, False) of
       (w', notified) \<Rightarrow> (BITSET64_RESET self w', notified))"

end
