(* ===== verification/Commands.thy ===== *)
theory Commands
  imports World
begin

text \<open>
  The commands, from \<^verbatim>\<open>src/include/commands.c\<close> and the \<^verbatim>\<open>DEFINE_COMMAND\<close> macro of
  \<^verbatim>\<open>src/include/commands.h\<close>. The macro generates three functions for a keyed command: the
  command itself, which runs in place when the key belongs to the executing shard and otherwise
  sends a request; the request handler on the owning shard; and the response handler back on the
  shard of the connection. They are modelled once, over the operation of the command.

  \<open>None\<close> is a step that is undefined in C (a read or write outside a buffer, a freed connection)
  or that does not return (a full mailbox). Allocations of the C library succeed. Signed 64-bit
  arithmetic wraps, as the generated code does; values are kept as 64-bit words.
\<close>

section \<open>Signed numbers\<close>

text \<open>
  \<open>buf\<close> is the memory from the pointer on; it may hold more than the \<open>n\<close> bytes of the number,
  and reading outside it is \<open>None\<close>. The first byte is read even when \<open>n\<close> is 0.
\<close>

fun signed_digits :: "bytes \<Rightarrow> nat \<Rightarrow> u64 \<Rightarrow> (nat \<times> u64) option" where
  "signed_digits buf 0 res = Some (0, res)"
| "signed_digits [] (Suc n) res = None"
| "signed_digits (b # buf) (Suc n) res =
    (if is_digit b then signed_digits buf n (res * 10 + ucast (b - 48)) else Some (Suc n, res))"

definition try_parse_signed_integer :: "bytes \<Rightarrow> nat \<Rightarrow> u64 option option" where
  "try_parse_signed_integer buf n =
    (case buf of
       [] \<Rightarrow> None
     | b # buf' \<Rightarrow>
        (let sign = (b = 45 \<or> b = 43)
         in if sign \<and> n = 0 then Some None
            else case (if sign then signed_digits buf' (n - 1) 0 else signed_digits buf n 0) of
              None \<Rightarrow> None
            | Some (left, res) \<Rightarrow> Some (if left \<noteq> 0 then None else Some (if b = 45 then - res else res))))"

section \<open>Operations on a database\<close>

text \<open>
  \<open>try_modify_counter\<close> returns the database, whether it succeeded and the value it stored; the
  number is printed into a buffer of 20 bytes.
\<close>

definition try_modify_counter ::
  "entry hashmap \<Rightarrow> bytes \<Rightarrow> u64 \<Rightarrow> u64 \<Rightarrow> u64 \<Rightarrow> (entry hashmap \<times> bool \<times> u64) option" where
  "try_modify_counter db key hash res delta = do {
     entry \<leftarrow> hashmap_get_with_hash db (probe_entry key) hash;
     parsed \<leftarrow> (case entry of None \<Rightarrow> Some (Some 0)
                | Some e \<Rightarrow> try_parse_signed_integer (e_val e) (length (e_val e)));
     (case parsed of
        None \<Rightarrow> Some (db, False, res)
      | Some v \<Rightarrow>
         (let val = v + delta; buf = fmt_ld val
          in if 20 < length buf + 1 then None
             else map_option (\<lambda>(db', existing). (db', True, val))
                    (hashmap_set_with_hash True db \<lparr>e_key = key, e_val = buf\<rparr> hash))) }"

text \<open>The \<^verbatim>\<open>CMD_EXEC\<close> blocks. The counter commands ignore whether the counter was modified.\<close>

definition exec_op ::
  "entry hashmap \<Rightarrow> bytes \<Rightarrow> u64 \<Rightarrow> keyed_op \<Rightarrow> (entry hashmap \<times> keyed_res) option" where
  "exec_op db key hash oper =
    (case oper of
       OpGet \<Rightarrow> map_option (\<lambda>e. (db, ResEntry e)) (hashmap_get_with_hash db (probe_entry key) hash)
     | OpSet val \<Rightarrow>
         map_option (\<lambda>(db', existing). (db', ResOK))
           (hashmap_set_with_hash True db \<lparr>e_key = key, e_val = val\<rparr> hash)
     | OpDel \<Rightarrow>
         map_option (\<lambda>(db', e). (db', ResInt (if e = None then 0 else 1)))
           (hashmap_delete_with_hash True db (probe_entry key) hash)
     | OpPing sid \<Rightarrow> Some (db, ResInt sid)
     | OpModify delta \<Rightarrow>
         map_option (\<lambda>(db', ok, res). (db', ResInt res)) (try_modify_counter db key hash 0 delta))"

text \<open>The \<^verbatim>\<open>CMD_RESP\<close> blocks.\<close>

definition resp_op :: "conn \<Rightarrow> keyed_res \<Rightarrow> conn option" where
  "resp_op c res =
    (case res of
       ResEntry (Some e) \<Rightarrow> write_bulk_string c (e_val e)
     | ResEntry None \<Rightarrow> write_null_bulk_string c
     | ResOK \<Rightarrow> write_simple_string c (bstr ''OK'') 2
     | ResInt v \<Rightarrow> write_integer c v)"

section \<open>Keyed commands\<close>

text \<open>
  The \<^verbatim>\<open>CMD_VARS\<close> blocks: what the command reads from its arguments. \<open>Inl\<close> is an early
  return with an error reply, \<open>Inr\<close> the operation; \<open>sid\<close> is the owning shard.
\<close>

definition arg_memory :: "conn \<Rightarrow> cmd_args \<Rightarrow> nat \<Rightarrow> bytes" where
  "arg_memory c args i = drop (unat (a_buf args + a_offsets args ! i)) (c_recv_buf c)"

definition delta_vars :: "conn \<Rightarrow> cmd_args \<Rightarrow> (u64 \<Rightarrow> u64) \<Rightarrow> (bytes + keyed_op) option" where
  "delta_vars c args sign = do {
     parsed \<leftarrow> try_parse_signed_integer (arg_memory c args 2) (unat (a_lens args ! 2));
     Some (case parsed of
       None \<Rightarrow> Inl (bstr ''value is not an integer or out of range'')
     | Some delta \<Rightarrow>
        if sint delta < 0 then Inl (bstr ''increment would produce negative integer'')
        else Inr (OpModify (sign delta))) }"

definition cmd_vars :: "command_func \<Rightarrow> conn \<Rightarrow> cmd_args \<Rightarrow> nat \<Rightarrow> (bytes + keyed_op) option" where
  "cmd_vars f c args sid =
    (case f of
       Cmd_set \<Rightarrow> map_option (\<lambda>val. Inr (OpSet val)) (arg_bytes c args 2)
     | Cmd_del \<Rightarrow> Some (Inr OpDel)
     | Cmd_incr \<Rightarrow> Some (Inr (OpModify 1))
     | Cmd_decr \<Rightarrow> Some (Inr (OpModify (- 1)))
     | Cmd_incrby \<Rightarrow> delta_vars c args id
     | Cmd_decrby \<Rightarrow> delta_vars c args uminus
     | Cmd_dispatch_ping \<Rightarrow> Some (Inr (OpPing (of_nat sid)))
     | _ \<Rightarrow> Some (Inr OpGet))"

text \<open>
  The hash of an argument as the code computes it, on addresses. For an argument inside the receive
  buffer it is the hash of its bytes (\<open>arg_hash_bytes\<close> in \<open>Far_Keys\<close>).
\<close>

definition arg_hash :: "conn \<Rightarrow> cmd_args \<Rightarrow> nat \<Rightarrow> u64 \<Rightarrow> u64 option" where
  "arg_hash c args i seed =
    xxh3_at (c_base c + a_buf args + a_offsets args ! i) (a_lens args ! i) (arg_memory c args i) seed"

text \<open>
  A key whose announced length reaches outside the receive buffer: \<open>far\<close>. Its hash may be defined
  all the same, when the end of the key wraps around. The lookups compare lengths only, since no
  stored key is that long; GET, DEL and DPING in place touch nothing else of it. The other commands
  copy the key first, and a dispatch copies it into the message: a read outside the buffer.
\<close>

definition far_compare :: "u64 \<Rightarrow> entry \<Rightarrow> entry \<Rightarrow> u32" where
  "far_compare len ea eb = ucast (len - keylen eb)"

definition far_exec ::
  "entry hashmap \<Rightarrow> u64 \<Rightarrow> u64 \<Rightarrow> keyed_op \<Rightarrow> (entry hashmap \<times> keyed_res) option" where
  "far_exec db len hash oper =
    (let far = db\<lparr>hm_compare := Some (far_compare len)\<rparr> in case oper of
       OpGet \<Rightarrow> map_option (\<lambda>e. (db, ResEntry e)) (hashmap_get_with_hash far (probe_entry []) hash)
     | OpDel \<Rightarrow>
         map_option (\<lambda>(db', e). (db'\<lparr>hm_compare := hm_compare db\<rparr>, ResInt (if e = None then 0 else 1)))
           (hashmap_delete_with_hash True far (probe_entry []) hash)
     | OpPing sid \<Rightarrow> Some (db, ResInt sid)
     | _ \<Rightarrow> None)"

definition far_keyed_command :: "command_func \<Rightarrow> nat \<Rightarrow> nat \<Rightarrow> cmd_args \<Rightarrow> conn \<Rightarrow> world \<Rightarrow> world option" where
  "far_keyed_command f self p args c w = do {
     hash \<leftarrow> arg_hash c args 1 0;
     let sid = unat hash mod length (w_shards w);
     vars \<leftarrow> cmd_vars f c args sid;
     (case vars of
        Inl msg \<Rightarrow> None
      | Inr oper \<Rightarrow>
         if sid = s_shard_id (w_shards w ! self)
         then do {
           db \<leftarrow> get_db w self (c_db c);
           (db', res) \<leftarrow> far_exec db (a_lens args ! 1) hash oper;
           c' \<leftarrow> resp_op c res;
           Some (upd_conn p c' (upd_db self (unat (c_db c)) db' w)) }
         else None) }"

text \<open>The function \<^verbatim>\<open>cmd_<name>\<close> of the macro.\<close>

definition keyed_command :: "command_func \<Rightarrow> nat \<Rightarrow> nat \<Rightarrow> cmd_args \<Rightarrow> world \<Rightarrow> world option" where
  "keyed_command f self p args w = do {
     c \<leftarrow> w_conns w p;
     (case arg_bytes c args 1 of None \<Rightarrow> far_keyed_command f self p args c w | Some key \<Rightarrow> do {
     let hash = hashmap_xxhash3 key 0 0;
     let sid = unat hash mod length (w_shards w);
     vars \<leftarrow> cmd_vars f c args sid;
     (case vars of
        Inl msg \<Rightarrow> map_option (\<lambda>c'. upd_conn p c' w) (write_simple_generic_error c msg)
      | Inr oper \<Rightarrow>
         if sid = s_shard_id (w_shards w ! self)
         then do {
           db \<leftarrow> get_db w self (c_db c);
           (db', res) \<leftarrow> exec_op db key hash oper;
           c' \<leftarrow> resp_op c res;
           Some (upd_conn p c' (upd_db self (unat (c_db c)) db' w)) }
         else do {
           (w', sent) \<leftarrow> reactor_send_message sid
             (Request \<lparr>cb_src = self, cb_dst = sid, cb_conn = p\<rparr> key hash oper) w;
           if sent then Some (notify self sid (upd_conn p (c\<lparr>c_flags := c_flags c OR DISPATCH_WAITING\<rparr>) w'))
           else map_option (\<lambda>c'. upd_conn p c' w')
                  (write_simple_generic_error c (bstr ''shard dispatch queue full'')) }) }) }"

text \<open>
  The function \<^verbatim>\<open>__cmd_<name>_req\<close>: run the operation on the owning shard and send the result
  back. The database is the one the connection has selected when the request is executed, and
  the result of sending is ignored.
\<close>

definition cmd_req :: "nat \<Rightarrow> cb_context \<Rightarrow> bytes \<Rightarrow> u64 \<Rightarrow> keyed_op \<Rightarrow> world \<Rightarrow> world option" where
  "cmd_req self cb key hash oper w = do {
     c \<leftarrow> w_conns w (cb_conn cb);
     db \<leftarrow> get_db w self (c_db c);
     (db', res) \<leftarrow> exec_op db key hash oper;
     (w', sent) \<leftarrow> reactor_send_message (cb_src cb)
       (Response \<lparr>cb_src = cb_dst cb, cb_dst = cb_src cb, cb_conn = cb_conn cb\<rparr> res)
       (upd_db self (unat (c_db c)) db' w);
     Some (notify self (cb_src cb) w') }"

text \<open>The function \<^verbatim>\<open>__cmd_<name>_resp\<close>: reply on the connection and end its wait.\<close>

definition cmd_resp :: "cb_context \<Rightarrow> keyed_res \<Rightarrow> world \<Rightarrow> world option" where
  "cmd_resp cb res w = do {
     c \<leftarrow> w_conns w (cb_conn cb);
     c' \<leftarrow> resp_op c res;
     Some (upd_conn (cb_conn cb) (c'\<lparr>c_flags := c_flags c' AND NOT DISPATCH_WAITING\<rparr>) w) }"

section \<open>Other commands\<close>

definition cmd_ping :: "conn \<Rightarrow> conn option" where
  "cmd_ping c = write_simple_string c (bstr ''PONG'') 4"

definition cmd_echo :: "conn \<Rightarrow> cmd_args \<Rightarrow> conn option" where
  "cmd_echo c args = do { echo \<leftarrow> arg_bytes c args 1; write_bulk_string c echo }"

definition cmd_quit :: "conn \<Rightarrow> conn option" where
  "cmd_quit c = write_simple_string (c\<lparr>c_flags := c_flags c OR END\<rparr>) (bstr ''OK'') 2"

text \<open>Every reactor is stopped and marked in the set of the executing one, then the sleepers are woken.\<close>

fun mark_all :: "nat \<Rightarrow> u64 \<Rightarrow> u64" where
  "mark_all 0 s = s"
| "mark_all (Suc n) s = BITSET64_SET (mark_all n s) n"

definition cmd_shutdown :: "nat \<Rightarrow> world \<Rightarrow> world" where
  "cmd_shutdown self w =
    (let w1 = w\<lparr>w_reactors := map (\<lambda>r. r\<lparr>r_running := False\<rparr>) (w_reactors w)\<rparr>;
         w2 = upd_reactor self (\<lambda>r. r\<lparr>r_soft_notify := mark_all (length (w_shards w)) (r_soft_notify r)\<rparr>) w1
     in fst (reactor_wakeup_pending self w2))"

text \<open>\<open>cmd_flushall\<close> clears the databases of every shard, whichever thread runs it.\<close>

definition flush_shard :: "nat \<Rightarrow> shard \<Rightarrow> shard" where
  "flush_shard n s =
    s\<lparr>s_dbs := map (\<lambda>db. fst (hashmap_clear db True)) (take n (s_dbs s)) @ drop n (s_dbs s)\<rparr>"

definition cmd_flushall :: "nat \<Rightarrow> world \<Rightarrow> world option" where
  "cmd_flushall p w = do {
     c \<leftarrow> w_conns w p;
     c' \<leftarrow> write_simple_string c (bstr ''OK'') 2;
     Some (upd_conn p c' (w\<lparr>w_shards := map (flush_shard (w_num_dbs w)) (w_shards w)\<rparr>)) }"

text \<open>
  \<open>cmd_select\<close> looks at \<^verbatim>\<open>errno\<close>, which \<^verbatim>\<open>strtoull\<close> sets to \<^verbatim>\<open>ERANGE\<close> (34) and never clears.
\<close>

definition cmd_select :: "nat \<Rightarrow> conn \<Rightarrow> cmd_args \<Rightarrow> nat \<Rightarrow> (conn \<times> nat) option" where
  "cmd_select num_dbs c args errno0 = do {
     db \<leftarrow> arg_bytes c args 1;
     let (dbnum, erange) = strtoull10 (takeWhile (\<lambda>b. b \<noteq> 0) db);
     let errno = (if erange then 34 else errno0);
     if errno \<noteq> 0 then map_option (\<lambda>c'. (c', errno)) (write_simple_generic_error c (bstr ''invalid DB index''))
     else if num_dbs \<le> unat dbnum
     then map_option (\<lambda>c'. (c', errno)) (write_simple_generic_error c (bstr ''invalid DB index''))
     else map_option (\<lambda>c'. (c', errno)) (write_simple_string (c\<lparr>c_db := dbnum\<rparr>) (bstr ''OK'') 2) }"

section \<open>The command table\<close>

definition command_compare :: "command \<Rightarrow> command \<Rightarrow> u32" where
  "command_compare ca cb =
    (let la = of_nat (length (cm_name ca)) :: u64; lb = of_nat (length (cm_name cb)) :: u64
     in if la \<noteq> lb then ucast (la - lb) else memcmp (cm_name ca) (cm_name cb) (unat la))"

definition command_hash :: "command \<Rightarrow> u64 \<Rightarrow> u64 \<Rightarrow> u64" where
  "command_hash c seed0 seed1 = hashmap_xxhash3 (cm_name c) seed0 seed1"

definition register_command :: "command \<Rightarrow> command hashmap \<Rightarrow> command hashmap option" where
  "register_command cmd commands = map_option fst (hashmap_set True commands cmd)"

definition command_table :: "command list" where
  "command_table = map (\<lambda>(name, arity, f). \<lparr>cm_name = bstr name, cm_arity = arity, cm_func = Some f\<rparr>)
    [(''PING'', 0, Cmd_ping), (''ECHO'', 1, Cmd_echo), (''QUIT'', 0, Cmd_quit), (''GET'', 1, Cmd_get),
     (''SET'', 2, Cmd_set), (''DEL'', 1, Cmd_del), (''SHUTDOWN'', 0, Cmd_shutdown),
     (''FLUSHALL'', 0, Cmd_flushall), (''SELECT'', 1, Cmd_select), (''INCR'', 1, Cmd_incr),
     (''DECR'', 1, Cmd_decr), (''INCRBY'', 2, Cmd_incrby), (''DECRBY'', 2, Cmd_decrby),
     (''DPING'', 1, Cmd_dispatch_ping)]"

fun register_all :: "command list \<Rightarrow> command hashmap \<Rightarrow> command hashmap option" where
  "register_all [] m = Some m"
| "register_all (cmd # cmds) m = do { m' \<leftarrow> register_command cmd m; register_all cmds m' }"

definition init_commands :: "command hashmap option" where
  "init_commands = do {
     m \<leftarrow> hashmap_new True \<lparr>cm_name = [], cm_arity = 0, cm_func = None\<rparr> (2 ^ 16) 0 0
           command_hash (Some command_compare) False;
     register_all command_table m }"

definition lookup_command :: "bytes \<Rightarrow> command hashmap \<Rightarrow> command option option" where
  "lookup_command name commands = hashmap_get commands \<lparr>cm_name = name, cm_arity = 0, cm_func = None\<rparr>"

text \<open>The lookup of a name that reaches outside the receive buffer: by its hash and its length.\<close>

definition far_lookup :: "conn \<Rightarrow> cmd_args \<Rightarrow> command hashmap \<Rightarrow> command option option" where
  "far_lookup c args commands = do {
     hash \<leftarrow> arg_hash c args 0 (hm_seed0 commands);
     hashmap_get_with_hash
       (commands\<lparr>hm_compare := Some (\<lambda>ca cb. ucast (a_lens args ! 0 - of_nat (length (cm_name cb))))\<rparr>)
       \<lparr>cm_name = [], cm_arity = 0, cm_func = None\<rparr> (clip_hash hash) }"

definition find_command :: "conn \<Rightarrow> cmd_args \<Rightarrow> command hashmap \<Rightarrow> command option option" where
  "find_command c args commands =
    (case arg_bytes c args 0 of None \<Rightarrow> far_lookup c args commands | Some name \<Rightarrow> lookup_command name commands)"

lemma find_command_near [simp]: "arg_bytes c args 0 = Some name \<Longrightarrow> find_command c args m = lookup_command name m"
  by (simp add: find_command_def)

section \<open>Calling a command\<close>

text \<open>The call \<^verbatim>\<open>cmd->func (context, conn, args)\<close>.\<close>

definition upd_with :: "nat \<Rightarrow> (conn \<Rightarrow> conn option) \<Rightarrow> world \<Rightarrow> world option" where
  "upd_with p f w = do { c \<leftarrow> w_conns w p; c' \<leftarrow> f c; Some (upd_conn p c' w) }"

definition call_command :: "command_func \<Rightarrow> nat \<Rightarrow> nat \<Rightarrow> cmd_args \<Rightarrow> world \<Rightarrow> world option" where
  "call_command f self p args w =
    (case f of
       Cmd_ping \<Rightarrow> upd_with p cmd_ping w
     | Cmd_echo \<Rightarrow> upd_with p (\<lambda>c. cmd_echo c args) w
     | Cmd_quit \<Rightarrow> upd_with p cmd_quit w
     | Cmd_shutdown \<Rightarrow> Some (cmd_shutdown self w)
     | Cmd_flushall \<Rightarrow> cmd_flushall p w
     | Cmd_select \<Rightarrow> do {
         c \<leftarrow> w_conns w p;
         (c', errno) \<leftarrow> cmd_select (w_num_dbs w) c args (r_errno (w_reactors w ! self));
         Some (upd_reactor self (\<lambda>r. r\<lparr>r_errno := errno\<rparr>) (upd_conn p c' w)) }
     | _ \<Rightarrow> keyed_command f self p args w)"

end
