(* ===== verification/Server.thy ===== *)
theory Server
  imports Commands
begin

text \<open>
  The request loop of \<^verbatim>\<open>src/server.c\<close> and the reactor of \<^verbatim>\<open>src/include/reactor.c\<close> and
  \<^verbatim>\<open>src/include/reactor_epoll.c\<close>: parsing and executing what a connection has received, the
  callbacks that arrive in a mailbox, reading, flushing, accepting and closing. The results of
  the system calls are arguments.
\<close>

section \<open>Executing a request\<close>

definition prec_of :: "u64 \<Rightarrow> nat" where
  "prec_of n = unat (ucast n :: u32)"

definition unknown_command_message :: "bytes \<Rightarrow> u64 \<Rightarrow> bytes \<Rightarrow> u64 \<Rightarrow> bytes" where
  "unknown_command_message name nlen arg alen =
    snprintf_out 1024 (bstr ''unknown command '' @ [39] @ fmt_prec_s (prec_of nlen) name @ [39] @
      bstr '', with args beginning with: '' @ [39] @ fmt_prec_s (prec_of alen) arg @ [39])"

definition wrong_arity_message :: "bytes \<Rightarrow> bytes" where
  "wrong_arity_message name =
    snprintf_out 64 (bstr ''wrong number of arguments for '' @ [39] @
      fmt_prec_s (prec_of (of_nat (length name))) name @ [39] @ bstr '' command'')"

text \<open>
  What \<^verbatim>\<open>%.*s\<close> prints of an argument from: its bytes, or, when it reaches outside the receive buffer,
  the memory from its start, provided the precision or a NUL ends the printing inside the buffer.
\<close>

definition printed_arg :: "conn \<Rightarrow> cmd_args \<Rightarrow> nat \<Rightarrow> bytes option" where
  "printed_arg c args i =
    (case arg_bytes c args i of
       Some bs \<Rightarrow> Some bs
     | None \<Rightarrow>
        (let mem = arg_memory c args i
         in if prec_of (a_lens args ! i) \<le> length mem \<or> 0 \<in> set mem then Some mem else None))"

lemma printed_arg_near [simp]: "arg_bytes c args i = Some bs \<Longrightarrow> printed_arg c args i = Some bs"
  by (simp add: printed_arg_def)

definition VAR_ARGC :: u64 where "VAR_ARGC = - 1"

definition handle_command :: "nat \<Rightarrow> nat \<Rightarrow> cmd_args \<Rightarrow> world \<Rightarrow> world option" where
  "handle_command self p args w = do {
     c \<leftarrow> w_conns w p;
     found \<leftarrow> find_command c args (w_commands w);
     (case found of
        None \<Rightarrow> do {
          name \<leftarrow> printed_arg c args 0;
          first_arg \<leftarrow> (if 1 < a_argc args then printed_arg c args 1 else Some []);
          let first_len = (if 1 < a_argc args then a_lens args ! 1 else 0);
          c' \<leftarrow> write_simple_generic_error c
                 (unknown_command_message name (a_lens args ! 0) first_arg first_len);
          Some (upd_conn p c' w) }
      | Some cmd \<Rightarrow>
         if cm_arity cmd \<noteq> a_argc args - 1 \<and> cm_arity cmd \<noteq> VAR_ARGC
         then map_option (\<lambda>c'. upd_conn p c' w)
                (write_simple_generic_error c (wrong_arity_message (cm_name cmd)))
         else (case cm_func cmd of None \<Rightarrow> None | Some f \<Rightarrow> call_command f self p args w)) }"

definition parse_request :: "conn \<Rightarrow> cmd_args parse" where
  "parse_request c =
    (case peek c (of_nat (c_recv_buf_read c)) of
       None \<Rightarrow> PARSE_FAULT
     | Some b \<Rightarrow> if b = 42 then parse_resp_request c else parse_inline_request c)"

text \<open>The connection after an error reply that ends it.\<close>

definition fail_conn :: "bytes \<Rightarrow> conn \<Rightarrow> conn option" where
  "fail_conn msg c = map_option (\<lambda>c'. c'\<lparr>c_flags := c_flags c' OR END\<rparr>) (write_simple_generic_error c msg)"

text \<open>The end of \<^verbatim>\<open>on_data_available\<close>: consume the request, unless the connection is ending.\<close>

definition consume :: "u64 \<Rightarrow> conn \<Rightarrow> conn \<times> bool" where
  "consume len c =
    (if c_flags c AND END \<noteq> 0 then (c, False)
     else if of_nat (c_recv_buf_size c) < len then (c, False)
     else (let remaining = c_recv_buf_size c - unat len
           in (c\<lparr>c_recv_buf_read := c_recv_buf_read c + unat len, c_recv_buf_size := remaining\<rparr>,
               0 < remaining)))"

definition on_data_available :: "nat \<Rightarrow> nat \<Rightarrow> world \<Rightarrow> (world \<times> bool) option" where
  "on_data_available self p w = do {
     c \<leftarrow> w_conns w p;
     (if c_recv_buf_size c < 1 then Some (w, False)
      else case parse_request c of
        PARSE_FAULT \<Rightarrow> None
      | PARSE_INCOMPLETE \<Rightarrow> Some (w, False)
      | PARSE_ERROR \<Rightarrow> map_option (\<lambda>c'. (upd_conn p c' w, False)) (fail_conn (bstr ''parse error'') c)
      | PARSE_ERROR_INVALID_ARGC \<Rightarrow> map_option (\<lambda>c'. (upd_conn p c' w, False)) (fail_conn (bstr ''invalid argc'') c)
      | PARSE_OK args \<Rightarrow> do {
          w1 \<leftarrow> (if 0 < a_argc args then handle_command self p args w else Some w);
          c1 \<leftarrow> w_conns w1 p;
          (case consume (a_len args) c1 of (c2, again) \<Rightarrow> Some (upd_conn p c2 w1, again)) }) }"

text \<open>\<^verbatim>\<open>while (reactor->on_data_available (context, conn)) {}\<close>\<close>

partial_function (option) data_loop :: "nat \<Rightarrow> nat \<Rightarrow> world \<Rightarrow> world option" where
  "data_loop self p w =
    (case on_data_available self p w of
       None \<Rightarrow> None
     | Some (w', again) \<Rightarrow> if again then data_loop self p w' else Some w')"

declare data_loop.simps [code]

section \<open>Callbacks\<close>

text \<open>The call \<^verbatim>\<open>ctx->cb (context, arg)\<close>: the handler the message was built with.\<close>

definition run_cb :: "nat \<Rightarrow> message \<Rightarrow> world \<Rightarrow> world option" where
  "run_cb self msg w =
    (case msg of
       Request cb key hash oper \<Rightarrow> cmd_req self cb key hash oper w
     | Response cb res \<Rightarrow> cmd_resp cb res w)"

text \<open>Whether the callback is followed by the requests its connection still has in the buffer.\<close>

definition cb_continues :: "nat \<Rightarrow> message \<Rightarrow> world \<Rightarrow> bool option" where
  "cb_continues self msg w = do {
     c \<leftarrow> w_conns w (cb_conn (msg_ctx msg));
     Some (c_shard_id c = r_id (w_reactors w ! self)) }"

definition on_cb :: "nat \<Rightarrow> message \<Rightarrow> world \<Rightarrow> world option" where
  "on_cb self msg w = do {
     w1 \<leftarrow> run_cb self msg w;
     go \<leftarrow> cb_continues self msg w1;
     if go then data_loop self (cb_conn (msg_ctx msg)) w1 else Some w1 }"

text \<open>One round of \<open>reactor_poll_callbacks\<close>: take a message out of the mailbox and run it.\<close>

definition poll_callback :: "nat \<Rightarrow> world \<Rightarrow> (world \<times> bool) option" where
  "poll_callback self w = do {
     (q, msg) \<leftarrow> mpmcq_dequeue (r_cb_queue (w_reactors w ! self));
     let w1 = upd_reactor self (\<lambda>r. r\<lparr>r_cb_queue := q\<rparr>) w;
     (case msg of
        None \<Rightarrow> Some (w1, False)
      | Some m \<Rightarrow> map_option (\<lambda>w2. (w2, True)) (on_cb self m w1)) }"

partial_function (option) reactor_poll_callbacks :: "nat \<Rightarrow> u64 \<Rightarrow> world \<Rightarrow> (world \<times> u64) option" where
  "reactor_poll_callbacks self cnt w =
    (case poll_callback self w of
       None \<Rightarrow> None
     | Some (w', again) \<Rightarrow>
        if again then reactor_poll_callbacks self (cnt + 1) w' else Some (w', cnt))"

declare reactor_poll_callbacks.simps [code]

section \<open>Reading\<close>

text \<open>The results of \<^verbatim>\<open>read\<close> and \<^verbatim>\<open>write\<close> that the code distinguishes; \<^verbatim>\<open>EINTR\<close> is retried.\<close>

datatype io_error = EAGAIN | OTHER_ERROR nat

fun errno_of :: "io_error \<Rightarrow> nat" where
  "errno_of EAGAIN = 11"
| "errno_of (OTHER_ERROR n) = n"

text \<open>Moving the unread bytes to the front of the receive buffer.\<close>

definition compact :: "conn \<Rightarrow> conn" where
  "compact c =
    (if 0 < c_recv_buf_read c
     then c\<lparr>c_recv_buf := received c @ drop (c_recv_buf_size c) (c_recv_buf c), c_recv_buf_read := 0\<rparr>
     else c)"

text \<open>
  \<open>on_epollin_read\<close> is \<^verbatim>\<open>reactor_epoll_on_epollin\<close> up to the request loop: the assertion that the
  buffer is not full, the read, and whether the requests are looked at.
\<close>

definition on_epollin_read :: "io_error + bytes \<Rightarrow> conn \<Rightarrow> (conn \<times> bool) option" where
  "on_epollin_read rv c0 =
    (if MESSAGE_MAX_LENGTH \<le> c_recv_buf_size c0 then None
     else (let c = compact c0 in case rv of
       Inl EAGAIN \<Rightarrow> Some (c, False)
     | Inl (OTHER_ERROR _) \<Rightarrow> Some (c\<lparr>c_flags := c_flags c OR END\<rparr>, False)
     | Inr data \<Rightarrow>
        if data = [] then Some (c\<lparr>c_flags := c_flags c OR END\<rparr>, False)
        else if MESSAGE_MAX_LENGTH - c_recv_buf_size c < length data then None
        else Some (c\<lparr>c_recv_buf := take (c_recv_buf_size c) (c_recv_buf c) @ data
                       @ drop (c_recv_buf_size c + length data) (c_recv_buf c),
                     c_recv_buf_size := c_recv_buf_size c + length data\<rparr>,
                   c_flags c AND DISPATCH_WAITING = 0)))"

definition reactor_epoll_on_epollin :: "nat \<Rightarrow> nat \<Rightarrow> io_error + bytes \<Rightarrow> world \<Rightarrow> world option" where
  "reactor_epoll_on_epollin self p rv w = do {
     c \<leftarrow> w_conns w p;
     (c', go) \<leftarrow> on_epollin_read rv c;
     let w1 = upd_conn p c' (case rv of
       Inl e \<Rightarrow> upd_reactor self (\<lambda>r. r\<lparr>r_errno := errno_of e\<rparr>) w | Inr _ \<Rightarrow> w);
     if go then data_loop self p w1 else Some w1 }"

section \<open>Flushing\<close>

text \<open>
  The result of \<^verbatim>\<open>write\<close> is kept in a \<^verbatim>\<open>size_t\<close>, so the tests for a negative result never hold:
  an error is \<open>2^64 - 1\<close> bytes sent. The assertion on the number of bytes sent ends the process.
\<close>

definition reactor_epoll_flush :: "u64 \<Rightarrow> conn \<Rightarrow> conn option" where
  "reactor_epoll_flush rv c =
    (let sent = of_nat (c_send_buf_sent c) + rv
     in if of_nat (c_send_buf_size c) < sent then None
        else if sent = of_nat (c_send_buf_size c) then Some (c\<lparr>c_send_buf_sent := 0, c_send_buf_size := 0\<rparr>)
        else Some (c\<lparr>c_send_buf_sent := unat sent\<rparr>))"

text \<open>
  The loop over one connection in \<^verbatim>\<open>reactor_flush_pending_writes\<close>: the list gives what the
  successive calls of \<^verbatim>\<open>write\<close> return; the bytes handed to the kernel are collected.
\<close>

definition kernel_bytes :: "u64 \<Rightarrow> conn \<Rightarrow> bytes" where
  "kernel_bytes rv c =
    (if rv = - 1 then []
     else take (unat rv) (drop (c_send_buf_sent c) (take (c_send_buf_size c) (c_send_buf c))))"

fun flush_conn :: "u64 list \<Rightarrow> conn \<Rightarrow> bytes \<Rightarrow> (conn \<times> bytes) option" where
  "flush_conn rvs c out =
    (if c_send_buf_size c = 0 then Some (c, out)
     else case rvs of
       [] \<Rightarrow> None
     | rv # rvs' \<Rightarrow>
        (case reactor_epoll_flush rv c of
           None \<Rightarrow> None
         | Some c' \<Rightarrow> flush_conn rvs' c' (out @ kernel_bytes rv c)))"

declare flush_conn.simps [simp del]

section \<open>Accepting and closing\<close>

definition on_accept :: "nat \<Rightarrow> nat \<Rightarrow> u64 \<Rightarrow> conn" where
  "on_accept self fd base =
    \<lparr>c_fd = fd, c_flags = 0, c_shard_id = self, c_db = 0, c_base = base,
     c_recv_buf_size = 0, c_recv_buf_read = 0, c_recv_buf = replicate MESSAGE_MAX_LENGTH 0,
     c_send_buf_size = 0, c_send_buf_sent = 0, c_send_buf = replicate MESSAGE_MAX_LENGTH 0\<rparr>"

text \<open>The vector grows to hold the descriptor, and the new cells are set to NULL.\<close>

definition reactor_conn_emplace :: "nat \<Rightarrow> nat \<Rightarrow> reactor \<Rightarrow> reactor" where
  "reactor_conn_emplace fd p r =
    (let conns = (if length (r_conns r) \<le> fd
                  then r_conns r @ replicate (fd + 1 - length (r_conns r)) None else r_conns r)
     in r\<lparr>r_conns := conns[fd := Some p]\<rparr>)"

text \<open>
  \<^verbatim>\<open>set_fd_options\<close> in \<^verbatim>\<open>src/include/utils.h\<close> makes the descriptor non-blocking; it clears \<^verbatim>\<open>errno\<close>, and
  aborts unless both calls of \<^verbatim>\<open>fcntl\<close> leave it clear.
\<close>

definition set_fd_options :: "nat \<Rightarrow> world \<Rightarrow> world" where
  "set_fd_options self w = upd_reactor self (\<lambda>r. r\<lparr>r_errno := 0\<rparr>) w"

text \<open>\<open>p\<close> is the pointer \<^verbatim>\<open>malloc\<close> returns for the connection.\<close>

definition accept_conn :: "nat \<Rightarrow> nat \<Rightarrow> nat \<Rightarrow> u64 \<Rightarrow> world \<Rightarrow> world" where
  "accept_conn self fd p base w =
    upd_reactor self (reactor_conn_emplace fd p)
      (upd_conn p (on_accept (r_id (w_reactors w ! self)) fd base) (set_fd_options self w))"

definition reactor_epoll_close :: "nat \<Rightarrow> nat \<Rightarrow> world \<Rightarrow> world option" where
  "reactor_epoll_close self p w = do {
     c \<leftarrow> w_conns w p;
     let w1 = upd_reactor self (\<lambda>r. r\<lparr>r_conns := (r_conns r)[c_fd c := None]\<rparr>) w;
     Some (w1\<lparr>w_conns := (w_conns w1)(p := None)\<rparr>) }"

section \<open>Start-up\<close>

definition reactor_init :: "nat \<Rightarrow> reactor" where
  "reactor_init i =
    \<lparr>r_id = i, r_running = True, r_wakeup = 0, r_cb_queue = mpmcq_init 8192, r_soft_notify = 0,
     r_sleeping = True, r_conns = replicate 128 None, r_errno = 0\<rparr>"

text \<open>The databases of a shard; every one is seeded with the time, which the commands never use.\<close>

definition init_shard :: "nat \<Rightarrow> u64 \<Rightarrow> nat \<Rightarrow> shard option" where
  "init_shard num_dbs seed i = do {
     db \<leftarrow> hashmap_new True \<lparr>e_key = [], e_val = []\<rparr> (2 ^ 20) seed seed entry_hash_xxhash3
            (Some entry_compare) True;
     Some \<lparr>s_shard_id = i, s_dbs = replicate num_dbs db\<rparr> }"

definition init_shards :: "nat \<Rightarrow> (nat \<Rightarrow> u64) \<Rightarrow> nat \<Rightarrow> shard list option" where
  "init_shards num_dbs seeds n = those (map (\<lambda>i. init_shard num_dbs (seeds i) i) [0..<n])"

text \<open>The state \<open>main\<close> starts its threads on: 4 shards of 16 databases.\<close>

definition init_world :: "(nat \<Rightarrow> u64) \<Rightarrow> world option" where
  "init_world seeds = do {
     shards \<leftarrow> init_shards 16 seeds 4;
     commands \<leftarrow> init_commands;
     Some \<lparr>w_num_dbs = 16, w_commands = commands, w_shards = shards,
           w_reactors = map reactor_init [0..<4], w_conns = Map.empty\<rparr> }"

end
