(* ===== verification/Event_Loop.thy ===== *)
theory Event_Loop
  imports Server
begin

text \<open>
  The loop of \<^verbatim>\<open>reactor_run\<close> in \<^verbatim>\<open>src/include/reactor_epoll.c\<close>, one thread per reactor. A
  \<open>phase\<close> is the point the thread has reached; \<open>thread_step\<close> is one atomic step of it: one
  access to the state other threads see, one system call, one callback or one request. What the
  system calls return is chosen freely among what they may return. The server is the
  interleaving of the threads.

  A thread that would do something undefined, fail an assertion or spin for ever has no step.
  The databases are assumed to have \<open>room\<close> when a request runs: fewer entries than the 16-bit
  distances of the hash map can measure.
\<close>

section \<open>Phases\<close>

text \<open>
  What \<^verbatim>\<open>epoll_wait\<close> reports: a connection was accepted (with its descriptor and the memory
  \<^verbatim>\<open>malloc\<close> gave for it), the event descriptor was rung, or a connection is ready, with the
  result of \<^verbatim>\<open>read\<close> if it is readable, that of \<^verbatim>\<open>write\<close> if it is writable, and whether the
  peer hung up.
\<close>

datatype event =
    Listener nat nat u64
  | Wakeup
  | Ready nat "(io_error + bytes) option" "u64 option" bool

datatype phase =
    Loop_head
  | Flushing nat
  | Waking nat
  | Polling u64
  | Callback u64 nat
  | Idle
  | Checking
  | Waiting bool
  | Woken bool "event list option"
  | Handling "event list"
  | Reading nat "u64 option" bool "event list"
  | Finishing nat "u64 option" bool "event list"
  | Closing nat
  | Stopped

definition room :: "world \<Rightarrow> bool" where
  "room w \<longleftrightarrow> (\<forall>s \<in> set (w_shards w). \<forall>db \<in> set (s_dbs s). hm_count db < 65535)"

text \<open>\<^verbatim>\<open>reactor->conns->array[fd]\<close>.\<close>

definition conn_at :: "world \<Rightarrow> nat \<Rightarrow> nat \<Rightarrow> nat option" where
  "conn_at w self fd =
    (let conns = r_conns (w_reactors w ! self) in if fd < length conns then conns ! fd else None)"

text \<open>
  What the code relies on of \<^verbatim>\<open>accept\<close> and \<^verbatim>\<open>epoll_wait\<close>: an accepted descriptor is not open yet, and
  the descriptors reported ready are registered with the reactor's epoll instance, each reported
  once. A connection is open and registered from its acceptance to its closing.
\<close>

definition fd_free :: "world \<Rightarrow> nat \<Rightarrow> bool" where
  "fd_free w fd \<longleftrightarrow> (\<forall>j < length (w_reactors w). conn_at w j fd = None)"

fun ready_fds :: "event list \<Rightarrow> nat list" where
  "ready_fds [] = []"
| "ready_fds (Ready fd inp out hup # evs) = fd # ready_fds evs"
| "ready_fds (_ # evs) = ready_fds evs"

definition registered :: "world \<Rightarrow> nat \<Rightarrow> event list \<Rightarrow> bool" where
  "registered w self evs \<longleftrightarrow> distinct (ready_fds evs) \<and> (\<forall>fd \<in> set (ready_fds evs). conn_at w self fd \<noteq> None)"

text \<open>The end of the handling of a connection's event: writing, and closing when it is over.\<close>

definition finish_event :: "nat \<Rightarrow> nat \<Rightarrow> u64 option \<Rightarrow> bool \<Rightarrow> world \<Rightarrow> world option" where
  "finish_event self p out hup w = do {
     c \<leftarrow> w_conns w p;
     c' \<leftarrow> (case out of None \<Rightarrow> Some c | Some rv \<Rightarrow> reactor_epoll_flush rv c);
     if c_flags c' AND END \<noteq> 0 \<or> hup then reactor_epoll_close self p (upd_conn p c' w)
     else Some (upd_conn p (c'\<lparr>c_flags := c_flags c' AND NOT BLOCKED\<rparr>) w) }"

definition set_sleeping :: "nat \<Rightarrow> bool \<Rightarrow> world \<Rightarrow> world" where
  "set_sleeping self b w = upd_reactor self (\<lambda>r. r\<lparr>r_sleeping := b\<rparr>) w"

definition set_queue :: "nat \<Rightarrow> message mpmcq \<Rightarrow> world \<Rightarrow> world" where
  "set_queue self q w = upd_reactor self (\<lambda>r. r\<lparr>r_cb_queue := q\<rparr>) w"

definition set_read_errno :: "nat \<Rightarrow> io_error + bytes \<Rightarrow> world \<Rightarrow> world" where
  "set_read_errno self rv w =
    (case rv of Inl e \<Rightarrow> upd_reactor self (\<lambda>r. r\<lparr>r_errno := errno_of e\<rparr>) w | Inr _ \<Rightarrow> w)"

text \<open>A \<^verbatim>\<open>write\<close> that returns \<open>-1\<close> has set \<^verbatim>\<open>errno\<close>.\<close>

definition set_write_errno :: "nat \<Rightarrow> u64 option \<Rightarrow> nat \<Rightarrow> world \<Rightarrow> world" where
  "set_write_errno self out e w =
    (if out = Some (- 1) then upd_reactor self (\<lambda>r. r\<lparr>r_errno := e\<rparr>) w else w)"

section \<open>The steps of a thread\<close>

inductive thread_step :: "nat \<Rightarrow> world \<times> phase \<Rightarrow> world \<times> phase \<Rightarrow> bool" for self where
  head_run: "r_running (w_reactors w ! self) \<Longrightarrow> thread_step self (w, Loop_head) (w, Flushing 0)"
| head_stop: "\<not> r_running (w_reactors w ! self) \<Longrightarrow> thread_step self (w, Loop_head) (w, Closing 0)"
| flush_none: "k < length (r_conns (w_reactors w ! self)) \<Longrightarrow> conn_at w self k = None \<Longrightarrow>
    thread_step self (w, Flushing k) (w, Flushing (k + 1))"
| flush_done: "conn_at w self k = Some p \<Longrightarrow> w_conns w p = Some c \<Longrightarrow> c_send_buf_size c = 0 \<Longrightarrow>
    thread_step self (w, Flushing k) (w, Flushing (k + 1))"
| flush_write: "conn_at w self k = Some p \<Longrightarrow> w_conns w p = Some c \<Longrightarrow> 0 < c_send_buf_size c \<Longrightarrow>
    reactor_epoll_flush rv c = Some c' \<Longrightarrow> 0 < e \<Longrightarrow>
    thread_step self (w, Flushing k) (upd_conn p c' (set_write_errno self (Some rv) e w), Flushing k)"
| flush_end: "length (r_conns (w_reactors w ! self)) \<le> k \<Longrightarrow> thread_step self (w, Flushing k) (w, Waking 0)"
| wake: "k < length (w_shards w) \<Longrightarrow>
    thread_step self (w, Waking k) (fst (wakeup_target self k w), Waking (k + 1))"
| wake_end: "length (w_shards w) \<le> k \<Longrightarrow> thread_step self (w, Waking k) (BITSET64_RESET self w, Polling 0)"
| poll_message: "mpmcq_dequeue (r_cb_queue (w_reactors w ! self)) = Some (q, Some m) \<Longrightarrow> room w \<Longrightarrow>
    run_cb self m (set_queue self q w) = Some w' \<Longrightarrow> cb_continues self m w' = Some go \<Longrightarrow>
    thread_step self (w, Polling cnt) (w', if go then Callback (cnt + 1) (cb_conn (msg_ctx m)) else Polling (cnt + 1))"
| poll_empty: "mpmcq_dequeue (r_cb_queue (w_reactors w ! self)) = Some (q, None) \<Longrightarrow>
    thread_step self (w, Polling cnt) (set_queue self q w, if 0 < cnt then Waiting False else Idle)"
| callback: "room w \<Longrightarrow> on_data_available self p w = Some (w', again) \<Longrightarrow>
    thread_step self (w, Callback cnt p) (w', if again then Callback cnt p else Polling cnt)"
| sleep: "thread_step self (w, Idle) (set_sleeping self True w, Checking)"
| check_pending: "reactor_has_pending_messages w self \<Longrightarrow>
    thread_step self (w, Checking) (set_sleeping self False w, Loop_head)"
| check_none: "\<not> reactor_has_pending_messages w self \<Longrightarrow> thread_step self (w, Checking) (w, Waiting True)"
| wait_events: "(blocking \<longrightarrow> evs \<noteq> []) \<Longrightarrow> (Wakeup \<in> set evs \<longrightarrow> 0 < r_wakeup (w_reactors w ! self)) \<Longrightarrow>
    registered w self evs \<Longrightarrow> thread_step self (w, Waiting blocking) (w, Woken blocking (Some evs))"
| wait_interrupted: "thread_step self (w, Waiting blocking)
    (upd_reactor self (\<lambda>r. r\<lparr>r_errno := 4\<rparr>) w, Woken blocking None)"
| woken: "thread_step self (w, Woken blocking res)
    (if blocking then set_sleeping self False w else w, case res of None \<Rightarrow> Loop_head | Some evs \<Rightarrow> Handling evs)"
| events_end: "thread_step self (w, Handling []) (w, Loop_head)"
| accept: "fd_free w fd \<Longrightarrow> w_conns w p = None \<Longrightarrow> base < 2 ^ 63 \<Longrightarrow>
    thread_step self (w, Handling (Listener fd p base # evs)) (accept_conn self fd p base w, Handling evs)"
| wakeup_read: "0 < r_wakeup (w_reactors w ! self) \<Longrightarrow>
    thread_step self (w, Handling (Wakeup # evs))
      (upd_reactor self (\<lambda>r. r\<lparr>r_wakeup := 0\<rparr>) w, Handling evs)"
| readable: "conn_at w self fd = Some p \<Longrightarrow> w_conns w p = Some c \<Longrightarrow> on_epollin_read rv c = Some (c', go) \<Longrightarrow>
    thread_step self (w, Handling (Ready fd (Some rv) out hup # evs))
      (upd_conn p c' (set_read_errno self rv w),
       if go then Reading p out hup evs else Finishing p out hup evs)"
| not_readable: "conn_at w self fd = Some p \<Longrightarrow>
    thread_step self (w, Handling (Ready fd None out hup # evs)) (w, Finishing p out hup evs)"
| request: "room w \<Longrightarrow> on_data_available self p w = Some (w', again) \<Longrightarrow>
    thread_step self (w, Reading p out hup evs)
      (w', if again then Reading p out hup evs else Finishing p out hup evs)"
| finish: "finish_event self p out hup w = Some w' \<Longrightarrow> 0 < e \<Longrightarrow>
    thread_step self (w, Finishing p out hup evs) (set_write_errno self out e w', Handling evs)"
| close_next: "k < length (r_conns (w_reactors w ! self)) \<Longrightarrow>
    (case conn_at w self k of None \<Rightarrow> Some w | Some p \<Rightarrow> reactor_epoll_close self p w) = Some w' \<Longrightarrow>
    thread_step self (w, Closing k) (w', Closing (k + 1))"
| close_end: "length (r_conns (w_reactors w ! self)) \<le> k \<Longrightarrow> thread_step self (w, Closing k) (w, Stopped)"

section \<open>The server\<close>

inductive server_step :: "world \<times> (nat \<Rightarrow> phase) \<Rightarrow> world \<times> (nat \<Rightarrow> phase) \<Rightarrow> bool" where
  "i < length (w_shards w) \<Longrightarrow> thread_step i (w, phases i) (w', phase) \<Longrightarrow>
    server_step (w, phases) (w', phases(i := phase))"

inductive reachable :: "world \<times> (nat \<Rightarrow> phase) \<Rightarrow> bool" where
  start: "init_world seeds = Some w \<Longrightarrow> reachable (w, \<lambda>_. Loop_head)"
| step: "reachable s \<Longrightarrow> server_step s s' \<Longrightarrow> reachable s'"

inductive_cases server_stepE: "server_step (w, phases) s'"
inductive_simps thread_step_simps:
  "thread_step self (w, Idle) s" "thread_step self (w, Checking) s" "thread_step self (w, Loop_head) s"

end
