(* ===== verification/Commands_Correct.thy ===== *)
theory Commands_Correct
  imports Commands Protocol_Correct
begin

text \<open>
  What the commands do. Numbers: printing a counter and parsing it back is the identity.
  Operations: on a consistent database every operation behaves as its specification on the finite
  map from keys to values, the undefined cases included. The command table: looking a name up
  gives the registered command.
\<close>

section \<open>Printing and parsing counters\<close>

lemma signed_digits_ok:
  "\<forall>d \<in> set ds. is_digit d \<Longrightarrow> signed_digits (ds @ rest) (length ds) (of_nat r)
    = Some (0, of_nat (foldl (\<lambda>acc d. acc * 10 + digit_val d) r ds))"
proof (induction ds arbitrary: r)
  case (Cons d ds)
  have "of_nat r * 10 + ucast (d - 48) = (of_nat (r * 10 + digit_val d) :: u64)"
    by (simp add: digit_val_def)
  then show ?case using Cons by (simp del: of_nat_add of_nat_mult)
qed simp

lemma signed_digits_dec: "signed_digits (dec_digits n @ rest) (length (dec_digits n)) 0 = Some (0, of_nat n)"
proof -
  have "foldl (\<lambda>acc d. acc * 10 + digit_val d) 0 (dec_digits n) = n"
    using dec_val_digits [of n] by (simp add: dec_val_def)
  then show ?thesis using signed_digits_ok [OF dec_digits_digits [of n], of rest 0] by simp
qed

lemma dec_digits_hd: "\<exists>d ds. dec_digits n = d # ds \<and> is_digit d"
  using dec_digits_digits [of n] by (cases "dec_digits n") auto

lemma is_digit_no_sign: "is_digit d \<Longrightarrow> d \<noteq> 45 \<and> d \<noteq> 43"
  by (auto simp: is_digit_def)

lemma of_int_sint: "(of_int (sint v) :: u64) = v"
  by simp

lemma try_parse_fmt_ld: "try_parse_signed_integer (fmt_ld v @ rest) (length (fmt_ld v)) = Some (Some v)"
proof (cases "sint v < 0")
  case True
  then have "of_nat (nat (- sint v)) = (of_int (- sint v) :: u64)" by (intro of_nat_nat) simp
  also have "\<dots> = - v" by (simp only: of_int_minus of_int_sint)
  finally show ?thesis
    using signed_digits_dec [of "nat (- sint v)" rest] True
    by (simp add: try_parse_signed_integer_def fmt_ld_def)
next
  case False
  obtain d ds where d: "dec_digits (nat (sint v)) = d # ds" "is_digit d" using dec_digits_hd by blast
  have "of_nat (nat (sint v)) = (of_int (sint v) :: u64)" using False by (intro of_nat_nat) simp
  also have "\<dots> = v" by (rule of_int_sint)
  finally show ?thesis
    using signed_digits_dec [of "nat (sint v)" rest] False d is_digit_no_sign [OF d(2)]
    by (simp add: try_parse_signed_integer_def fmt_ld_def Let_def)
qed

text \<open>
  The number a byte string denotes: an optional sign and digits, modulo \<open>2^64\<close>; no digits are 0. The
  parser looks at the byte after the string when it is empty, which is the line end of a request.
\<close>

definition signed_value :: "bytes \<Rightarrow> u64 option" where
  "signed_value val =
    (let sign = val \<noteq> [] \<and> (hd val = 45 \<or> hd val = 43); ds = (if sign then List.tl val else val)
     in if \<forall>d \<in> set ds. is_digit d
        then Some (if sign \<and> hd val = 45 then - of_nat (dec_val ds) else of_nat (dec_val ds)) else None)"

lemma signed_digits_bad:
  "\<not> (\<forall>d \<in> set ds. is_digit d) \<Longrightarrow> \<exists>left res. signed_digits (ds @ rest) (length ds) r = Some (left, res) \<and> left \<noteq> 0"
  by (induction ds arbitrary: r) auto

lemma signed_digits_value:
  "\<exists>left res. signed_digits (ds @ rest) (length ds) 0 = Some (left, res)
     \<and> (if \<forall>d \<in> set ds. is_digit d then left = 0 \<and> res = of_nat (dec_val ds) else left \<noteq> 0)"
proof (cases "\<forall>d \<in> set ds. is_digit d")
  case True
  then show ?thesis using signed_digits_ok [OF True, of rest 0] by (simp add: dec_val_def)
next
  case False
  then show ?thesis using signed_digits_bad [OF False, of rest 0] by (simp only: if_False)
qed

lemma try_parse_value: "try_parse_signed_integer (val @ crlf @ rest) (length val) = Some (signed_value val)"
proof (cases val)
  case Nil
  then show ?thesis by (simp add: try_parse_signed_integer_def signed_value_def)
next
  case (Cons b bs)
  obtain left res where
    s: "signed_digits (bs @ crlf @ rest) (length bs) 0 = Some (left, res)"
      "if \<forall>d \<in> set bs. is_digit d then left = 0 \<and> res = of_nat (dec_val bs) else left \<noteq> 0"
    using signed_digits_value [of bs "crlf @ rest"] by blast
  obtain left' res' where
    u: "signed_digits (val @ crlf @ rest) (length val) 0 = Some (left', res')"
      "if \<forall>d \<in> set val. is_digit d then left' = 0 \<and> res' = of_nat (dec_val val) else left' \<noteq> 0"
    using signed_digits_value [of val "crlf @ rest"] by blast
  have e: "val @ crlf @ rest = b # (bs @ crlf @ rest)" using Cons by simp
  show ?thesis
  proof (cases "b = 45 \<or> b = 43")
    case True
    then show ?thesis unfolding try_parse_signed_integer_def e list.case Let_def using s Cons
      by (auto simp: signed_value_def split: if_splits)
  next
    case False
    then show ?thesis
      unfolding try_parse_signed_integer_def e list.case Let_def u(1) [unfolded e]
      using u(2) Cons by (auto simp: signed_value_def Let_def split: if_splits)
  qed
qed

section \<open>Operations on a database\<close>

text \<open>
  The specification: what an operation does to the map from keys to values and what it answers.
  A counter operation on a value that is not a number answers 0 and changes nothing; it is
  undefined on an empty value and when the new number does not fit its 20-byte buffer.
\<close>

definition spec_modify :: "(bytes \<rightharpoonup> bytes) \<Rightarrow> bytes \<Rightarrow> u64 \<Rightarrow> ((bytes \<rightharpoonup> bytes) \<times> keyed_res) option" where
  "spec_modify f key delta =
    (case (case f key of None \<Rightarrow> Some (Some 0) | Some v \<Rightarrow> try_parse_signed_integer v (length v)) of
       None \<Rightarrow> None
     | Some None \<Rightarrow> Some (f, ResInt 0)
     | Some (Some v) \<Rightarrow>
        if 20 \<le> length (fmt_ld (v + delta)) then None
        else Some (f(key \<mapsto> fmt_ld (v + delta)), ResInt (v + delta)))"

definition spec_op :: "(bytes \<rightharpoonup> bytes) \<Rightarrow> bytes \<Rightarrow> keyed_op \<Rightarrow> ((bytes \<rightharpoonup> bytes) \<times> keyed_res) option" where
  "spec_op f key oper =
    (case oper of
       OpGet \<Rightarrow> Some (f, ResEntry (map_option (\<lambda>v. \<lparr>e_key = key, e_val = v\<rparr>) (f key)))
     | OpSet v \<Rightarrow> Some (f(key \<mapsto> v), ResOK)
     | OpDel \<Rightarrow> Some (f(key := None), ResInt (if f key = None then 0 else 1))
     | OpPing sid \<Rightarrow> Some (f, ResInt sid)
     | OpModify delta \<Rightarrow> spec_modify f key delta)"

lemma hs_abs_key:
  assumes "db_inv db" "hs_abs e_key key_hash db k = Some e"
  shows "e_key e = k"
proof -
  have "unique_keys e_key (contents (hm_buckets db))" using hs_inv_hm [OF assms(1)] by (simp add: hm_inv_def)
  from hm_map_iff [OF this, of "hkey (key_hash k)" k e] show ?thesis using assms(2) by (simp add: hs_abs_def)
qed

lemma db_get:
  assumes "db_inv db" "key_ok key"
  shows "hashmap_get_with_hash db (probe_entry key) (key_hash key) = Some (hs_abs e_key key_hash db key)"
  using db.get_law [OF assms] by (simp add: hs_get_def)

lemma db_set:
  assumes "db_inv db" "key_ok key" "hm_count db < 65535"
  obtains db' where "hashmap_set_with_hash True db \<lparr>e_key = key, e_val = v\<rparr> (key_hash key)
      = Some (db', hs_abs e_key key_hash db key)" "db_inv db'" "db_abs db' = (db_abs db)(key \<mapsto> v)"
    "hm_count db' \<le> hm_count db + 1"
proof -
  let ?x = "\<lparr>e_key = key, e_val = v\<rparr>"
  have "key_ok (e_key ?x)" using assms(2) by simp
  from db.set_law [OF assms(1) this assms(3)] obtain db' where
    s: "hs_set e_key key_hash db ?x = Some (db', hs_abs e_key key_hash db key)" "db_inv db'"
      "hs_abs e_key key_hash db' = (hs_abs e_key key_hash db)(key \<mapsto> ?x)" "hm_count db' \<le> hm_count db + 1"
    by auto
  have "db_abs db' = (db_abs db)(key \<mapsto> v)" using db_abs_update [OF s(3)] by simp
  then show thesis using that s by (simp add: hs_set_def)
qed

lemma db_del:
  assumes "db_inv db" "key_ok key" "hm_count db < 65535"
  obtains db' where "hashmap_delete_with_hash True db (probe_entry key) (key_hash key)
      = Some (db', hs_abs e_key key_hash db key)" "db_inv db'" "db_abs db' = (db_abs db)(key := None)"
    "hm_count db' \<le> hm_count db + 1"
proof -
  have "hm_count db \<le> 65535" using assms(3) by simp
  from db.delete_law [OF assms(1,2) this] obtain db' where
    s: "hs_del probe_entry key_hash db key = Some (db', hs_abs e_key key_hash db key)" "db_inv db'"
      "hs_abs e_key key_hash db' = (hs_abs e_key key_hash db)(key := None)" "hm_count db' \<le> hm_count db"
    by blast
  have "db_abs db' = (db_abs db)(key := None)" using db_abs_update [OF s(3)] by simp
  then show thesis using that s by (simp add: hs_del_def)
qed

lemma modify_refines:
  assumes inv: "db_inv db" "key_ok key" "hm_count db < 65535"
  shows "case spec_modify (db_abs db) key delta of
      None \<Rightarrow> try_modify_counter db key (key_hash key) 0 delta = None
    | Some (f, r) \<Rightarrow> \<exists>db' ok res. try_modify_counter db key (key_hash key) 0 delta = Some (db', ok, res)
        \<and> r = ResInt res \<and> db_inv db' \<and> db_abs db' = f \<and> hm_count db' \<le> hm_count db + 1"
proof -
  define parsed where "parsed = (case hs_abs e_key key_hash db key of None \<Rightarrow> Some (Some 0)
     | Some e \<Rightarrow> try_parse_signed_integer (e_val e) (length (e_val e)))"
  have sp: "(case db_abs db key of None \<Rightarrow> Some (Some 0) | Some v \<Rightarrow> try_parse_signed_integer v (length v)) = parsed"
    by (auto simp: parsed_def db_abs_def split: option.splits)
  have run: "try_modify_counter db key (key_hash key) 0 delta =
      (case parsed of None \<Rightarrow> None
       | Some None \<Rightarrow> Some (db, False, 0)
       | Some (Some v) \<Rightarrow>
          if 20 < length (fmt_ld (v + delta)) + 1 then None
          else map_option (\<lambda>(db', existing). (db', True, v + delta))
                 (hashmap_set_with_hash True db \<lparr>e_key = key, e_val = fmt_ld (v + delta)\<rparr> (key_hash key)))"
    by (simp add: try_modify_counter_def db_get [OF inv(1,2)] parsed_def Let_def split: option.splits)
  show ?thesis
  proof (cases parsed)
    case None
    then show ?thesis by (simp add: spec_modify_def sp run)
  next
    case (Some p)
    show ?thesis
    proof (cases p)
      case None
      then show ?thesis using Some inv by (auto simp: spec_modify_def sp run intro: exI [of _ False])
    next
      case (Some v)
      obtain db' where "hashmap_set_with_hash True db \<lparr>e_key = key, e_val = fmt_ld (v + delta)\<rparr> (key_hash key)
          = Some (db', hs_abs e_key key_hash db key)" "db_inv db'"
        "db_abs db' = (db_abs db)(key \<mapsto> fmt_ld (v + delta))" "hm_count db' \<le> hm_count db + 1"
        by (rule db_set [OF inv])
      then show ?thesis using \<open>parsed = Some p\<close> Some by (simp add: spec_modify_def sp run) (intro impI exI [of _ True] TrueI)
    qed
  qed
qed

lemma exec_refines:
  assumes inv: "db_inv db" "key_ok key" "hm_count db < 65535"
  shows "case spec_op (db_abs db) key oper of
      None \<Rightarrow> exec_op db key (key_hash key) oper = None
    | Some (f, r) \<Rightarrow> \<exists>db'. exec_op db key (key_hash key) oper = Some (db', r) \<and> db_inv db' \<and> db_abs db' = f
        \<and> hm_count db' \<le> hm_count db + 1"
proof (cases oper)
  case OpGet
  have "map_option (\<lambda>v. \<lparr>e_key = key, e_val = v\<rparr>) (db_abs db key) = hs_abs e_key key_hash db key"
    using hs_abs_key [OF inv(1), of key] by (cases "hs_abs e_key key_hash db key") (auto simp: db_abs_def)
  then show ?thesis using OpGet inv db_get [OF inv(1,2)] by (simp add: spec_op_def exec_op_def)
next
  case (OpSet v)
  obtain db' where "hashmap_set_with_hash True db \<lparr>e_key = key, e_val = v\<rparr> (key_hash key)
          = Some (db', hs_abs e_key key_hash db key)" "db_inv db'"
        "db_abs db' = (db_abs db)(key \<mapsto> v)" "hm_count db' \<le> hm_count db + 1"
    by (rule db_set [OF inv])
  then show ?thesis using OpSet by (simp add: spec_op_def exec_op_def)
next
  case OpDel
  obtain db' where "hashmap_delete_with_hash True db (probe_entry key) (key_hash key)
      = Some (db', hs_abs e_key key_hash db key)" "db_inv db'" "db_abs db' = (db_abs db)(key := None)"
    "hm_count db' \<le> hm_count db + 1"
    by (rule db_del [OF inv])
  then show ?thesis using OpDel by (simp add: spec_op_def exec_op_def db_abs_def)
next
  case (OpPing sid)
  then show ?thesis using inv by (simp add: spec_op_def exec_op_def)
next
  case (OpModify delta)
  then show ?thesis using modify_refines [OF inv, of delta]
    by (auto simp: spec_op_def exec_op_def split: option.splits)
qed

section \<open>The command table\<close>

lemma command_compare_entry:
  "command_compare ca cb = entry_compare \<lparr>e_key = cm_name ca, e_val = []\<rparr> \<lparr>e_key = cm_name cb, e_val = []\<rparr>"
  by (simp add: command_compare_def entry_compare_def keylen_def Let_def)

definition probe_command :: "bytes \<Rightarrow> command" where
  "probe_command name = \<lparr>cm_name = name, cm_arity = 0, cm_func = None\<rparr>"

interpretation cmds: hashed_items cm_name probe_command key_hash key_ok command_compare
  by unfold_locales (simp_all add: probe_command_def command_compare_entry entry_compare_exact)

lemma clip_hash_idem: "clip_hash (clip_hash h) = clip_hash h"
  by (simp add: clip_hash_def and.assoc)

lemma set_frame:
  assumes "hashmap_set_with_hash mem m x h = Some (m', r)"
  shows "hm_hash m' = hm_hash m \<and> hm_seed0 m' = hm_seed0 m \<and> hm_seed1 m' = hm_seed1 m"
proof -
  have "hm_hash m1 = hm_hash m \<and> hm_seed0 m1 = hm_seed0 m \<and> hm_seed1 m1 = hm_seed1 m"
    if "grow_check mem (m\<lparr>hm_oom := False\<rparr>) = Some (m1, b)" for m1 b
    using that by (auto simp: grow_check_def resize_def split: if_splits option.splits)
  then show ?thesis using assms
    by (auto simp: hashmap_set_with_hash_def Let_def split: option.splits prod.splits bool.splits)
qed

text \<open>The table hashes names with seed 0, as the lookups by hash expect.\<close>

definition table_ok :: "command hashmap \<Rightarrow> bool" where
  "table_ok m \<longleftrightarrow> hs_inv cm_name key_hash key_ok m \<and> hm_hash m = command_hash \<and> hm_seed0 m = 0 \<and> hm_seed1 m = 0"

lemma table_get_hash: "table_ok m \<Longrightarrow> get_hash m cmd = clip_hash (key_hash (cm_name cmd))"
  by (simp add: table_ok_def get_hash_def command_hash_def key_hash_def)

lemma register_ok:
  assumes "table_ok m" "key_ok (cm_name cmd)" "hm_count m < 65535"
  shows "\<exists>m'. register_command cmd m = Some m' \<and> table_ok m'
    \<and> hs_abs cm_name key_hash m' = (hs_abs cm_name key_hash m)(cm_name cmd \<mapsto> cmd) \<and> hm_count m' \<le> hm_count m + 1"
proof -
  have inv: "hs_inv cm_name key_hash key_ok m" using assms(1) by (simp add: table_ok_def)
  obtain m' r where m': "hs_set cm_name key_hash m cmd = Some (m', r)" "hs_inv cm_name key_hash key_ok m'"
    "hs_abs cm_name key_hash m' = (hs_abs cm_name key_hash m)(cm_name cmd \<mapsto> cmd)" "hm_count m' \<le> hm_count m + 1"
    using cmds.set_law [OF inv assms(2,3)] by blast
  have "hashmap_set_with_hash True m cmd (clip_hash (key_hash (cm_name cmd))) = Some (m', r)"
    using m'(1) by (simp add: hs_set_def hashmap_set_with_hash_def clip_hash_idem)
  then have "register_command cmd m = Some m'"
    using table_get_hash [OF assms(1)] by (simp add: register_command_def hashmap_set_def)
  moreover have "table_ok m'"
    using assms(1) m'(2) set_frame [of True m cmd _ m' r] m'(1) by (auto simp: table_ok_def hs_set_def)
  ultimately show ?thesis using m'(3,4) by blast
qed

lemma register_all_ok:
  "table_ok m \<Longrightarrow> \<forall>c \<in> set cs. key_ok (cm_name c) \<Longrightarrow> hm_count m + length cs \<le> 65535 \<Longrightarrow>
    \<exists>m'. register_all cs m = Some m' \<and> table_ok m'
      \<and> hs_abs cm_name key_hash m' = foldl (\<lambda>f c. f(cm_name c \<mapsto> c)) (hs_abs cm_name key_hash m) cs"
proof (induction cs arbitrary: m)
  case (Cons c cs)
  have "key_ok (cm_name c)" "hm_count m < 65535" using Cons.prems by simp_all
  from register_ok [OF Cons.prems(1) this] obtain m1 where m1: "register_command c m = Some m1" "table_ok m1"
    "hs_abs cm_name key_hash m1 = (hs_abs cm_name key_hash m)(cm_name c \<mapsto> c)" "hm_count m1 \<le> hm_count m + 1" by blast
  have "\<forall>c \<in> set cs. key_ok (cm_name c)" "hm_count m1 + length cs \<le> 65535" using Cons.prems m1(4) by simp_all
  from Cons.IH [OF m1(2) this] show ?case using m1(1,3) by simp
qed simp

lemma foldl_table:
  "distinct (map cm_name cs) \<Longrightarrow> foldl (\<lambda>f c. f(cm_name c \<mapsto> c)) g cs name
    = (case find (\<lambda>c. cm_name c = name) cs of Some c \<Rightarrow> Some c | None \<Rightarrow> g name)"
proof (induction cs arbitrary: g)
  case (Cons c cs)
  have "find (\<lambda>c'. cm_name c' = name) cs = None" if "cm_name c = name"
    using Cons.prems that by (simp add: find_None_iff) (metis image_eqI)
  then show ?case using Cons by (auto split: option.splits)
qed simp

lemma command_table_names: "distinct (map cm_name command_table)" "\<forall>c \<in> set command_table. key_ok (cm_name c)"
  by (simp_all add: command_table_def key_ok_def of_char_def)

lemma init_commands_ok:
  obtains m where "init_commands = Some m" "table_ok m"
    "\<And>name. key_ok name \<Longrightarrow> lookup_command name m = Some (find (\<lambda>c. cm_name c = name) command_table)"
proof -
  obtain m0 where m0: "hashmap_new True \<lparr>cm_name = [], cm_arity = 0, cm_func = None\<rparr> (2 ^ 16) 0 0
           command_hash (Some command_compare) False = Some m0" "hs_inv cm_name key_hash key_ok m0"
    "hs_abs cm_name key_hash m0 = Map.empty" "hm_count m0 = 0" "hm_hash m0 = command_hash"
    using cmds.new_law [of "\<lparr>cm_name = [], cm_arity = 0, cm_func = None\<rparr>" "2 ^ 16" 0 0 command_hash False] by blast
  have "hm_seed0 m0 = 0" "hm_seed1 m0 = 0" using m0(1) by (auto simp: hashmap_new_with_allocator_def Let_def)
  then have ok: "table_ok m0" using m0 by (simp add: table_ok_def)
  have "hm_count m0 + length command_table \<le> 65535" using m0(4) by (simp add: command_table_def)
  from register_all_ok [OF ok command_table_names(2) this] obtain m where
    m: "register_all command_table m0 = Some m" "table_ok m"
      "hs_abs cm_name key_hash m = foldl (\<lambda>f c. f(cm_name c \<mapsto> c)) Map.empty command_table" using m0(3) by auto
  have "init_commands = Some m" using m0(1) m(1) by (simp add: init_commands_def)
  moreover have "lookup_command name m = Some (find (\<lambda>c. cm_name c = name) command_table)" if "key_ok name" for name
  proof -
    have "lookup_command name m = hs_get probe_command key_hash m name"
      using table_get_hash [OF m(2), of "probe_command name"]
      by (simp add: lookup_command_def hashmap_get_def hs_get_def hashmap_get_with_hash_def clip_hash_idem probe_command_def)
    also have "\<dots> = Some (hs_abs cm_name key_hash m name)"
      using m(2) that by (intro cmds.get_law) (simp add: table_ok_def)
    finally show ?thesis
      using foldl_table [OF command_table_names(1), of Map.empty name] m(3) by (simp split: option.splits)
  qed
  ultimately show thesis using that m(2) by blast
qed

end
