(* ===== verification/Far_Keys.thy ===== *)
theory Far_Keys
  imports Commands_Correct
begin

text \<open>
  Arguments whose announced length reaches outside the receive buffer. For an argument inside the
  buffer the hash taken over addresses is that of its bytes. Whatever a lookup compares, a bucket it
  finds is that of a stored key: so the commands that can be carried out on a key outside the buffer
  leave the database as it is, or delete a key that is stored in it.
\<close>

section \<open>Arguments inside the buffer\<close>

lemma arg_hash_bytes:
  assumes "conn_ok c" "arg_bytes c args i = Some bs"
  shows "arg_hash c args i seed = Some (xxh3 bs seed)"
proof -
  define q where "q = unat (a_buf args + a_offsets args ! i)"
  have q: "a_buf args + a_offsets args ! i = of_nat q" by (simp add: q_def)
  have n: "q + unat (a_lens args ! i) \<le> 8192" "bs = take (unat (a_lens args ! i)) (drop q (c_recv_buf c))"
    using assms(2) by (auto simp: arg_bytes_def Let_def q_def MESSAGE_MAX_LENGTH_def split: if_splits)
  have c: "length (c_recv_buf c) = 8192" "unat (c_base c) < 2 ^ 63"
    using assms(1) by (simp_all add: conn_ok_def MESSAGE_MAX_LENGTH_def word_less_nat_alt)
  have len: "length bs = unat (a_lens args ! i)" using n c(1) by simp
  have "arg_memory c args i = drop q (c_recv_buf c)" by (simp add: arg_memory_def q_def)
  then have mem: "arg_memory c args i = bs @ drop (unat (a_lens args ! i)) (drop q (c_recv_buf c))"
    using n(2) append_take_drop_id by metis
  have "c_base c + a_buf args + a_offsets args ! i = of_nat (unat (c_base c) + q)"
    using q by (simp add: add.assoc)
  moreover have "a_lens args ! i = of_nat (length bs)" by (simp add: len)
  moreover have "unat (c_base c) + q + length bs + 32 < 2 ^ 64" using n(1) len c(2) by simp
  ultimately show ?thesis
    using xxh3_at_data [of "unat (c_base c) + q" bs] unfolding arg_hash_def mem by metis
qed

section \<open>Lookups with another comparison\<close>

lemma find_loop_sound:
  assumes "find_loop compare (n - 1) bs x h i = Some (Some j)" "is_pow2 n" "i < n"
  shows "j < n \<and> dibn bs j \<noteq> 0 \<and> ucast (b_hash (bs ! j)) = h"
proof -
  have "n - 1 = n - 1 \<longrightarrow> i < n \<longrightarrow> (\<forall>k. Some j = Some k \<longrightarrow> k < n \<and> dibn bs k \<noteq> 0 \<and> ucast (b_hash (bs ! k)) = h)"
  proof (rule find_loop.raw_induct
      [where P = "\<lambda>compare msk bs x h i r. msk = n - 1 \<longrightarrow> i < n \<longrightarrow>
         (\<forall>k. r = Some k \<longrightarrow> k < n \<and> dibn bs k \<noteq> 0 \<and> ucast (b_hash (bs ! k)) = h)", OF _ assms(1)])
    fix f :: "('a \<Rightarrow> 'a \<Rightarrow> u32) option \<Rightarrow> nat \<Rightarrow> 'a bucket list \<Rightarrow> 'a \<Rightarrow> u64 \<Rightarrow> nat \<Rightarrow> nat option option"
    fix compare msk bs x h i r
    assume IH: "\<And>compare msk bs x h i r. f compare msk bs x h i = Some r \<Longrightarrow> msk = n - 1 \<longrightarrow> i < n \<longrightarrow>
         (\<forall>k. r = Some k \<longrightarrow> k < n \<and> dibn bs k \<noteq> 0 \<and> ucast (b_hash (bs ! k)) = h)"
      and step: "(if b_dib (bs ! i) = 0 then Some None
          else if ucast (b_hash (bs ! i)) = h \<and> item_matches compare x (b_item (bs ! i))
          then Some (Some i)
          else f compare msk bs x h ((i + 1) AND msk)) = Some r"
    show "msk = n - 1 \<longrightarrow> i < n \<longrightarrow>
         (\<forall>k. r = Some k \<longrightarrow> k < n \<and> dibn bs k \<noteq> 0 \<and> ucast (b_hash (bs ! k)) = h)"
    proof (intro impI)
      assume m: "msk = n - 1" "i < n"
      have "(i + 1) AND msk < n" using is_pow2_mask [OF assms(2), of "i + 1"] m by simp
      then show "\<forall>k. r = Some k \<longrightarrow> k < n \<and> dibn bs k \<noteq> 0 \<and> ucast (b_hash (bs ! k)) = h"
        using step m IH [of compare msk bs x h "(i + 1) AND msk" r] by (auto simp: dib_0_iff split: if_splits)
    qed
  qed
  then show ?thesis using assms(3) by blast
qed

lemma shrink_any_compare:
  "shrink_check mem (m\<lparr>hm_compare := f\<rparr>) = map_option (\<lambda>m'. m'\<lparr>hm_compare := f\<rparr>) (shrink_check mem m)"
  by (simp add: shrink_check_def resize_def hashmap_new_with_allocator_def Let_def split: option.splits)

lemma shrink_compare: "shrink_check mem m = Some m' \<Longrightarrow> hm_compare m' = hm_compare m"
  by (auto simp: shrink_check_def resize_def hashmap_new_with_allocator_def Let_def split: option.splits if_splits)

text \<open>A deletion that compares in any way deletes nothing or a bound key, as deleting that key does.\<close>

lemma delete_any_compare:
  assumes inv: "hm_inv key V m" and del: "hashmap_delete_with_hash mem (m\<lparr>hm_compare := f\<rparr>) x h = Some (m', r)"
  obtains (none) "r = None" "m' = m\<lparr>hm_compare := f, hm_oom := False\<rparr>"
  | (bound) y where "r = Some y" "V y" "hm_map key m (hkey h, key y) = Some y"
      "\<And>x' h'. V x' \<Longrightarrow> key x' = key y \<Longrightarrow> hkey h' = hkey h \<Longrightarrow>
         hashmap_delete_with_hash mem m x' h' = Some (m'\<lparr>hm_compare := hm_compare m\<rparr>, Some y)"
proof -
  note I = inv [unfolded hm_inv_def]
  let ?n = "hm_nbuckets m" and ?bs = "hm_buckets m" and ?i = "unat (clip_hash h) AND hm_mask m"
  have n: "is_pow2 ?n" "?i < ?n" "hm_mask m = ?n - 1"
    using I is_pow2_mask [of ?n] by auto
  obtain r0 where find: "find_loop f (hm_mask m) ?bs x (clip_hash h) ?i = Some r0"
    using del by (auto simp: hashmap_delete_with_hash_def Let_def split: option.splits)
  show thesis
  proof (cases r0)
    case None
    then show thesis using none del find by (simp add: hashmap_delete_with_hash_def Let_def)
  next
    case (Some j)
    have j: "j < ?n" "dibn ?bs j \<noteq> 0" "ucast (b_hash (?bs ! j)) = clip_hash h"
      using find_loop_sound [of f ?n ?bs x "clip_hash h" ?i j] find Some n by simp_all
    let ?y = "b_item (?bs ! j)"
    have hash: "b_hash (?bs ! j) = hkey h" using j(3) hkey_ucast ucast_48_eq by metis
    have slot: "(hkey h, ?y) \<in># contents ?bs"
      using slot_in_contents [of j ?bs] j(1,2) rh_length [of ?n ?bs] I hash by (simp add: slot_def)
    have y: "V ?y" "hm_map key m (hkey h, key ?y) = Some ?y"
      using slot I by (auto simp: hm_map_iff)
    show thesis
    proof (rule bound [OF _ y])
      show "r = Some ?y" using del find Some
        by (auto simp: hashmap_delete_with_hash_def Let_def split: option.splits)
      fix x' h'
      assume x': "V x'" "key x' = key ?y" "hkey h' = hkey h"
      have clip: "clip_hash h' = clip_hash h" using x'(3) hkey_ucast by metis
      have find': "find_loop (hm_compare m) (hm_mask m) ?bs x' (clip_hash h) ?i = Some (Some j)"
        using find_correct [OF inv x'(1), of h]
      proof (elim disjE exE conjE)
        fix j'
        assume j': "j' < ?n" "dibn ?bs j' \<noteq> 0" "slot (?bs ! j') = (hkey h, b_item (?bs ! j'))"
          "key (b_item (?bs ! j')) = key x'"
          and found: "find_loop (hm_compare m) (hm_mask m) ?bs x' (clip_hash h) ?i = Some (Some j')"
        have "j' = j"
          using unique_index [of key ?bs j' j] rh_length [of ?n ?bs] I j j' x'(2) hash by (simp add: skey_def slot_def)
        then show ?thesis using found by simp
      qed (use y(2) x'(2) in simp)
      show "hashmap_delete_with_hash mem m x' h' = Some (m'\<lparr>hm_compare := hm_compare m\<rparr>, Some ?y)"
      proof -
        obtain bs where bs: "shift_loop (hm_mask m) (?bs[j := (?bs ! j)\<lparr>b_dib := 0\<rparr>]) j = Some bs"
          using del find Some by (auto simp: hashmap_delete_with_hash_def Let_def split: option.splits)
        let ?m = "m\<lparr>hm_oom := False, hm_buckets := bs, hm_count := hm_count m - 1\<rparr>"
        have "m\<lparr>hm_compare := f, hm_oom := False, hm_buckets := bs, hm_count := hm_count m - 1\<rparr> = ?m\<lparr>hm_compare := f\<rparr>"
          by (cases m) simp
        moreover have "shrink_check mem (m\<lparr>hm_compare := f, hm_oom := False, hm_buckets := bs, hm_count := hm_count m - 1\<rparr>) = Some m'"
          using del find Some bs by (auto simp: hashmap_delete_with_hash_def Let_def split: option.splits)
        ultimately have "shrink_check mem (?m\<lparr>hm_compare := f\<rparr>) = Some m'" by argo
        then obtain m1 where m1: "shrink_check mem ?m = Some m1" "m' = m1\<lparr>hm_compare := f\<rparr>"
          unfolding shrink_any_compare by blast
        have "hm_compare m1 = hm_compare ?m" by (rule shrink_compare [OF m1(1)])
        then show ?thesis using find' bs m1 by (simp add: hashmap_delete_with_hash_def Let_def clip)
      qed
    qed
  qed
qed

section \<open>Commands on keys outside the buffer\<close>

lemma far_exec_cases:
  assumes inv: "db_inv db" and run: "far_exec db len hash oper = Some (db', res)"
  obtains (kept) "db_inv db'" "db_abs db' = db_abs db" "hm_count db' = hm_count db"
  | (deleted) k where "key_ok k" "k \<in> dom (db_abs db)" "exec_op db k (key_hash k) OpDel = Some (db', res)"
proof (cases oper)
  case OpGet
  then show thesis using run kept inv by (auto simp: far_exec_def Let_def)
next
  case (OpPing sid)
  then show thesis using run kept inv by (auto simp: far_exec_def Let_def)
next
  case OpDel
  let ?far = "Some (far_compare len)"
  obtain m r where del: "hashmap_delete_with_hash True (db\<lparr>hm_compare := ?far\<rparr>) (probe_entry []) hash = Some (m, r)"
    and res: "db' = m\<lparr>hm_compare := hm_compare db\<rparr>" "res = ResInt (if r = None then 0 else 1)"
    using run OpDel by (auto simp: far_exec_def Let_def)
  have hm: "hm_inv e_key (key_ok \<circ> e_key) db" using inv by (rule hs_inv_hm)
  from hm del show thesis
  proof (cases rule: delete_any_compare)
    case none
    have "db' = db\<lparr>hm_oom := False\<rparr>" using res(1) none(2) by simp
    moreover have same: "hm_map e_key (db\<lparr>hm_oom := False\<rparr>) = hm_map e_key db" by (rule hm_map_cong) simp
    moreover have "db_inv (db\<lparr>hm_oom := False\<rparr>)" using inv by (simp add: hs_inv_def same)
    ultimately show thesis using kept by (simp add: db_abs_def hs_abs_def fun_eq_iff)
  next
    case (bound y)
    let ?k = "e_key y"
    have h: "hkey hash = hkey (key_hash ?k)" using inv bound(3) by (fastforce simp: hs_inv_def dom_def)
    have "hashmap_delete_with_hash True db (probe_entry ?k) (key_hash ?k) = Some (db', Some y)"
      unfolding res(1) by (rule bound(4)) (use bound(2) h in \<open>simp_all add: probe_entry_def\<close>)
    then have "exec_op db ?k (key_hash ?k) OpDel = Some (db', res)" using res(2) bound(1) by (simp add: exec_op_def)
    moreover have "?k \<in> dom (db_abs db)" using bound(3) h by (auto simp: db_abs_def hs_abs_def)
    moreover have "key_ok ?k" using bound(2) by simp
    ultimately show thesis using deleted by blast
  qed
qed (use run in \<open>simp_all add: far_exec_def Let_def\<close>)

end
