(* ===== verification/Invariants.thy ===== *)
theory Invariants
  imports Event_Loop Far_Keys
begin

text \<open>
  The system invariant and its preservation by every operation of the server: the shards
  partition the keys, messages are addressed to the shard that owns their key, and databases,
  mailboxes and connection buffers are well formed.
\<close>

section \<open>Writers\<close>

lemma write_bulk_string_some:
  assumes "write_bulk_string c d = Some c'" "conn_ok c"
  shows "replied c (resp_bulk d) c'"
proof -
  have "length d \<le> MESSAGE_MAX_LENGTH"
    using assms(1) by (auto simp: write_bulk_string_def Let_def store_at_def split: bind_splits if_splits)
  then have "fmt_zu (of_nat (length d)) = dec_digits (length d)"
    by (simp add: fmt_zu_def unat_of_nat_64 MESSAGE_MAX_LENGTH_def)
  then have "c_send_buf_size c + length (resp_bulk d) \<le> MESSAGE_MAX_LENGTH"
    using assms(1) by (auto simp: write_bulk_string_def resp_bulk_def Let_def store_at_def split: bind_splits if_splits)
  from write_bulk_string_ok [OF assms(2) this] show ?thesis using assms(1) by auto
qed

lemma sprintf_conn_ok: "send_sprintf c out = Some c' \<Longrightarrow> conn_ok c \<Longrightarrow> conn_ok c'"
  using send_sprintf_some by (simp add: replied_def)

lemma writer_ok:
  assumes "conn_ok c"
  shows "write_simple_string c msg n = Some c' \<Longrightarrow> conn_ok c'"
    "write_simple_generic_error c msg = Some c' \<Longrightarrow> conn_ok c'"
    "write_bulk_string c msg = Some c' \<Longrightarrow> conn_ok c'"
    "write_null_bulk_string c = Some c' \<Longrightarrow> conn_ok c'"
    "write_integer c v = Some c' \<Longrightarrow> conn_ok c'"
proof -
  note snd = sprintf_conn_ok [OF _ assms]
  show "write_simple_string c msg n = Some c' \<Longrightarrow> conn_ok c'"
    unfolding write_simple_string_def by (rule snd)
  show "write_simple_generic_error c msg = Some c' \<Longrightarrow> conn_ok c'"
    unfolding write_simple_generic_error_def write_simple_error_def by (rule snd)
  show "write_bulk_string c msg = Some c' \<Longrightarrow> conn_ok c'"
    using write_bulk_string_some [OF _ assms] by (simp add: replied_def)
  show "write_null_bulk_string c = Some c' \<Longrightarrow> conn_ok c'"
    unfolding write_null_bulk_string_def by (rule snd)
  show "write_integer c v = Some c' \<Longrightarrow> conn_ok c'"
    unfolding write_integer_def by (rule snd)
qed

lemma conn_ok_flags [simp]: "conn_ok (c\<lparr>c_flags := f\<rparr>) = conn_ok c" "conn_ok (c\<lparr>c_db := d\<rparr>) = conn_ok c"
  by (simp_all add: conn_ok_def)

lemma resp_op_ok: "resp_op c res = Some c' \<Longrightarrow> conn_ok c \<Longrightarrow> conn_ok c'"
  by (auto simp: resp_op_def split: keyed_res.splits option.splits dest: writer_ok(1,3,4,5) [rotated])

lemma arg_bytes_key_ok: "arg_bytes c args i = Some k \<Longrightarrow> key_ok k"
  by (auto simp: arg_bytes_def Let_def key_ok_def MESSAGE_MAX_LENGTH_def min_def split: if_splits)

section \<open>The invariant\<close>

definition db_ok :: "nat \<Rightarrow> nat \<Rightarrow> entry hashmap \<Rightarrow> bool" where
  "db_ok n i db \<longleftrightarrow> db_inv db \<and> (\<forall>k \<in> dom (db_abs db). unat (key_hash k) mod n = i)"

definition shard_ok :: "nat \<Rightarrow> nat \<Rightarrow> shard \<Rightarrow> bool" where
  "shard_ok n i s \<longleftrightarrow> s_shard_id s = i \<and> (\<forall>db \<in> set (s_dbs s). db_ok n i db)"

fun msg_ok :: "nat \<Rightarrow> nat \<Rightarrow> message \<Rightarrow> bool" where
  "msg_ok n i (Request cb key hash oper) \<longleftrightarrow>
     key_ok key \<and> hash = key_hash key \<and> unat hash mod n = i \<and> cb_dst cb = i \<and> cb_src cb < n"
| "msg_ok n i (Response cb res) \<longleftrightarrow> cb_dst cb = i"

definition reactor_ok :: "nat \<Rightarrow> nat \<Rightarrow> reactor \<Rightarrow> bool" where
  "reactor_ok n i r \<longleftrightarrow> r_id r = i \<and> mq_inv (r_cb_queue r) \<and> (\<forall>m \<in> set (mq_abs (r_cb_queue r)). msg_ok n i m)"

text \<open>Looking up a name gives the entry of the table with that name.\<close>

definition commands_ok :: "command hashmap \<Rightarrow> bool" where
  "commands_ok m \<longleftrightarrow> (\<forall>name. key_ok name \<longrightarrow>
     lookup_command name m = Some (find (\<lambda>c. cm_name c = name) command_table))"

definition world_ok :: "world \<Rightarrow> bool" where
  "world_ok w \<longleftrightarrow> 0 < length (w_shards w) \<and> length (w_shards w) \<le> 31 \<and> length (w_reactors w) = length (w_shards w)
     \<and> (\<forall>i < length (w_shards w). shard_ok (length (w_shards w)) i (w_shards w ! i))
     \<and> (\<forall>i < length (w_shards w). reactor_ok (length (w_shards w)) i (w_reactors w ! i))
     \<and> (\<forall>p c. w_conns w p = Some c \<longrightarrow> conn_ok c) \<and> commands_ok (w_commands w)"

abbreviation nshards :: "world \<Rightarrow> nat" where
  "nshards w \<equiv> length (w_shards w)"

section \<open>Updates\<close>

lemma world_ok_conn: "world_ok w \<Longrightarrow> w_conns w p = Some c \<Longrightarrow> conn_ok c"
  by (auto simp: world_ok_def)

lemma world_ok_upd_conn [inv_intros]: "world_ok w \<Longrightarrow> conn_ok c \<Longrightarrow> world_ok (upd_conn p c w)"
  by (auto simp: world_ok_def upd_conn_def)

lemma world_ok_upd_reactor:
  "world_ok w \<Longrightarrow> i < nshards w \<Longrightarrow> reactor_ok (nshards w) i (f (w_reactors w ! i)) \<Longrightarrow> world_ok (upd_reactor i f w)"
  by (auto simp: world_ok_def upd_reactor_def nth_list_update)

lemma world_ok_upd_db:
  assumes "world_ok w" "i < nshards w" "db_ok (nshards w) i db"
  shows "world_ok (upd_db i j db w)"
proof -
  have "shard_ok (nshards w) i ((w_shards w ! i)\<lparr>s_dbs := (s_dbs (w_shards w ! i))[j := db]\<rparr>)"
    using assms set_update_subset_insert [of "s_dbs (w_shards w ! i)" j db]
    by (auto simp: world_ok_def shard_ok_def)
  then show ?thesis using assms(1,2) by (auto simp: world_ok_def upd_db_def nth_list_update)
qed

lemma shards_upd [simp]:
  "w_shards (upd_conn p c w) = w_shards w" "w_shards (upd_reactor i f w) = w_shards w"
  "nshards (upd_db i j db w) = nshards w" "w_reactors (upd_conn p c w) = w_reactors w"
  "w_reactors (upd_db i j db w) = w_reactors w" "w_conns (upd_reactor i f w) = w_conns w"
  "w_conns (upd_db i j db w) = w_conns w"
  by (simp_all add: upd_conn_def upd_reactor_def upd_db_def)

lemma upd_reactor_field:
  assumes "\<And>r. g (f r) = g r"
  shows "g (w_reactors (upd_reactor i f w) ! j) = g (w_reactors w ! j)"
  using assms by (cases "i < length (w_reactors w)"; cases "i = j") (auto simp: upd_reactor_def list_update_beyond)

lemma upd_reactor_other [simp]: "i \<noteq> j \<Longrightarrow> w_reactors (upd_reactor i f w) ! j = w_reactors w ! j"
  by (simp add: upd_reactor_def)

lemma upd_reactor_same [simp]:
  "i < length (w_reactors w) \<Longrightarrow> w_reactors (upd_reactor i f w) ! i = f (w_reactors w ! i)"
  by (simp add: upd_reactor_def)

lemma length_reactors_upd [simp]: "length (w_reactors (upd_reactor i f w)) = length (w_reactors w)"
  by (simp add: upd_reactor_def)

lemma world_ok_notify:
  assumes "world_ok w" "self < nshards w"
  shows "world_ok (notify self target w)"
  unfolding notify_def using assms
  by (intro world_ok_upd_reactor) (auto simp: world_ok_def reactor_ok_def)

lemma world_ok_send:
  assumes "world_ok w" "target < nshards w" "msg_ok (nshards w) target msg"
    "reactor_send_message target msg w = Some (w', sent)"
  shows "world_ok w' \<and> w_shards w' = w_shards w \<and> w_conns w' = w_conns w \<and> sent"
proof -
  let ?q = "r_cb_queue (w_reactors w ! target)"
  have r: "reactor_ok (nshards w) target (w_reactors w ! target)" using assms(1,2) by (simp add: world_ok_def)
  then have inv: "mq_inv ?q" by (simp add: reactor_ok_def)
  obtain q where q: "mpmcq_enqueue ?q msg = Some (q, sent)"
    "w' = upd_reactor target (\<lambda>r. r\<lparr>r_cb_queue := q\<rparr>) w"
    using assms(4) by (auto simp: reactor_send_message_def split: bind_splits)
  have "length (mq_abs ?q) \<noteq> mq_cap ?q"
    using mpmcq_enqueue_full [of ?q "mq_abs ?q" msg] inv q(1) by (auto simp: mq_inv_rep)
  then have "length (mq_abs ?q) < mq_cap ?q" using mpmcq.cap_law [OF inv] by simp
  from mpmcq.enq_law [OF inv this, of msg] have "sent" "mq_inv q" "mq_abs q = mq_abs ?q @ [msg]" using q(1) by auto
  then show ?thesis using world_ok_upd_reactor [OF assms(1,2), of "\<lambda>r. r\<lparr>r_cb_queue := q\<rparr>"] r assms(3) q(2)
    by (auto simp: reactor_ok_def)
qed

lemma get_db_ok:
  assumes "world_ok w" "get_db w i j = Some db"
  shows "db_ok (nshards w) i db" "i < nshards w"
  using assms by (auto simp: get_db_def world_ok_def shard_ok_def split: if_splits)

lemma get_db_room: "room w \<Longrightarrow> get_db w i j = Some db \<Longrightarrow> hm_count db < 65535"
  by (simp add: get_db_def room_def split: if_splits) (metis nth_mem)

lemma spec_op_dom: "spec_op f key oper = Some (f', r) \<Longrightarrow> dom f' \<subseteq> insert key (dom f)"
  by (auto simp: spec_op_def spec_modify_def split: keyed_op.splits option.splits if_splits)

lemma exec_op_ok:
  assumes "db_ok n i db" "key_ok key" "hm_count db < 65535" "unat (key_hash key) mod n = i"
    "exec_op db key (key_hash key) oper = Some (db', r)"
  shows "db_ok n i db'"
proof -
  have "db_inv db" using assms(1) by (simp add: db_ok_def)
  from exec_refines [OF this assms(2,3), of oper] obtain f where
    f: "spec_op (db_abs db) key oper = Some (f, r)" "db_inv db'" "db_abs db' = f"
    using assms(5) by (auto split: option.splits)
  then show ?thesis using spec_op_dom [OF f(1)] assms(1,4) by (auto simp: db_ok_def)
qed

section \<open>Commands\<close>

lemma world_ok_shard_id: "world_ok w \<Longrightarrow> i < nshards w \<Longrightarrow> s_shard_id (w_shards w ! i) = i"
  by (simp add: world_ok_def shard_ok_def)

lemma world_ok_reactor_id: "world_ok w \<Longrightarrow> i < nshards w \<Longrightarrow> r_id (w_reactors w ! i) = i"
  by (simp add: world_ok_def reactor_ok_def)

lemma world_ok_owner: "world_ok w \<Longrightarrow> n mod nshards w < nshards w"
  by (simp add: world_ok_def)

lemma nshards_notify [simp]: "nshards (notify self target w) = nshards w"
  by (simp add: notify_def)

lemma exec_world_ok:
  assumes w: "world_ok w" "room w" "i < nshards w" and key: "key_ok key" "unat (key_hash key) mod nshards w = i"
    and db: "get_db w i j = Some db" "exec_op db key (key_hash key) oper = Some (db', res)"
  shows "world_ok (upd_db i (unat j) db' w)"
  using exec_op_ok [OF get_db_ok(1) [OF w(1) db(1)] key(1) get_db_room [OF w(2) db(1)] key(2) db(2)]
  by (rule world_ok_upd_db [OF w(1,3)])

lemma keyed_local_ok:
  assumes w: "world_ok w" "room w" "i < nshards w" and key: "key_ok key" "unat (key_hash key) mod nshards w = i"
    and db: "get_db w i j = Some db" "exec_op db key (key_hash key) oper = Some (db', res)"
    and c: "conn_ok c" "resp_op c res = Some c'"
  shows "world_ok (upd_conn p c' (upd_db i (unat j) db' w))"
  by (rule world_ok_upd_conn [OF exec_world_ok [OF w key db] resp_op_ok [OF c(2,1)]])

lemma world_ok_error:
  "world_ok w \<Longrightarrow> conn_ok c \<Longrightarrow> write_simple_generic_error c msg = Some c' \<Longrightarrow> world_ok (upd_conn p c' w)"
  by (rule world_ok_upd_conn, assumption) (rule writer_ok(2))

text \<open>The ways a keyed command ends: an error reply, a local run, a request, a full mailbox, and a
  local run on a key that reaches outside the receive buffer.\<close>

lemma keyed_command_cases:
  assumes run: "keyed_command f self p args w = Some w'"
  obtains
    (reply) c msg c' where "w_conns w p = Some c" "write_simple_generic_error c msg = Some c'" "w' = upd_conn p c' w"
  | (here) c key db oper db' res c' where "w_conns w p = Some c" "arg_bytes c args 1 = Some key"
      "unat (key_hash key) mod nshards w = s_shard_id (w_shards w ! self)"
      "get_db w self (c_db c) = Some db" "exec_op db key (key_hash key) oper = Some (db', res)"
      "resp_op c res = Some c'" "w' = upd_conn p c' (upd_db self (unat (c_db c)) db' w)"
  | (remote) c key oper sid w1 where "w_conns w p = Some c" "arg_bytes c args 1 = Some key"
      "sid = unat (key_hash key) mod nshards w" "sid \<noteq> s_shard_id (w_shards w ! self)"
      "reactor_send_message sid (Request \<lparr>cb_src = self, cb_dst = sid, cb_conn = p\<rparr> key (key_hash key) oper) w
        = Some (w1, True)"
      "w' = notify self sid (upd_conn p (c\<lparr>c_flags := c_flags c OR DISPATCH_WAITING\<rparr>) w1)"
  | (refused) c key oper sid w1 msg c' where "w_conns w p = Some c" "arg_bytes c args 1 = Some key"
      "sid = unat (key_hash key) mod nshards w"
      "reactor_send_message sid (Request \<lparr>cb_src = self, cb_dst = sid, cb_conn = p\<rparr> key (key_hash key) oper) w
        = Some (w1, False)"
      "write_simple_generic_error c msg = Some c'" "w' = upd_conn p c' w1"
  | (far) c db len hash oper db' res c' where "w_conns w p = Some c" "get_db w self (c_db c) = Some db"
      "far_exec db len hash oper = Some (db', res)" "resp_op c res = Some c'"
      "w' = upd_conn p c' (upd_db self (unat (c_db c)) db' w)"
proof -
  obtain c where c: "w_conns w p = Some c" using run by (auto simp: keyed_command_def split: bind_splits)
  show thesis
  proof (cases "arg_bytes c args 1")
    case None
    then have "far_keyed_command f self p args c w = Some w'" using run c by (simp add: keyed_command_def)
    then show thesis using far [OF c] by (auto simp: far_keyed_command_def Let_def split: bind_splits sum.splits if_splits)
  next
    case key: (Some key)
    define sid where "sid = unat (key_hash key) mod nshards w"
    obtain vars where vars: "cmd_vars f c args sid = Some vars"
      using run c key by (auto simp: keyed_command_def key_hash_def sid_def Let_def split: bind_splits)
    note run' = run [unfolded keyed_command_def c key Let_def bind.bind_lunit option.case,
        folded key_hash_def, folded sid_def, unfolded vars bind.bind_lunit]
    show thesis
    proof (cases vars)
      case (Inl msg)
      then show thesis using run' reply [OF c] by auto
    next
      case (Inr oper)
      show thesis
      proof (cases "sid = s_shard_id (w_shards w ! self)")
        case True
        then show thesis using run' Inr here [OF c key] by (auto simp: sid_def split: bind_splits)
      next
        case False
        then obtain w1 sent where send: "reactor_send_message sid
            (Request \<lparr>cb_src = self, cb_dst = sid, cb_conn = p\<rparr> key (key_hash key) oper) w = Some (w1, sent)"
          using run' Inr by (auto split: bind_splits)
        show thesis
        proof (cases sent)
          case True
          then show thesis using run' Inr False send remote [OF c key sid_def False] by simp
        next
          case nosend: False
          then show thesis using run' Inr False send refused [OF c key sid_def] by auto
        qed
      qed
    qed
  qed
qed

text \<open>Such a run keeps the databases well formed.\<close>

lemma far_cases:
  assumes w: "world_ok w" "room w" and db: "get_db w i j = Some db" "far_exec db len hash oper = Some (db', res)"
  obtains (kept) "db_ok (nshards w) i db'" "db_abs db' = db_abs db" "hm_count db' = hm_count db"
  | (deleted) k where "key_ok k" "unat (key_hash k) mod nshards w = i" "exec_op db k (key_hash k) OpDel = Some (db', res)"
proof -
  have ok: "db_ok (nshards w) i db" using get_db_ok(1) [OF w(1) db(1)] .
  then have "db_inv db" by (simp add: db_ok_def)
  then show thesis using db(2)
  proof (cases rule: far_exec_cases)
    case kept
    then show thesis using that(1) ok by (simp add: db_ok_def)
  next
    case (deleted k)
    then show thesis using that(2) ok by (auto simp: db_ok_def)
  qed
qed

lemma far_world_ok:
  assumes w: "world_ok w" "room w" "i < nshards w" and db: "get_db w i j = Some db" "far_exec db len hash oper = Some (db', res)"
  shows "world_ok (upd_db i (unat j) db' w)"
  using w(1,2) db
proof (cases rule: far_cases)
  case kept
  then show ?thesis by (intro world_ok_upd_db [OF w(1,3)])
next
  case (deleted k)
  show ?thesis by (rule exec_world_ok [OF w deleted(1,2) db(1) deleted(3)])
qed

lemma keyed_command_ok:
  assumes run: "keyed_command f self p args w = Some w'" and w: "world_ok w" "room w" "self < nshards w"
  shows "world_ok w' \<and> nshards w' = nshards w"
  using run
proof (cases rule: keyed_command_cases)
  case (reply c msg c')
  then show ?thesis using world_ok_error [OF w(1) world_ok_conn [OF w(1)]] by simp
next
  case (here c key db oper db' res c')
  then have "unat (key_hash key) mod nshards w = self" using world_ok_shard_id [OF w(1,3)] by simp
  from keyed_local_ok [OF w arg_bytes_key_ok [OF here(2)] this here(4,5) world_ok_conn [OF w(1) here(1)] here(6)]
  show ?thesis using here(7) by simp
next
  case (remote c key oper sid w1)
  have "sid < nshards w" using remote(3) world_ok_owner [OF w(1)] by simp
  moreover have "msg_ok (nshards w) sid (Request \<lparr>cb_src = self, cb_dst = sid, cb_conn = p\<rparr> key (key_hash key) oper)"
    using arg_bytes_key_ok [OF remote(2)] remote(3) w(3) by simp
  ultimately have w1: "world_ok w1" "w_shards w1 = w_shards w"
    using world_ok_send [OF w(1) _ _ remote(5)] by auto
  have "world_ok (upd_conn p (c\<lparr>c_flags := c_flags c OR DISPATCH_WAITING\<rparr>) w1)"
    using w1(1) world_ok_conn [OF w(1) remote(1)] by (intro world_ok_upd_conn) simp_all
  then show ?thesis using remote(6) w(3) w1(2) by (simp add: world_ok_notify)
next
  case (refused c key oper sid w1 msg c')
  have "sid < nshards w" using refused(3) world_ok_owner [OF w(1)] by simp
  moreover have "msg_ok (nshards w) sid (Request \<lparr>cb_src = self, cb_dst = sid, cb_conn = p\<rparr> key (key_hash key) oper)"
    using arg_bytes_key_ok [OF refused(2)] refused(3) w(3) by simp
  ultimately show ?thesis using world_ok_send [OF w(1) _ _ refused(4)] by auto
next
  case (far c db len hash oper db' res c')
  have "conn_ok c'" using resp_op_ok [OF far(4) world_ok_conn [OF w(1) far(1)]] .
  then show ?thesis using far_world_ok [OF w far(2,3)] far(5) by (simp add: world_ok_upd_conn)
qed

lemma cmd_req_ok:
  assumes run: "cmd_req self cb key hash oper w = Some w'" and w: "world_ok w" "room w" "self < nshards w"
    and msg: "msg_ok (nshards w) self (Request cb key hash oper)"
  shows "world_ok w' \<and> nshards w' = nshards w"
proof -
  let ?msg = "\<lambda>res. Response \<lparr>cb_src = cb_dst cb, cb_dst = cb_src cb, cb_conn = cb_conn cb\<rparr> res"
  have "hash = key_hash key" using msg by simp
  with run obtain c :: conn and db db' res w1 sent where r: "get_db w self (c_db c) = Some db"
    "exec_op db key (key_hash key) oper = Some (db', res)"
    "reactor_send_message (cb_src cb) (?msg res) (upd_db self (unat (c_db c)) db' w) = Some (w1, sent)"
    "w' = notify self (cb_src cb) w1"
    by (auto simp: cmd_req_def split: bind_splits)
  have "key_ok key" "unat (key_hash key) mod nshards w = self" "cb_src cb < nshards w" using msg by auto
  note w0 = exec_world_ok [OF w this(1,2) r(1,2)]
  have "msg_ok (nshards (upd_db self (unat (c_db c)) db' w)) (cb_src cb) (?msg res)" by simp
  from world_ok_send [OF w0 _ this r(3)] \<open>cb_src cb < nshards w\<close>
  have "world_ok w1" "w_shards w1 = w_shards (upd_db self (unat (c_db c)) db' w)" by auto
  moreover have "nshards w1 = nshards w" using calculation(2) by simp
  ultimately show ?thesis using r(4) w(3) by (simp add: world_ok_notify)
qed

lemma cmd_resp_ok:
  assumes "cmd_resp cb res w = Some w'" "world_ok w"
  shows "world_ok w' \<and> nshards w' = nshards w"
proof -
  obtain c c' where c: "w_conns w (cb_conn cb) = Some c" "resp_op c res = Some c'"
    "w' = upd_conn (cb_conn cb) (c'\<lparr>c_flags := c_flags c' AND NOT DISPATCH_WAITING\<rparr>) w"
    using assms(1) by (auto simp: cmd_resp_def split: bind_splits)
  have "conn_ok (c'\<lparr>c_flags := c_flags c' AND NOT DISPATCH_WAITING\<rparr>)"
    using resp_op_ok [OF c(2) world_ok_conn [OF assms(2) c(1)]] by simp
  then show ?thesis using c(3) assms(2) world_ok_upd_conn by simp
qed

lemma upd_with_ok:
  assumes "upd_with p f w = Some w'" "world_ok w" "\<And>c c'. f c = Some c' \<Longrightarrow> conn_ok c \<Longrightarrow> conn_ok c'"
  shows "world_ok w' \<and> nshards w' = nshards w"
proof -
  obtain c c' where c: "w_conns w p = Some c" "f c = Some c'" "w' = upd_conn p c' w"
    using assms(1) by (auto simp: upd_with_def split: bind_splits)
  have "conn_ok c'" using assms(3) [OF c(2)] world_ok_conn [OF assms(2) c(1)] by simp
  then show ?thesis using c(3) assms(2) world_ok_upd_conn by simp
qed

lemma db_ok_clear: "db_ok n i db \<Longrightarrow> db_ok n i (fst (hashmap_clear db b))"
  using db.clear_law [of db b] by (auto simp: db_ok_def db_abs_def)

lemma flush_shard_ok: "shard_ok n i s \<Longrightarrow> shard_ok n i (flush_shard k s)"
  by (auto simp: shard_ok_def flush_shard_def intro: db_ok_clear dest: in_set_takeD in_set_dropD)

lemma cmd_flushall_ok:
  assumes "cmd_flushall p w = Some w'" "world_ok w"
  shows "world_ok w' \<and> nshards w' = nshards w"
proof -
  obtain c c' where c: "w_conns w p = Some c" "write_simple_string c (bstr ''OK'') 2 = Some c'"
    "w' = upd_conn p c' (w\<lparr>w_shards := map (flush_shard (w_num_dbs w)) (w_shards w)\<rparr>)"
    using assms(1) by (auto simp: cmd_flushall_def split: bind_splits)
  have "conn_ok c'" using writer_ok(1) [OF world_ok_conn [OF assms(2) c(1)] c(2)] .
  moreover have "world_ok (w\<lparr>w_shards := map (flush_shard (w_num_dbs w)) (w_shards w)\<rparr>)"
    using assms(2) by (simp add: world_ok_def flush_shard_ok)
  ultimately show ?thesis using c(3) world_ok_upd_conn by simp
qed

lemma cmd_select_ok: "cmd_select n c args e = Some (c', e') \<Longrightarrow> conn_ok c \<Longrightarrow> conn_ok c'"
  by (auto simp: cmd_select_def Let_def split: bind_splits prod.splits if_splits
      dest: writer_ok(1,2) [rotated])

text \<open>Changes of a reactor that touch neither its number nor its mailbox.\<close>

lemma reactor_ok_frame:
  "reactor_ok n i r \<Longrightarrow> r_id r' = r_id r \<Longrightarrow> r_cb_queue r' = r_cb_queue r \<Longrightarrow> reactor_ok n i r'"
  by (simp add: reactor_ok_def)

lemma world_ok_frame:
  assumes "world_ok w" "i < nshards w" "\<And>r. r_id (f r) = r_id r" "\<And>r. r_cb_queue (f r) = r_cb_queue r"
  shows "world_ok (upd_reactor i f w)"
  by (rule world_ok_upd_reactor [OF assms(1,2)], rule reactor_ok_frame [OF _ assms(3,4)])
     (use assms(1,2) in \<open>simp add: world_ok_def\<close>)

lemma wakeup_target_ok:
  "world_ok w \<Longrightarrow> i < nshards w \<Longrightarrow> world_ok (fst (wakeup_target self i w)) \<and> nshards (fst (wakeup_target self i w)) = nshards w"
  by (simp add: wakeup_target_def world_ok_frame)

lemma wakeup_loop_ok:
  "world_ok w \<Longrightarrow> \<forall>i \<in> set is. i < nshards w \<Longrightarrow> wakeup_loop self is (w, b) = (w', b') \<Longrightarrow> world_ok w' \<and> nshards w' = nshards w"
proof (induction "is" arbitrary: w b)
  case (Cons i "is")
  obtain w1 rung where t: "wakeup_target self i w = (w1, rung)" by force
  then have "world_ok w1" "nshards w1 = nshards w" using wakeup_target_ok [OF Cons.prems(1), of i self] Cons.prems(2) by auto
  then show ?case using Cons.IH [of w1 "b \<or> rung"] Cons.prems t by simp
qed simp

lemma reactor_wakeup_pending_ok:
  assumes "world_ok w" "self < nshards w"
  shows "world_ok (fst (reactor_wakeup_pending self w)) \<and> nshards (fst (reactor_wakeup_pending self w)) = nshards w"
proof -
  obtain w' b where l: "wakeup_loop self [0..<nshards w] (w, False) = (w', b)" by force
  have "\<forall>i \<in> set [0..<nshards w]. i < nshards w" by simp
  from wakeup_loop_ok [OF assms(1) this l] have "world_ok w'" "nshards w' = nshards w" by auto
  then show ?thesis using l assms(2)
    by (auto simp: reactor_wakeup_pending_def BITSET64_RESET_def intro!: world_ok_frame)
qed

lemma cmd_shutdown_ok:
  assumes "world_ok w" "self < nshards w"
  shows "world_ok (cmd_shutdown self w) \<and> nshards (cmd_shutdown self w) = nshards w"
proof -
  let ?w1 = "w\<lparr>w_reactors := map (\<lambda>r. r\<lparr>r_running := False\<rparr>) (w_reactors w)\<rparr>"
  let ?w2 = "upd_reactor self (\<lambda>r. r\<lparr>r_soft_notify := mark_all (nshards w) (r_soft_notify r)\<rparr>) ?w1"
  have "world_ok ?w1" using assms(1) by (simp add: world_ok_def reactor_ok_def)
  then have "world_ok ?w2" using assms(2) by (intro world_ok_frame) simp_all
  then show ?thesis using reactor_wakeup_pending_ok [of ?w2 self] assms(2) by (simp add: cmd_shutdown_def Let_def)
qed

lemma call_command_ok:
  assumes run: "call_command f self p args w = Some w'" and w: "world_ok w" "room w" "self < nshards w"
  shows "world_ok w' \<and> nshards w' = nshards w"
proof -
  have keyed: "world_ok w' \<and> nshards w' = nshards w" if "keyed_command f self p args w = Some w'"
    using keyed_command_ok [OF that w] .
  show ?thesis
  proof (cases f)
    case Cmd_ping
    then show ?thesis using run upd_with_ok [OF _ w(1), of p cmd_ping w']
      by (simp add: call_command_def cmd_ping_def writer_ok(1))
  next
    case Cmd_echo
    have "conn_ok c'" if "cmd_echo c args = Some c'" "conn_ok c" for c c'
      using that writer_ok(3) by (auto simp: cmd_echo_def split: bind_splits)
    then show ?thesis using Cmd_echo run upd_with_ok [OF _ w(1), of p "\<lambda>c. cmd_echo c args" w']
      by (simp add: call_command_def)
  next
    case Cmd_quit
    then show ?thesis using run upd_with_ok [OF _ w(1), of p cmd_quit w']
      by (simp add: call_command_def cmd_quit_def) (metis conn_ok_flags(1) writer_ok(1))
  next
    case Cmd_shutdown
    then show ?thesis using run cmd_shutdown_ok [OF w(1,3)] by (auto simp: call_command_def)
  next
    case Cmd_flushall
    then show ?thesis using run cmd_flushall_ok [OF _ w(1)] by (simp add: call_command_def)
  next
    case Cmd_select
    then obtain c c' e where c: "w_conns w p = Some c"
      "cmd_select (w_num_dbs w) c args (r_errno (w_reactors w ! self)) = Some (c', e)"
      "w' = upd_reactor self (\<lambda>r. r\<lparr>r_errno := e\<rparr>) (upd_conn p c' w)"
      using run by (auto simp: call_command_def split: bind_splits)
    have "world_ok (upd_conn p c' w)"
      by (rule world_ok_upd_conn [OF w(1) cmd_select_ok [OF c(2) world_ok_conn [OF w(1) c(1)]]])
    then show ?thesis using c(3) w(3) by (simp add: world_ok_frame)
  qed (use run keyed in \<open>simp_all add: call_command_def\<close>)
qed

lemma handle_command_ok:
  assumes run: "handle_command self p args w = Some w'" and w: "world_ok w" "room w" "self < nshards w"
  shows "world_ok w' \<and> nshards w' = nshards w"
proof -
  obtain c found where c: "w_conns w p = Some c" "find_command c args (w_commands w) = Some found"
    using run by (auto simp: handle_command_def split: bind_splits)
  note ck = world_ok_conn [OF w(1) c(1)]
  have err: "world_ok w' \<and> nshards w' = nshards w"
    if "write_simple_generic_error c msg = Some c'" "w' = upd_conn p c' w" for msg c'
    using world_ok_error [OF w(1) ck that(1)] that(2) by simp
  show ?thesis
  proof (cases found)
    case None
    then show ?thesis using run c err by (auto simp: handle_command_def Let_def split: bind_splits)
  next
    case (Some cmd)
    note run' = run [unfolded handle_command_def c Some bind.bind_lunit option.case]
    show ?thesis
    proof (cases "cm_arity cmd \<noteq> a_argc args - 1 \<and> cm_arity cmd \<noteq> VAR_ARGC")
      case True
      then show ?thesis using run' err by auto
    next
      case False
      then obtain f where "call_command f self p args w = Some w'"
        using run' by (auto split: option.splits if_splits)
      then show ?thesis by (rule call_command_ok [OF _ w])
    qed
  qed
qed

section \<open>The request loop and the callbacks\<close>

lemma consume_ok: "conn_ok c \<Longrightarrow> consume len c = (c', b) \<Longrightarrow> conn_ok c'"
  by (auto simp: consume_def conn_ok_def Let_def word_less_nat_alt not_less unat_of_nat_64 MESSAGE_MAX_LENGTH_def split: if_splits)

lemma fail_conn_ok: "fail_conn msg c = Some c' \<Longrightarrow> conn_ok c \<Longrightarrow> conn_ok c'"
  by (auto simp: fail_conn_def writer_ok(2))

lemma on_data_available_ok:
  assumes run: "on_data_available self p w = Some (w', again)" and w: "world_ok w" "room w" "self < nshards w"
  shows "world_ok w' \<and> nshards w' = nshards w"
proof -
  obtain c where c: "w_conns w p = Some c" using run by (auto simp: on_data_available_def split: bind_splits)
  note ck = world_ok_conn [OF w(1) c]
  have fail: "world_ok w' \<and> nshards w' = nshards w" if "fail_conn msg c = Some c'" "w' = upd_conn p c' w" for msg c'
    using fail_conn_ok [OF that(1) ck] that(2) w(1) by (simp add: world_ok_upd_conn)
  note run' = run [unfolded on_data_available_def c bind.bind_lunit]
  show ?thesis
  proof (cases "c_recv_buf_size c < 1")
    case True
    then show ?thesis using run' w(1) by simp
  next
    case False
    show ?thesis
    proof (cases "parse_request c")
      case (PARSE_OK args)
      then obtain w1 c1 c2 where r: "(if 0 < a_argc args then handle_command self p args w else Some w) = Some w1"
        "w_conns w1 p = Some c1" "consume (a_len args) c1 = (c2, again)" "w' = upd_conn p c2 w1"
        using run' False by (auto split: bind_splits prod.splits)
      have "world_ok w1 \<and> nshards w1 = nshards w"
        using r(1) handle_command_ok [OF _ w] w(1) by (auto split: if_splits)
      moreover have "conn_ok c2" using consume_ok [OF world_ok_conn r(3)] r(2) calculation by blast
      ultimately show ?thesis using r(4) by (simp add: world_ok_upd_conn)
    qed (use run' False fail w(1) in auto)
  qed
qed

lemma world_ok_dequeue:
  assumes w: "world_ok w" "i < nshards w" and deq: "mpmcq_dequeue (r_cb_queue (w_reactors w ! i)) = Some (q, m)"
  shows "world_ok (set_queue i q w)"
    "case m of None \<Rightarrow> mq_abs (r_cb_queue (w_reactors w ! i)) = [] \<and> mq_abs q = []
     | Some m \<Rightarrow> msg_ok (nshards w) i m \<and> mq_abs (r_cb_queue (w_reactors w ! i)) = m # mq_abs q"
proof -
  let ?q = "r_cb_queue (w_reactors w ! i)"
  have r: "reactor_ok (nshards w) i (w_reactors w ! i)" using w by (simp add: world_ok_def)
  then have inv: "mq_inv ?q" by (simp add: reactor_ok_def)
  have "mq_inv q \<and> (case m of None \<Rightarrow> mq_abs ?q = [] \<and> mq_abs q = [] | Some m \<Rightarrow> mq_abs ?q = m # mq_abs q)"
    using mpmcq.deq_law [OF inv] deq inv by (auto split: list.splits)
  then show "world_ok (set_queue i q w)"
    "case m of None \<Rightarrow> mq_abs ?q = [] \<and> mq_abs q = []
     | Some m \<Rightarrow> msg_ok (nshards w) i m \<and> mq_abs ?q = m # mq_abs q"
    using r w unfolding set_queue_def
    by (auto intro!: world_ok_upd_reactor simp: reactor_ok_def split: option.splits)
qed

lemma run_cb_ok:
  assumes "run_cb self m w = Some w'" "world_ok w" "room w" "self < nshards w" "msg_ok (nshards w) self m"
  shows "world_ok w' \<and> nshards w' = nshards w"
  using assms cmd_req_ok [OF _ assms(2-4)] cmd_resp_ok [OF _ assms(2)]
  by (cases m) (simp_all add: run_cb_def)

lemma room_set_queue [simp]: "room (set_queue i q w) = room w"
  by (simp add: room_def set_queue_def)

lemma poll_message_ok:
  assumes "mpmcq_dequeue (r_cb_queue (w_reactors w ! self)) = Some (q, Some m)"
    "run_cb self m (set_queue self q w) = Some w'" "world_ok w" "room w" "self < nshards w"
  shows "world_ok w' \<and> nshards w' = nshards w"
proof -
  have n: "nshards (set_queue self q w) = nshards w" by (simp add: set_queue_def)
  have "world_ok (set_queue self q w)" "msg_ok (nshards w) self m"
    using world_ok_dequeue [OF assms(3,5,1)] by simp_all
  then show ?thesis using run_cb_ok [OF assms(2)] assms(4,5) n by simp
qed

section \<open>Connections\<close>

lemma compact_ok: "conn_ok c \<Longrightarrow> conn_ok (compact c) \<and> c_recv_buf_size (compact c) = c_recv_buf_size c"
  by (auto simp: compact_def conn_ok_def received_def)

lemma on_epollin_read_ok: "on_epollin_read rv c = Some (c', go) \<Longrightarrow> conn_ok c \<Longrightarrow> conn_ok c'"
proof -
  assume a: "on_epollin_read rv c = Some (c', go)" "conn_ok c"
  define d where "d = compact c"
  have d: "conn_ok d" "c_recv_buf_size d = c_recv_buf_size c" "c_recv_buf_read d = 0"
    using compact_ok [OF a(2)] by (auto simp: d_def compact_def)
  show "conn_ok c'"
    using a(1) d unfolding on_epollin_read_def d_def [symmetric] Let_def
    by (auto simp: conn_ok_def split: sum.splits io_error.splits if_splits)
qed

lemma reactor_epoll_flush_ok: "reactor_epoll_flush rv c = Some c' \<Longrightarrow> conn_ok c \<Longrightarrow> conn_ok c'"
proof -
  assume a: "reactor_epoll_flush rv c = Some c'" "conn_ok c"
  have "unat (of_nat (c_send_buf_size c) :: u64) = c_send_buf_size c"
    using a(2) by (intro unat_of_nat_64) (simp add: conn_ok_def MESSAGE_MAX_LENGTH_def)
  then show "conn_ok c'" using a
    by (auto simp: reactor_epoll_flush_def Let_def conn_ok_def word_less_nat_alt not_less split: if_splits)
qed

lemma on_accept_ok: "base < 2 ^ 63 \<Longrightarrow> conn_ok (on_accept i fd base)"
  by (simp add: on_accept_def conn_ok_def)

lemma accept_conn_ok:
  "world_ok w \<Longrightarrow> self < nshards w \<Longrightarrow> base < 2 ^ 63 \<Longrightarrow>
    world_ok (accept_conn self fd p base w) \<and> nshards (accept_conn self fd p base w) = nshards w"
  by (auto simp: accept_conn_def set_fd_options_def reactor_conn_emplace_def Let_def on_accept_ok intro!: world_ok_frame world_ok_upd_conn)

lemma reactor_epoll_close_ok:
  assumes "reactor_epoll_close self p w = Some w'" "world_ok w" "self < nshards w"
  shows "world_ok w' \<and> nshards w' = nshards w"
proof -
  obtain c :: conn where c: "w' = (upd_reactor self (\<lambda>r. r\<lparr>r_conns := (r_conns r)[c_fd c := None]\<rparr>) w)
      \<lparr>w_conns := (w_conns w)(p := None)\<rparr>"
    using assms(1) by (auto simp: reactor_epoll_close_def Let_def split: bind_splits)
  have "world_ok (upd_reactor self (\<lambda>r. r\<lparr>r_conns := (r_conns r)[c_fd c := None]\<rparr>) w)"
    using assms(2,3) by (intro world_ok_frame) simp_all
  then show ?thesis using c by (auto simp: world_ok_def)
qed

lemma finish_event_ok:
  assumes "finish_event self p out hup w = Some w'" "world_ok w" "self < nshards w"
  shows "world_ok w' \<and> nshards w' = nshards w"
proof -
  obtain c c' where c: "w_conns w p = Some c" "(case out of None \<Rightarrow> Some c | Some rv \<Rightarrow> reactor_epoll_flush rv c) = Some c'"
    using assms(1) by (auto simp: finish_event_def split: bind_splits)
  have ok: "conn_ok c'" using c(2) reactor_epoll_flush_ok world_ok_conn [OF assms(2) c(1)] by (auto split: option.splits)
  then have u: "world_ok (upd_conn p c' w)" using assms(2) by (simp add: world_ok_upd_conn)
  show ?thesis
    using assms(1) c reactor_epoll_close_ok [OF _ u] assms(2,3) ok
    by (auto simp: finish_event_def world_ok_upd_conn split: if_splits)
qed

section \<open>Every step preserves the invariant\<close>

lemma set_read_errno_ok:
  "world_ok w \<Longrightarrow> self < nshards w \<Longrightarrow> world_ok (set_read_errno self rv w) \<and> nshards (set_read_errno self rv w) = nshards w"
  by (auto simp: set_read_errno_def intro!: world_ok_frame split: sum.splits)

lemma write_errno_fields [simp]:
  "w_shards (set_write_errno self out e w) = w_shards w" "w_conns (set_write_errno self out e w) = w_conns w"
  "length (w_reactors (set_write_errno self out e w)) = length (w_reactors w)"
  "set_write_errno self None e w = w" "conn_at (set_write_errno self out e w) = conn_at w"
  by (simp_all add: set_write_errno_def conn_at_def fun_eq_iff upd_reactor_field [where g = r_conns])

lemma set_write_errno_ok: "world_ok w \<Longrightarrow> self < nshards w \<Longrightarrow> world_ok (set_write_errno self out e w)"
  by (auto simp: set_write_errno_def intro!: world_ok_frame)

lemma set_sleeping_ok:
  "world_ok w \<Longrightarrow> self < nshards w \<Longrightarrow> world_ok (set_sleeping self b w) \<and> nshards (set_sleeping self b w) = nshards w"
  by (auto simp: set_sleeping_def intro!: world_ok_frame)

lemma thread_step_ok:
  assumes "thread_step self (w, ph) (w', ph')" "world_ok w" "self < nshards w"
  shows "world_ok w' \<and> nshards w' = nshards w"
  using assms
proof (cases rule: thread_step.cases)
  case (flush_write k p c rv c' e)
  have "conn_ok c'" using reactor_epoll_flush_ok [OF flush_write(7) world_ok_conn [OF assms(2) flush_write(5)]] .
  then show ?thesis using set_write_errno_ok [OF assms(2,3)] flush_write(2) by (simp add: world_ok_upd_conn)
next
  case wake
  then show ?thesis using wakeup_target_ok [OF assms(2)] by simp
next
  case wake_end
  then show ?thesis using assms by (simp add: BITSET64_RESET_def world_ok_frame)
next
  case poll_message
  then show ?thesis using poll_message_ok [OF _ _ assms(2) _ assms(3)] by simp
next
  case poll_empty
  then show ?thesis using world_ok_dequeue [OF assms(2,3)] by (simp add: set_queue_def)
next
  case callback
  then show ?thesis using on_data_available_ok [OF _ assms(2) _ assms(3)] by simp
next
  case request
  then show ?thesis using on_data_available_ok [OF _ assms(2) _ assms(3)] by simp
next
  case accept
  then show ?thesis using accept_conn_ok [OF assms(2,3)] by simp
next
  case (readable fd p c rv c' go)
  then show ?thesis
    using set_read_errno_ok [OF assms(2,3), of rv] on_epollin_read_ok world_ok_conn [OF assms(2)]
    by (simp add: world_ok_upd_conn)
next
  case (finish p out hup w1 e evs)
  then show ?thesis using finish_event_ok [OF finish(4) assms(2,3)] set_write_errno_ok [of w1 self out e] assms(3) by simp
next
  case close_next
  then show ?thesis using reactor_epoll_close_ok [OF _ assms(2,3)] assms(2) by (auto split: option.splits)
qed (use assms(2,3) set_sleeping_ok in \<open>simp_all add: world_ok_frame\<close>)

end
