(* ===== verification/System.thy ===== *)
theory System
  imports Invariants
begin

text \<open>
  The reachable states of the server. They satisfy the system invariant, and no wake-up is lost:
  a reactor that blocks in \<^verbatim>\<open>epoll_wait\<close> with messages in its mailbox has its event descriptor
  rung, or another reactor has it marked and will still ring it.
\<close>

section \<open>Start-up\<close>

lemma new_db:
  obtains db where "hashmap_new True \<lparr>e_key = [], e_val = []\<rparr> (2 ^ 20) s s entry_hash_xxhash3
      (Some entry_compare) True = Some db" "db_inv db" "db_abs db = Map.empty" "hm_count db = 0"
  using db.new_law [of "\<lparr>e_key = [], e_val = []\<rparr>" "2 ^ 20" s s entry_hash_xxhash3 True]
  by (auto simp: db_abs_def fun_eq_iff)

lemma init_shard_ok: "\<exists>s. init_shard k seed i = Some s \<and> shard_ok n i s \<and> (\<forall>db \<in> set (s_dbs s). hm_count db = 0 \<and> db_abs db = Map.empty)
    \<and> length (s_dbs s) = k"
  by (rule new_db [of seed]) (auto simp: init_shard_def shard_ok_def db_ok_def)

lemma those_map:
  "\<forall>i \<in> set xs. \<exists>y. f i = Some y \<and> P i y \<Longrightarrow> \<exists>ys. those (map f xs) = Some ys \<and> list_all2 P xs ys"
  by (induction xs) auto

lemma init_shards_ok:
  "\<exists>ss. init_shards k seeds n = Some ss \<and> length ss = n \<and> (\<forall>i < n. shard_ok n i (ss ! i)
     \<and> (\<forall>db \<in> set (s_dbs (ss ! i)). hm_count db = 0 \<and> db_abs db = Map.empty) \<and> length (s_dbs (ss ! i)) = k)"
proof -
  let ?P = "\<lambda>i s. shard_ok n i s \<and> (\<forall>db \<in> set (s_dbs s). hm_count db = 0 \<and> db_abs db = Map.empty) \<and> length (s_dbs s) = k"
  have "\<forall>i \<in> set [0..<n]. \<exists>s. init_shard k (seeds i) i = Some s \<and> ?P i s" using init_shard_ok by blast
  from those_map [OF this] obtain ss where "those (map (\<lambda>i. init_shard k (seeds i) i) [0..<n]) = Some ss"
    "list_all2 ?P [0..<n] ss" by blast
  then show ?thesis by (auto simp: init_shards_def list_all2_conv_all_nth)
qed

lemma mailbox_init: "mq_inv (mpmcq_init 8192)" "mq_abs (mpmcq_init 8192) = []"
  using mpmcq_init_rep [of 13] mq_rep_abs [of "mpmcq_init 8192" "[]"] by (auto simp: mq_inv_def)

lemma init_world_ok:
  obtains w where "init_world seeds = Some w" "world_ok w" "nshards w = 4" "room w"
    "w_reactors w = map reactor_init [0..<4]" "w_conns w = Map.empty" "w_num_dbs w = 16"
    "\<forall>s \<in> set (w_shards w). length (s_dbs s) = 16"
    "\<forall>s \<in> set (w_shards w). \<forall>db \<in> set (s_dbs s). db_abs db = Map.empty"
proof -
  obtain m where m: "init_commands = Some m" "table_ok m"
    "\<And>name. key_ok name \<Longrightarrow> lookup_command name m = Some (find (\<lambda>c. cm_name c = name) command_table)"
    by (rule init_commands_ok, rule that, assumption+)
  obtain ss where ss: "init_shards 16 seeds 4 = Some ss" "length ss = 4" "\<forall>i < 4. shard_ok 4 i (ss ! i)
     \<and> (\<forall>db \<in> set (s_dbs (ss ! i)). hm_count db = 0 \<and> db_abs db = Map.empty) \<and> length (s_dbs (ss ! i)) = 16"
    using init_shards_ok [of 16 seeds 4] by blast
  let ?w = "\<lparr>w_num_dbs = 16, w_commands = m, w_shards = ss, w_reactors = map reactor_init [0..<4], w_conns = Map.empty\<rparr>"
  have "init_world seeds = Some ?w" unfolding init_world_def m(1) ss(1) by simp
  moreover have "reactor_ok 4 i (reactor_init i)" for i
    by (simp add: reactor_ok_def reactor_init_def mailbox_init)
  then have "world_ok ?w" using m(3) ss by (simp add: world_ok_def commands_ok_def)
  moreover have all: "\<forall>s \<in> set ss. (\<forall>db \<in> set (s_dbs s). hm_count db = 0 \<and> db_abs db = Map.empty) \<and> length (s_dbs s) = 16"
    using ss(2,3) by (metis in_set_conv_nth)
  then have "room ?w" by (simp add: room_def)
  moreover have "\<forall>s \<in> set ss. \<forall>db \<in> set (s_dbs s). db_abs db = Map.empty" using all by blast
  ultimately show thesis using that [of ?w] ss(2) all by simp
qed

section \<open>The invariant holds in every reachable state\<close>

lemma reachable_world_ok: "reachable s \<Longrightarrow> world_ok (fst s)"
proof (induction rule: reachable.induct)
  case (start seeds w)
  obtain w0 where "init_world seeds = Some w0" "world_ok w0"
    by (rule init_world_ok [of seeds], rule that, assumption+)
  then show ?case using start by simp
next
  case (step s s')
  from step.hyps(2) step.IH show ?case by cases (use thread_step_ok in auto)
qed

end
