(* ===== verification/Conn_Frames.thy ===== *)
theory Conn_Frames
  imports System
begin

text \<open>
  What the commands do to connections. A command touches a connection only by writing to its output
  and by setting its flags and its database, and it leaves the vectors of the reactors alone. The
  contract is stated once, as a locale over a relation between a connection before and after; the
  clients are the identity of connections, their flags, and the receive buffer of the request loop.
\<close>

section \<open>The contract\<close>

text \<open>All connections are related by \<open>R\<close>, none appears or disappears, and the vectors are the same.\<close>

definition conns_frame :: "(conn \<Rightarrow> conn \<Rightarrow> bool) \<Rightarrow> world \<Rightarrow> world \<Rightarrow> bool" where
  "conns_frame R w w' \<longleftrightarrow> (\<forall>p. rel_option R (w_conns w p) (w_conns w' p))
     \<and> length (w_reactors w') = length (w_reactors w)
     \<and> (\<forall>i < length (w_reactors w). conn_at w' i = conn_at w i)"

locale conn_frame =
  fixes R :: "conn \<Rightarrow> conn \<Rightarrow> bool"
  assumes R_refl: "R c c"
    and R_trans: "R c c1 \<Longrightarrow> R c1 c2 \<Longrightarrow> R c c2"
    and R_end: "R c (c\<lparr>c_flags := c_flags c OR END\<rparr>)"
    and R_wait: "R c (c\<lparr>c_flags := c_flags c OR DISPATCH_WAITING\<rparr>)"
    and R_unwait: "R c (c\<lparr>c_flags := c_flags c AND NOT DISPATCH_WAITING\<rparr>)"
    and R_db: "R c (c\<lparr>c_db := d\<rparr>)"
    and R_send_sprintf: "send_sprintf c out = Some c' \<Longrightarrow> R c c'"
    and R_write_bulk_string: "write_bulk_string c bs = Some c' \<Longrightarrow> R c c'"
begin

abbreviation frame :: "world \<Rightarrow> world \<Rightarrow> bool" where
  "frame \<equiv> conns_frame R"

lemma rel_refl: "rel_option R x x"
  by (cases x) (simp_all add: R_refl)

lemma conns_refl [simp]: "frame w w"
  by (simp add: conns_frame_def rel_refl)

lemma conns_trans:
  assumes "frame w w1" "frame w1 w2"
  shows "frame w w2"
proof -
  have "rel_option R (w_conns w p) (w_conns w2 p)" for p
  proof -
    have "rel_option R (w_conns w p) (w_conns w1 p)" "rel_option R (w_conns w1 p) (w_conns w2 p)"
      using assms by (simp_all add: conns_frame_def)
    then show ?thesis
      by (cases "w_conns w p"; cases "w_conns w1 p"; cases "w_conns w2 p") (simp_all, rule R_trans)
  qed
  then show ?thesis using assms by (simp add: conns_frame_def)
qed

lemma conns_upd_conn: "w_conns w p = Some c \<Longrightarrow> R c c' \<Longrightarrow> frame w (upd_conn p c' w)"
  by (simp add: conns_frame_def conn_at_def upd_conn_def rel_refl fun_eq_iff)

lemma conns_upd_reactor: "(\<And>r. r_conns (f r) = r_conns r) \<Longrightarrow> frame w (upd_reactor i f w)"
  by (simp add: conns_frame_def conn_at_def fun_eq_iff upd_reactor_field [where g = r_conns] rel_refl)

lemma conns_upd_db: "frame w (upd_db i j db w)"
  by (simp add: conns_frame_def conn_at_def fun_eq_iff upd_db_def rel_refl)

lemma conns_get: "frame w w' \<Longrightarrow> w_conns w p = Some c \<Longrightarrow> \<exists>c'. w_conns w' p = Some c' \<and> R c c'"
  unfolding conns_frame_def by (metis option_rel_Some1)

text \<open>A change of databases and reactors followed by one of a connection.\<close>

lemma conns_then_conn:
  "frame w w1 \<Longrightarrow> w_conns w1 = w_conns w \<Longrightarrow> w_conns w p = Some c \<Longrightarrow> R c c' \<Longrightarrow> frame w (upd_conn p c' w1)"
  by (rule conns_trans [OF _ conns_upd_conn]) simp_all

section \<open>The writers and the commands\<close>

lemma R_writers:
  "write_simple_string c msg n = Some c' \<Longrightarrow> R c c'" "write_simple_generic_error c msg = Some c' \<Longrightarrow> R c c'"
  "write_null_bulk_string c = Some c' \<Longrightarrow> R c c'" "write_integer c v = Some c' \<Longrightarrow> R c c'"
  unfolding write_simple_string_def write_simple_generic_error_def write_simple_error_def
    write_null_bulk_string_def write_integer_def
  by (erule R_send_sprintf)+

lemma R_resp_op: "resp_op c res = Some c' \<Longrightarrow> R c c'"
  by (auto simp: resp_op_def R_writers R_write_bulk_string split: keyed_res.splits option.splits)

lemma R_fail_conn: "fail_conn msg c = Some c' \<Longrightarrow> R c c'"
  by (auto simp: fail_conn_def dest!: R_writers(2) intro: R_trans [OF _ R_end])

lemma R_cmd_select: "cmd_select n c args e = Some (c', e') \<Longrightarrow> R c c'"
proof -
  assume "cmd_select n c args e = Some (c', e')"
  then consider "write_simple_generic_error c (bstr ''invalid DB index'') = Some c'"
    | d where "write_simple_string (c\<lparr>c_db := d\<rparr>) (bstr ''OK'') 2 = Some c'"
    by (auto simp: cmd_select_def Let_def split: bind_splits prod.splits if_splits)
  then show ?thesis
  proof cases
    case 2
    then show ?thesis using R_writers(1) R_db R_trans by blast
  qed (rule R_writers(2))
qed

lemma conns_send:
  assumes "reactor_send_message target msg w = Some (w', sent)"
  shows "frame w w'" "w_conns w' = w_conns w"
  using assms by (auto simp: reactor_send_message_def conns_upd_reactor split: bind_splits)

lemma conns_notify: "frame w (notify self target w)"
  by (simp add: notify_def conns_upd_reactor)

lemma conns_keyed_command:
  assumes "keyed_command f self p args w = Some w'"
  shows "frame w w'"
  using assms
proof (cases rule: keyed_command_cases)
  case (reply c msg c')
  then show ?thesis using conns_upd_conn R_writers(2) by simp
next
  case (here c key db oper db' res c')
  then show ?thesis using conns_then_conn [OF conns_upd_db] R_resp_op by simp
next
  case (remote c key oper sid w1)
  then have "frame w (upd_conn p (c\<lparr>c_flags := c_flags c OR DISPATCH_WAITING\<rparr>) w1)"
    using conns_then_conn [OF conns_send] R_wait by simp
  then show ?thesis unfolding remote(6) by (rule conns_trans [OF _ conns_notify])
next
  case (refused c key oper sid w1 msg c')
  then show ?thesis using conns_then_conn [OF conns_send] R_writers(2) by simp
next
  case (far c db len hash oper db' res c')
  then show ?thesis using conns_then_conn [OF conns_upd_db] R_resp_op by simp
qed

lemma conns_upd_with:
  assumes "upd_with p f w = Some w'" "\<And>c c'. f c = Some c' \<Longrightarrow> R c c'"
  shows "frame w w'"
  using assms(1) by (auto simp: upd_with_def dest!: assms(2) intro: conns_upd_conn split: bind_splits)

lemma conns_wakeup_target: "frame w (fst (wakeup_target self i w))"
  by (simp add: wakeup_target_def conns_upd_reactor)

lemma conns_wakeup_loop: "wakeup_loop self is (w, b) = (w', b') \<Longrightarrow> frame w w'"
proof (induction "is" arbitrary: w b)
  case (Cons i "is")
  obtain w1 rung where t: "wakeup_target self i w = (w1, rung)" by force
  then have "frame w w1" using conns_wakeup_target [of w self i] by simp
  moreover have "frame w1 w'" using Cons t by simp
  ultimately show ?case by (rule conns_trans)
qed simp

lemma conns_shutdown: "frame w (cmd_shutdown self w)"
proof -
  define w1 where "w1 = w\<lparr>w_reactors := map (\<lambda>r. r\<lparr>r_running := False\<rparr>) (w_reactors w)\<rparr>"
  define w2 where "w2 = upd_reactor self (\<lambda>r. r\<lparr>r_soft_notify := mark_all (nshards w) (r_soft_notify r)\<rparr>) w1"
  have "conn_at w1 i = conn_at w i" if "i < length (w_reactors w)" for i
    using that by (simp add: conn_at_def w1_def fun_eq_iff)
  then have "frame w w1" by (simp add: conns_frame_def rel_refl w1_def)
  moreover have "frame w1 w2" by (simp add: w2_def conns_upd_reactor)
  moreover obtain w3 b where l: "wakeup_loop self [0..<nshards w2] (w2, False) = (w3, b)" by force
  moreover have "frame w3 (BITSET64_RESET self w3)" by (simp add: BITSET64_RESET_def conns_upd_reactor)
  moreover have "cmd_shutdown self w = BITSET64_RESET self w3"
    using l by (simp add: cmd_shutdown_def reactor_wakeup_pending_def Let_def w2_def w1_def)
  ultimately show ?thesis using conns_wakeup_loop [OF l] conns_trans by metis
qed

lemma conns_call_command:
  assumes "call_command f self p args w = Some w'"
  shows "frame w w'"
proof (cases f)
  case Cmd_ping
  then show ?thesis using assms conns_upd_with [of p cmd_ping w w'] R_writers(1) by (simp add: call_command_def cmd_ping_def)
next
  case Cmd_echo
  have "R c c'" if "cmd_echo c args = Some c'" for c c'
    using that R_write_bulk_string by (auto simp: cmd_echo_def split: bind_splits)
  then show ?thesis using assms Cmd_echo conns_upd_with [of p "\<lambda>c. cmd_echo c args" w w'] by (simp add: call_command_def)
next
  case Cmd_quit
  have "R c c'" if "cmd_quit c = Some c'" for c c'
    using that R_writers(1) R_end R_trans unfolding cmd_quit_def by blast
  then show ?thesis using assms Cmd_quit conns_upd_with [of p cmd_quit w w'] by (simp add: call_command_def)
next
  case Cmd_shutdown
  then show ?thesis using assms conns_shutdown by (auto simp: call_command_def)
next
  case Cmd_flushall
  then obtain c c' where c: "w_conns w p = Some c" "write_simple_string c (bstr ''OK'') 2 = Some c'"
    "w' = upd_conn p c' (w\<lparr>w_shards := map (flush_shard (w_num_dbs w)) (w_shards w)\<rparr>)"
    using assms by (auto simp: call_command_def cmd_flushall_def split: bind_splits)
  have "frame w (w\<lparr>w_shards := map (flush_shard (w_num_dbs w)) (w_shards w)\<rparr>)"
    by (simp add: conns_frame_def conn_at_def fun_eq_iff rel_refl)
  then show ?thesis using conns_then_conn c R_writers(1) by simp
next
  case Cmd_select
  then obtain c c' e where c: "w_conns w p = Some c"
    "cmd_select (w_num_dbs w) c args (r_errno (w_reactors w ! self)) = Some (c', e)"
    "w' = upd_reactor self (\<lambda>r. r\<lparr>r_errno := e\<rparr>) (upd_conn p c' w)"
    using assms by (auto simp: call_command_def split: bind_splits)
  have "frame w (upd_conn p c' w)" by (rule conns_upd_conn [OF c(1) R_cmd_select [OF c(2)]])
  moreover have "frame (upd_conn p c' w) w'" by (simp add: c(3) conns_upd_reactor)
  ultimately show ?thesis by (rule conns_trans)
qed (use assms conns_keyed_command in \<open>simp_all add: call_command_def\<close>)

lemma conns_handle_command:
  assumes run: "handle_command self p args w = Some w'"
  shows "frame w w'"
proof -
  obtain c found where c: "w_conns w p = Some c" "find_command c args (w_commands w) = Some found"
    using run by (auto simp: handle_command_def split: bind_splits)
  note run' = run [unfolded handle_command_def c bind.bind_lunit]
  have err: "frame w w'" if "write_simple_generic_error c msg = Some c'" "w' = upd_conn p c' w" for msg c'
    using conns_upd_conn [OF c(1) R_writers(2) [OF that(1)]] that(2) by simp
  show ?thesis
  proof (cases found)
    case None
    then show ?thesis using run' err by (auto simp: Let_def split: bind_splits)
  next
    case (Some cmd)
    then show ?thesis using run' err conns_call_command by (auto split: option.splits if_splits)
  qed
qed

lemma conns_run_cb:
  assumes "run_cb self m w = Some w'"
  shows "frame w w'"
proof (cases m)
  case (Request cb key hash oper)
  then obtain j db' res w1 sent where r:
    "reactor_send_message (cb_src cb) (Response \<lparr>cb_src = cb_dst cb, cb_dst = cb_src cb, cb_conn = cb_conn cb\<rparr> res)
       (upd_db self j db' w) = Some (w1, sent)" "w' = notify self (cb_src cb) w1"
    using assms by (auto simp: run_cb_def cmd_req_def split: bind_splits)
  show ?thesis
    unfolding r(2) using conns_trans [OF conns_trans [OF conns_upd_db conns_send(1) [OF r(1)]] conns_notify] .
next
  case (Response cb res)
  then obtain c c' where c: "w_conns w (cb_conn cb) = Some c" "resp_op c res = Some c'"
    "w' = upd_conn (cb_conn cb) (c'\<lparr>c_flags := c_flags c' AND NOT DISPATCH_WAITING\<rparr>) w"
    using assms by (auto simp: run_cb_def cmd_resp_def split: bind_splits)
  then show ?thesis using conns_upd_conn [OF c(1) R_trans [OF R_resp_op [OF c(2)] R_unwait]] by simp
qed

end

section \<open>The loop\<close>

text \<open>
  A relation that consuming a request, reading, writing and the end of an event keep as well is kept
  by every request and every event that does not open or close the connection.
\<close>

locale loop_frame = conn_frame +
  assumes R_consume: "consume len c = (c', again) \<Longrightarrow> R c c'"
    and R_read: "on_epollin_read rv c = Some (c', go) \<Longrightarrow> R c c'"
    and R_flush: "reactor_epoll_flush n c = Some c' \<Longrightarrow> R c c'"
    and R_unblock: "R c (c\<lparr>c_flags := c_flags c AND NOT BLOCKED\<rparr>)"
begin

lemma conns_on_data_available:
  assumes run: "on_data_available self p w = Some (w', again)"
  shows "frame w w'"
proof -
  obtain c where c: "w_conns w p = Some c" using run by (auto simp: on_data_available_def split: bind_splits)
  note run' = run [unfolded on_data_available_def c bind.bind_lunit]
  have fail: "frame w w'" if "fail_conn msg c = Some c'" "w' = upd_conn p c' w" for msg c'
    using conns_upd_conn [OF c R_fail_conn [OF that(1)]] that(2) by simp
  show ?thesis
  proof (cases "c_recv_buf_size c < 1")
    case False
    show ?thesis
    proof (cases "parse_request c")
      case (PARSE_OK args)
      then obtain w1 c1 c2 where r: "(if 0 < a_argc args then handle_command self p args w else Some w) = Some w1"
        "w_conns w1 p = Some c1" "consume (a_len args) c1 = (c2, again)" "w' = upd_conn p c2 w1"
        using run' False by (auto split: bind_splits prod.splits)
      have "frame w w1" using r(1) conns_handle_command by (auto split: if_splits)
      then show ?thesis using conns_upd_conn [OF r(2) R_consume [OF r(3)]] r(4) conns_trans by simp
    qed (use run' False fail in auto)
  qed (use run' in simp)
qed

lemma R_write:
  "(case out of None \<Rightarrow> Some c | Some n \<Rightarrow> reactor_epoll_flush n c) = Some c' \<Longrightarrow> R c c'"
  by (auto simp: R_refl R_flush split: option.splits)

text \<open>A step that neither opens nor closes a connection.\<close>

lemma conns_thread_step:
  assumes st: "thread_step i (w, ph) (w', ph')"
    and ph: "\<And>k. ph \<noteq> Closing k" "\<And>p out hup evs. ph \<noteq> Finishing p out hup evs"
      "\<And>fd p base evs. ph \<noteq> Handling (Listener fd p base # evs)"
  shows "frame w w'"
proof -
  have sets: "frame w (set_queue i q w)" "frame w (set_sleeping i b w)" "frame w (BITSET64_RESET i w)"
    "frame w (set_read_errno i rv w)" for w q b rv
    by (simp_all add: set_queue_def set_sleeping_def set_read_errno_def BITSET64_RESET_def conns_upd_reactor split: sum.splits)
  show ?thesis using st
  proof (cases rule: thread_step.cases)
    case (flush_write k p c rv c' e)
    have "frame w (set_write_errno i (Some rv) e w)" by (simp add: set_write_errno_def conns_upd_reactor)
    moreover have "w_conns (set_write_errno i (Some rv) e w) p = Some c" using flush_write(5) by simp
    from conns_upd_conn [OF this R_flush [OF flush_write(7)]]
    have "frame (set_write_errno i (Some rv) e w) w'" unfolding flush_write(2) .
    ultimately show ?thesis by (rule conns_trans)
  next
    case wake
    then show ?thesis using conns_wakeup_target by simp
  next
    case (poll_message q m go cnt)
    show ?thesis by (rule conns_trans [OF sets(1) conns_run_cb [OF poll_message(5)]])
  next
    case (wakeup_read evs)
    then show ?thesis by (simp add: conns_upd_reactor)
  next
    case wait_interrupted
    then show ?thesis by (simp add: conns_upd_reactor)
  next
    case (readable fd p c rv c' go out hup evs)
    have "w_conns (set_read_errno i rv w) p = Some c" using readable(5) by (simp add: set_read_errno_def split: sum.splits)
    then show ?thesis unfolding readable(2) by (rule conns_trans [OF sets(4) conns_upd_conn [OF _ R_read [OF readable(6)]]])
  qed (use ph sets conns_on_data_available in simp_all)
qed

end

end
