(* ===== verification/Connections.thy ===== *)
theory Connections
  imports Conn_Frames
begin

text \<open>
  The ownership of connections: every connection in memory sits in exactly one place of the
  vectors of the reactors, that of its own reactor and its own descriptor, and every pointer in a
  vector is such a connection. So an event for a registered descriptor always finds a live
  connection, and the connections a thread works on are its own.
\<close>

section \<open>Identities\<close>

text \<open>The reactor and the descriptor of a connection, which are never changed.\<close>

definition conn_id :: "world \<Rightarrow> nat \<Rightarrow> (nat \<times> nat) option" where
  "conn_id w p = map_option (\<lambda>c. (c_shard_id c, c_fd c)) (w_conns w p)"

definition same_id :: "conn \<Rightarrow> conn \<Rightarrow> bool" where
  "same_id c c' \<longleftrightarrow> c_shard_id c' = c_shard_id c \<and> c_fd c' = c_fd c"

definition same_conns :: "world \<Rightarrow> world \<Rightarrow> bool" where
  "same_conns w w' \<longleftrightarrow> conn_id w' = conn_id w \<and> length (w_reactors w') = length (w_reactors w)
     \<and> (\<forall>i < length (w_reactors w). conn_at w' i = conn_at w i)"

lemma same_conns_refl [simp]: "same_conns w w"
  by (simp add: same_conns_def)

lemma same_conns_trans: "same_conns w w1 \<Longrightarrow> same_conns w1 w2 \<Longrightarrow> same_conns w w2"
  by (simp add: same_conns_def)

lemma same_id_refl [simp]: "same_id c c" "same_id c (c\<lparr>c_flags := f\<rparr>)" "same_id c (c\<lparr>c_db := d\<rparr>)"
  by (simp_all add: same_id_def)

lemma same_id_trans: "same_id c c1 \<Longrightarrow> same_id c1 c2 \<Longrightarrow> same_id c c2"
  by (simp add: same_id_def)

lemma same_upd_conn: "w_conns w p = Some c \<Longrightarrow> same_id c c' \<Longrightarrow> same_conns w (upd_conn p c' w)"
  by (auto simp: same_conns_def conn_id_def conn_at_def same_id_def upd_conn_def fun_eq_iff)

lemma same_upd_reactor: "(\<And>r. r_conns (f r) = r_conns r) \<Longrightarrow> same_conns w (upd_reactor i f w)"
  by (simp add: same_conns_def conn_id_def conn_at_def fun_eq_iff upd_reactor_field [where g = r_conns])

section \<open>The operations keep them\<close>

lemma id_store_at: "store_at c p bs = Some c' \<Longrightarrow> same_id c c'"
  by (auto simp: store_at_def same_id_def split: if_splits)

lemma id_send_sprintf: "send_sprintf c out = Some c' \<Longrightarrow> same_id c c'"
  by (auto simp: send_sprintf_def dest!: id_store_at split: bind_splits) (simp add: same_id_def)

lemma id_write_bulk_string:
  assumes "write_bulk_string c d = Some c'"
  shows "same_id c c'"
proof -
  obtain p1 b1 c1 p2 b2 c2 p3 b3 c3 p4 b4 c4 n where s: "store_at c p1 b1 = Some c1" "store_at c1 p2 b2 = Some c2"
    "store_at c2 p3 b3 = Some c3" "store_at c3 p4 b4 = Some c4" "c' = c4\<lparr>c_send_buf_size := n\<rparr>"
    using assms unfolding write_bulk_string_def Let_def Option.bind_eq_Some_conv by blast
  have "same_id c c4" using s(1-4) id_store_at same_id_trans by blast
  then show ?thesis using s(5) by (simp add: same_id_def)
qed

lemma id_consume: "consume len c = (c', b) \<Longrightarrow> same_id c c'"
  by (auto simp: consume_def same_id_def Let_def split: if_splits)

lemma id_on_epollin_read: "on_epollin_read rv c = Some (c', go) \<Longrightarrow> same_id c c'"
  by (auto simp: on_epollin_read_def compact_def same_id_def Let_def split: sum.splits io_error.splits if_splits)

lemma id_flush: "reactor_epoll_flush rv c = Some c' \<Longrightarrow> same_id c c'"
  by (auto simp: reactor_epoll_flush_def same_id_def Let_def split: if_splits)

interpretation ids: loop_frame same_id
  by unfold_locales (auto intro: same_id_trans id_send_sprintf id_write_bulk_string id_consume id_on_epollin_read id_flush)

lemma same_conns_frame: "same_conns w w' \<longleftrightarrow> conns_frame same_id w w'"
proof -
  have "rel_option same_id x y \<longleftrightarrow> map_option (\<lambda>c. (c_shard_id c, c_fd c)) y = map_option (\<lambda>c. (c_shard_id c, c_fd c)) x" for x y
    by (cases x; cases y) (auto simp: same_id_def)
  then show ?thesis by (simp add: same_conns_def conns_frame_def conn_id_def fun_eq_iff)
qed

lemma same_on_data_available: "on_data_available self p w = Some (w', again) \<Longrightarrow> same_conns w w'"
  unfolding same_conns_frame by (rule ids.conns_on_data_available)

lemma same_thread_step:
  "thread_step i (w, ph) (w', ph') \<Longrightarrow> (\<And>k. ph \<noteq> Closing k) \<Longrightarrow> (\<And>p out hup evs. ph \<noteq> Finishing p out hup evs) \<Longrightarrow>
    (\<And>fd p base evs. ph \<noteq> Handling (Listener fd p base # evs)) \<Longrightarrow> same_conns w w'"
  unfolding same_conns_frame by (rule ids.conns_thread_step)

section \<open>The invariant\<close>

text \<open>Only acceptance and closing change the vectors and the connections in memory.\<close>

definition slots_ok :: "world \<Rightarrow> bool" where
  "slots_ok w \<longleftrightarrow>
     (\<forall>i < length (w_reactors w). \<forall>fd p. conn_at w i fd = Some p \<longrightarrow> conn_id w p = Some (i, fd))
   \<and> (\<forall>p i fd. conn_id w p = Some (i, fd) \<longrightarrow> i < length (w_reactors w) \<and> conn_at w i fd = Some p)"

lemma slots_okD:
  assumes "slots_ok w"
  shows "i < length (w_reactors w) \<Longrightarrow> conn_at w i fd = Some p \<Longrightarrow> conn_id w p = Some (i, fd)"
    "conn_id w p = Some (i, fd) \<Longrightarrow> i < length (w_reactors w)"
    "conn_id w p = Some (i, fd) \<Longrightarrow> conn_at w i fd = Some p"
  using assms unfolding slots_ok_def by blast+

lemma slots_okI:
  "(\<And>i fd p. i < length (w_reactors w) \<Longrightarrow> conn_at w i fd = Some p \<Longrightarrow> conn_id w p = Some (i, fd)) \<Longrightarrow>
   (\<And>i fd p. conn_id w p = Some (i, fd) \<Longrightarrow> i < length (w_reactors w) \<and> conn_at w i fd = Some p) \<Longrightarrow> slots_ok w"
  unfolding slots_ok_def by blast

lemma slots_ok_same:
  assumes "same_conns w w'" "slots_ok w"
  shows "slots_ok w'"
proof -
  have e: "conn_id w' = conn_id w" "length (w_reactors w') = length (w_reactors w)"
    "\<And>i. i < length (w_reactors w) \<Longrightarrow> conn_at w' i = conn_at w i" using assms(1) by (simp_all add: same_conns_def)
  show ?thesis
    by (rule slots_okI) (use slots_okD [OF assms(2)] e in \<open>metis+\<close>)
qed

lemma conn_id_some: "conn_id w p = Some (i, fd) \<longleftrightarrow> (\<exists>c. w_conns w p = Some c \<and> c_shard_id c = i \<and> c_fd c = fd)"
  by (auto simp: conn_id_def)

lemma accept_ids:
  assumes "world_ok w" "i < nshards w"
  shows "conn_id (accept_conn i fd p base w) = (conn_id w)(p \<mapsto> (i, fd))"
    "conn_at (accept_conn i fd p base w) j k = (if j = i \<and> k = fd then Some p else conn_at w j k)"
    "length (w_reactors (accept_conn i fd p base w)) = length (w_reactors w)"
proof -
  note r = world_ok_reactor_id [OF assms]
  show "conn_id (accept_conn i fd p base w) = (conn_id w)(p \<mapsto> (i, fd))"
    by (simp add: conn_id_def accept_conn_def set_fd_options_def upd_conn_def on_accept_def r fun_eq_iff)
  have len: "i < length (w_reactors w)" using assms by (simp add: world_ok_def)
  show "conn_at (accept_conn i fd p base w) j k = (if j = i \<and> k = fd then Some p else conn_at w j k)"
  proof (cases "j = i")
    case True
    then show ?thesis using len
      by (auto simp: conn_at_def accept_conn_def set_fd_options_def reactor_conn_emplace_def Let_def upd_conn_def nth_append nth_list_update)
  next
    case False
    then show ?thesis by (simp add: conn_at_def accept_conn_def set_fd_options_def upd_conn_def)
  qed
  show "length (w_reactors (accept_conn i fd p base w)) = length (w_reactors w)"
    by (simp add: accept_conn_def set_fd_options_def upd_conn_def)
qed

lemma accept_slots:
  assumes "world_ok w" "i < nshards w" "slots_ok w" "fd_free w fd" "w_conns w p = None"
  shows "slots_ok (accept_conn i fd p base w)"
proof -
  have len: "i < length (w_reactors w)" using assms by (simp add: world_ok_def)
  have new: "conn_id w p = None" using assms(5) by (simp add: conn_id_def)
  have free: "conn_at w j fd = None" if "j < length (w_reactors w)" for j using assms(4) that by (simp add: fd_free_def)
  note ids = accept_ids [OF assms(1,2), of fd p base] and old = slots_okD [OF assms(3)]
  show ?thesis
  proof (rule slots_okI)
    fix j k q assume a: "j < length (w_reactors (accept_conn i fd p base w))" "conn_at (accept_conn i fd p base w) j k = Some q"
    show "conn_id (accept_conn i fd p base w) q = Some (j, k)"
    proof (cases "j = i \<and> k = fd")
      case False
      then have "conn_at w j k = Some q" "j < length (w_reactors w)" using a ids(2) [of j k] ids(3) by auto
      then have "conn_id w q = Some (j, k)" by (rule old(1) [rotated])
      then show ?thesis using new ids(1) by auto
    qed (use a ids in simp)
  next
    fix j k q assume a: "conn_id (accept_conn i fd p base w) q = Some (j, k)"
    show "j < length (w_reactors (accept_conn i fd p base w)) \<and> conn_at (accept_conn i fd p base w) j k = Some q"
    proof (cases "q = p")
      case False
      then have "j < length (w_reactors w)" "conn_at w j k = Some q" using a ids(1) old(2,3) by simp_all
      moreover from this have "\<not> (j = i \<and> k = fd)" using free by auto
      ultimately show ?thesis using ids(2) [of j k] ids(3) by auto
    qed (use a ids len in simp)
  qed
qed

lemma close_ids:
  assumes "reactor_epoll_close i p w = Some w'" "w_conns w p = Some c" "i < length (w_reactors w)"
  shows "conn_id w' = (conn_id w)(p := None)"
    "conn_at w' j k = (if j = i \<and> k = c_fd c then None else conn_at w j k)"
    "length (w_reactors w') = length (w_reactors w)"
proof -
  let ?w1 = "upd_reactor i (\<lambda>r. r\<lparr>r_conns := (r_conns r)[c_fd c := None]\<rparr>) w"
  have w': "w' = ?w1\<lparr>w_conns := (w_conns ?w1)(p := None)\<rparr>"
    using assms(1,2) by (simp add: reactor_epoll_close_def Let_def)
  show "conn_id w' = (conn_id w)(p := None)" by (simp add: w' conn_id_def fun_eq_iff)
  show "conn_at w' j k = (if j = i \<and> k = c_fd c then None else conn_at w j k)"
    using assms(3) by (cases "j = i") (auto simp: w' conn_at_def nth_list_update Let_def)
  show "length (w_reactors w') = length (w_reactors w)" by (simp add: w')
qed

lemma close_slots:
  assumes "reactor_epoll_close i p w = Some w'" "slots_ok w" "conn_id w p = Some (i, fd)"
  shows "slots_ok w'"
proof -
  obtain c where c: "w_conns w p = Some c" "c_fd c = fd" using assms(3) by (auto simp: conn_id_some)
  have len: "i < length (w_reactors w)" using slots_okD(2) [OF assms(2,3)] .
  note ids = close_ids [OF assms(1) c(1) len, unfolded c(2)] and old = slots_okD [OF assms(2)]
  show ?thesis
  proof (rule slots_okI)
    fix j k q assume a: "j < length (w_reactors w')" "conn_at w' j k = Some q"
    then have q: "\<not> (j = i \<and> k = fd)" "conn_id w q = Some (j, k)" using ids(2,3) old(1) by (simp_all split: if_splits)
    then have "q \<noteq> p" using assms(3) by auto
    then show "conn_id w' q = Some (j, k)" using q(2) ids(1) by simp
  next
    fix j k q assume a: "conn_id w' q = Some (j, k)"
    then have q: "q \<noteq> p" "conn_id w q = Some (j, k)" using ids(1) by (simp_all split: if_splits)
    then have at: "j < length (w_reactors w)" "conn_at w j k = Some q" using old(2,3) by blast+
    moreover have "\<not> (j = i \<and> k = fd)" using at(2) q(1) old(3) [OF assms(3)] by auto
    ultimately show "j < length (w_reactors w') \<and> conn_at w' j k = Some q" using ids(2) [of j k] ids(3) by auto
  qed
qed

section \<open>What a thread holds\<close>

text \<open>In each phase: the descriptors of the events left are registered, the connection it works on is its own.\<close>

fun phase_ok :: "world \<Rightarrow> nat \<Rightarrow> phase \<Rightarrow> bool" where
  "phase_ok w i (Callback cnt p) \<longleftrightarrow> (\<exists>fd. conn_id w p = Some (i, fd))"
| "phase_ok w i (Woken blocking (Some evs)) \<longleftrightarrow> registered w i evs"
| "phase_ok w i (Handling evs) \<longleftrightarrow> registered w i evs"
| "phase_ok w i (Reading p out hup evs) \<longleftrightarrow>
     (\<exists>fd. conn_id w p = Some (i, fd) \<and> fd \<notin> set (ready_fds evs)) \<and> registered w i evs"
| "phase_ok w i (Finishing p out hup evs) \<longleftrightarrow>
     (\<exists>fd. conn_id w p = Some (i, fd) \<and> fd \<notin> set (ready_fds evs)) \<and> registered w i evs"
| "phase_ok w i (Closing k) \<longleftrightarrow> (\<forall>fd < k. conn_at w i fd = None)"
| "phase_ok w i Stopped \<longleftrightarrow> (\<forall>fd. conn_at w i fd = None)"
| "phase_ok w i _ \<longleftrightarrow> True"

text \<open>What another thread's step leaves alone: the vector of a reactor and its connections.\<close>

definition own_same :: "nat \<Rightarrow> world \<Rightarrow> world \<Rightarrow> bool" where
  "own_same j w w' \<longleftrightarrow> conn_at w' j = conn_at w j \<and> (\<forall>p fd. conn_id w p = Some (j, fd) \<longrightarrow> conn_id w' p = Some (j, fd))"

lemma registered_eq: "conn_at w' i = conn_at w i \<Longrightarrow> registered w' i evs = registered w i evs"
  by (simp add: registered_def)

lemma phase_ok_other:
  assumes "own_same j w w'" "phase_ok w j ph"
  shows "phase_ok w' j ph"
proof -
  have at: "conn_at w' j = conn_at w j" and id: "\<And>p fd. conn_id w p = Some (j, fd) \<Longrightarrow> conn_id w' p = Some (j, fd)"
    using assms(1) by (simp_all add: own_same_def)
  note eq = registered_eq [of w' j w, OF at]
  show ?thesis using assms(2)
  proof (cases ph)
    case (Woken b res)
    then show ?thesis using assms(2) eq by (cases res) simp_all
  qed (use assms(2) id eq at in \<open>auto 0 3\<close>)
qed

lemma own_same_conns: "same_conns w w' \<Longrightarrow> j < length (w_reactors w) \<Longrightarrow> own_same j w w'"
  by (simp add: same_conns_def own_same_def)

lemma registered_tl: "registered w i (ev # evs) \<Longrightarrow> registered w i evs"
  by (cases ev) (simp_all add: registered_def)

lemma registered_mono:
  "registered w i evs \<Longrightarrow> (\<And>fd. fd \<in> set (ready_fds evs) \<Longrightarrow> conn_at w i fd \<noteq> None \<Longrightarrow> conn_at w' i fd \<noteq> None) \<Longrightarrow> registered w' i evs"
  by (simp add: registered_def)

text \<open>The outcome of a step of thread \<open>i\<close>.\<close>

definition step_ok :: "nat \<Rightarrow> world \<Rightarrow> world \<Rightarrow> phase \<Rightarrow> bool" where
  "step_ok i w w' ph \<longleftrightarrow> slots_ok w' \<and> phase_ok w' i ph \<and> length (w_reactors w') = length (w_reactors w)
     \<and> (\<forall>j < length (w_reactors w). j \<noteq> i \<longrightarrow> own_same j w w')"

lemma step_ok_same:
  assumes "same_conns w w'" "slots_ok w" "i < length (w_reactors w)" "phase_ok w i ph"
  shows "step_ok i w w' ph"
  unfolding step_ok_def
  using slots_ok_same [OF assms(1,2)] phase_ok_other [OF own_same_conns [OF assms(1,3)] assms(4)]
    own_same_conns [OF assms(1)] assms(1) by (simp add: same_conns_def)

lemma step_ok_close:
  assumes "reactor_epoll_close i p w = Some w'" "slots_ok w" "conn_id w p = Some (i, fd)"
    and ph: "(\<And>k. conn_at w' i k = (if k = fd then None else conn_at w i k)) \<Longrightarrow> phase_ok w' i ph"
  shows "step_ok i w w' ph"
proof -
  obtain c where c: "w_conns w p = Some c" "c_fd c = fd" using assms(3) by (auto simp: conn_id_some)
  note ids = close_ids [OF assms(1) c(1) slots_okD(2) [OF assms(2,3)], unfolded c(2)]
  have "own_same j w w'" if "j \<noteq> i" for j
  proof -
    have "conn_at w' j = conn_at w j" using that ids(2) by (simp add: fun_eq_iff)
    moreover have "conn_id w' q = Some (j, k)" if "conn_id w q = Some (j, k)" for q k
      using that \<open>j \<noteq> i\<close> assms(3) ids(1) by auto
    ultimately show ?thesis by (simp add: own_same_def)
  qed
  then show ?thesis using close_slots [OF assms(1-3)] ph ids(2,3) by (simp add: step_ok_def)
qed

lemma step_ok_errno:
  assumes "step_ok i w w1 ph" "i < length (w_reactors w)"
  shows "step_ok i w (set_write_errno i out e w1) ph"
proof -
  have "same_conns w1 (set_write_errno i out e w1)" by (simp add: set_write_errno_def same_upd_reactor)
  then show ?thesis
    using assms slots_ok_same phase_ok_other [OF own_same_conns] by (simp add: step_ok_def own_same_def conn_id_def)
qed

lemma step_ok_accept:
  assumes w: "world_ok w" "i < nshards w" "slots_ok w" and new: "fd_free w fd" "w_conns w p = None"
    and reg: "registered w i evs"
  shows "step_ok i w (accept_conn i fd p base w) (Handling evs)"
proof -
  note ids = accept_ids [OF w(1,2), of fd p base]
  have "conn_id w p = None" using new(2) by (simp add: conn_id_def)
  then have "own_same j w (accept_conn i fd p base w)" if "j \<noteq> i" for j
    using that by (auto simp: own_same_def ids fun_eq_iff)
  moreover have "registered (accept_conn i fd p base w) i evs"
    by (rule registered_mono [OF reg]) (simp add: ids(2))
  ultimately show ?thesis using accept_slots [OF w new] ids(3) by (simp add: step_ok_def)
qed

lemma step_ok_finish:
  assumes run: "finish_event i p out hup w = Some w'" and w: "slots_ok w" "i < length (w_reactors w)"
    and ph: "conn_id w p = Some (i, fd)" "fd \<notin> set (ready_fds evs)" "registered w i evs"
  shows "step_ok i w w' (Handling evs)"
proof -
  obtain c c' where c: "w_conns w p = Some c" "(case out of None \<Rightarrow> Some c | Some rv \<Rightarrow> reactor_epoll_flush rv c) = Some c'"
    using run by (auto simp: finish_event_def split: bind_splits)
  have id: "same_id c c'" using c(2) id_flush by (auto split: option.splits)
  have same: "same_conns w (upd_conn p c' w)" by (rule same_upd_conn [OF c(1) id])
  show ?thesis
  proof (cases "c_flags c' AND END \<noteq> 0 \<or> hup")
    case True
    then have close: "reactor_epoll_close i p (upd_conn p c' w) = Some w'"
      using run c by (simp add: finish_event_def)
    have s: "slots_ok (upd_conn p c' w)" "conn_id (upd_conn p c' w) p = Some (i, fd)"
      "conn_at (upd_conn p c' w) i = conn_at w i"
      using slots_ok_same [OF same w(1)] same ph(1) w(2) by (simp_all add: same_conns_def)
    have "step_ok i (upd_conn p c' w) w' (Handling evs)"
    proof (rule step_ok_close [OF close s(1,2)])
      assume at: "\<And>k. conn_at w' i k = (if k = fd then None else conn_at (upd_conn p c' w) i k)"
      show "phase_ok w' i (Handling evs)"
        unfolding phase_ok.simps by (rule registered_mono [OF ph(3)]) (use at ph(2) s(3) in auto)
    qed
    then show ?thesis using same by (auto simp: step_ok_def own_same_def same_conns_def)
  next
    case False
    then have "w' = upd_conn p (c'\<lparr>c_flags := c_flags c' AND NOT BLOCKED\<rparr>) w"
      using run c by (auto simp: finish_event_def)
    moreover have "same_conns w (upd_conn p (c'\<lparr>c_flags := c_flags c' AND NOT BLOCKED\<rparr>) w)"
      by (rule same_upd_conn [OF c(1) same_id_trans [OF id same_id_refl(2)]])
    ultimately show ?thesis using step_ok_same [OF _ w] ph(3) by simp
  qed
qed

section \<open>Every step keeps the ownership\<close>

lemma ready_registered:
  assumes "slots_ok w" "i < length (w_reactors w)" "registered w i (Ready fd inp out hup # evs)" "conn_at w i fd = Some p"
  shows "conn_id w p = Some (i, fd)" "fd \<notin> set (ready_fds evs)" "registered w i evs"
  using slots_okD(1) [OF assms(1,2,4)] assms(3) by (simp_all add: registered_def)

lemma thread_step_slots:
  assumes st: "thread_step i (w, ph) (w', ph')" and w: "world_ok w" "i < nshards w" "slots_ok w" "phase_ok w i ph"
  shows "step_ok i w w' ph'"
proof -
  have i: "i < length (w_reactors w)" using w(1,2) by (simp add: world_ok_def)
  have keep: "step_ok i w w' ph'" if "phase_ok w i ph'" "\<And>k. ph \<noteq> Closing k" "\<And>p out hup evs. ph \<noteq> Finishing p out hup evs"
    "\<And>fd p base evs. ph \<noteq> Handling (Listener fd p base # evs)"
    by (rule step_ok_same [OF same_thread_step [OF st that(2-4)] w(3) i that(1)])
  note stay = step_ok_same [OF same_conns_refl w(3) i]
  show ?thesis using st
  proof (cases rule: thread_step.cases)
    case (poll_message q m go cnt)
    have s: "same_conns w w'" by (rule same_thread_step [OF st]) (simp_all add: poll_message)
    then have len: "length (w_reactors w') = length (w_reactors w)" by (simp add: same_conns_def)
    have "world_ok w' \<and> nshards w' = nshards w" using thread_step_ok [OF st w(1,2)] .
    then have "r_id (w_reactors w' ! i) = i" using world_ok_reactor_id w(2) by simp
    then have "go \<Longrightarrow> \<exists>fd. conn_id w' (cb_conn (msg_ctx m)) = Some (i, fd)"
      using poll_message(6) by (auto simp: cb_continues_def conn_id_def split: bind_splits)
    then have "phase_ok w' i ph'" using poll_message(2) by simp
    then show ?thesis
      using slots_ok_same [OF s w(3)] own_same_conns [OF s] len by (simp add: step_ok_def)
  next
    case (woken blocking res)
    have "phase_ok w i ph'" using woken(1,3) w(4) by (cases res) simp_all
    then show ?thesis using keep woken(1) by simp
  next
    case (accept fd p base evs)
    then show ?thesis using step_ok_accept [OF w(1-3)] registered_tl w(4) by simp
  next
    case (wakeup_read evs)
    then show ?thesis using keep registered_tl w(4) by simp
  next
    case (readable fd p c rv c' go out hup evs)
    have "phase_ok w i ph'" using ready_registered [OF w(3) i _ readable(4)] w(4) readable(1,3) by auto
    then show ?thesis using keep readable(1) by simp
  next
    case (not_readable fd p out hup evs)
    then show ?thesis using keep ready_registered [OF w(3) i _ not_readable(4)] w(4) by simp
  next
    case (finish p out hup w1 e evs)
    have "step_ok i w w1 (Handling evs)" using step_ok_finish [OF finish(4) w(3) i] w(4) finish(1) by auto
    then show ?thesis unfolding finish(2,3) using i by (rule step_ok_errno)
  next
    case (close_next k)
    show ?thesis
    proof (cases "conn_at w i k")
      case None
      then show ?thesis using stay close_next w(4) less_Suc_eq by simp
    next
      case (Some p)
      then have close: "reactor_epoll_close i p w = Some w'" using close_next by simp
      have id: "conn_id w p = Some (i, k)" using slots_okD(1) [OF w(3) i Some] .
      show ?thesis using step_ok_close [OF close w(3) id] close_next w(4) less_Suc_eq by simp
    qed
  next
    case (close_end k)
    have "conn_at w i fd = None" for fd
      using close_end w(4) by (cases "fd < k") (simp_all add: conn_at_def Let_def)
    then show ?thesis using close_end stay by simp
  qed (use keep w(4) in simp_all)
qed

text \<open>The ownership in every reachable state.\<close>

definition conns_owned :: "world \<Rightarrow> (nat \<Rightarrow> phase) \<Rightarrow> bool" where
  "conns_owned w phases \<longleftrightarrow> slots_ok w \<and> (\<forall>i < nshards w. phase_ok w i (phases i))"

lemma reachable_conns_owned: "reachable s \<Longrightarrow> conns_owned (fst s) (snd s)"
proof (induction rule: reachable.induct)
  case (start seeds w)
  obtain w0 where w0: "init_world seeds = Some w0" "w_reactors w0 = map reactor_init [0..<4]" "nshards w0 = 4" "w_conns w0 = Map.empty"
    by (rule init_world_ok [of seeds], rule that, assumption+)
  have "conn_at w0 i fd = None" if "i < 4" for i fd
    using that w0(2) by (simp add: conn_at_def reactor_init_def)
  then have "slots_ok w0" using w0 by (simp add: slots_ok_def conn_id_def)
  then show ?case using start w0(1) by (simp add: conns_owned_def)
next
  case (step s s')
  from step.hyps(2) show ?case
  proof cases
    case (1 i w phases w' phase)
    have ok: "slots_ok w" "\<And>j. j < nshards w \<Longrightarrow> phase_ok w j (phases j)" "world_ok w"
      using 1(1) step.IH reachable_world_ok [OF step.hyps(1)] by (simp_all add: conns_owned_def)
    have i: "i < nshards w" using 1(3) by simp
    from thread_step_slots [OF 1(4) ok(3) i ok(1) ok(2) [OF i]] have s: "step_ok i w w' phase" .
    have n: "nshards w' = nshards w" using thread_step_ok [OF 1(4) ok(3) i] by simp
    have len: "length (w_reactors w) = nshards w" using ok(3) by (simp add: world_ok_def)
    have "phase_ok w' j ((phases(i := phase)) j)" if "j < nshards w'" for j
      using s that n len ok(2) [of j] phase_ok_other [of j w w' "phases j"] by (simp add: step_ok_def)
    then show ?thesis using s 1(2) by (simp add: conns_owned_def step_ok_def)
  qed
qed

end
