(* ===== verification/Wakeup.thy ===== *)
theory Wakeup
  imports System
begin

text \<open>
  The sleep and wake-up protocol of the reactors. A thread marks the reactors it has sent to and
  rings the sleeping ones at its next turn; a thread that finds nothing to do announces that it
  sleeps, looks at its mailbox again and only then blocks. The lemmas show that a message is
  never left in the mailbox of a blocked reactor without a ring that has come or will come.
\<close>

section \<open>Marks\<close>

lemma int_bit_small: "b < 31 \<Longrightarrow> int_bit b = push_bit b 1"
proof (rule bit_word_eqI)
  fix n assume "b < 31" "n < LENGTH(64)"
  then show "bit (int_bit b) n = bit (push_bit b (1::u64)) n"
    by (auto simp: int_bit_def bit_signed_iff bit_push_bit_iff bit_exp_iff min_def)
qed

lemma mark_get: "b < 31 \<Longrightarrow> BITSET64_GET s b \<longleftrightarrow> bit s b"
  by (simp add: BITSET64_GET_def int_bit_small bit_iff_and_push_bit_not_eq_0)

lemma mark_set: "b < 31 \<Longrightarrow> c < 31 \<Longrightarrow> BITSET64_GET (BITSET64_SET s b) c \<longleftrightarrow> b = c \<or> BITSET64_GET s c"
  by (auto simp: mark_get BITSET64_SET_def int_bit_small bit_or_iff bit_push_bit_iff bit_exp_iff)
lemma mark_clear: "b < 31 \<Longrightarrow> c < 31 \<Longrightarrow> BITSET64_GET (BITSET64_CLEAR s b) c \<longleftrightarrow> b \<noteq> c \<and> BITSET64_GET s c"
  by (auto simp: mark_get BITSET64_CLEAR_def int_bit_small bit_and_iff bit_not_iff bit_push_bit_iff bit_exp_iff)
section \<open>What an operation may do to the reactors\<close>

text \<open>A step does not take a ring away, nor puts an announced sleeper to rest without one.\<close>

definition keeps_awake :: "reactor \<Rightarrow> reactor \<Rightarrow> bool" where
  "keeps_awake r r' \<longleftrightarrow> r_wakeup r \<le> r_wakeup r'
     \<and> (r_sleeping r \<or> 0 < r_wakeup r \<longrightarrow> r_sleeping r' \<or> 0 < r_wakeup r')"

text \<open>
  What a step of reactor \<open>i\<close> may do to reactor \<open>j\<close>: put something into its mailbox when it is
  marked, but not lose a mark or touch the marks of another reactor.
\<close>

definition keeps_marks :: "nat \<Rightarrow> world \<Rightarrow> world \<Rightarrow> nat \<Rightarrow> bool" where
  "keeps_marks i w w' j \<longleftrightarrow> r_running (w_reactors w' ! j) = r_running (w_reactors w ! j)
     \<and> (BITSET64_GET (r_soft_notify (w_reactors w ! i)) j \<longrightarrow> BITSET64_GET (r_soft_notify (w_reactors w' ! i)) j)
     \<and> (j \<noteq> i \<longrightarrow> r_soft_notify (w_reactors w' ! j) = r_soft_notify (w_reactors w ! j)
          \<and> (mq_abs (r_cb_queue (w_reactors w' ! j)) = mq_abs (r_cb_queue (w_reactors w ! j))
             \<or> BITSET64_GET (r_soft_notify (w_reactors w' ! i)) j))"

definition stopped :: "world \<Rightarrow> bool" where
  "stopped w \<longleftrightarrow> (\<forall>j < nshards w. \<not> r_running (w_reactors w ! j))"

definition op_frame :: "nat \<Rightarrow> world \<Rightarrow> world \<Rightarrow> bool" where
  "op_frame i w w' \<longleftrightarrow> nshards w' = nshards w \<and> length (w_reactors w') = length (w_reactors w)
    \<and> (\<forall>j < nshards w. j \<noteq> i \<longrightarrow> keeps_awake (w_reactors w ! j) (w_reactors w' ! j))
    \<and> (stopped w' \<or> (\<forall>j < nshards w. keeps_marks i w w' j))"

lemma op_frameI:
  "nshards w' = nshards w \<Longrightarrow> length (w_reactors w') = length (w_reactors w) \<Longrightarrow>
   (\<And>j. j < nshards w \<Longrightarrow> j \<noteq> i \<Longrightarrow> keeps_awake (w_reactors w ! j) (w_reactors w' ! j)) \<Longrightarrow>
   (\<And>j. j < nshards w \<Longrightarrow> \<not> stopped w' \<Longrightarrow> keeps_marks i w w' j) \<Longrightarrow> op_frame i w w'"
  by (auto simp: op_frame_def)

lemma frame_same: "w_reactors w' = w_reactors w \<Longrightarrow> nshards w' = nshards w \<Longrightarrow> op_frame i w w'"
  by (simp add: op_frame_def keeps_awake_def keeps_marks_def)

lemma frame_refl: "op_frame i w w"
  by (simp add: frame_same)

lemma keeps_awake_rest:
  "keeps_awake r r' \<Longrightarrow> r_sleeping r \<or> 0 < r_wakeup r \<Longrightarrow> r_sleeping r' \<or> 0 < r_wakeup r'"
  by (simp add: keeps_awake_def)

lemma keeps_awake_trans: "keeps_awake r r1 \<Longrightarrow> keeps_awake r1 r2 \<Longrightarrow> keeps_awake r r2"
  by (auto simp: keeps_awake_def)

lemma keeps_marks_trans: "keeps_marks i w w1 j \<Longrightarrow> keeps_marks i w1 w2 j \<Longrightarrow> keeps_marks i w w2 j"
  by (auto simp: keeps_marks_def)

lemma frame_trans:
  assumes 1: "op_frame i w w1" and 2: "op_frame i w1 w2"
  shows "op_frame i w w2"
proof -
  have n: "nshards w1 = nshards w" using 1 by (simp add: op_frame_def)
  have "stopped w2 \<or> (\<forall>j < nshards w. keeps_marks i w w2 j)"
  proof (cases "\<forall>j < nshards w. keeps_marks i w1 w2 j")
    case True
    then show ?thesis using 1 2 n keeps_marks_trans by (auto simp: op_frame_def stopped_def keeps_marks_def [of _ w1 w2])
  qed (use 2 n in \<open>auto simp: op_frame_def\<close>)
  then show ?thesis using 1 2 n keeps_awake_trans by (auto simp: op_frame_def)
qed

lemma frame_upd_conn: "op_frame i w (upd_conn p c w)"
  by (simp add: frame_same)

lemma frame_conn_after: "op_frame i w w1 \<Longrightarrow> op_frame i w (upd_conn p c w1)"
  by (rule frame_trans [OF _ frame_upd_conn])

lemma frame_self:
  assumes f: "\<And>r. r_running (f r) = r_running r" "\<And>r. r_soft_notify (f r) = r_soft_notify r"
  shows "op_frame i w (upd_reactor i f w)"
proof -
  note field = upd_reactor_field [where f = f and i = i and w = w]
  show ?thesis
    by (simp add: op_frame_def keeps_awake_def keeps_marks_def
        field [of r_running, OF f(1)] field [of r_soft_notify, OF f(2)])
qed

text \<open>Sending to a reactor and marking it, with the connection updated in between.\<close>

lemma frame_send:
  assumes "reactor_send_message target msg w = Some (w1, sent)" "w_reactors w2 = w_reactors w1" "nshards w2 = nshards w1"
    "i < nshards w" "target < nshards w" "nshards w \<le> 31" "length (w_reactors w) = nshards w"
  shows "op_frame i w (notify i target w2)"
proof -
  obtain q where q: "w1 = upd_reactor target (\<lambda>r. r\<lparr>r_cb_queue := q\<rparr>) w"
    using assms(1) by (auto simp: reactor_send_message_def split: bind_splits)
  note field = upd_reactor_field [where f = "\<lambda>r. r\<lparr>r_cb_queue := q\<rparr>" and i = target and w = w]
  note field2 = upd_reactor_field [where f = "\<lambda>r. r\<lparr>r_soft_notify := BITSET64_SET (r_soft_notify r) target\<rparr>"
      and i = i and w = w2]
  have "keeps_awake (w_reactors w ! j) (w_reactors (notify i target w2) ! j)" for j
    by (simp add: keeps_awake_def notify_def field2 [of r_sleeping] field2 [of r_wakeup] assms(2) q
        field [of r_sleeping] field [of r_wakeup])
  moreover have "keeps_marks i w (notify i target w2) j" if "j < nshards w" for j
  proof -
    have marks: "r_soft_notify (w_reactors (notify i target w2) ! i) = BITSET64_SET (r_soft_notify (w_reactors w ! i)) target"
      using assms(4,7) by (simp add: notify_def assms(2) q field [of r_soft_notify])
    have "mq_abs (r_cb_queue (w_reactors (notify i target w2) ! j)) = mq_abs (r_cb_queue (w_reactors w ! j))" if "j \<noteq> target"
      using that by (simp add: notify_def field2 [of r_cb_queue] assms(2) q)
    moreover have "r_soft_notify (w_reactors (notify i target w2) ! j) = r_soft_notify (w_reactors w ! j)" if "j \<noteq> i"
      using that by (simp add: notify_def assms(2) q field [of r_soft_notify])
    moreover have "r_running (w_reactors (notify i target w2) ! j) = r_running (w_reactors w ! j)"
      by (simp add: notify_def field2 [of r_running] assms(2) q field [of r_running])
    ultimately show ?thesis using marks that assms(5,6) by (auto simp: keeps_marks_def mark_set)
  qed
  moreover have "nshards (notify i target w2) = nshards w" "length (w_reactors (notify i target w2)) = length (w_reactors w)"
    using assms(2,3) q by (simp_all add: notify_def)
  ultimately show ?thesis by (intro op_frameI)
qed

section \<open>The operations respect the protocol\<close>

lemma frame_keyed_command:
  assumes run: "keyed_command f self p args w = Some w'" and w: "world_ok w" "room w" "self < nshards w"
  shows "op_frame self w w'"
  using run
proof (cases rule: keyed_command_cases)
  case (remote c key oper sid w1)
  have n: "nshards w1 = nshards w"
    using remote(5) by (auto simp: reactor_send_message_def split: bind_splits)
  have "sid < nshards w" using remote(3) world_ok_owner [OF w(1)] by simp
  with frame_send [OF remote(5) _ _ w(3)] w(1) remote(6) n show ?thesis
    by (simp add: world_ok_def)
next
  case (refused c key oper sid w1 msg c')
  have "sid < nshards w" using refused(3) world_ok_owner [OF w(1)] by simp
  moreover have "msg_ok (nshards w) sid (Request \<lparr>cb_src = self, cb_dst = sid, cb_conn = p\<rparr> key (key_hash key) oper)"
    using arg_bytes_key_ok [OF refused(2)] refused(3) w(3) by simp
  ultimately show ?thesis using world_ok_send [OF w(1) _ _ refused(4)] by auto
qed (simp_all add: frame_same)

lemma frame_cmd_req:
  assumes run: "cmd_req self cb key hash oper w = Some w'" and w: "world_ok w" "self < nshards w"
    and msg: "msg_ok (nshards w) self (Request cb key hash oper)"
  shows "op_frame self w w'"
proof -
  obtain j db' res w1 sent where r:
    "reactor_send_message (cb_src cb) (Response \<lparr>cb_src = cb_dst cb, cb_dst = cb_src cb, cb_conn = cb_conn cb\<rparr> res)
       (upd_db self j db' w) = Some (w1, sent)" "w' = notify self (cb_src cb) w1"
    using run by (auto simp: cmd_req_def split: bind_splits)
  have "op_frame self (upd_db self j db' w) w'"
    using frame_send [OF r(1), of w1 self] r(2) w msg
    by (auto simp: world_ok_def reactor_send_message_def split: bind_splits)
  then show ?thesis by (rule frame_trans [OF frame_same, rotated 2]) simp_all
qed

lemma frame_cmd_resp: "cmd_resp cb res w = Some w' \<Longrightarrow> op_frame self w w'"
  by (auto simp: cmd_resp_def frame_same split: bind_splits)

lemma frame_upd_with: "upd_with p f w = Some w' \<Longrightarrow> op_frame self w w'"
  by (auto simp: upd_with_def frame_same split: bind_splits)

lemma frame_wakeup_target:
  assumes "world_ok w"
  shows "op_frame self w (fst (wakeup_target self i w))"
proof -
  have "keeps_awake (w_reactors w ! j) (w_reactors (upd_reactor i (\<lambda>r. r\<lparr>r_sleeping := False, r_wakeup := r_wakeup r + 1\<rparr>) w) ! j)" for j
    by (cases "i = j"; cases "i < length (w_reactors w)") (auto simp: keeps_awake_def upd_reactor_def list_update_beyond)
  then show ?thesis
    using upd_reactor_field [where f = "\<lambda>r. r\<lparr>r_sleeping := False, r_wakeup := r_wakeup r + 1\<rparr>" and i = i and w = w and g = r_running]
      upd_reactor_field [where f = "\<lambda>r. r\<lparr>r_sleeping := False, r_wakeup := r_wakeup r + 1\<rparr>" and i = i and w = w and g = r_soft_notify]
      upd_reactor_field [where f = "\<lambda>r. r\<lparr>r_sleeping := False, r_wakeup := r_wakeup r + 1\<rparr>" and i = i and w = w and g = r_cb_queue]
    by (simp add: wakeup_target_def op_frame_def keeps_marks_def keeps_awake_def)
qed

lemma running_wakeup_target: "r_running (w_reactors (fst (wakeup_target self i w)) ! j) = r_running (w_reactors w ! j)"
  by (simp add: wakeup_target_def upd_reactor_field [where g = r_running])

text \<open>During a shutdown all that remains of the protocol is that nobody is put to rest.\<close>

lemma frame_stopped:
  "nshards w' = nshards w \<Longrightarrow> length (w_reactors w') = length (w_reactors w) \<Longrightarrow> stopped w' \<Longrightarrow>
   (\<And>j. j < nshards w \<Longrightarrow> j \<noteq> i \<Longrightarrow> keeps_awake (w_reactors w ! j) (w_reactors w' ! j)) \<Longrightarrow> op_frame i w w'"
  by (simp add: op_frame_def)

lemma frame_wakeup_loop:
  "world_ok w \<Longrightarrow> \<forall>i \<in> set is. i < nshards w \<Longrightarrow> wakeup_loop self is (w, b) = (w', b') \<Longrightarrow>
    op_frame self w w' \<and> (\<forall>j. r_running (w_reactors w' ! j) = r_running (w_reactors w ! j))"
proof (induction "is" arbitrary: w b)
  case (Cons i "is")
  obtain w1 rung where t: "wakeup_target self i w = (w1, rung)" by force
  then have w1: "world_ok w1" "nshards w1 = nshards w" "op_frame self w w1"
    "\<And>j. r_running (w_reactors w1 ! j) = r_running (w_reactors w ! j)"
    using wakeup_target_ok [OF Cons.prems(1), of i self] Cons.prems(2) frame_wakeup_target [OF Cons.prems(1), of self i]
      running_wakeup_target [of self i w] by auto
  then have "op_frame self w1 w' \<and> (\<forall>j. r_running (w_reactors w' ! j) = r_running (w_reactors w1 ! j))"
    using Cons.IH [of w1 "b \<or> rung"] Cons.prems t by simp
  then show ?case using w1 frame_trans by metis
qed (simp add: frame_same)

lemma frame_shutdown:
  assumes w: "world_ok w" "self < nshards w"
  shows "op_frame self w (cmd_shutdown self w)"
proof -
  define w1 where "w1 = w\<lparr>w_reactors := map (\<lambda>r. r\<lparr>r_running := False\<rparr>) (w_reactors w)\<rparr>"
  define w2 where "w2 = upd_reactor self (\<lambda>r. r\<lparr>r_soft_notify := mark_all (nshards w) (r_soft_notify r)\<rparr>) w1"
  have len: "length (w_reactors w) = nshards w" using w(1) by (simp add: world_ok_def)
  have w1: "world_ok w1" using w(1) by (simp add: w1_def world_ok_def reactor_ok_def)
  have w2: "world_ok w2" unfolding w2_def using w1 w(2) by (intro world_ok_frame) (simp_all add: w1_def)
  have n2: "nshards w2 = nshards w" by (simp add: w2_def w1_def)
  have run2: "\<not> r_running (w_reactors w2 ! j)" if "j < nshards w" for j
    using that len by (simp add: w2_def upd_reactor_field [where g = r_running]) (simp add: w1_def)
  have awake2: "keeps_awake (w_reactors w ! j) (w_reactors w2 ! j)" if "j < nshards w" for j
    using that len
    by (simp add: w2_def keeps_awake_def upd_reactor_field [where g = r_sleeping] upd_reactor_field [where g = r_wakeup])
       (simp add: w1_def)
  obtain w3 b where l: "wakeup_loop self [0..<nshards w2] (w2, False) = (w3, b)" by force
  from frame_wakeup_loop [OF w2 _ l]
  have w3: "op_frame self w2 w3" "\<And>j. r_running (w_reactors w3 ! j) = r_running (w_reactors w2 ! j)" by auto
  have "op_frame self w3 (BITSET64_RESET self w3)" if "stopped w3"
    using that by (auto simp: BITSET64_RESET_def op_frame_def keeps_awake_def stopped_def upd_reactor_field [where g = r_running])
  moreover have n3: "nshards w3 = nshards w2" using w3(1) by (simp add: op_frame_def)
  moreover have "stopped w3" using w3(2) run2 n2 n3 by (simp add: stopped_def)
  ultimately have "op_frame self w2 (BITSET64_RESET self w3)" using w3(1) frame_trans by blast
  moreover have "length (w_reactors w2) = length (w_reactors w)" "stopped w2"
    using run2 n2 by (simp_all add: w2_def w1_def stopped_def)
  then have "op_frame self w w2" using n2 awake2 by (intro frame_stopped)
  moreover have "cmd_shutdown self w = BITSET64_RESET self w3"
    using l n2 by (simp add: cmd_shutdown_def reactor_wakeup_pending_def Let_def w2_def w1_def)
  ultimately show ?thesis using frame_trans by metis
qed

lemma frame_call_command:
  assumes run: "call_command f self p args w = Some w'" and w: "world_ok w" "room w" "self < nshards w"
  shows "op_frame self w w'"
proof -
  have keyed: "keyed_command f self p args w = Some w' \<Longrightarrow> op_frame self w w'"
    using frame_keyed_command [OF _ w] .
  have sel: "op_frame self w (upd_reactor self (\<lambda>r. r\<lparr>r_errno := e\<rparr>) (upd_conn p c w))" for e c
    by (rule frame_trans [OF frame_upd_conn frame_self]) simp_all
  show ?thesis using run keyed frame_shutdown [OF w(1,3)] frame_upd_with
    by (cases f) (auto simp: call_command_def cmd_flushall_def sel frame_same split: bind_splits)
qed

lemma frame_handle_command:
  assumes run: "handle_command self p args w = Some w'" and w: "world_ok w" "room w" "self < nshards w"
  shows "op_frame self w w'"
  using run frame_call_command [OF _ w]
  by (auto simp: handle_command_def Let_def frame_upd_conn split: bind_splits option.splits if_splits)

lemma frame_on_data_available:
  assumes run: "on_data_available self p w = Some (w', again)" and w: "world_ok w" "room w" "self < nshards w"
  shows "op_frame self w w'"
  using run frame_handle_command [OF _ w]
  by (auto simp: on_data_available_def frame_upd_conn frame_same frame_conn_after
      split: bind_splits parse.splits if_splits prod.splits)

lemma frame_run_cb:
  assumes "run_cb self m w = Some w'" "world_ok w" "self < nshards w" "msg_ok (nshards w) self m"
  shows "op_frame self w w'"
  using assms frame_cmd_req [OF _ assms(2,3)] frame_cmd_resp by (cases m) (simp_all add: run_cb_def)

lemma frame_close: "reactor_epoll_close self p w = Some w' \<Longrightarrow> op_frame self w w'"
proof -
  assume "reactor_epoll_close self p w = Some w'"
  then obtain c :: conn where "w_reactors w' = w_reactors (upd_reactor self (\<lambda>r. r\<lparr>r_conns := (r_conns r)[c_fd c := None]\<rparr>) w)"
    "nshards w' = nshards w"
    by (auto simp: reactor_epoll_close_def Let_def split: bind_splits)
  moreover have "op_frame self w (upd_reactor self (\<lambda>r. r\<lparr>r_conns := (r_conns r)[c_fd c := None]\<rparr>) w)"
    by (rule frame_self) simp_all
  ultimately show ?thesis by (simp add: op_frame_def keeps_marks_def stopped_def)
qed

lemma frame_finish: "finish_event self p out hup w = Some w' \<Longrightarrow> op_frame self w w'"
  by (auto simp: finish_event_def frame_upd_conn intro: frame_trans [OF frame_upd_conn frame_close]
      split: bind_splits if_splits)

lemma frame_write_errno: "op_frame self w (set_write_errno self out e w)"
  by (simp add: set_write_errno_def frame_self frame_refl)

lemma frame_accept: "op_frame self w (accept_conn self fd p base w)"
  unfolding accept_conn_def set_fd_options_def
  by (rule frame_trans [OF frame_trans [OF frame_self frame_upd_conn] frame_self]) (simp_all add: reactor_conn_emplace_def Let_def)

section \<open>No wake-up is lost\<close>

text \<open>In these phases a thread still has its round over the marks before it, or before target \<open>j\<close>.\<close>

fun will_ring :: "phase \<Rightarrow> nat \<Rightarrow> bool" where
  "will_ring (Waking k) j \<longleftrightarrow> k \<le> j"
| "will_ring (Closing k) j \<longleftrightarrow> False"
| "will_ring Stopped j \<longleftrightarrow> False"
| "will_ring _ j \<longleftrightarrow> True"

definition at_rest :: "phase \<Rightarrow> bool" where
  "at_rest ph \<longleftrightarrow> ph = Checking \<or> ph = Waiting True"

text \<open>A phase that does not come after the round over the marks.\<close>

definition ringing :: "phase \<Rightarrow> bool" where
  "ringing ph \<longleftrightarrow> (\<forall>j. will_ring ph j)"

definition leaving :: "phase \<Rightarrow> bool" where
  "leaving ph \<longleftrightarrow> (\<exists>k. ph = Closing k) \<or> ph = Stopped"

definition rung :: "world \<Rightarrow> (nat \<Rightarrow> phase) \<Rightarrow> nat \<Rightarrow> bool" where
  "rung w phases j \<longleftrightarrow> 0 < r_wakeup (w_reactors w ! j) \<or>
     (\<exists>i < nshards w. BITSET64_GET (r_soft_notify (w_reactors w ! i)) j \<and> will_ring (phases i) j)"

lemma rungE:
  assumes "rung w phases j"
  obtains (ring) "0 < r_wakeup (w_reactors w ! j)"
  | (mark) i where "i < nshards w" "BITSET64_GET (r_soft_notify (w_reactors w ! i)) j" "will_ring (phases i) j"
  using assms by (auto simp: rung_def)

lemma rungI:
  "i < nshards w \<Longrightarrow> BITSET64_GET (r_soft_notify (w_reactors w ! i)) j \<Longrightarrow> will_ring (phases i) j \<Longrightarrow> rung w phases j"
  unfolding rung_def by blast

definition wake_ok :: "world \<Rightarrow> (nat \<Rightarrow> phase) \<Rightarrow> bool" where
  "wake_ok w phases \<longleftrightarrow>
     (\<forall>i < nshards w. r_running (w_reactors w ! i) \<or> stopped w)
   \<and> (\<forall>i < nshards w. leaving (phases i) \<longrightarrow> stopped w)
   \<and> (\<forall>j < nshards w. at_rest (phases j) \<longrightarrow> r_sleeping (w_reactors w ! j) \<or> 0 < r_wakeup (w_reactors w ! j))
   \<and> (\<forall>j < nshards w. phases j = Waiting True \<and> mq_abs (r_cb_queue (w_reactors w ! j)) \<noteq> [] \<and> \<not> stopped w
        \<longrightarrow> rung w phases j)"

lemma wake_okI:
  "(\<And>i. i < nshards w \<Longrightarrow> r_running (w_reactors w ! i) \<or> stopped w) \<Longrightarrow>
   (\<And>i. i < nshards w \<Longrightarrow> leaving (phases i) \<Longrightarrow> stopped w) \<Longrightarrow>
   (\<And>j. j < nshards w \<Longrightarrow> at_rest (phases j) \<Longrightarrow> r_sleeping (w_reactors w ! j) \<or> 0 < r_wakeup (w_reactors w ! j)) \<Longrightarrow>
   (\<And>j. j < nshards w \<Longrightarrow> phases j = Waiting True \<Longrightarrow> mq_abs (r_cb_queue (w_reactors w ! j)) \<noteq> [] \<Longrightarrow>
     \<not> stopped w \<Longrightarrow> rung w phases j) \<Longrightarrow> wake_ok w phases"
  by (simp add: wake_ok_def)

lemma wake_okD:
  assumes "wake_ok w phases" "j < nshards w"
  shows "r_running (w_reactors w ! j) \<or> stopped w" "leaving (phases j) \<Longrightarrow> stopped w"
    "at_rest (phases j) \<Longrightarrow> r_sleeping (w_reactors w ! j) \<or> 0 < r_wakeup (w_reactors w ! j)"
    "phases j = Waiting True \<Longrightarrow> mq_abs (r_cb_queue (w_reactors w ! j)) \<noteq> [] \<Longrightarrow> \<not> stopped w \<Longrightarrow> rung w phases j"
  using assms by (simp_all add: wake_ok_def)

lemma ringing_simps [simp]:
  "ringing (Flushing k)" "ringing (Waking 0)" "ringing (Polling c)" "ringing (Callback c p)" "ringing Idle"
  "ringing Checking" "ringing (Waiting b)" "ringing (Woken b r)" "ringing (Handling evs)"
  "ringing (Reading p out hup evs)" "ringing (Finishing p out hup evs)" "ringing Loop_head"
  by (simp_all add: ringing_def)

lemma at_rest_simps [simp]:
  "\<not> at_rest (Flushing k)" "\<not> at_rest (Waking k)" "\<not> at_rest (Polling c)" "\<not> at_rest (Callback c p)"
  "\<not> at_rest Idle" "\<not> at_rest (Waiting False)" "\<not> at_rest (Woken b r)" "\<not> at_rest (Handling evs)"
  "\<not> at_rest (Reading p out hup evs)" "\<not> at_rest (Finishing p out hup evs)" "\<not> at_rest Loop_head"
  "\<not> at_rest (Closing k)" "\<not> at_rest Stopped" "at_rest Checking" "at_rest (Waiting True)"
  by (simp_all add: at_rest_def)

lemma rung_frame:
  assumes "op_frame i w w'" "\<not> stopped w'" "j < nshards w" "j \<noteq> i" "ringing ph"
    and "mq_abs (r_cb_queue (w_reactors w ! j)) \<noteq> [] \<Longrightarrow> rung w phases j"
    and "mq_abs (r_cb_queue (w_reactors w' ! j)) \<noteq> []" "i < nshards w"
  shows "rung w' (phases(i := ph)) j"
proof -
  have n: "nshards w' = nshards w" and awake: "keeps_awake (w_reactors w ! j) (w_reactors w' ! j)"
    and marks: "\<And>k. k < nshards w \<Longrightarrow> keeps_marks i w w' k"
    using assms(1-4) by (auto simp: op_frame_def)
  have mark_i: "rung w' (phases(i := ph)) j" if "BITSET64_GET (r_soft_notify (w_reactors w' ! i)) j"
    using that assms(5,8) n by (auto simp: rung_def ringing_def)
  show ?thesis
  proof (cases "mq_abs (r_cb_queue (w_reactors w' ! j)) = mq_abs (r_cb_queue (w_reactors w ! j))")
    case True
    then have "rung w phases j" using assms(6,7) by simp
    then show ?thesis
    proof (cases rule: rungE)
      case ring
      then show ?thesis using awake by (auto simp: rung_def keeps_awake_def)
    next
      case (mark k)
      show ?thesis
      proof (cases "k = i")
        case True
        then show ?thesis using marks [OF assms(3)] mark(2) mark_i by (simp add: keeps_marks_def)
      next
        case False
        then have "r_soft_notify (w_reactors w' ! k) = r_soft_notify (w_reactors w ! k)"
          using marks [OF mark(1)] by (simp add: keeps_marks_def)
        then show ?thesis using mark n False by (intro rungI [of k]) simp_all
      qed
    qed
  next
    case False
    then show ?thesis using marks [OF assms(3)] assms(4) mark_i by (auto simp: keeps_marks_def)
  qed
qed

lemma frame_stopped_keep: "op_frame i w w' \<Longrightarrow> stopped w \<Longrightarrow> stopped w'"
  by (auto simp: op_frame_def stopped_def keeps_marks_def)

lemma frame_running:
  "op_frame i w w' \<Longrightarrow> wake_ok w phases \<Longrightarrow> k < nshards w \<Longrightarrow> r_running (w_reactors w' ! k) \<or> stopped w'"
  by (auto simp: op_frame_def wake_ok_def keeps_marks_def stopped_def)

lemma frame_rest:
  assumes "op_frame i w w'" "wake_ok w phases" "at_rest ph \<Longrightarrow> r_sleeping (w_reactors w' ! i) \<or> 0 < r_wakeup (w_reactors w' ! i)"
    "j < nshards w" "at_rest ((phases(i := ph)) j)"
  shows "r_sleeping (w_reactors w' ! j) \<or> 0 < r_wakeup (w_reactors w' ! j)"
proof (cases "j = i")
  case False
  then have "keeps_awake (w_reactors w ! j) (w_reactors w' ! j)" "at_rest (phases j)"
    using assms(1,4,5) by (simp_all add: op_frame_def)
  then show ?thesis using keeps_awake_rest wake_okD(3) [OF assms(2,4)] by simp
qed (use assms in simp)

lemma leaving_after:
  assumes "wake_ok w phases" "stopped w \<Longrightarrow> stopped w'" "leaving ph \<Longrightarrow> stopped w'" "k < nshards w" "leaving ((phases(i := ph)) k)"
  shows "stopped w'"
  using assms wake_okD(2) [OF assms(1,4)] by (cases "k = i") simp_all

lemma wake_ok_op:
  assumes "wake_ok w phases" "op_frame i w w'" "i < nshards w" "ringing ph"
    and self: "at_rest ph \<Longrightarrow> r_sleeping (w_reactors w' ! i) \<or> 0 < r_wakeup (w_reactors w' ! i)"
      "ph = Waiting True \<Longrightarrow> mq_abs (r_cb_queue (w_reactors w' ! i)) = []"
  shows "wake_ok w' (phases(i := ph))"
proof (rule wake_okI)
  have n: "nshards w' = nshards w" using assms(2) by (simp add: op_frame_def)
  note st = frame_stopped_keep [OF assms(2)]
  have lv: "\<not> leaving ph" using assms(4) by (auto simp: ringing_def leaving_def)
  fix j assume "j < nshards w'"
  then have j: "j < nshards w" using n by simp
  show "r_running (w_reactors w' ! j) \<or> stopped w'" by (rule frame_running [OF assms(2,1) j])
  show "stopped w'" if "leaving ((phases(i := ph)) j)"
    by (rule leaving_after [OF assms(1) _ _ j that]) (use st lv in simp_all)
  show "r_sleeping (w_reactors w' ! j) \<or> 0 < r_wakeup (w_reactors w' ! j)" if "at_rest ((phases(i := ph)) j)"
    by (rule frame_rest [OF assms(2,1) self(1) j that])
  assume a: "(phases(i := ph)) j = Waiting True" "mq_abs (r_cb_queue (w_reactors w' ! j)) \<noteq> []" "\<not> stopped w'"
  have "j \<noteq> i" "phases j = Waiting True" using a(1,2) self(2) by (auto split: if_splits)
  moreover have "\<not> stopped w" using a(3) st by blast
  ultimately have "rung w phases j" if "mq_abs (r_cb_queue (w_reactors w ! j)) \<noteq> []"
    using wake_okD(4) [OF assms(1) j _ that] by simp
  from rung_frame [OF assms(2) a(3) j \<open>j \<noteq> i\<close> assms(4) this a(2) assms(3)]
  show "rung w' (phases(i := ph)) j" .
qed

text \<open>The steps of a server that is shutting down.\<close>

lemma wake_ok_leave:
  assumes "wake_ok w phases" "op_frame i w w'" "stopped w" "\<not> at_rest ph"
  shows "wake_ok w' (phases(i := ph))"
proof (rule wake_okI)
  have n: "nshards w' = nshards w" using assms(2) by (simp add: op_frame_def)
  have st: "stopped w'" by (rule frame_stopped_keep [OF assms(2,3)])
  fix j assume "j < nshards w'"
  then have j: "j < nshards w" using n by simp
  show "r_running (w_reactors w' ! j) \<or> stopped w'" "stopped w'" using st by simp_all
  show "r_sleeping (w_reactors w' ! j) \<or> 0 < r_wakeup (w_reactors w' ! j)" if "at_rest ((phases(i := ph)) j)"
    by (rule frame_rest [OF assms(2,1) _ j that]) (use assms(4) in simp)
  show "\<not> stopped w' \<Longrightarrow> rung w' (phases(i := ph)) j" using st by simp
qed

text \<open>The round over the marks: target \<open>k\<close> is rung if it sleeps; if not, it has been rung before.\<close>

lemma wakeup_target_fields:
  "r_soft_notify (w_reactors (fst (wakeup_target i k w)) ! j) = r_soft_notify (w_reactors w ! j)"
  "r_cb_queue (w_reactors (fst (wakeup_target i k w)) ! j) = r_cb_queue (w_reactors w ! j)"
  "nshards (fst (wakeup_target i k w)) = nshards w"
  by (simp_all add: wakeup_target_def upd_reactor_field [where g = r_soft_notify] upd_reactor_field [where g = r_cb_queue])

lemma rung_wake:
  assumes "wake_ok w phases" "world_ok w" "phases i = Waking k" "k < nshards w"
    and j: "j < nshards w" "j \<noteq> i" "phases j = Waiting True" "rung w phases j"
  shows "rung (fst (wakeup_target i k w)) (phases(i := Waking (k + 1))) j"
proof -
  let ?w = "fst (wakeup_target i k w)"
  have awake: "keeps_awake (w_reactors w ! j) (w_reactors ?w ! j)"
    using frame_wakeup_target [OF assms(2), of i k] j(1,2) by (simp add: op_frame_def)
  show ?thesis using j(4)
  proof (cases rule: rungE)
    case ring
    then show ?thesis using awake by (simp add: rung_def keeps_awake_def)
  next
    case (mark i')
    show ?thesis
    proof (cases "i' = i \<and> j = k")
      case True
      have "r_sleeping (w_reactors w ! k) \<or> 0 < r_wakeup (w_reactors w ! k)"
        using wake_okD(3) [OF assms(1) j(1)] j(3) True by simp
      moreover have "k < length (w_reactors w)" using assms(2,4) by (simp add: world_ok_def)
      ultimately have "0 < r_wakeup (w_reactors ?w ! k)"
        using mark(2) True by (auto simp: wakeup_target_def)
      then show ?thesis using True by (simp add: rung_def)
    next
      case False
      then show ?thesis using mark assms(3)
        by (intro rungI [of i']) (auto simp: wakeup_target_fields)
    qed
  qed
qed

lemma wake_ok_wake:
  assumes "wake_ok w phases" "world_ok w" "i < nshards w" "phases i = Waking k" "k < nshards w"
  shows "wake_ok (fst (wakeup_target i k w)) (phases(i := Waking (k + 1)))"
proof (rule wake_okI)
  let ?w = "fst (wakeup_target i k w)"
  note fr = frame_wakeup_target [OF assms(2), of i k]
  have st: "stopped ?w = stopped w" by (simp add: stopped_def wakeup_target_fields(3) running_wakeup_target)
  fix j assume "j < nshards ?w"
  then have j: "j < nshards w" by (simp add: wakeup_target_fields(3))
  show "r_running (w_reactors ?w ! j) \<or> stopped ?w" by (rule frame_running [OF fr assms(1) j])
  show "stopped ?w" if "leaving ((phases(i := Waking (k + 1))) j)"
    by (rule leaving_after [OF assms(1) _ _ j that]) (use st in \<open>simp_all add: leaving_def\<close>)
  show "r_sleeping (w_reactors ?w ! j) \<or> 0 < r_wakeup (w_reactors ?w ! j)" if "at_rest ((phases(i := Waking (k + 1))) j)"
    by (rule frame_rest [OF fr assms(1) _ j that]) simp
  assume a: "(phases(i := Waking (k + 1))) j = Waiting True" "mq_abs (r_cb_queue (w_reactors ?w ! j)) \<noteq> []" "\<not> stopped ?w"
  have ji: "j \<noteq> i" "phases j = Waiting True" using a(1) by (auto split: if_splits)
  have "rung w phases j" by (rule wake_okD(4) [OF assms(1) j ji(2)]) (use a(2,3) st in \<open>simp_all add: wakeup_target_fields\<close>)
  then show "rung ?w (phases(i := Waking (k + 1))) j" by (rule rung_wake [OF assms(1,2,4,5) j ji])
qed

lemma reset_fields:
  "r_running (w_reactors (BITSET64_RESET i w) ! j) = r_running (w_reactors w ! j)"
  "r_wakeup (w_reactors (BITSET64_RESET i w) ! j) = r_wakeup (w_reactors w ! j)"
  "r_sleeping (w_reactors (BITSET64_RESET i w) ! j) = r_sleeping (w_reactors w ! j)"
  "r_cb_queue (w_reactors (BITSET64_RESET i w) ! j) = r_cb_queue (w_reactors w ! j)"
  "nshards (BITSET64_RESET i w) = nshards w"
  by (simp_all add: BITSET64_RESET_def upd_reactor_field [where g = r_running] upd_reactor_field [where g = r_wakeup]
      upd_reactor_field [where g = r_sleeping] upd_reactor_field [where g = r_cb_queue])

lemma wake_ok_round_end:
  assumes "wake_ok w phases" "i < nshards w" "phases i = Waking k" "nshards w \<le> k"
  shows "wake_ok (BITSET64_RESET i w) (phases(i := Polling 0))"
proof (rule wake_okI)
  let ?w = "BITSET64_RESET i w"
  have st: "stopped ?w = stopped w" by (simp add: stopped_def reset_fields)
  fix j assume "j < nshards ?w"
  then have j: "j < nshards w" by (simp add: reset_fields)
  show "r_running (w_reactors ?w ! j) \<or> stopped ?w" using wake_okD(1) [OF assms(1) j] st by (simp add: reset_fields)
  show "stopped ?w" if "leaving ((phases(i := Polling 0)) j)"
    by (rule leaving_after [OF assms(1) _ _ j that]) (use st in \<open>simp_all add: leaving_def\<close>)
  show "r_sleeping (w_reactors ?w ! j) \<or> 0 < r_wakeup (w_reactors ?w ! j)" if "at_rest ((phases(i := Polling 0)) j)"
    using wake_okD(3) [OF assms(1) j] that by (simp add: reset_fields split: if_splits)
  assume a: "(phases(i := Polling 0)) j = Waiting True" "mq_abs (r_cb_queue (w_reactors ?w ! j)) \<noteq> []" "\<not> stopped ?w"
  have ji: "j \<noteq> i" "phases j = Waiting True" using a(1) by (auto split: if_splits)
  have "rung w phases j" by (rule wake_okD(4) [OF assms(1) j ji(2)]) (use a(2,3) st in \<open>simp_all add: reset_fields\<close>)
  then show "rung ?w (phases(i := Polling 0)) j"
  proof (cases rule: rungE)
    case ring
    then show ?thesis by (simp add: rung_def reset_fields)
  next
    case (mark i')
    then have "i' \<noteq> i" using assms(3,4) j by auto
    then show ?thesis using mark by (intro rungI [of i']) (simp_all add: reset_fields BITSET64_RESET_def)
  qed
qed

section \<open>Every step keeps the protocol\<close>

lemma pending_iff: "world_ok w \<Longrightarrow> i < nshards w \<Longrightarrow>
    reactor_has_pending_messages w i \<longleftrightarrow> mq_abs (r_cb_queue (w_reactors w ! i)) \<noteq> []"
  using mpmcq_count_length [of "r_cb_queue (w_reactors w ! i)"]
  by (auto simp: reactor_has_pending_messages_def world_ok_def reactor_ok_def word_gt_0 unat_eq_0)

lemma frame_poll:
  assumes "mpmcq_dequeue (r_cb_queue (w_reactors w ! self)) = Some (q, Some m)"
    "run_cb self m (set_queue self q w) = Some w'" "world_ok w" "self < nshards w"
  shows "op_frame self w w'"
proof -
  have n: "nshards (set_queue self q w) = nshards w" by (simp add: set_queue_def)
  have "world_ok (set_queue self q w)" "msg_ok (nshards w) self m"
    using world_ok_dequeue [OF assms(3,4,1)] by simp_all
  then have "op_frame self (set_queue self q w) w'" using frame_run_cb [OF assms(2)] assms(4) n by simp
  then show ?thesis by (rule frame_trans [rotated]) (simp add: set_queue_def frame_self)
qed

lemma wake_ok_step:
  assumes st: "thread_step i (w, phases i) (w', ph)" and wk: "wake_ok w phases" and w: "world_ok w" "i < nshards w"
  shows "wake_ok w' (phases(i := ph))"
proof -
  note op = wake_ok_op [OF wk _ w(2)] and same = wake_ok_op [OF wk frame_refl w(2)]
  have queue: "op_frame i w (set_queue i q w)" "op_frame i w (set_sleeping i b w)" for q b
    by (simp_all add: set_queue_def set_sleeping_def frame_self)
  show ?thesis using st
  proof (cases rule: thread_step.cases)
    case head_stop
    then have "stopped w" using wake_okD(1) [OF wk w(2)] by simp
    then show ?thesis using wake_ok_leave [OF wk frame_refl] head_stop by simp
  next
    case (flush_write k p c rv c' e)
    have "op_frame i w (upd_conn p c' (set_write_errno i (Some rv) e w))"
      by (rule frame_conn_after) (simp add: frame_write_errno)
    then show ?thesis unfolding flush_write(2,3) by (rule op) simp_all
  next
    case wake
    then show ?thesis using wake_ok_wake [OF wk w(1,2)] by metis
  next
    case wake_end
    then show ?thesis using wake_ok_round_end [OF wk w(2)] by metis
  next
    case poll_message
    show ?thesis unfolding poll_message(2)
      by (rule op [OF frame_poll [OF poll_message(3,5) w]]) (simp_all split: if_splits)
  next
    case poll_empty
    show ?thesis unfolding poll_empty(2,3) by (rule op [OF queue(1)]) (simp_all split: if_splits)
  next
    case callback
    show ?thesis unfolding callback(2)
      by (rule op [OF frame_on_data_available [OF callback(4) w(1) callback(3) w(2)]]) (simp_all split: if_splits)
  next
    case sleep
    have "r_sleeping (w_reactors (set_sleeping i True w) ! i)"
      using w by (simp add: set_sleeping_def world_ok_def)
    then show ?thesis unfolding sleep(2,3) by (intro op [OF queue(2)]) simp_all
  next
    case check_pending
    show ?thesis unfolding check_pending(2,3) by (rule op [OF queue(2)]) simp_all
  next
    case check_none
    have "at_rest (phases i)" using check_none(1) by simp
    then show ?thesis unfolding check_none(2,3)
      using wake_okD(3) [OF wk w(2)] pending_iff [OF w] check_none(4) by (intro same) simp_all
  next
    case (woken blocking res)
    have "op_frame i w (if blocking then set_sleeping i False w else w)" using queue(2) frame_refl by simp
    then show ?thesis unfolding woken(2,3) by (intro op) (simp_all split: option.splits)
  next
    case accept
    show ?thesis unfolding accept(2,3) by (rule op [OF frame_accept]) simp_all
  next
    case wait_interrupted
    show ?thesis unfolding wait_interrupted(2,3) by (rule op [OF frame_self]) simp_all
  next
    case wakeup_read
    show ?thesis unfolding wakeup_read(2,3) by (rule op [OF frame_self]) simp_all
  next
    case (readable fd p c rv c' go)
    have "op_frame i w (upd_conn p c' (set_read_errno i rv w))"
      by (rule frame_conn_after) (simp add: set_read_errno_def frame_self frame_refl split: sum.splits)
    then show ?thesis unfolding readable(2,3) by (intro op) (simp_all split: if_splits)
  next
    case request
    show ?thesis unfolding request(2)
      by (rule op [OF frame_on_data_available [OF request(4) w(1) request(3) w(2)]]) (simp_all split: if_splits)
  next
    case finish
    show ?thesis unfolding finish(2,3) by (rule op [OF frame_trans [OF frame_finish [OF finish(4)] frame_write_errno]]) simp_all
  next
    case (close_next k)
    have "leaving (phases i)" using close_next(1) by (simp add: leaving_def)
    then have "stopped w" using wake_okD(2) [OF wk w(2)] by simp
    moreover have "op_frame i w w'" using close_next(4) frame_close frame_refl by (auto split: option.splits)
    ultimately show ?thesis unfolding close_next(2) by (intro wake_ok_leave [OF wk]) simp_all
  next
    case (close_end k)
    have "leaving (phases i)" using close_end(1) by (simp add: leaving_def)
    then have "stopped w" using wake_okD(2) [OF wk w(2)] by simp
    then show ?thesis unfolding close_end(2,3) by (intro wake_ok_leave [OF wk frame_refl]) simp_all
  qed (auto intro: same)
qed

lemma wake_ok_start:
  assumes "w_reactors w = map reactor_init [0..<nshards w]"
  shows "wake_ok w (\<lambda>_. Loop_head)"
  using assms by (auto simp: wake_ok_def reactor_init_def leaving_def)

lemma reachable_wake_ok: "reachable s \<Longrightarrow> wake_ok (fst s) (snd s)"
proof (induction rule: reachable.induct)
  case (start seeds w)
  obtain w0 where "init_world seeds = Some w0" "w_reactors w0 = map reactor_init [0..<4]" "nshards w0 = 4"
    by (rule init_world_ok [of seeds], rule that, assumption+)
  then show ?case using start wake_ok_start by simp
next
  case (step s s')
  from step.hyps(2) show ?case
  proof cases
    case (1 i w phases w' phase)
    have "wake_ok w phases" "world_ok w" using 1(1) step.IH reachable_world_ok [OF step.hyps(1)] by simp_all
    from wake_ok_step [OF 1(4) this 1(3)] show ?thesis unfolding 1(2) fst_conv snd_conv .
  qed
qed

end
