(* ===== verification/Runs.thy ===== *)
theory Runs
  imports Connections Wakeup
begin

text \<open>
  Runs of one thread of the server, used by the witnesses: a turn with nothing to do, accepting a
  connection and reading its first bytes, and leaving the loop. A run of a thread from a reachable
  state ends in a reachable state.
\<close>

section \<open>Turns\<close>

lemma reachable_thread:
  assumes "(thread_step i)\<^sup>*\<^sup>* s t" "reachable (fst s, phases)" "i < nshards (fst s)" "phases i = snd s"
  shows "reachable (fst t, phases(i := snd t)) \<and> nshards (fst t) = nshards (fst s)"
  using assms
proof (induction rule: rtranclp_induct)
  case base
  then show ?case by (metis fun_upd_triv)
next
  case (step t u)
  then have t: "reachable (fst t, phases(i := snd t))" "nshards (fst t) = nshards (fst s)"
    using step.IH [OF step.prems] by blast+
  have "thread_step i (fst t, (phases(i := snd t)) i) (fst u, snd u)" using step.hyps(2) by simp
  then have "server_step (fst t, phases(i := snd t)) (fst u, (phases(i := snd t))(i := snd u))"
    using server_step.intros [of i "fst t" "phases(i := snd t)" "fst u" "snd u"] t(2) step.prems(2) by simp
  moreover have "nshards (fst u) = nshards (fst t)"
    using thread_step_ok [of i "fst t" "snd t" "fst u" "snd u"] step.hyps(2) reachable_world_ok [OF t(1)] t(2) step.prems(2)
    by simp
  ultimately show ?case using reachable.step [OF t(1)] t(2) by (metis fun_upd_upd)
qed

text \<open>A thread that starts with no connection, no mark and no message reaches its blocking wait.\<close>

lemma upd_reactor_id: "f (w_reactors w ! i) = w_reactors w ! i \<Longrightarrow> upd_reactor i f w = w"
  by (simp add: upd_reactor_def)

lemma sleep_and_wake: "\<not> r_sleeping (w_reactors w ! i) \<Longrightarrow> set_sleeping i False (set_sleeping i True w) = w"
  by (cases "i < length (w_reactors w)")
     (simp_all add: set_sleeping_def upd_reactor_def list_update_beyond list_update_same_conv)

definition nothing_pending :: "world \<Rightarrow> nat \<Rightarrow> bool" where
  "nothing_pending w i \<longleftrightarrow> (\<forall>k < length (r_conns (w_reactors w ! i)). conn_at w i k = None \<or>
     (\<exists>p c. conn_at w i k = Some p \<and> w_conns w p = Some c \<and> c_send_buf_size c = 0))"

text \<open>The steps that neither wait for the kernel nor count a message.\<close>

definition calm_step :: "nat \<Rightarrow> world \<times> phase \<Rightarrow> world \<times> phase \<Rightarrow> bool" where
  "calm_step i s t \<longleftrightarrow> thread_step i s t \<and> (\<forall>blocking. snd s \<noteq> Waiting blocking) \<and> (\<forall>cnt. snd t = Polling cnt \<longrightarrow> cnt = 0)"

lemma calm_flush_run:
  assumes "nothing_pending w i" "k + d = length (r_conns (w_reactors w ! i))"
  shows "(calm_step i)\<^sup>*\<^sup>* (w, Flushing k) (w, Waking 0)"
  using assms(2)
proof (induction d arbitrary: k)
  case 0
  then show ?case using flush_end [of w i k] by (intro r_into_rtranclp) (simp add: calm_step_def)
next
  case (Suc d)
  then have "conn_at w i k = None \<or> (\<exists>p c. conn_at w i k = Some p \<and> w_conns w p = Some c \<and> c_send_buf_size c = 0)"
    using assms(1) by (simp add: nothing_pending_def)
  then have "calm_step i (w, Flushing k) (w, Flushing (k + 1))"
    using Suc.prems flush_none [of k w i] flush_done [of w i k] by (auto simp: calm_step_def)
  moreover have "(calm_step i)\<^sup>*\<^sup>* (w, Flushing (k + 1)) (w, Waking 0)" using Suc by simp
  ultimately show ?case by (rule converse_rtranclp_into_rtranclp)
qed

text \<open>A round over the marks rings nobody when no marked reactor sleeps.\<close>

definition nobody_to_ring :: "world \<Rightarrow> nat \<Rightarrow> bool" where
  "nobody_to_ring w i \<longleftrightarrow>
    (\<forall>k < nshards w. BITSET64_GET (r_soft_notify (w_reactors w ! i)) k \<longrightarrow> \<not> r_sleeping (w_reactors w ! k))"

lemma unmarked: "r_soft_notify (w_reactors w ! i) = 0 \<Longrightarrow> nobody_to_ring w i \<and> BITSET64_RESET i w = w"
  by (simp add: nobody_to_ring_def BITSET64_GET_def BITSET64_RESET_def upd_reactor_id)

lemma calm_wake_run:
  assumes "nobody_to_ring w i" "k + d = nshards w"
  shows "(calm_step i)\<^sup>*\<^sup>* (w, Waking k) (BITSET64_RESET i w, Polling 0)"
  using assms(2)
proof (induction d arbitrary: k)
  case 0
  then show ?case using wake_end [of w k i] by (intro r_into_rtranclp) (simp add: calm_step_def)
next
  case (Suc d)
  then have "wakeup_target i k w = (w, False)" using assms(1) by (auto simp: wakeup_target_def nobody_to_ring_def)
  then have "calm_step i (w, Waking k) (w, Waking (k + 1))" using wake [of k w i] Suc by (simp add: calm_step_def)
  moreover have "(calm_step i)\<^sup>*\<^sup>* (w, Waking (k + 1)) (BITSET64_RESET i w, Polling 0)" using Suc by simp
  ultimately show ?case by (rule converse_rtranclp_into_rtranclp)
qed

lemma calm_poll_run:
  assumes "nothing_pending w i" "k \<le> length (r_conns (w_reactors w ! i))" "nobody_to_ring w i"
  shows "(calm_step i)\<^sup>*\<^sup>* (w, Flushing k) (BITSET64_RESET i w, Polling 0)"
proof -
  have "(calm_step i)\<^sup>*\<^sup>* (w, Flushing k) (w, Waking 0)"
    by (rule calm_flush_run [OF assms(1), of k "length (r_conns (w_reactors w ! i)) - k"]) (use assms(2) in simp)
  moreover have "(calm_step i)\<^sup>*\<^sup>* (w, Waking 0) (BITSET64_RESET i w, Polling 0)" by (rule calm_wake_run [OF assms(3)]) simp
  ultimately show ?thesis by simp
qed

lemma calm_poll_idle:
  assumes w: "world_ok w" "i < nshards w" and q: "mq_abs (r_cb_queue (w_reactors w ! i)) = []"
  shows "calm_step i (w, Polling 0) (w, Idle)"
proof -
  let ?q = "r_cb_queue (w_reactors w ! i)"
  have "mq_rep ?q []" using w q mq_inv_rep [of ?q] by (simp add: world_ok_def reactor_ok_def)
  then have "thread_step i (w, Polling 0) (set_queue i ?q w, if 0 < (0 :: u64) then Waiting False else Idle)"
    by (intro poll_empty mpmcq_dequeue_empty)
  moreover have "set_queue i ?q w = w" unfolding set_queue_def by (rule upd_reactor_id) simp
  ultimately show ?thesis by (simp add: calm_step_def)
qed

lemma calm_sleep_run:
  assumes w: "world_ok w" "i < nshards w" and q: "mq_abs (r_cb_queue (w_reactors w ! i)) = []"
  shows "(calm_step i)\<^sup>*\<^sup>* (w, Polling 0) (set_sleeping i True w, Waiting True)"
proof -
  let ?w = "set_sleeping i True w"
  note poll = calm_poll_idle [OF w q]
  have idle: "calm_step i (w, Idle) (?w, Checking)" by (simp add: calm_step_def sleep)
  have "world_ok ?w" "i < nshards ?w" using set_sleeping_ok [OF w] w(2) by simp_all
  moreover have "mq_abs (r_cb_queue (w_reactors ?w ! i)) = []"
    using q by (simp add: set_sleeping_def upd_reactor_field [where g = r_cb_queue])
  ultimately have check: "calm_step i (?w, Checking) (?w, Waiting True)"
    using pending_iff by (auto simp: calm_step_def intro: check_none)
  show ?thesis using poll idle check by (meson r_into_rtranclp rtranclp.rtrancl_into_rtrancl)
qed

lemma calm_idle_run:
  assumes w: "world_ok w" "i < nshards w" and r: "r_running (w_reactors w ! i)"
    "r_soft_notify (w_reactors w ! i) = 0" "mq_abs (r_cb_queue (w_reactors w ! i)) = []" "nothing_pending w i"
  shows "(calm_step i)\<^sup>*\<^sup>* (w, Loop_head) (set_sleeping i True w, Waiting True)"
proof -
  have head: "calm_step i (w, Loop_head) (w, Flushing 0)" by (simp add: calm_step_def head_run [OF r(1)])
  have "(calm_step i)\<^sup>*\<^sup>* (w, Flushing 0) (w, Polling 0)" using calm_poll_run [OF r(4), of 0] unmarked [OF r(2)] by simp
  also have "(calm_step i)\<^sup>*\<^sup>* (w, Polling 0) (set_sleeping i True w, Waiting True)" by (rule calm_sleep_run [OF w r(3)])
  finally show ?thesis using head by (rule converse_rtranclp_into_rtranclp [rotated])
qed

lemma calm_run: "(calm_step i)\<^sup>*\<^sup>* s t \<Longrightarrow> (thread_step i)\<^sup>*\<^sup>* s t"
  by (erule rtranclp_mono [THEN predicate2D, rotated]) (auto simp: calm_step_def)

lemmas idle_run = calm_idle_run [THEN calm_run]

lemma accept_read:
  assumes "length bs \<le> MESSAGE_MAX_LENGTH" "bs \<noteq> []" "base < 2 ^ 63"
  obtains c where "on_epollin_read (Inr bs) (on_accept i fd base) = Some (c, True)" "conn_ok c" "received c = bs"
    "c_flags c = 0" "c_shard_id c = i" "c_db c = 0" "c_send_buf_size c = 0" "pending c = []"
proof -
  let ?a = "on_accept i fd base"
  let ?c = "?a\<lparr>c_recv_buf := bs @ drop (length bs) (replicate MESSAGE_MAX_LENGTH 0), c_recv_buf_size := length bs\<rparr>"
  have read: "on_epollin_read (Inr bs) ?a = Some (?c, True)"
    using assms(1,2) by (simp add: on_epollin_read_def on_accept_def compact_def Let_def)
       (simp add: MESSAGE_MAX_LENGTH_def)
  moreover have "conn_ok ?c" by (rule on_epollin_read_ok [OF read on_accept_ok [OF assms(3)]])
  moreover have "received ?c = bs" by (simp add: received_def on_accept_def)
  ultimately show thesis by (intro that [of ?c]) (simp_all add: on_accept_def pending_def)
qed

section \<open>Accepting a connection\<close>

text \<open>
  A thread with nothing to do accepts a connection, goes to sleep, and is woken by the bytes the
  connection sends.
\<close>

lemma accept_request_run:
  assumes w: "world_ok w" "i < nshards w" and r: "r_running (w_reactors w ! i)" "r_soft_notify (w_reactors w ! i) = 0"
    "mq_abs (r_cb_queue (w_reactors w ! i)) = []" "nothing_pending w i" "r_sleeping (w_reactors w ! i)"
    and new: "fd_free w fd" "w_conns w p = None" "(base :: u64) < 2 ^ 63"
    and bs: "length bs \<le> MESSAGE_MAX_LENGTH" "bs \<noteq> []"
  obtains w' c where "(thread_step i)\<^sup>*\<^sup>* (w, Loop_head) (w', Reading p None hup [])" "world_ok w'"
    "w_shards w' = w_shards w" "w_conns w' = (w_conns w)(p \<mapsto> c)" "received c = bs" "c_flags c = 0" "c_shard_id c = i"
    "c_db c = 0" "c_send_buf_size c = 0" "pending c = []" "conn_ok c" "c_fd c = fd"
    "\<And>k. conn_at w' i k = (if k = fd then Some p else conn_at w i k)"
    "\<And>j. j \<noteq> i \<Longrightarrow> w_reactors w' ! j = w_reactors w ! j"
    "r_running (w_reactors w' ! i)" "r_cb_queue (w_reactors w' ! i) = r_cb_queue (w_reactors w ! i)"
    "r_soft_notify (w_reactors w' ! i) = 0" "\<not> r_sleeping (w_reactors w' ! i)"
    "r_wakeup (w_reactors w' ! i) = r_wakeup (w_reactors w ! i)"
proof -
  let ?ready = "Ready fd (Some (Inr bs)) None hup" and ?new = "Listener fd p base"
  define w1 where "w1 = set_sleeping i False w"
  define w2 where "w2 = accept_conn i fd p base w1"
  have len: "i < length (w_reactors w)" using w by (simp add: world_ok_def)
  have sleep: "set_sleeping i True w = w" unfolding set_sleeping_def using r(5) by (intro upd_reactor_id) simp
  have ok1: "world_ok w1" "i < nshards w1" using set_sleeping_ok [OF w] w(2) by (simp_all add: w1_def)
  have ok2: "world_ok w2" "i < nshards w2" using accept_conn_ok [OF ok1 new(3)] ok1(2) by (simp_all add: w2_def)
  have at1: "conn_at w1 = conn_at w"
    by (simp add: w1_def set_sleeping_def conn_at_def fun_eq_iff upd_reactor_field [where g = r_conns])
  have at2: "conn_at w2 i k = (if k = fd then Some p else conn_at w i k)" for k
    using accept_ids(2) [OF ok1] at1 by (simp add: w2_def)
  have r2: "r_running (w_reactors w2 ! i)" "r_soft_notify (w_reactors w2 ! i) = 0"
    "r_cb_queue (w_reactors w2 ! i) = r_cb_queue (w_reactors w ! i)" "\<not> r_sleeping (w_reactors w2 ! i)"
    "r_wakeup (w_reactors w2 ! i) = r_wakeup (w_reactors w ! i)"
    using r(1,2) len by (simp_all add: w2_def w1_def accept_conn_def set_fd_options_def set_sleeping_def reactor_conn_emplace_def Let_def)
  have id: "r_id (w_reactors w1 ! i) = i" using world_ok_reactor_id [OF ok1] .
  have conns2: "w_conns w2 = (w_conns w)(p \<mapsto> on_accept i fd base)"
    using id by (simp add: w2_def accept_conn_def set_fd_options_def upd_conn_def) (simp add: w1_def set_sleeping_def)
  have idle2: "nothing_pending w2 i"
    unfolding nothing_pending_def
  proof (intro allI impI)
    fix k assume "k < length (r_conns (w_reactors w2 ! i))"
    have old: "conn_at w i k = None \<or> (\<exists>q c. conn_at w i k = Some q \<and> w_conns w q = Some c \<and> c_send_buf_size c = 0)"
      using r(4) by (cases "k < length (r_conns (w_reactors w ! i))") (auto simp: nothing_pending_def conn_at_def)
    show "conn_at w2 i k = None \<or> (\<exists>q c. conn_at w2 i k = Some q \<and> w_conns w2 q = Some c \<and> c_send_buf_size c = 0)"
    proof (cases "k = fd")
      case True
      then show ?thesis using at2 conns2 by (simp add: on_accept_def)
    next
      case False
      then show ?thesis using old at2 conns2 new(2) by auto
    qed
  qed
  obtain c where c: "on_epollin_read (Inr bs) (on_accept i fd base) = Some (c, True)" "conn_ok c" "received c = bs"
    "c_flags c = 0" "c_shard_id c = i" "c_db c = 0" "c_send_buf_size c = 0" "pending c = []"
    by (rule accept_read [OF bs new(3), of i fd], rule that, assumption+)
  have "(thread_step i)\<^sup>*\<^sup>* (w, Loop_head) (w, Waiting True)" using idle_run [OF w r(1-4)] sleep by simp
  also have "(thread_step i)\<^sup>*\<^sup>* (w, Waiting True) (w, Woken True (Some [?new]))"
    by (rule r_into_rtranclp, rule wait_events) (simp_all add: registered_def)
  also have "(thread_step i)\<^sup>*\<^sup>* (w, Woken True (Some [?new])) (w1, Handling [?new])"
    using woken [of i w True "Some [?new]"] by (intro r_into_rtranclp) (simp add: w1_def)
  also have "(thread_step i)\<^sup>*\<^sup>* (w1, Handling [?new]) (w2, Handling [])"
    unfolding w2_def using new at1
    by (intro r_into_rtranclp accept) (simp_all add: fd_free_def w1_def set_sleeping_def)
  also have "(thread_step i)\<^sup>*\<^sup>* (w2, Handling []) (w2, Loop_head)" by (intro r_into_rtranclp events_end)
  also have "(thread_step i)\<^sup>*\<^sup>* (w2, Loop_head) (set_sleeping i True w2, Waiting True)"
    using r2(3) r(3) by (intro idle_run [OF ok2 r2(1,2) _ idle2]) simp
  also have "(thread_step i)\<^sup>*\<^sup>* (set_sleeping i True w2, Waiting True) (set_sleeping i True w2, Woken True (Some [?ready]))"
    using at2 [of fd] by (intro r_into_rtranclp wait_events)
      (simp_all add: registered_def conn_at_def set_sleeping_def upd_reactor_field [where g = r_conns])
  also have "(thread_step i)\<^sup>*\<^sup>* (set_sleeping i True w2, Woken True (Some [?ready])) (w2, Handling [?ready])"
    using woken [of i "set_sleeping i True w2" True "Some [?ready]"] sleep_and_wake [OF r2(4)]
    by (intro r_into_rtranclp) simp
  also have "(thread_step i)\<^sup>*\<^sup>* (w2, Handling [?ready]) (upd_conn p c w2, Reading p None hup [])"
    using readable [of w2 i fd p "on_accept i fd base" "Inr bs" c True None hup "[]"] at2 [of fd] conns2 c(1)
    by (intro r_into_rtranclp) (simp add: set_read_errno_def)
  finally have run: "(thread_step i)\<^sup>*\<^sup>* (w, Loop_head) (upd_conn p c w2, Reading p None hup [])" .
  have "c_fd c = fd" using id_on_epollin_read [OF c(1)] by (simp add: same_id_def on_accept_def)
  moreover have "w_shards (upd_conn p c w2) = w_shards w" by (simp add: w2_def w1_def accept_conn_def set_fd_options_def set_sleeping_def)
  moreover have "w_conns (upd_conn p c w2) = (w_conns w)(p \<mapsto> c)" using conns2 by (simp add: upd_conn_def)
  moreover have "conn_at (upd_conn p c w2) i k = (if k = fd then Some p else conn_at w i k)" for k
    using at2 by (simp add: conn_at_def)
  moreover have "w_reactors (upd_conn p c w2) ! j = w_reactors w ! j" if "j \<noteq> i" for j
    using that by (simp add: w2_def w1_def accept_conn_def set_fd_options_def set_sleeping_def)
  ultimately show thesis
    using that [OF run world_ok_upd_conn [OF ok2(1) c(2)], of c] c r2 by simp
qed

section \<open>Leaving the loop\<close>

lemma close_run:
  assumes "\<And>k. conn_at w i k = None"
  shows "(thread_step i)\<^sup>*\<^sup>* (w, Closing k) (w, Stopped)"
proof (induction "length (r_conns (w_reactors w ! i)) - k" arbitrary: k)
  case 0
  then show ?case by (intro r_into_rtranclp close_end) simp
next
  case (Suc d)
  then have "thread_step i (w, Closing k) (w, Closing (k + 1))" using assms by (intro close_next) simp_all
  moreover have "(thread_step i)\<^sup>*\<^sup>* (w, Closing (k + 1)) (w, Stopped)" using Suc by simp
  ultimately show ?case by (rule converse_rtranclp_into_rtranclp)
qed

end
