(* ===== verification/Requests.thy ===== *)
theory Requests
  imports Invariants
begin

text \<open>
  A request from the wire to its reply: what \<^verbatim>\<open>on_data_available\<close> does with a well-formed
  keyed request, on the shard that owns the key and across shards.
\<close>

section \<open>Replies\<close>

definition reply_of :: "keyed_res \<Rightarrow> bytes" where
  "reply_of res =
    (case res of
       ResEntry (Some e) \<Rightarrow> resp_bulk (e_val e)
     | ResEntry None \<Rightarrow> resp_null
     | ResOK \<Rightarrow> resp_simple (bstr ''OK'')
     | ResInt v \<Rightarrow> resp_integer v)"

definition can_reply :: "conn \<Rightarrow> bytes \<Rightarrow> bool" where
  "can_reply c out \<longleftrightarrow> c_send_buf_size c + length out < MESSAGE_MAX_LENGTH"

lemma sprintf_reply:
  "conn_ok c \<Longrightarrow> can_reply c out \<Longrightarrow> \<exists>c'. send_sprintf c out = Some c' \<and> replied c out c'"
  using send_sprintf_ok by (metis can_reply_def)

lemma writers_as_sprintf:
  "write_simple_string c (bstr ''OK'') 2 = send_sprintf c (resp_simple (bstr ''OK''))"
  "write_null_bulk_string c = send_sprintf c resp_null"
  "write_integer c v = send_sprintf c (resp_integer v)"
  by (simp_all add: write_simple_string_def resp_simple_def write_null_bulk_string_def resp_null_def
      write_integer_def resp_integer_def fmt_prec_s_def of_char_def)

lemma resp_op_replies:
  assumes "conn_ok c" "can_reply c (reply_of res)"
  obtains c' where "resp_op c res = Some c'" "replied c (reply_of res) c'"
proof (cases res)
  case (ResEntry e)
  show thesis
  proof (cases e)
    case None
    then show thesis using ResEntry sprintf_reply [OF assms] that
      by (auto simp: resp_op_def reply_of_def writers_as_sprintf)
  next
    case (Some x)
    then have "c_send_buf_size c + length (resp_bulk (e_val x)) \<le> MESSAGE_MAX_LENGTH"
      using ResEntry assms(2) by (simp add: can_reply_def reply_of_def)
    from write_bulk_string_ok [OF assms(1) this] show thesis
      using that ResEntry Some by (auto simp: resp_op_def reply_of_def)
  qed
qed (use sprintf_reply [OF assms] that in \<open>auto simp: resp_op_def reply_of_def writers_as_sprintf simp del: bstr_Cons\<close>)

section \<open>Parsing and dispatch\<close>

lemma parse_request_star:
  assumes "conn_ok c" "received c = bs @ ys" "bs \<noteq> []" "hd bs = 42"
  shows "parse_request c = parse_resp_request c"
proof -
  obtain rest where d: "drop (c_recv_buf_read c) (c_recv_buf c) = bs @ rest"
    by (rule received_drop [OF assms(1,2)], rule that, assumption+)
  have len: "c_recv_buf_read c < length (c_recv_buf c)"
    using arg_cong [OF d, of length] assms(3) by (cases bs) simp_all
  have "c_recv_buf c ! c_recv_buf_read c = 42"
    using arg_cong [OF d, of hd] len assms(3,4) by (simp add: hd_drop_conv_nth)
  moreover have "length (c_recv_buf c) = MESSAGE_MAX_LENGTH" using assms(1) by (simp add: conn_ok_def)
  moreover have "unat (of_nat (c_recv_buf_read c) :: u64) = c_recv_buf_read c"
    using len calculation(2) by (intro unat_of_nat_64) (simp add: MESSAGE_MAX_LENGTH_def)
  ultimately show ?thesis using len by (simp add: parse_request_def peek_def)
qed

lemma resp_encode_hd: "resp_encode ss \<noteq> []" "hd (resp_encode ss) = 42"
  by (simp_all add: resp_encode_def of_char_def)

lemma consume_request:
  assumes "conn_ok c" "received c = req @ ys" "c_flags c AND END = 0"
  obtains c' where "consume (of_nat (length req)) c = (c', ys \<noteq> [])" "received c' = ys" "conn_ok c'"
    "pending c' = pending c" "c_flags c' = c_flags c" "c_db c' = c_db c"
proof -
  have len: "length req + length ys = c_recv_buf_size c"
    using arg_cong [OF assms(2), of length] length_received [OF assms(1)] by simp
  have small: "c_recv_buf_size c < 2 ^ 64" using assms(1) by (simp add: conn_ok_def MESSAGE_MAX_LENGTH_def)
  have u: "unat (of_nat (length req) :: u64) = length req" "unat (of_nat (c_recv_buf_size c) :: u64) = c_recv_buf_size c"
    using len small by (simp_all add: unat_of_nat_64)
  let ?c' = "c\<lparr>c_recv_buf_read := c_recv_buf_read c + length req, c_recv_buf_size := length ys\<rparr>"
  have nl: "\<not> of_nat (c_recv_buf_size c) < (of_nat (length req) :: u64)"
    using len by (simp add: word_less_nat_alt u)
  have diff: "c_recv_buf_size c - length req = length ys" using len by simp
  have "consume (of_nat (length req)) c = (?c', ys \<noteq> [])"
    unfolding consume_def Let_def using assms(3) nl by (simp add: u diff)
  moreover have "received ?c' = ys"
  proof -
    have "received ?c' = take (length ys) (drop (length req) (drop (c_recv_buf_read c) (c_recv_buf c)))"
      by (simp add: received_def add.commute)
    also have "\<dots> = drop (length req) (received c)"
      by (simp add: received_def drop_take add.commute flip: diff)
    finally show ?thesis using assms(2) by simp
  qed
  moreover have "conn_ok ?c'" "pending ?c' = pending c"
    using assms(1) len by (simp_all add: conn_ok_def pending_def)
  ultimately show thesis by (intro that [of ?c']) simp_all
qed

text \<open>The keyed requests and their operations.\<close>

fun request_op :: "bytes list \<Rightarrow> (command_func \<times> keyed_op) option" where
  "request_op [name, key] =
    (if name = bstr ''GET'' then Some (Cmd_get, OpGet)
     else if name = bstr ''DEL'' then Some (Cmd_del, OpDel)
     else if name = bstr ''INCR'' then Some (Cmd_incr, OpModify 1)
     else if name = bstr ''DECR'' then Some (Cmd_decr, OpModify (- 1))
     else None)"
| "request_op [name, key, val] =
    (if name = bstr ''SET'' then Some (Cmd_set, OpSet val)
     else case signed_value val of
       None \<Rightarrow> None
     | Some d \<Rightarrow>
        if sint d < 0 then None
        else if name = bstr ''INCRBY'' then Some (Cmd_incrby, OpModify d)
        else if name = bstr ''DECRBY'' then Some (Cmd_decrby, OpModify (- d))
        else None)"
| "request_op _ = None"

fun_cases request_op_someE: "request_op ss = Some x"

lemma table_find:
  "find (\<lambda>c. cm_name c = bstr ''GET'') command_table = Some \<lparr>cm_name = bstr ''GET'', cm_arity = 1, cm_func = Some Cmd_get\<rparr>"
  "find (\<lambda>c. cm_name c = bstr ''DEL'') command_table = Some \<lparr>cm_name = bstr ''DEL'', cm_arity = 1, cm_func = Some Cmd_del\<rparr>"
  "find (\<lambda>c. cm_name c = bstr ''INCR'') command_table = Some \<lparr>cm_name = bstr ''INCR'', cm_arity = 1, cm_func = Some Cmd_incr\<rparr>"
  "find (\<lambda>c. cm_name c = bstr ''DECR'') command_table = Some \<lparr>cm_name = bstr ''DECR'', cm_arity = 1, cm_func = Some Cmd_decr\<rparr>"
  "find (\<lambda>c. cm_name c = bstr ''SET'') command_table = Some \<lparr>cm_name = bstr ''SET'', cm_arity = 2, cm_func = Some Cmd_set\<rparr>"
  "find (\<lambda>c. cm_name c = bstr ''INCRBY'') command_table = Some \<lparr>cm_name = bstr ''INCRBY'', cm_arity = 2, cm_func = Some Cmd_incrby\<rparr>"
  "find (\<lambda>c. cm_name c = bstr ''DECRBY'') command_table = Some \<lparr>cm_name = bstr ''DECRBY'', cm_arity = 2, cm_func = Some Cmd_decrby\<rparr>"
  by (simp_all add: command_table_def of_char_def)

lemma request_op_found:
  assumes "request_op ss = Some (f, oper)"
  obtains cmd where "find (\<lambda>c. cm_name c = ss ! 0) command_table = Some cmd" "cm_func cmd = Some f"
    "cm_arity cmd = of_nat (length ss) - 1" "1 < length ss" "length ss \<le> 3" "key_ok (ss ! 0)"
  using assms table_find
  by (elim request_op_someE) (auto simp: key_ok_def of_char_def split: if_splits option.splits)

text \<open>An argument as the number parser reads it.\<close>

definition arg_value :: "conn \<Rightarrow> cmd_args \<Rightarrow> nat \<Rightarrow> u64 option option" where
  "arg_value c args i = try_parse_signed_integer (arg_memory c args i) (unat (a_lens args ! i))"

lemma request_op_vars:
  assumes "request_op ss = Some (f, oper)" "\<And>i. i < length ss \<Longrightarrow> arg_bytes c args i = Some (ss ! i)"
    and num: "\<And>i. i < length ss \<Longrightarrow> arg_value c args i = Some (signed_value (ss ! i))"
  shows "cmd_vars f c args sid = Some (Inr oper)"
proof -
  have 2: "arg_bytes c args 2 = Some (ss ! 2) \<and> arg_value c args 2 = Some (signed_value (ss ! 2))" if "length ss = 3"
    using assms(2) [of 2] num [of 2] that by simp
  show ?thesis using assms(1) 2
    by (elim request_op_someE) (auto simp: cmd_vars_def delta_vars_def arg_value_def split: if_splits option.splits)
qed

lemma request_op_call: "request_op ss = Some (f, oper) \<Longrightarrow> call_command f self p args w = keyed_command f self p args w"
  by (elim request_op_someE) (auto simp: call_command_def split: if_splits option.splits)

lemma request_value:
  assumes "conn_ok c" "received c = resp_encode ss @ ys"
    and arg: "\<And>i. i < length ss \<Longrightarrow> a_lens args ! i = of_nat (length (ss ! i)) \<and> arg_bytes c args i = Some (ss ! i)"
    and follow: "\<And>i. i < length ss \<Longrightarrow> \<exists>r. drop (unat (a_buf args + a_offsets args ! i)) (c_recv_buf c) = ss ! i @ crlf @ r"
    and i: "i < length ss"
  shows "arg_value c args i = Some (signed_value (ss ! i))"
proof -
  obtain r where r: "arg_memory c args i = ss ! i @ crlf @ r" using follow [OF i] by (auto simp: arg_memory_def)
  have "length (ss ! i) \<le> length (arg_memory c args i)" unfolding r by simp
  also have "\<dots> \<le> MESSAGE_MAX_LENGTH" using assms(1) by (simp add: arg_memory_def conn_ok_def)
  finally have "unat (a_lens args ! i) = length (ss ! i)" using arg [OF i] by (simp add: unat_of_nat_64 MESSAGE_MAX_LENGTH_def)
  then show ?thesis using r try_parse_value [of "ss ! i" r] by (simp add: arg_value_def)
qed

text \<open>A well-formed request whose command is in the table, with the right number of arguments.\<close>

lemma dispatch_command:
  assumes "world_ok w" "w_conns w p = Some c" "received c = resp_encode ss @ ys"
    and cmd: "find (\<lambda>c. cm_name c = ss ! 0) command_table = Some cmd" "cm_func cmd = Some f"
      "cm_arity cmd = of_nat (length ss) - 1" "0 < length ss" "length ss \<le> 64" "key_ok (ss ! 0)"
  obtains args where "parse_request c = PARSE_OK args" "0 < a_argc args"
    "a_len args = of_nat (length (resp_encode ss))" "\<And>i. i < length ss \<Longrightarrow> arg_bytes c args i = Some (ss ! i)"
    "\<And>i. i < length ss \<Longrightarrow> arg_value c args i = Some (signed_value (ss ! i))"
    "handle_command self p args w = call_command f self p args w"
proof -
  note ck = world_ok_conn [OF assms(1,2)]
  have ne: "ss \<noteq> []" using cmd(4) by simp
  obtain args where
    a: "parse_resp_request c = PARSE_OK args" "a_argc args = of_nat (length ss)"
      "a_len args = of_nat (length (resp_encode ss))"
      "\<And>i. i < length ss \<Longrightarrow> a_lens args ! i = of_nat (length (ss ! i)) \<and> arg_bytes c args i = Some (ss ! i)"
      "\<And>i. i < length ss \<Longrightarrow> \<exists>r. drop (unat (a_buf args + a_offsets args ! i)) (c_recv_buf c) = ss ! i @ crlf @ r"
    by (rule parse_resp_args [OF ck assms(3) ne cmd(5)], rule that, assumption+)
  have argc: "0 < a_argc args" using a(2) cmd(4,5) by (auto simp: word_less_nat_alt unat_of_nat_64)
  have arg: "arg_bytes c args i = Some (ss ! i)" if "i < length ss" for i using a(4) [OF that] by simp
  have found: "lookup_command (ss ! 0) (w_commands w) = Some (Some cmd)"
    using assms(1) cmd(1,6) by (simp add: world_ok_def commands_ok_def)
  have "handle_command self p args w = call_command f self p args w"
    using assms(2) arg [OF cmd(4)] cmd(2,3) found a(2) by (simp add: handle_command_def)
  moreover have "parse_request c = PARSE_OK args"
    using a(1) parse_request_star [OF ck assms(3) resp_encode_hd] by simp
  moreover have "arg_value c args i = Some (signed_value (ss ! i))" if "i < length ss" for i
    by (rule request_value [OF ck assms(3) a(4,5) that])
  ultimately show thesis using that argc a(3) arg by blast
qed

lemma request_dispatch:
  assumes "world_ok w" "w_conns w p = Some c" "received c = resp_encode ss @ ys" "request_op ss = Some (f, oper)"
  obtains args where "parse_request c = PARSE_OK args" "0 < a_argc args"
    "a_len args = of_nat (length (resp_encode ss))" "\<And>sid. cmd_vars f c args sid = Some (Inr oper)"
    "arg_bytes c args 1 = Some (ss ! 1)" "key_ok (ss ! 1)"
    "handle_command self p args w = keyed_command f self p args w"
proof -
  obtain cmd where cmd: "find (\<lambda>c. cm_name c = ss ! 0) command_table = Some cmd" "cm_func cmd = Some f"
    "cm_arity cmd = of_nat (length ss) - 1" "1 < length ss" "length ss \<le> 3" "key_ok (ss ! 0)"
    by (rule request_op_found [OF assms(4)], rule that, assumption+)
  have len: "0 < length ss" "length ss \<le> 64" using cmd(4,5) by linarith+
  obtain args where a: "parse_request c = PARSE_OK args" "0 < a_argc args"
    "a_len args = of_nat (length (resp_encode ss))" "\<And>i. i < length ss \<Longrightarrow> arg_bytes c args i = Some (ss ! i)"
    "handle_command self p args w = call_command f self p args w"
    "\<And>i. i < length ss \<Longrightarrow> arg_value c args i = Some (signed_value (ss ! i))"
    by (rule dispatch_command [OF assms(1-3) cmd(1-3) len cmd(6)], rule that, assumption+)
  have "arg_bytes c args 1 = Some (ss ! 1)" using a(4) cmd(4) by simp
  then show thesis
    using that a request_op_vars [OF assms(4) a(4,6)] request_op_call [OF assms(4)] arg_bytes_key_ok by simp
qed

section \<open>The data\<close>

definition data :: "world \<Rightarrow> nat \<Rightarrow> nat \<Rightarrow> bytes \<rightharpoonup> bytes" where
  "data w i j = db_abs (s_dbs (w_shards w ! i) ! j)"

lemma data_upd [simp]: "data (upd_conn p c w) = data w" "data (upd_reactor i f w) = data w"
  by (simp_all add: data_def fun_eq_iff)

lemma data_upd_db:
  "i < nshards w \<Longrightarrow> j < length (s_dbs (w_shards w ! i)) \<Longrightarrow>
    data (upd_db i j db w) = (\<lambda>i' j'. if i' = i \<and> j' = j then db_abs db else data w i' j')"
  by (auto simp: data_def upd_db_def fun_eq_iff nth_list_update)

text \<open>An operation on a database of the world, through its specification.\<close>

lemma exec_data:
  assumes w: "world_ok w" "room w" "i < nshards w" and key: "key_ok key" "unat (key_hash key) mod nshards w = i"
    and db: "unat j < length (s_dbs (w_shards w ! i))"
    and spec: "spec_op (data w i (unat j)) key oper = Some (m, res)"
  obtains db db' where "get_db w i j = Some db" "exec_op db key (key_hash key) oper = Some (db', res)"
    "data (upd_db i (unat j) db' w) = (data w)(i := (data w i)(unat j := m))"
    "world_ok (upd_db i (unat j) db' w)"
proof -
  let ?db = "s_dbs (w_shards w ! i) ! unat j"
  have g: "get_db w i j = Some ?db" using db w(3) by (simp add: get_db_def)
  have "db_inv ?db" "hm_count ?db < 65535"
    using get_db_ok(1) [OF w(1) g] get_db_room [OF w(2) g] by (simp_all add: db_ok_def)
  from exec_refines [OF this(1) key(1) this(2), of oper] obtain db' where
    e: "exec_op ?db key (key_hash key) oper = Some (db', res)" "db_abs db' = m"
    using spec by (auto simp: data_def)
  have "data (upd_db i (unat j) db' w) = (data w)(i := (data w i)(unat j := m))"
    using data_upd_db [OF w(3) db] e(2) by (auto simp: fun_eq_iff)
  then show thesis using that [OF g e(1)] exec_world_ok [OF w key g e(1)] by blast
qed

section \<open>On the shard that owns the key\<close>

lemma replied_consume:
  assumes "replied c out c1" "received c = req @ ys" "c_flags c AND END = 0"
  obtains c2 where "consume (of_nat (length req)) c1 = (c2, ys \<noteq> [])" "received c2 = ys" "conn_ok c2"
    "pending c2 = pending c @ out"
proof -
  have "conn_ok c1" "received c1 = req @ ys" "c_flags c1 AND END = 0" "pending c1 = pending c @ out"
    using assms by (auto simp: replied_def received_def)
  then show thesis using that consume_request [of c1 req ys] by metis
qed

lemma local_request:
  assumes w: "world_ok w" "room w" "self < nshards w"
    and c: "w_conns w p = Some c" "received c = resp_encode ss @ ys" "c_flags c AND END = 0"
    and req: "request_op ss = Some (f, oper)" "unat (key_hash (ss ! 1)) mod nshards w = self"
    and db: "unat (c_db c) < length (s_dbs (w_shards w ! self))"
      "spec_op (data w self (unat (c_db c))) (ss ! 1) oper = Some (m, res)"
    and reply: "can_reply c (reply_of res)"
  obtains w' c' where "on_data_available self p w = Some (w', ys \<noteq> [])" "world_ok w'"
    "w_conns w' = (w_conns w)(p \<mapsto> c')" "pending c' = pending c @ reply_of res" "received c' = ys"
    "w_reactors w' = w_reactors w" "data w' = (data w)(self := (data w self)(unat (c_db c) := m))"
proof -
  note ck = world_ok_conn [OF w(1) c(1)]
  obtain args where a: "parse_request c = PARSE_OK args" "0 < a_argc args"
    "a_len args = of_nat (length (resp_encode ss))" "\<And>sid. cmd_vars f c args sid = Some (Inr oper)"
    "arg_bytes c args 1 = Some (ss ! 1)" "key_ok (ss ! 1)"
    "handle_command self p args w = keyed_command f self p args w"
    by (rule request_dispatch [OF w(1) c(1,2) req(1)], rule that, assumption+)
  obtain db db' where e: "get_db w self (c_db c) = Some db"
    "exec_op db (ss ! 1) (key_hash (ss ! 1)) oper = Some (db', res)"
    "data (upd_db self (unat (c_db c)) db' w) = (data w)(self := (data w self)(unat (c_db c) := m))"
    "world_ok (upd_db self (unat (c_db c)) db' w)"
    by (rule exec_data [OF w a(6) req(2) db], rule that, assumption+)
  obtain c1 where c1: "resp_op c res = Some c1" "replied c (reply_of res) c1"
    by (rule resp_op_replies [OF ck reply], rule that, assumption+)
  let ?w1 = "upd_conn p c1 (upd_db self (unat (c_db c)) db' w)"
  have run: "handle_command self p args w = Some ?w1"
    unfolding a(7) using c(1) a(4,5) e(1,2) c1(1) req(2) world_ok_shard_id [OF w(1,3)]
    by (simp add: keyed_command_def Let_def flip: key_hash_def)
  obtain c2 where c2: "consume (of_nat (length (resp_encode ss))) c1 = (c2, ys \<noteq> [])" "received c2 = ys" "conn_ok c2"
    "pending c2 = pending c @ reply_of res"
    by (rule replied_consume [OF c1(2) c(2,3)], rule that, assumption+)
  have "\<not> c_recv_buf_size c < 1"
    using arg_cong [OF c(2), of length] length_received [OF ck] by (simp add: resp_encode_def)
  then have "on_data_available self p w = Some (upd_conn p c2 ?w1, ys \<noteq> [])"
    using c(1) a(1-3) run c2(1) by (simp add: on_data_available_def upd_conn_def)
  moreover have "world_ok (upd_conn p c2 ?w1)"
    using e(4) c2(3) c1(2) by (intro world_ok_upd_conn) (simp_all add: replied_def)
  moreover have "w_conns (upd_conn p c2 ?w1) = (w_conns w)(p \<mapsto> c2)"
    by (simp add: upd_conn_def upd_db_def)
  moreover have "w_reactors (upd_conn p c2 ?w1) = w_reactors w"
    "data (upd_conn p c2 ?w1) = (data w)(self := (data w self)(unat (c_db c) := m))"
    using e(3) by simp_all
  ultimately show thesis using that c2(2,4) by blast
qed

section \<open>Across shards\<close>

lemma send_empty:
  assumes "world_ok w" "i < nshards w" "mq_abs (r_cb_queue (w_reactors w ! i)) = []"
  obtains q where "reactor_send_message i msg w = Some (set_queue i q w, True)" "mq_abs q = [msg]" "mq_inv q"
proof -
  let ?q = "r_cb_queue (w_reactors w ! i)"
  have inv: "mq_inv ?q" using assms(1,2) by (simp add: world_ok_def reactor_ok_def)
  have "2 \<le> mq_cap ?q" using mq_rep_bound [of ?q "mq_abs ?q"] inv by (simp add: mq_inv_rep)
  then have "length (mq_abs ?q) < mq_cap ?q" using assms(3) by simp
  from mpmcq.enq_law [OF inv this, of msg] obtain q where
    "mpmcq_enqueue ?q msg = Some (q, True)" "mq_inv q" "mq_abs q = [msg]" using assms(3) by auto
  then show thesis using that by (simp add: reactor_send_message_def set_queue_def)
qed

lemma dequeue_one:
  assumes "mq_inv q" "mq_abs q = [msg]"
  obtains q' where "mpmcq_dequeue q = Some (q', Some msg)" "mq_abs q' = []" "mq_inv q'"
  using mpmcq.deq_law [OF assms(1)] assms(2) that by auto

lemma data_notify [simp]: "data (notify i j w) = data w" "data (set_queue i q w) = data w"
  by (simp_all add: notify_def set_queue_def)

lemma set_queue_fields [simp]:
  "w_conns (set_queue i q w) = w_conns w" "w_shards (set_queue i q w) = w_shards w"
  "w_conns (notify i j w) = w_conns w" "w_shards (notify i j w) = w_shards w"
  by (simp_all add: set_queue_def notify_def)

lemma queue_after [simp]:
  "i < length (w_reactors w) \<Longrightarrow> r_cb_queue (w_reactors (set_queue i q w) ! i) = q"
  "i \<noteq> j \<Longrightarrow> w_reactors (set_queue i q w) ! j = w_reactors w ! j"
  "r_cb_queue (w_reactors (notify k t w) ! j) = r_cb_queue (w_reactors w ! j)"
  by (simp_all add: set_queue_def notify_def upd_reactor_field [where g = r_cb_queue])

text \<open>What a thread that is not shutting down leaves alone of the reactors' signals.\<close>

definition same_signals :: "nat \<Rightarrow> world \<Rightarrow> world \<Rightarrow> bool" where
  "same_signals i w w' \<longleftrightarrow> (\<forall>j. r_sleeping (w_reactors w' ! j) = r_sleeping (w_reactors w ! j)
     \<and> r_wakeup (w_reactors w' ! j) = r_wakeup (w_reactors w ! j) \<and> r_running (w_reactors w' ! j) = r_running (w_reactors w ! j)
     \<and> r_conns (w_reactors w' ! j) = r_conns (w_reactors w ! j)
     \<and> (j \<noteq> i \<longrightarrow> r_soft_notify (w_reactors w' ! j) = r_soft_notify (w_reactors w ! j)))"

lemmas signal_fields = upd_reactor_field [where g = r_sleeping] upd_reactor_field [where g = r_wakeup]
  upd_reactor_field [where g = r_running] upd_reactor_field [where g = r_conns] upd_reactor_field [where g = r_soft_notify]

text \<open>The request step on the shard of the connection.\<close>

lemma remote_send:
  assumes w: "world_ok w" "room w" "self < nshards w"
    and c: "w_conns w p = Some c" "received c = resp_encode ss @ ys" "c_flags c AND END = 0"
    and req: "request_op ss = Some (f, oper)" "owner = unat (key_hash (ss ! 1)) mod nshards w" "owner \<noteq> self"
    and empty: "mq_abs (r_cb_queue (w_reactors w ! owner)) = []"
  obtains w1 c1 where "on_data_available self p w = Some (w1, ys \<noteq> [])" "world_ok w1"
    "w_conns w1 = (w_conns w)(p \<mapsto> c1)" "received c1 = ys" "pending c1 = pending c"
    "c_flags c1 = c_flags c OR DISPATCH_WAITING" "c_db c1 = c_db c" "c_shard_id c1 = c_shard_id c"
    "c_send_buf_size c1 = c_send_buf_size c" "w_shards w1 = w_shards w"
    "mq_abs (r_cb_queue (w_reactors w1 ! owner))
       = [Request \<lparr>cb_src = self, cb_dst = owner, cb_conn = p\<rparr> (ss ! 1) (key_hash (ss ! 1)) oper]"
    "\<And>j. j \<noteq> owner \<Longrightarrow> r_cb_queue (w_reactors w1 ! j) = r_cb_queue (w_reactors w ! j)"
    "\<And>j. r_running (w_reactors w1 ! j) = r_running (w_reactors w ! j)" "same_signals self w w1"
    "r_soft_notify (w_reactors w1 ! self) = BITSET64_SET (r_soft_notify (w_reactors w ! self)) owner"
proof -
  note ck = world_ok_conn [OF w(1) c(1)]
  let ?msg = "Request \<lparr>cb_src = self, cb_dst = owner, cb_conn = p\<rparr> (ss ! 1) (key_hash (ss ! 1)) oper"
  obtain args where a: "parse_request c = PARSE_OK args" "0 < a_argc args"
    "a_len args = of_nat (length (resp_encode ss))" "\<And>sid. cmd_vars f c args sid = Some (Inr oper)"
    "arg_bytes c args 1 = Some (ss ! 1)" "key_ok (ss ! 1)"
    "handle_command self p args w = keyed_command f self p args w"
    by (rule request_dispatch [OF w(1) c(1,2) req(1)], rule that, assumption+)
  have owner: "owner < nshards w" using world_ok_owner [OF w(1)] req(2) by simp
  obtain q where q: "reactor_send_message owner ?msg w = Some (set_queue owner q w, True)" "mq_abs q = [?msg]" "mq_inv q"
    by (rule send_empty [OF w(1) owner empty], rule that, assumption+)
  define d where "d = c\<lparr>c_flags := c_flags c OR DISPATCH_WAITING\<rparr>"
  define wa where "wa = notify self owner (upd_conn p d (set_queue owner q w))"
  have run: "handle_command self p args w = Some wa"
    unfolding a(7) using c(1) a(4,5) q(1) req(2,3) world_ok_shard_id [OF w(1,3)]
    by (simp add: keyed_command_def Let_def wa_def d_def flip: key_hash_def)
  have "c_flags d AND END = 0" using c(3) by (simp add: d_def DISPATCH_WAITING_def END_def bit.conj_disj_distrib2)
  moreover have "conn_ok d" "received d = resp_encode ss @ ys" using ck c(2) by (simp_all add: d_def received_def)
  ultimately obtain c2 where c2: "consume (of_nat (length (resp_encode ss))) d = (c2, ys \<noteq> [])" "received c2 = ys"
    "conn_ok c2" "pending c2 = pending d" "c_flags c2 = c_flags d" "c_db c2 = c_db d"
    using consume_request [of d "resp_encode ss" ys] by metis
  have fr: "c_shard_id c2 = c_shard_id d" "c_send_buf_size c2 = c_send_buf_size d"
    using c2(1) by (auto simp: consume_def Let_def split: if_splits)
  have "\<not> c_recv_buf_size c < 1"
    using arg_cong [OF c(2), of length] length_received [OF ck] by (simp add: resp_encode_def)
  then have run2: "on_data_available self p w = Some (upd_conn p c2 wa, ys \<noteq> [])"
    using c(1) a(1-3) run c2(1) by (simp add: on_data_available_def upd_conn_def wa_def notify_def upd_reactor_def)
  have len: "length (w_reactors w) = nshards w" using w(1) by (simp add: world_ok_def)
  show thesis
  proof (rule that [OF run2])
    show "world_ok (upd_conn p c2 wa)" using on_data_available_ok [OF run2 w] by simp
    show "w_conns (upd_conn p c2 wa) = (w_conns w)(p \<mapsto> c2)" by (simp add: upd_conn_def wa_def notify_def upd_reactor_def set_queue_def)
    show "mq_abs (r_cb_queue (w_reactors (upd_conn p c2 wa) ! owner)) = [?msg]"
      using q(2) owner len by (simp add: wa_def)
    show "r_cb_queue (w_reactors (upd_conn p c2 wa) ! j) = r_cb_queue (w_reactors w ! j)" if "j \<noteq> owner" for j
      using that by (simp add: wa_def)
    show "r_running (w_reactors (upd_conn p c2 wa) ! j) = r_running (w_reactors w ! j)" for j
      by (simp add: wa_def notify_def set_queue_def upd_reactor_field [where g = r_running])
    have "w_reactors (upd_conn p d (set_queue owner q w)) = w_reactors (set_queue owner q w)" by simp
    then show "same_signals self w (upd_conn p c2 wa)"
      unfolding wa_def same_signals_def by (simp add: notify_def set_queue_def signal_fields)
    show "r_soft_notify (w_reactors (upd_conn p c2 wa) ! self) = BITSET64_SET (r_soft_notify (w_reactors w ! self)) owner"
      using w(3) len by (simp add: wa_def notify_def set_queue_def signal_fields)
  qed (use c2 fr in \<open>simp_all add: d_def wa_def pending_def\<close>)
qed

text \<open>The request message on the shard that owns the key: its callback, and the turn of the poll it takes.\<close>

lemma remote_exec_run:
  assumes w: "world_ok w" "room w" "owner < nshards w"
    and q: "mq_abs (r_cb_queue (w_reactors w ! owner)) = [Request cb key hash oper]"
      "mq_abs (r_cb_queue (w_reactors w ! cb_src cb)) = []"
    and c: "w_conns w (cb_conn cb) = Some c" "c_shard_id c \<noteq> owner"
    and db: "unat (c_db c) < length (s_dbs (w_shards w ! owner))"
      "spec_op (data w owner (unat (c_db c))) key oper = Some (m, res)"
  obtains q1 w' where "mpmcq_dequeue (r_cb_queue (w_reactors w ! owner)) = Some (q1, Some (Request cb key hash oper))"
    "run_cb owner (Request cb key hash oper) (set_queue owner q1 w) = Some w'"
    "cb_continues owner (Request cb key hash oper) w' = Some False" "world_ok w'" "nshards w' = nshards w" "w_conns w' = w_conns w"
    "data w' = (data w)(owner := (data w owner)(unat (c_db c) := m))"
    "mq_abs (r_cb_queue (w_reactors w' ! cb_src cb))
       = [Response \<lparr>cb_src = cb_dst cb, cb_dst = cb_src cb, cb_conn = cb_conn cb\<rparr> res]"
    "\<And>j. j \<noteq> cb_src cb \<Longrightarrow> r_cb_queue (w_reactors w' ! j) = (if j = owner then q1 else r_cb_queue (w_reactors w ! j))"
    "mq_abs q1 = []" "same_signals owner w w'"
    "r_soft_notify (w_reactors w' ! owner) = BITSET64_SET (r_soft_notify (w_reactors w ! owner)) (cb_src cb)"
proof -
  let ?q = "r_cb_queue (w_reactors w ! owner)"
  let ?resp = "Response \<lparr>cb_src = cb_dst cb, cb_dst = cb_src cb, cb_conn = cb_conn cb\<rparr> res"
  have inv: "mq_inv ?q" and len: "length (w_reactors w) = nshards w" using w(1,3) by (simp_all add: world_ok_def reactor_ok_def)
  obtain q1 where q1: "mpmcq_dequeue ?q = Some (q1, Some (Request cb key hash oper))" "mq_abs q1 = []" "mq_inv q1"
    by (rule dequeue_one [OF inv q(1)], rule that, assumption+)
  have msg: "world_ok (set_queue owner q1 w)" "msg_ok (nshards w) owner (Request cb key hash oper)"
    using world_ok_dequeue [OF w(1,3) q1(1)] unfolding option.case by blast+
  then have hash: "hash = key_hash key" by simp
  have src: "cb_src cb < nshards w" "hash = key_hash key" "key_ok key" "unat (key_hash key) mod nshards w = owner"
    using msg(2) unfolding hash by simp_all
  have ne: "cb_src cb \<noteq> owner" using q by auto
  let ?w1 = "set_queue owner q1 w"
  have d1: "unat (c_db c) < length (s_dbs (w_shards ?w1 ! owner))" "owner < nshards ?w1" "room ?w1"
    "unat (key_hash key) mod nshards ?w1 = owner" "spec_op (data ?w1 owner (unat (c_db c))) key oper = Some (m, res)"
    using db w src(4) by simp_all
  obtain db0 db' where e: "get_db ?w1 owner (c_db c) = Some db0" "exec_op db0 key (key_hash key) oper = Some (db', res)"
    "data (upd_db owner (unat (c_db c)) db' ?w1) = (data ?w1)(owner := (data ?w1 owner)(unat (c_db c) := m))"
    "world_ok (upd_db owner (unat (c_db c)) db' ?w1)"
    by (rule exec_data [OF msg(1) d1(3,2) src(3) d1(4,1,5)], rule that, assumption+)
  let ?w2 = "upd_db owner (unat (c_db c)) db' ?w1"
  have n2: "nshards ?w2 = nshards w" and r2: "w_reactors ?w2 = w_reactors ?w1" by simp_all
  have "mq_abs (r_cb_queue (w_reactors ?w2 ! cb_src cb)) = []" using q(2) ne r2 by simp
  then obtain q2 where q2: "reactor_send_message (cb_src cb) ?resp ?w2 = Some (set_queue (cb_src cb) q2 ?w2, True)"
    "mq_abs q2 = [?resp]" "mq_inv q2"
    using send_empty [OF e(4), of "cb_src cb" ?resp] src(1) n2 by metis
  let ?w' = "notify owner (cb_src cb) (set_queue (cb_src cb) q2 ?w2)"
  have run: "run_cb owner (Request cb key hash oper) ?w1 = Some ?w'"
    using c(1) e(1,2) q2(1) src(2) by (simp add: run_cb_def cmd_req_def)
  have rid: "r_id (w_reactors ?w' ! owner) = owner"
    using world_ok_reactor_id [OF w(1,3)] ne
    by (simp add: notify_def upd_reactor_field [where g = r_id] set_queue_def)
  have go: "cb_continues owner (Request cb key hash oper) ?w' = Some False"
    using c rid by (simp add: cb_continues_def)
  have sig: "same_signals owner w ?w'" by (simp add: same_signals_def notify_def set_queue_def signal_fields)
  have mark: "r_soft_notify (w_reactors ?w' ! owner) = BITSET64_SET (r_soft_notify (w_reactors w ! owner)) (cb_src cb)"
    using w(3) len by (simp add: notify_def set_queue_def signal_fields)
  show thesis
  proof (rule that [OF q1(1) run go _ _ _ _ _ _ q1(2) sig mark])
    have "msg_ok (nshards ?w1) owner (Request cb key hash oper)" using msg(2) unfolding set_queue_fields(2) .
    then show "world_ok ?w'" using run_cb_ok [OF run msg(1) d1(3,2)] by blast
    show "mq_abs (r_cb_queue (w_reactors ?w' ! cb_src cb)) = [?resp]"
      using q2(2) src(1) len r2 by (simp add: set_queue_def)
    show "r_cb_queue (w_reactors ?w' ! j) = (if j = owner then q1 else r_cb_queue (w_reactors w ! j))" if "j \<noteq> cb_src cb" for j
      using that w(3) len r2 by simp
  qed (use e(3) n2 in simp_all)
qed

lemma remote_exec:
  assumes w: "world_ok w" "room w" "owner < nshards w"
    and q: "mq_abs (r_cb_queue (w_reactors w ! owner)) = [Request cb key hash oper]"
      "mq_abs (r_cb_queue (w_reactors w ! cb_src cb)) = []"
    and c: "w_conns w (cb_conn cb) = Some c" "c_shard_id c \<noteq> owner"
    and db: "unat (c_db c) < length (s_dbs (w_shards w ! owner))"
      "spec_op (data w owner (unat (c_db c))) key oper = Some (m, res)"
  obtains w' where "poll_callback owner w = Some (w', True)" "world_ok w'" "nshards w' = nshards w" "w_conns w' = w_conns w"
    "data w' = (data w)(owner := (data w owner)(unat (c_db c) := m))"
    "mq_abs (r_cb_queue (w_reactors w' ! cb_src cb))
       = [Response \<lparr>cb_src = cb_dst cb, cb_dst = cb_src cb, cb_conn = cb_conn cb\<rparr> res]"
proof -
  obtain q1 w' where r: "mpmcq_dequeue (r_cb_queue (w_reactors w ! owner)) = Some (q1, Some (Request cb key hash oper))"
    "run_cb owner (Request cb key hash oper) (set_queue owner q1 w) = Some w'"
    "cb_continues owner (Request cb key hash oper) w' = Some False" "world_ok w'" "nshards w' = nshards w" "w_conns w' = w_conns w"
    "data w' = (data w)(owner := (data w owner)(unat (c_db c) := m))"
    "mq_abs (r_cb_queue (w_reactors w' ! cb_src cb))
       = [Response \<lparr>cb_src = cb_dst cb, cb_dst = cb_src cb, cb_conn = cb_conn cb\<rparr> res]"
    by (rule remote_exec_run [OF w q c db], rule that, assumption+)
  have "poll_callback owner w = Some (w', True)"
    using r(1-3) by (simp add: poll_callback_def on_cb_def set_queue_def)
  then show thesis using that r(4-8) by blast
qed

text \<open>The response message back on the shard of the connection.\<close>

lemma remote_reply_run:
  assumes w: "world_ok w" "self < nshards w"
    and q: "mq_abs (r_cb_queue (w_reactors w ! self)) = [Response cb res]"
    and c: "w_conns w (cb_conn cb) = Some c" "c_shard_id c = self" "received c = []"
    and reply: "can_reply c (reply_of res)"
  obtains q1 c' where "mpmcq_dequeue (r_cb_queue (w_reactors w ! self)) = Some (q1, Some (Response cb res))" "mq_abs q1 = []"
    "run_cb self (Response cb res) (set_queue self q1 w) = Some (upd_conn (cb_conn cb) c' (set_queue self q1 w))"
    "cb_continues self (Response cb res) (upd_conn (cb_conn cb) c' (set_queue self q1 w)) = Some True"
    "on_data_available self (cb_conn cb) (upd_conn (cb_conn cb) c' (set_queue self q1 w))
       = Some (upd_conn (cb_conn cb) c' (set_queue self q1 w), False)"
    "pending c' = pending c @ reply_of res" "c_flags c' = c_flags c AND NOT DISPATCH_WAITING" "received c' = []"
    "conn_ok c'" "c_send_buf_sent c' = c_send_buf_sent c" "world_ok (set_queue self q1 w)" "c_shard_id c' = c_shard_id c"
proof -
  let ?q = "r_cb_queue (w_reactors w ! self)" and ?p = "cb_conn cb"
  have inv: "mq_inv ?q" using w by (simp add: world_ok_def reactor_ok_def)
  obtain q1 where q1: "mpmcq_dequeue ?q = Some (q1, Some (Response cb res))" "mq_abs q1 = []" "mq_inv q1"
    by (rule dequeue_one [OF inv q], rule that, assumption+)
  note ck = world_ok_conn [OF w(1) c(1)]
  obtain c1 where c1: "resp_op c res = Some c1" "replied c (reply_of res) c1"
    by (rule resp_op_replies [OF ck reply], rule that, assumption+)
  define c2 where "c2 = c1\<lparr>c_flags := c_flags c1 AND NOT DISPATCH_WAITING\<rparr>"
  define w2 where "w2 = upd_conn ?p c2 (set_queue self q1 w)"
  have run: "run_cb self (Response cb res) (set_queue self q1 w) = Some w2"
    using c(1) c1(1) by (simp add: run_cb_def cmd_resp_def w2_def c2_def)
  have fields: "c_shard_id c2 = self" "c_recv_buf_size c2 = 0" "received c2 = []" "pending c2 = pending c @ reply_of res"
    "c_flags c2 = c_flags c AND NOT DISPATCH_WAITING" "conn_ok c2" "c_send_buf_sent c2 = c_send_buf_sent c"
    using c(2,3) c1(2) length_received [OF ck] by (auto simp: replied_def c2_def received_def pending_def)
  have rid: "r_id (w_reactors w2 ! self) = self"
    using world_ok_reactor_id [OF w] by (simp add: w2_def set_queue_def upd_reactor_field [where g = r_id])
  have go: "cb_continues self (Response cb res) w2 = Some True"
    using fields(1) rid by (simp add: cb_continues_def w2_def upd_conn_def)
  have more: "on_data_available self ?p w2 = Some (w2, False)"
    using fields(2) by (simp add: on_data_available_def w2_def upd_conn_def)
  show thesis
    by (rule that [OF q1(1,2) run [unfolded w2_def] go [unfolded w2_def] more [unfolded w2_def] fields(4,5,3,6,7)
          world_ok_dequeue(1) [OF w q1(1)]]) (use fields(1) c(2) in simp)
qed

lemma remote_reply:
  assumes w: "world_ok w" "self < nshards w"
    and q: "mq_abs (r_cb_queue (w_reactors w ! self)) = [Response cb res]"
    and c: "w_conns w (cb_conn cb) = Some c" "c_shard_id c = self" "received c = []"
    and reply: "can_reply c (reply_of res)"
  obtains w' c' where "poll_callback self w = Some (w', True)" "w_conns w' = (w_conns w)(cb_conn cb \<mapsto> c')"
    "pending c' = pending c @ reply_of res" "c_flags c' = c_flags c AND NOT DISPATCH_WAITING" "received c' = []"
    "data w' = data w"
proof -
  obtain q1 c2 where r: "mpmcq_dequeue (r_cb_queue (w_reactors w ! self)) = Some (q1, Some (Response cb res))"
    "run_cb self (Response cb res) (set_queue self q1 w) = Some (upd_conn (cb_conn cb) c2 (set_queue self q1 w))"
    "cb_continues self (Response cb res) (upd_conn (cb_conn cb) c2 (set_queue self q1 w)) = Some True"
    "on_data_available self (cb_conn cb) (upd_conn (cb_conn cb) c2 (set_queue self q1 w))
       = Some (upd_conn (cb_conn cb) c2 (set_queue self q1 w), False)"
    "pending c2 = pending c @ reply_of res" "c_flags c2 = c_flags c AND NOT DISPATCH_WAITING" "received c2 = []"
    by (rule remote_reply_run [OF w q c reply], rule that, assumption+)
  let ?w = "upd_conn (cb_conn cb) c2 (set_queue self q1 w)"
  have "data_loop self (cb_conn cb) ?w = Some ?w" using r(4) by (subst data_loop.simps) simp
  then have "poll_callback self w = Some (?w, True)"
    using r(1-3) by (simp add: poll_callback_def on_cb_def set_queue_def [of self q1 w, symmetric])
  then show thesis
    by (rule that [of ?w c2]) (use r(5-7) in \<open>simp_all add: upd_conn_def\<close>, simp add: data_def fun_eq_iff)
qed

text \<open>The whole round trip.\<close>

lemma remote_request:
  assumes w: "world_ok w" "room w" "self < nshards w"
    and c: "w_conns w p = Some c" "received c = resp_encode ss" "c_flags c AND END = 0" "c_shard_id c = self"
    and req: "request_op ss = Some (f, oper)" "owner = unat (key_hash (ss ! 1)) mod nshards w" "owner \<noteq> self"
    and empty: "mq_abs (r_cb_queue (w_reactors w ! owner)) = []" "mq_abs (r_cb_queue (w_reactors w ! self)) = []"
    and db: "unat (c_db c) < length (s_dbs (w_shards w ! owner))"
      "spec_op (data w owner (unat (c_db c))) (ss ! 1) oper = Some (m, res)"
    and reply: "can_reply c (reply_of res)"
  obtains w1 w2 w3 c3 where "on_data_available self p w = Some (w1, False)" "poll_callback owner w1 = Some (w2, True)"
    "poll_callback self w2 = Some (w3, True)" "w_conns w3 = (w_conns w)(p \<mapsto> c3)" "pending c3 = pending c @ reply_of res"
    "received c3 = []" "c_flags c3 = c_flags c AND NOT DISPATCH_WAITING"
    "data w3 = (data w)(owner := (data w owner)(unat (c_db c) := m))"
proof -
  have recv: "received c = resp_encode ss @ []" using c(2) by simp
  obtain w1 c1 where 1: "on_data_available self p w = Some (w1, [] \<noteq> ([] :: bytes))" "world_ok w1"
    "w_conns w1 = (w_conns w)(p \<mapsto> c1)" "received c1 = []" "pending c1 = pending c"
    "c_flags c1 = c_flags c OR DISPATCH_WAITING" "c_db c1 = c_db c" "c_shard_id c1 = c_shard_id c"
    "c_send_buf_size c1 = c_send_buf_size c" "w_shards w1 = w_shards w"
    "mq_abs (r_cb_queue (w_reactors w1 ! owner))
       = [Request \<lparr>cb_src = self, cb_dst = owner, cb_conn = p\<rparr> (ss ! 1) (key_hash (ss ! 1)) oper]"
    "\<And>j. j \<noteq> owner \<Longrightarrow> r_cb_queue (w_reactors w1 ! j) = r_cb_queue (w_reactors w ! j)"
    by (rule remote_send [OF w c(1) recv c(3) req empty(1)], rule that, assumption+)
  let ?cb = "\<lparr>cb_src = self, cb_dst = owner, cb_conn = p\<rparr> :: cb_context"
  have owner: "owner < nshards w1" using world_ok_owner [OF w(1)] req(2) 1(10) by simp
  have "room w1" using w(2) by (simp add: room_def 1(10))
  moreover have "mq_abs (r_cb_queue (w_reactors w1 ! cb_src ?cb)) = []" using 1(12) req(3) empty(2) by auto
  moreover have "w_conns w1 (cb_conn ?cb) = Some c1" "c_shard_id c1 \<noteq> owner" using 1(3,8) c(4) req(3) by auto
  moreover have "unat (c_db c1) < length (s_dbs (w_shards w1 ! owner))"
    "spec_op (data w1 owner (unat (c_db c1))) (ss ! 1) oper = Some (m, res)"
    using db 1(7,10) by (simp_all add: data_def)
  ultimately obtain w2 where 2: "poll_callback owner w1 = Some (w2, True)" "world_ok w2" "nshards w2 = nshards w1"
    "w_conns w2 = w_conns w1" "data w2 = (data w1)(owner := (data w1 owner)(unat (c_db c1) := m))"
    "mq_abs (r_cb_queue (w_reactors w2 ! cb_src ?cb))
       = [Response \<lparr>cb_src = cb_dst ?cb, cb_dst = cb_src ?cb, cb_conn = cb_conn ?cb\<rparr> res]"
    using remote_exec [OF 1(2) _ owner 1(11)] by metis
  have dw: "data w1 = data w" using 1(10) by (simp add: data_def fun_eq_iff)
  have "self < nshards w2" using w(3) 2(3) 1(10) by simp
  moreover have "mq_abs (r_cb_queue (w_reactors w2 ! self)) = [Response \<lparr>cb_src = owner, cb_dst = self, cb_conn = p\<rparr> res]"
    using 2(6) by simp
  moreover have "w_conns w2 (cb_conn \<lparr>cb_src = owner, cb_dst = self, cb_conn = p\<rparr>) = Some c1" using 2(4) 1(3) by simp
  moreover have "c_shard_id c1 = self" "can_reply c1 (reply_of res)" using 1(8,9) c(4) reply by (simp_all add: can_reply_def)
  ultimately obtain w3 c3 where 3: "poll_callback self w2 = Some (w3, True)"
    "w_conns w3 = (w_conns w2)(cb_conn \<lparr>cb_src = owner, cb_dst = self, cb_conn = p\<rparr> \<mapsto> c3)"
    "pending c3 = pending c1 @ reply_of res" "c_flags c3 = c_flags c1 AND NOT DISPATCH_WAITING" "received c3 = []" "data w3 = data w2"
    using remote_reply [OF 2(2)] 1(4) by metis
  have "c_flags c3 = c_flags c AND NOT DISPATCH_WAITING"
    using 3(4) 1(6) by (simp add: bit.conj_disj_distrib2)
  moreover have "w_conns w3 = (w_conns w)(p \<mapsto> c3)" using 3(2) 2(4) 1(3) by simp
  moreover have "on_data_available self p w = Some (w1, False)" using 1(1) by simp
  ultimately show thesis using that [OF _ 2(1) 3(1)] 3(3,5,6) 2(5) 1(5,7) dw by simp
qed

end
