(* ===== verification/System_Props.thy ===== *)
theory System_Props
  imports Runs Requests
begin

text \<open>
  The properties of the running server: the invariant of every reachable state, the partition of
  the keys, the delivery of wake-ups, and what a request does on its own shard and across shards.
  The witnesses run the server from its start-up state.
\<close>

section \<open>Running the server\<close>

lemma key_a: "unat (key_hash (bstr ''a'')) mod 4 = 3"
proof -
  have "key_hash (bstr ''a'') = 15154266338359012955" by (simp add: key_hash_def hash_eval)
  then show ?thesis by simp
qed

text \<open>Thread 0 accepts a connection that sends \<^verbatim>\<open>GET a\<close>, while thread 3, which owns the key, blocks.\<close>

definition demo_request :: "bytes list" where
  "demo_request = [bstr ''GET'', bstr ''a'']"

lemma demo_request: "length (resp_encode demo_request) \<le> MESSAGE_MAX_LENGTH" "resp_encode demo_request \<noteq> []"
  "request_op demo_request = Some (Cmd_get, OpGet)" "demo_request ! 1 = bstr ''a''"
  by (simp_all add: demo_request_def resp_encode_def resp_bulk_def dec_digits.simps MESSAGE_MAX_LENGTH_def)

lemma demo_run:
  obtains w phases where "reachable (w, phases)" "nshards w = 4" "phases 3 = Waiting True"
    "mq_abs (r_cb_queue (w_reactors w ! 3)) \<noteq> []" "r_running (w_reactors w ! 3)"
proof -
  obtain w0 where w0: "init_world (\<lambda>_. 0) = Some w0" "world_ok w0" "nshards w0 = 4" "room w0"
    "w_reactors w0 = map reactor_init [0..<4]" "w_conns w0 = Map.empty" "\<forall>s \<in> set (w_shards w0). length (s_dbs s) = 16"
    by (rule init_world_ok [of "\<lambda>_. 0"], rule that, assumption+)
  have fresh: "w_reactors w0 ! i = reactor_init i" "conn_at w0 i k = None" "nothing_pending w0 i" if "i < 4" for i k
    using that w0(5) by (simp_all add: conn_at_def reactor_init_def nothing_pending_def)
  have start: "r_running (reactor_init i)" "r_sleeping (reactor_init i)" "r_soft_notify (reactor_init i) = 0"
    "mq_abs (r_cb_queue (reactor_init i)) = []" for i
    by (simp_all add: reactor_init_def mailbox_init)
  have "set_sleeping 3 True w0 = w0" unfolding set_sleeping_def using fresh start by (intro upd_reactor_id) simp
  then have "(thread_step 3)\<^sup>*\<^sup>* (w0, Loop_head) (w0, Waiting True)"
    using idle_run [OF w0(2), of 3] w0(3) fresh start by simp
  from reachable_thread [OF this, of "\<lambda>_. Loop_head"] reachable.start [OF w0(1)]
  have r3: "reachable (w0, (\<lambda>_. Loop_head)(3 := Waiting True))" using w0(3) by simp
  have pre: "0 < nshards w0" "r_running (w_reactors w0 ! 0)" "r_soft_notify (w_reactors w0 ! 0) = 0"
    "mq_abs (r_cb_queue (w_reactors w0 ! 0)) = []" "nothing_pending w0 0" "r_sleeping (w_reactors w0 ! 0)"
    "fd_free w0 5" "w_conns w0 1 = None" "(4096 :: u64) < 2 ^ 63"
    using w0(3,5,6) fresh start by (simp_all add: fd_free_def)
  obtain w3 c where c: "(thread_step 0)\<^sup>*\<^sup>* (w0, Loop_head) (w3, Reading 1 None False [])" "world_ok w3"
    "w_shards w3 = w_shards w0" "w_conns w3 = (w_conns w0)(1 \<mapsto> c)" "received c = resp_encode demo_request" "c_flags c = 0"
    "\<And>j. j \<noteq> 0 \<Longrightarrow> w_reactors w3 ! j = w_reactors w0 ! j"
    by (rule accept_request_run [OF w0(2) pre demo_request(1,2)], rule that, assumption+)
  have q: "3 = unat (key_hash (demo_request ! 1)) mod nshards w3" "(3 :: nat) \<noteq> 0" "0 < nshards w3" "room w3"
    "received c = resp_encode demo_request @ []" "c_flags c AND END = 0" "w_conns w3 1 = Some c"
    "mq_abs (r_cb_queue (w_reactors w3 ! 3)) = []"
    using c(3-7) demo_request(4) key_a w0(3,4) fresh(1) start by (simp_all add: room_def)
  obtain w4 where w4: "on_data_available 0 1 w3 = Some (w4, [] \<noteq> ([] :: bytes))" "w_shards w4 = w_shards w3"
    "mq_abs (r_cb_queue (w_reactors w4 ! 3))
       = [Request \<lparr>cb_src = 0, cb_dst = 3, cb_conn = 1\<rparr> (demo_request ! 1) (key_hash (demo_request ! 1)) OpGet]"
    "\<And>j. r_running (w_reactors w4 ! j) = r_running (w_reactors w3 ! j)"
    by (rule remote_send [OF c(2) q(4,3,7,5,6) demo_request(3) q(1,2,8)], rule that, assumption+)
  have "thread_step 0 (w3, Reading 1 None False []) (w4, Finishing 1 None False [])"
    using request [OF q(4), of 0 1 w4 False None False "[]"] w4(1) by simp
  with c(1) have "(thread_step 0)\<^sup>*\<^sup>* (w0, Loop_head) (w4, Finishing 1 None False [])" by simp
  from reachable_thread [OF this, of "(\<lambda>_. Loop_head)(3 := Waiting True)"] r3 w0(3)
  have "reachable (w4, (\<lambda>_. Loop_head)(3 := Waiting True, 0 := Finishing 1 None False []))" by simp
  then show thesis using that w4(2-4) c(3,7) w0(3) fresh(1) start by simp
qed

section \<open>Reachable states\<close>

text \<open>
  C5: In every reachable state of the server, however its threads interleave, the system invariant
  holds: shards and reactors are numbered alike, every database is a consistent hash map with no
  two entries of one key, every mailbox is a consistent ring whose requests are for keys of its
  shard with the hash of the key, the buffers and counters of every connection are in bounds, and
  the command table finds exactly the registered commands.
\<close>

theorem server_invariant:
  assumes "reachable (w, phases)"
  shows "world_ok w"
  using reachable_world_ok [OF assms] by simp

theorem server_invariant_witness:
  "\<exists>w phases. reachable (w, phases) \<and> mq_abs (r_cb_queue (w_reactors w ! 3)) \<noteq> [] \<and> world_ok w"
proof -
  obtain w phases where r: "reachable (w, phases)" "mq_abs (r_cb_queue (w_reactors w ! 3)) \<noteq> []"
    by (rule demo_run, rule that, assumption+)
  from server_invariant [OF r(1)] r show ?thesis by blast
qed

text \<open>
  C10: The shards partition the keys: in every reachable state a database of shard \<open>i\<close> holds only
  keys whose hash selects shard \<open>i\<close>, so no key is ever stored on two shards.
\<close>

theorem shards_partition_keys:
  assumes "reachable (w, phases)" "i < nshards w" "j < length (s_dbs (w_shards w ! i))"
  shows "dom (data w i j) \<subseteq> {k. unat (key_hash k) mod nshards w = i}"
proof -
  have "get_db w i (of_nat j) = Some (s_dbs (w_shards w ! i) ! j)" if "j < 2 ^ 64"
    using assms(2,3) that by (simp add: get_db_def unat_of_nat_64)
  have "db_ok (nshards w) i (s_dbs (w_shards w ! i) ! j)"
    using reachable_world_ok [OF assms(1)] assms(2,3) by (simp add: world_ok_def shard_ok_def)
  then show ?thesis by (auto simp: db_ok_def data_def)
qed

theorem shards_partition_keys_witness:
  "\<exists>w phases. reachable (w, phases) \<and> (\<forall>j < length (s_dbs (w_shards w ! 2)).
     dom (data w 2 j) \<subseteq> {k. unat (key_hash k) mod 4 = 2})"
proof -
  obtain w phases where r: "reachable (w, phases)" "nshards w = 4" by (rule demo_run, rule that, assumption+)
  have "(2 :: nat) < nshards w" using r(2) by simp
  from shards_partition_keys [OF r(1) this] show ?thesis using r by auto
qed

text \<open>
  C7: No wake-up is lost: in every reachable state in which a reactor is blocked without a
  time-out although its mailbox is not empty, and the server is not shutting down, its event
  descriptor has been rung or some reactor has it marked and still has its round over the marks
  to do, before the reactor's own position in it.
\<close>

theorem no_lost_wakeup:
  assumes "reachable (w, phases)" "j < nshards w" "phases j = Waiting True"
    "mq_abs (r_cb_queue (w_reactors w ! j)) \<noteq> []" "r_running (w_reactors w ! j)"
  shows "0 < r_wakeup (w_reactors w ! j) \<or>
    (\<exists>i < nshards w. BITSET64_GET (r_soft_notify (w_reactors w ! i)) j \<and> will_ring (phases i) j)"
proof -
  have "wake_ok w phases" using reachable_wake_ok [OF assms(1)] by simp
  moreover have "\<not> stopped w" using assms(2,5) by (auto simp: stopped_def)
  ultimately have "rung w phases j" using wake_okD(4) assms(2-4) by blast
  then show ?thesis by (simp only: rung_def)
qed

theorem no_lost_wakeup_witness:
  "\<exists>w phases. reachable (w, phases) \<and> phases 3 = Waiting True \<and> mq_abs (r_cb_queue (w_reactors w ! 3)) \<noteq> []
     \<and> (0 < r_wakeup (w_reactors w ! 3) \<or>
        (\<exists>i < 4. BITSET64_GET (r_soft_notify (w_reactors w ! i)) 3 \<and> will_ring (phases i) 3))"
proof -
  obtain w phases where r: "reachable (w, phases)" "nshards w = 4" "phases 3 = Waiting True"
    "mq_abs (r_cb_queue (w_reactors w ! 3)) \<noteq> []" "r_running (w_reactors w ! 3)"
    by (rule demo_run, rule that, assumption+)
  have "3 < nshards w" using r(2) by simp
  from no_lost_wakeup [OF r(1) this r(3-5)] r show ?thesis by auto
qed

section \<open>Keyed requests\<close>

text \<open>
  C9: A GET, SET, DEL, INCR, DECR, INCRBY or DECRBY (with an increment that is a number and not
  negative) on the shard that owns the key consumes exactly its bytes, appends
  exactly the reply its specification gives to the output of its connection, and changes the data
  of the server exactly as its specification changes the map of the selected database.
\<close>

theorem keyed_request_local:
  assumes "world_ok w" "room w" "self < nshards w"
    "w_conns w p = Some c" "received c = resp_encode ss @ ys" "c_flags c AND END = 0"
    "request_op ss = Some (f, oper)" "unat (key_hash (ss ! 1)) mod nshards w = self"
    "unat (c_db c) < length (s_dbs (w_shards w ! self))"
    "spec_op (data w self (unat (c_db c))) (ss ! 1) oper = Some (m, res)" "can_reply c (reply_of res)"
  shows "\<exists>w' c'. on_data_available self p w = Some (w', ys \<noteq> []) \<and> world_ok w'
    \<and> w_conns w' = (w_conns w)(p \<mapsto> c') \<and> pending c' = pending c @ reply_of res \<and> received c' = ys
    \<and> data w' = (data w)(self := (data w self)(unat (c_db c) := m))"
  by (rule local_request [OF assms]) blast

text \<open>A world with one connection on shard \<open>i\<close> that has sent \<open>bs\<close>.\<close>

lemma demo_world:
  assumes "length bs \<le> MESSAGE_MAX_LENGTH" "bs \<noteq> []" "i < 4"
  obtains w c where "world_ok w" "room w" "nshards w = 4" "w_conns w 1 = Some c" "received c = bs" "c_flags c = 0"
    "c_shard_id c = i" "c_db c = 0" "c_send_buf_size c = 0" "pending c = []" "conn_ok c"
    "\<And>j. mq_abs (r_cb_queue (w_reactors w ! j)) = [] \<or> 4 \<le> j" "data w i 0 = Map.empty"
    "\<And>j. j < 4 \<Longrightarrow> length (s_dbs (w_shards w ! j)) = 16"
proof -
  obtain w0 where w0: "init_world (\<lambda>_. 0) = Some w0" "world_ok w0" "nshards w0 = 4" "room w0"
    "w_reactors w0 = map reactor_init [0..<4]" "w_conns w0 = Map.empty" "\<forall>s \<in> set (w_shards w0). length (s_dbs s) = 16"
    "\<forall>s \<in> set (w_shards w0). \<forall>db \<in> set (s_dbs s). db_abs db = Map.empty"
    by (rule init_world_ok [of "\<lambda>_. 0"], rule that, assumption+)
  obtain c where c: "on_epollin_read (Inr bs) (on_accept i 5 4096) = Some (c, True)" "conn_ok c" "received c = bs"
    "c_flags c = 0" "c_shard_id c = i" "c_db c = 0" "c_send_buf_size c = 0" "pending c = []"
    by (rule accept_read [OF assms(1,2), of 4096 i 5], simp, rule that, assumption+)
  let ?w = "upd_conn 1 c w0"
  have "world_ok ?w" using world_ok_upd_conn [OF w0(2) c(2)] .
  moreover have "mq_abs (r_cb_queue (w_reactors ?w ! j)) = [] \<or> 4 \<le> j" for j
    using w0(5) by (cases "j < 4") (simp_all add: reactor_init_def mailbox_init)
  moreover have "data ?w i 0 = Map.empty"
  proof -
    have s: "w_shards w0 ! i \<in> set (w_shards w0)" using w0(3) assms(3) by (intro nth_mem) simp
    then have "s_dbs (w_shards w0 ! i) ! 0 \<in> set (s_dbs (w_shards w0 ! i))" using w0(7) by (intro nth_mem) simp
    then show ?thesis using w0(8) s by (simp add: data_def)
  qed
  moreover have "length (s_dbs (w_shards ?w ! j)) = 16" if "j < 4" for j using w0(3,7) that by simp
  ultimately show thesis using that [of ?w c] c w0(3,4) by (simp add: upd_conn_def room_def)
qed

text \<open>Requests on the key \<^verbatim>\<open>a\<close>, which belongs to shard 3 of 4.\<close>

lemma demo_set: "request_op [bstr ''SET'', bstr ''a'', bstr ''1''] = Some (Cmd_set, OpSet (bstr ''1''))"
  "length (resp_encode [bstr ''SET'', bstr ''a'', bstr ''1'']) \<le> MESSAGE_MAX_LENGTH"
  "resp_encode [bstr ''SET'', bstr ''a'', bstr ''1''] \<noteq> []"
  by (simp_all add: resp_encode_def resp_bulk_def dec_digits.simps MESSAGE_MAX_LENGTH_def)

lemma reply_ok: "reply_of ResOK = bstr ''+OK'' @ crlf"
  by (simp add: reply_of_def resp_simple_def)

theorem keyed_request_local_witness:
  "\<exists>w w' c'. on_data_available 3 1 w = Some (w', False) \<and> w_conns w' 1 = Some c' \<and> pending c' = bstr ''+OK'' @ crlf
     \<and> data w 3 0 (bstr ''a'') = None \<and> data w' 3 0 (bstr ''a'') = Some (bstr ''1'')"
proof -
  let ?ss = "[bstr ''SET'', bstr ''a'', bstr ''1'']"
  have 3: "(3 :: nat) < 4" by simp
  obtain w c where w: "world_ok w" "room w" "nshards w = 4" "w_conns w 1 = Some c" "received c = resp_encode ?ss" "c_flags c = 0"
    "c_db c = 0" "c_send_buf_size c = 0" "pending c = []" "data w 3 0 = Map.empty"
    "\<And>j. j < 4 \<Longrightarrow> length (s_dbs (w_shards w ! j)) = 16"
    by (rule demo_world [OF demo_set(2,3) 3], rule that, assumption+)
  have "3 < nshards w" "received c = resp_encode ?ss @ []" "c_flags c AND END = 0"
    "unat (key_hash (?ss ! 1)) mod nshards w = 3" "unat (c_db c) < length (s_dbs (w_shards w ! 3))"
    "spec_op (data w 3 (unat (c_db c))) (?ss ! 1) (OpSet (bstr ''1'')) = Some ([bstr ''a'' \<mapsto> bstr ''1''], ResOK)"
    "can_reply c (reply_of ResOK)"
    using w key_a by (simp_all add: spec_op_def can_reply_def reply_ok MESSAGE_MAX_LENGTH_def)
  from keyed_request_local [OF w(1,2) this(1) w(4) this(2,3) demo_set(1) this(4-7)] obtain w' c' where
    "on_data_available 3 1 w = Some (w', False)" "w_conns w' = (w_conns w)(1 \<mapsto> c')" "pending c' = bstr ''+OK'' @ crlf"
    "data w' = (data w)(3 := (data w 3)(unat (c_db c) := [bstr ''a'' \<mapsto> bstr ''1'']))"
    using w(9) reply_ok by auto
  then show ?thesis using w(7,10) by (intro exI [of _ w] exI [of _ w'] exI [of _ c']) simp
qed

text \<open>
  C4: Executing a keyed request through the mailboxes is equivalent to executing it in place: when
  the connection is on another shard than the key, the request step, the callback on the owning
  shard and the callback back on the shard of the connection together leave the same output on the
  connection and the same data in every database as the owning shard's own execution would, and
  the connection is no longer waiting.
\<close>

theorem remote_equals_local:
  assumes "world_ok w" "room w" "self < nshards w"
    "w_conns w p = Some c" "received c = resp_encode ss" "c_flags c = 0" "c_shard_id c = self"
    "request_op ss = Some (f, oper)" "owner = unat (key_hash (ss ! 1)) mod nshards w" "owner \<noteq> self"
    "mq_abs (r_cb_queue (w_reactors w ! owner)) = []" "mq_abs (r_cb_queue (w_reactors w ! self)) = []"
    "unat (c_db c) < length (s_dbs (w_shards w ! owner))"
    "spec_op (data w owner (unat (c_db c))) (ss ! 1) oper = Some (m, res)" "can_reply c (reply_of res)"
  shows "\<exists>w1 w2 w3 c3 wl cl. on_data_available self p w = Some (w1, False)
    \<and> poll_callback owner w1 = Some (w2, True) \<and> poll_callback self w2 = Some (w3, True)
    \<and> on_data_available owner p w = Some (wl, False)
    \<and> w_conns w3 p = Some c3 \<and> w_conns wl p = Some cl \<and> pending c3 = pending cl \<and> received c3 = received cl
    \<and> c_flags c3 AND DISPATCH_WAITING = 0 \<and> data w3 = data wl"
proof -
  have e: "c_flags c AND END = 0" using assms(6) by simp
  have owner: "owner < nshards w" using world_ok_owner [OF assms(1)] assms(9) by simp
  obtain w1 w2 w3 c3 where r: "on_data_available self p w = Some (w1, False)" "poll_callback owner w1 = Some (w2, True)"
    "poll_callback self w2 = Some (w3, True)" "w_conns w3 = (w_conns w)(p \<mapsto> c3)" "pending c3 = pending c @ reply_of res"
    "received c3 = []" "c_flags c3 = c_flags c AND NOT DISPATCH_WAITING"
    "data w3 = (data w)(owner := (data w owner)(unat (c_db c) := m))"
    by (rule remote_request [OF assms(1-5) e assms(7-15)], rule that, assumption+)
  have "received c = resp_encode ss @ []" "unat (key_hash (ss ! 1)) mod nshards w = owner" using assms(5,9) by simp_all
  from local_request [OF assms(1,2) owner assms(4) this(1) e assms(8) this(2) assms(13-15)] obtain wl cl where
    l: "on_data_available owner p w = Some (wl, [] \<noteq> ([] :: bytes))" "w_conns wl = (w_conns w)(p \<mapsto> cl)"
      "pending cl = pending c @ reply_of res" "received cl = []"
      "data wl = (data w)(owner := (data w owner)(unat (c_db c) := m))" by metis
  have "c_flags c3 AND DISPATCH_WAITING = 0" using r(7) assms(6) by simp
  then show ?thesis using r l by (intro exI [of _ w1] exI [of _ w2] exI [of _ w3] exI [of _ c3] exI [of _ wl] exI [of _ cl]) simp
qed

theorem remote_equals_local_witness:
  "\<exists>w w1 w2 w3 c3. on_data_available 0 1 w = Some (w1, False) \<and> poll_callback 3 w1 = Some (w2, True)
     \<and> poll_callback 0 w2 = Some (w3, True) \<and> w_conns w3 1 = Some c3"
proof -
  let ?ss = "[bstr ''SET'', bstr ''a'', bstr ''1'']"
  have 0: "(0 :: nat) < 4" by simp
  obtain w c where w: "world_ok w" "room w" "nshards w = 4" "w_conns w 1 = Some c" "received c = resp_encode ?ss" "c_flags c = 0"
    "c_shard_id c = 0" "c_db c = 0" "c_send_buf_size c = 0"
    "\<And>j. mq_abs (r_cb_queue (w_reactors w ! j)) = [] \<or> 4 \<le> j"
    "\<And>j. j < 4 \<Longrightarrow> length (s_dbs (w_shards w ! j)) = 16"
    by (rule demo_world [OF demo_set(2,3) 0], rule that, assumption+)
  have "0 < nshards w" "3 = unat (key_hash (?ss ! 1)) mod nshards w" "(3 :: nat) \<noteq> 0"
    "mq_abs (r_cb_queue (w_reactors w ! 3)) = []" "mq_abs (r_cb_queue (w_reactors w ! 0)) = []"
    "unat (c_db c) < length (s_dbs (w_shards w ! 3))"
    "spec_op (data w 3 (unat (c_db c))) (?ss ! 1) (OpSet (bstr ''1'')) = Some ((data w 3 0)(bstr ''a'' \<mapsto> bstr ''1''), ResOK)"
    "can_reply c (reply_of ResOK)"
    using w(3,8,9,11) w(10) [of 3] w(10) [of 0] key_a
    by (simp_all add: spec_op_def can_reply_def reply_ok MESSAGE_MAX_LENGTH_def)
  from remote_equals_local [OF w(1,2) this(1) w(4-7) demo_set(1) this(2-8)] show ?thesis by metis
qed

end
