(* ===== verification/Server_Props.thy ===== *)
theory Server_Props
  imports System_Props Protocol_Props
begin

text \<open>
  What the reactors do with the output and the end of a connection, and where the request loop,
  and the flush leave what they promise.
\<close>

section \<open>Flushing\<close>

text \<open>Results of \<^verbatim>\<open>write\<close> that send something, never more than was asked for.\<close>

fun writes_ok :: "u64 list \<Rightarrow> nat \<Rightarrow> bool" where
  "writes_ok [] n \<longleftrightarrow> n = 0"
| "writes_ok (rv # rvs) n \<longleftrightarrow> 0 < unat rv \<and> unat rv \<le> n \<and> writes_ok rvs (n - unat rv)"

lemma unat_minus_1_64: "unat (- 1 :: u64) = 2 ^ 64 - 1"
  by (simp add: unsigned_minus_1_eq_mask mask_eq_exp_minus_1)

lemma flush_write:
  assumes "conn_ok c" "0 < unat rv" "unat rv \<le> c_send_buf_size c - c_send_buf_sent c"
  shows "reactor_epoll_flush rv c =
    Some (if c_send_buf_sent c + unat rv = c_send_buf_size c then c\<lparr>c_send_buf_sent := 0, c_send_buf_size := 0\<rparr>
          else c\<lparr>c_send_buf_sent := c_send_buf_sent c + unat rv\<rparr>)"
    and "kernel_bytes rv c = take (unat rv) (drop (c_send_buf_sent c) (pending c))"
proof -
  have small: "c_send_buf_size c < 2 ^ 63" using assms(1) by (simp add: conn_ok_def MESSAGE_MAX_LENGTH_def)
  have u: "unat (of_nat (c_send_buf_size c) :: u64) = c_send_buf_size c"
    "unat (of_nat (c_send_buf_sent c) + rv) = c_send_buf_sent c + unat rv"
    using assms small by (simp_all add: unat_of_nat_64 unat_word_ariths conn_ok_def)
  have "of_nat (c_send_buf_sent c) + rv = (of_nat (c_send_buf_size c) :: u64) \<longleftrightarrow> c_send_buf_sent c + unat rv = c_send_buf_size c"
    using u by (simp only: word_unat_eq_iff)
  then show "reactor_epoll_flush rv c =
    Some (if c_send_buf_sent c + unat rv = c_send_buf_size c then c\<lparr>c_send_buf_sent := 0, c_send_buf_size := 0\<rparr>
          else c\<lparr>c_send_buf_sent := c_send_buf_sent c + unat rv\<rparr>)"
    using assms u by (auto simp: reactor_epoll_flush_def Let_def word_less_nat_alt)
  have "rv \<noteq> - 1" using assms(3) small unat_minus_1_64 by auto
  then show "kernel_bytes rv c = take (unat rv) (drop (c_send_buf_sent c) (pending c))"
    by (simp add: kernel_bytes_def pending_def)
qed

lemma flush_all:
  "writes_ok rvs (c_send_buf_size c - c_send_buf_sent c) \<Longrightarrow> conn_ok c \<Longrightarrow>
    c_send_buf_sent c < c_send_buf_size c \<or> c_send_buf_size c = 0 \<Longrightarrow>
    flush_conn rvs c out = Some (c\<lparr>c_send_buf_sent := 0, c_send_buf_size := 0\<rparr>, out @ drop (c_send_buf_sent c) (pending c))"
proof (induction rvs arbitrary: c out)
  case Nil
  then have "c_send_buf_size c = 0" "c_send_buf_sent c = 0" by (auto simp: conn_ok_def)
  then have "c\<lparr>c_send_buf_sent := 0, c_send_buf_size := 0\<rparr> = c" by simp
  then show ?case using \<open>c_send_buf_size c = 0\<close> by (subst flush_conn.simps) (simp add: pending_def)
next
  case (Cons rv rvs)
  have rv: "0 < unat rv" "unat rv \<le> c_send_buf_size c - c_send_buf_sent c" using Cons.prems(1) by simp_all
  then have ne: "c_send_buf_size c \<noteq> 0" by auto
  note fl = flush_write [OF Cons.prems(2) rv]
  let ?n = "c_send_buf_sent c + unat rv"
  show ?case
  proof (cases "?n = c_send_buf_size c")
    case True
    then have "rvs = []" using Cons.prems(1) rv by (cases rvs) auto
    have "unat rv = c_send_buf_size c - c_send_buf_sent c" using True by simp
    moreover have "length (pending c) = c_send_buf_size c" using Cons.prems(2) by (simp add: pending_def conn_ok_def)
    ultimately show ?thesis using ne fl True \<open>rvs = []\<close>
      by (subst flush_conn.simps, subst flush_conn.simps) simp
  next
    case False
    let ?c = "c\<lparr>c_send_buf_sent := ?n\<rparr>"
    have "writes_ok rvs (c_send_buf_size ?c - c_send_buf_sent ?c)" "conn_ok ?c" "?n < c_send_buf_size c"
      using Cons.prems rv False by (auto simp: conn_ok_def)
    from Cons.IH [OF this(1,2), of "out @ kernel_bytes rv c"] this(3)
    have "flush_conn rvs ?c (out @ kernel_bytes rv c)
      = Some (c\<lparr>c_send_buf_sent := 0, c_send_buf_size := 0\<rparr>, (out @ kernel_bytes rv c) @ drop ?n (pending c))"
      by (simp add: pending_def)
    moreover have "take (unat rv) (drop (c_send_buf_sent c) (pending c)) @ drop ?n (pending c) = drop (c_send_buf_sent c) (pending c)"
      by (metis add.commute append_take_drop_id drop_drop)
    ultimately show ?thesis using ne fl False by (subst flush_conn.simps) simp
  qed
qed

text \<open>
  C19: As long as every \<^verbatim>\<open>write\<close> sends something, the flush of a connection hands exactly its pending
  output to the kernel, once and in order, however the writes split it, and leaves the send
  buffer empty.
\<close>

theorem flush_sends_pending:
  assumes "conn_ok c" "c_send_buf_sent c = 0" "writes_ok rvs (c_send_buf_size c)"
  shows "flush_conn rvs c [] = Some (c\<lparr>c_send_buf_sent := 0, c_send_buf_size := 0\<rparr>, pending c)"
  using flush_all [of rvs c "[]"] assms by auto

theorem flush_sends_pending_witness:
  "\<exists>c c'. pending c = bstr ''+PONG'' @ crlf \<and> flush_conn [3, 4] c [] = Some (c', bstr ''+PONG'' @ crlf)
     \<and> c_send_buf_size c' = 0"
proof -
  obtain c where c: "send_sprintf (demo_conn []) (bstr ''+PONG'' @ crlf) = Some c" "replied (demo_conn []) (bstr ''+PONG'' @ crlf) c"
    using send_sprintf_ok [of "demo_conn []" "bstr ''+PONG'' @ crlf"] demo_conn [of "[]"] by (auto simp: MESSAGE_MAX_LENGTH_def)
  have f: "conn_ok c" "pending c = bstr ''+PONG'' @ crlf" "c_send_buf_size c = 7" "c_send_buf_sent c = 0"
    using c(2) by (auto simp: replied_def pending_def demo_conn_def)
  have "writes_ok [3, 4] (c_send_buf_size c)" using f(3) by simp
  from flush_sends_pending [OF f(1,4) this] f(2) show ?thesis
    by (intro exI [of _ c] exI [of _ "c\<lparr>c_send_buf_sent := 0, c_send_buf_size := 0\<rparr>"]) simp
qed

text \<open>
  C31: A \<^verbatim>\<open>write\<close> that fails, be it only because the socket is full, is taken for a write of
  \<open>2^64 - 1\<close> bytes: after a first part of \<open>k\<close> bytes it moves the position one byte back, so the
  byte before it is sent twice; and as the first write of a reply it fails the assertion and
  ends the process.
\<close>

theorem failed_write_corrupts_output:
  assumes "conn_ok c" "c_send_buf_sent c = 0" "0 < k" "k < c_send_buf_size c"
  shows "(\<exists>c'. flush_conn [of_nat k, - 1, of_nat (c_send_buf_size c - (k - 1))] c []
        = Some (c', take k (pending c) @ drop (k - 1) (pending c)))
    \<and> flush_conn (- 1 # rvs) c [] = None"
proof
  let ?c = "c\<lparr>c_send_buf_sent := k\<rparr>" and ?d = "c\<lparr>c_send_buf_sent := k - 1\<rparr>"
  have small: "c_send_buf_size c < 2 ^ 63" "k < 2 ^ 64" using assms(1,4) by (simp_all add: conn_ok_def MESSAGE_MAX_LENGTH_def)
  have uk: "unat (of_nat k :: u64) = k" using small(2) by (rule unat_of_nat_64)
  have w1: "reactor_epoll_flush (of_nat k) c = Some ?c" "kernel_bytes (of_nat k) c = take k (pending c)"
    using flush_write [OF assms(1), of "of_nat k"] assms uk by auto
  have kk: "of_nat k - 1 = (of_nat (k - 1) :: u64)" using assms(3) by (cases k) simp_all
  have u: "unat (of_nat (k - 1) :: u64) = k - 1" "unat (of_nat (c_send_buf_size c) :: u64) = c_send_buf_size c"
    using small by (simp_all add: unat_of_nat_64)
  have "\<not> of_nat (c_send_buf_size c) < (of_nat (k - 1) :: u64)" "of_nat (k - 1) \<noteq> (of_nat (c_send_buf_size c) :: u64)"
    using u assms(4) by (auto simp: word_less_nat_alt)
  then have w2: "reactor_epoll_flush (- 1) ?c = Some ?d" "kernel_bytes (- 1) ?c = []"
    using u kk by (simp_all add: reactor_epoll_flush_def kernel_bytes_def Let_def)
  have d: "conn_ok ?d" "c_send_buf_sent ?d < c_send_buf_size ?d" "pending ?d = pending c"
    using assms(1,4) by (simp_all add: conn_ok_def pending_def)
  have ur: "unat (of_nat (c_send_buf_size c - (k - 1)) :: u64) = c_send_buf_size c - (k - 1)"
    using small by (intro unat_of_nat_64) simp
  have "writes_ok [of_nat (c_send_buf_size c - (k - 1))] (c_send_buf_size ?d - c_send_buf_sent ?d)"
    using ur assms(3,4) by simp
  from flush_all [OF this d(1), of "take k (pending c)"] d(2)
  have w3: "flush_conn [of_nat (c_send_buf_size c - (k - 1))] ?d (take k (pending c))
      = Some (c\<lparr>c_send_buf_sent := 0, c_send_buf_size := 0\<rparr>, take k (pending c) @ drop (k - 1) (pending c))"
    using d(3) by simp
  have ne: "c_send_buf_size c \<noteq> 0" using assms(4) by simp
  show "\<exists>c'. flush_conn [of_nat k, - 1, of_nat (c_send_buf_size c - (k - 1))] c []
      = Some (c', take k (pending c) @ drop (k - 1) (pending c))"
    using ne w1 w2 w3 by (subst flush_conn.simps, simp, subst flush_conn.simps) simp
  have "(of_nat (c_send_buf_size c) :: u64) < - 1"
    using u(2) small(1) by (simp add: word_less_nat_alt unat_minus_1_64)
  then show "flush_conn (- 1 # rvs) c [] = None"
    using ne assms(2) by (subst flush_conn.simps) (simp add: reactor_epoll_flush_def)
qed

theorem failed_write_corrupts_output_witness:
  "\<exists>c c'. pending c = bstr ''+PONG'' @ crlf
     \<and> flush_conn [2, - 1, 6] c [] = Some (c', bstr ''+P'' @ bstr ''PONG'' @ crlf)"
proof -
  obtain c where c: "send_sprintf (demo_conn []) (bstr ''+PONG'' @ crlf) = Some c" "replied (demo_conn []) (bstr ''+PONG'' @ crlf) c"
    using send_sprintf_ok [of "demo_conn []" "bstr ''+PONG'' @ crlf"] demo_conn [of "[]"] by (auto simp: MESSAGE_MAX_LENGTH_def)
  have f: "conn_ok c" "pending c = bstr ''+PONG'' @ crlf" "c_send_buf_size c = 7" "c_send_buf_sent c = 0"
    using c(2) by (auto simp: replied_def pending_def demo_conn_def)
  from failed_write_corrupts_output [OF f(1,4), of 2] f(2,3) show ?thesis by auto
qed

section \<open>Requests that end the process\<close>

lemma ping_dispatch:
  assumes "world_ok w" "w_conns w p = Some c" "received c = resp_encode [bstr ''PING''] @ ys"
  obtains args where "parse_request c = PARSE_OK args" "0 < a_argc args"
    "a_len args = of_nat (length (resp_encode [bstr ''PING'']))" "handle_command self p args w = upd_with p cmd_ping w"
proof -
  have cmd: "find (\<lambda>c. cm_name c = [bstr ''PING''] ! 0) command_table
      = Some \<lparr>cm_name = bstr ''PING'', cm_arity = 0, cm_func = Some Cmd_ping\<rparr>"
    by (simp add: command_table_def of_char_def)
  obtain args where a: "parse_request c = PARSE_OK args" "0 < a_argc args"
    "a_len args = of_nat (length (resp_encode [bstr ''PING'']))" "handle_command self p args w = call_command Cmd_ping self p args w"
    by (rule dispatch_command [OF assms cmd, of Cmd_ping self]) (simp_all add: key_ok_def)
  then show thesis using that by (simp add: call_command_def)
qed

lemma pong_writer: "cmd_ping c = send_sprintf c (bstr ''+PONG'' @ crlf)"
  by (simp add: cmd_ping_def write_simple_string_def fmt_prec_s_def of_char_def)

text \<open>
  The reply writers do not check the send buffer: a PING on a connection with less than eight
  bytes of free output writes past the end of it, and since pipelined requests are all executed
  before anything is flushed, one read of them can fill it.
\<close>

theorem full_output_faults:
  assumes "world_ok w" "w_conns w p = Some c" "received c = resp_encode [bstr ''PING''] @ ys"
    "MESSAGE_MAX_LENGTH \<le> c_send_buf_size c + 7"
  shows "on_data_available self p w = None"
proof -
  obtain args where a: "parse_request c = PARSE_OK args" "0 < a_argc args"
    "handle_command self p args w = upd_with p cmd_ping w"
    by (rule ping_dispatch [OF assms(1-3)], rule that, assumption+)
  have "\<not> c_recv_buf_size c < 1"
    using arg_cong [OF assms(3), of length] length_received [OF world_ok_conn [OF assms(1,2)]] by (simp add: resp_encode_def)
  moreover have "send_sprintf c (bstr ''+PONG'' @ crlf) = None"
    using assms(4) by (intro send_sprintf_overflow) simp
  ultimately show ?thesis using assms(2) a by (simp add: on_data_available_def upd_with_def pong_writer)
qed

lemma demo_ping: "length (resp_encode [bstr ''PING'']) \<le> MESSAGE_MAX_LENGTH"
    "length (resp_encode demo_request @ resp_encode [bstr ''PING'']) \<le> MESSAGE_MAX_LENGTH"
  by (simp_all add: demo_request_def resp_encode_def resp_bulk_def dec_digits.simps MESSAGE_MAX_LENGTH_def)

theorem full_output_faults_witness:
  "\<exists>w c. w_conns w 1 = Some c \<and> received c = resp_encode [bstr ''PING''] \<and> c_send_buf_size c = 8190
     \<and> on_data_available 0 1 w = None"
proof -
  have 0: "(0 :: nat) < 4" by simp
  obtain w c where w: "world_ok w" "received c = resp_encode [bstr ''PING'']" "conn_ok c"
    by (rule demo_world [OF demo_ping(1) resp_encode_hd(1) 0], rule that, assumption+)
  let ?c = "c\<lparr>c_send_buf_size := 8190, c_send_buf_sent := 0\<rparr>"
  have "conn_ok ?c" using w(3) by (simp add: conn_ok_def MESSAGE_MAX_LENGTH_def)
  then have "world_ok (upd_conn 1 ?c w)" by (rule world_ok_upd_conn [OF w(1)])
  moreover have "w_conns (upd_conn 1 ?c w) 1 = Some ?c" by (simp add: upd_conn_def)
  moreover have "received ?c = resp_encode [bstr ''PING''] @ []" using w(2) by (simp add: received_def)
  moreover have "MESSAGE_MAX_LENGTH \<le> c_send_buf_size ?c + 7" by (simp add: MESSAGE_MAX_LENGTH_def)
  ultimately have "on_data_available 0 1 (upd_conn 1 ?c w) = None" by (rule full_output_faults)
  then show ?thesis using \<open>w_conns (upd_conn 1 ?c w) 1 = Some ?c\<close> w(2)
    by (intro exI [of _ "upd_conn 1 ?c w"] exI [of _ ?c]) (simp add: received_def)
qed

text \<open>
  C36: A connection that waits for another shard still executes the requests it has already
  received: when a keyed request for another shard is followed by a PING in the same read, the
  PONG is put into the output before the reply of the first request has come back, so the replies
  are out of order.
\<close>

theorem pipelined_reply_overtakes:
  assumes "world_ok w" "room w" "self < nshards w"
    "w_conns w p = Some c" "received c = resp_encode ss @ resp_encode [bstr ''PING'']" "c_flags c = 0"
    "request_op ss = Some (f, oper)" "owner = unat (key_hash (ss ! 1)) mod nshards w" "owner \<noteq> self"
    "mq_abs (r_cb_queue (w_reactors w ! owner)) = []" "c_send_buf_size c + 7 < MESSAGE_MAX_LENGTH"
  shows "\<exists>w1 w2 c2. on_data_available self p w = Some (w1, True) \<and> on_data_available self p w1 = Some (w2, False)
    \<and> w_conns w2 p = Some c2 \<and> pending c2 = pending c @ bstr ''+PONG'' @ crlf
    \<and> c_flags c2 AND DISPATCH_WAITING \<noteq> 0 \<and> mq_abs (r_cb_queue (w_reactors w2 ! owner)) \<noteq> []"
proof -
  have e: "c_flags c AND END = 0" using assms(6) by simp
  obtain w1 c1 where 1: "on_data_available self p w = Some (w1, resp_encode [bstr ''PING''] \<noteq> [])" "world_ok w1"
    "w_conns w1 = (w_conns w)(p \<mapsto> c1)" "received c1 = resp_encode [bstr ''PING'']" "pending c1 = pending c"
    "c_flags c1 = c_flags c OR DISPATCH_WAITING" "c_send_buf_size c1 = c_send_buf_size c"
    "mq_abs (r_cb_queue (w_reactors w1 ! owner))
       = [Request \<lparr>cb_src = self, cb_dst = owner, cb_conn = p\<rparr> (ss ! 1) (key_hash (ss ! 1)) oper]"
    by (rule remote_send [OF assms(1-5) e assms(7-10)], rule that, assumption+)
  have c1: "w_conns w1 p = Some c1" "received c1 = resp_encode [bstr ''PING''] @ []" using 1(3,4) by simp_all
  obtain args where a: "parse_request c1 = PARSE_OK args" "0 < a_argc args"
    "a_len args = of_nat (length (resp_encode [bstr ''PING'']))" "handle_command self p args w1 = upd_with p cmd_ping w1"
    by (rule ping_dispatch [OF 1(2) c1], rule that, assumption+)
  note ck = world_ok_conn [OF 1(2) c1(1)]
  have "c_send_buf_size c1 + length (bstr ''+PONG'' @ crlf) < MESSAGE_MAX_LENGTH" using assms(11) 1(7) by simp
  then obtain d where d: "send_sprintf c1 (bstr ''+PONG'' @ crlf) = Some d" "replied c1 (bstr ''+PONG'' @ crlf) d"
    using send_sprintf_ok [OF ck] by blast
  have "conn_ok d" "received d = resp_encode [bstr ''PING''] @ []" "c_flags d = DISPATCH_WAITING"
    "c_flags d AND END = 0" "pending d = pending c @ bstr ''+PONG'' @ crlf"
    using d(2) c1(2) 1(5,6) assms(6) by (auto simp: replied_def received_def DISPATCH_WAITING_def END_def)
  then obtain c2 where c2: "consume (of_nat (length (resp_encode [bstr ''PING'']))) d = (c2, [] \<noteq> ([] :: bytes))"
    "pending c2 = pending c @ bstr ''+PONG'' @ crlf" "c_flags c2 = DISPATCH_WAITING"
    using consume_request [of d "resp_encode [bstr ''PING'']" "[]"] by metis
  let ?w2 = "upd_conn p c2 (upd_conn p d w1)"
  have "\<not> c_recv_buf_size c1 < 1"
    using arg_cong [OF c1(2), of length] length_received [OF ck] by (simp add: resp_encode_def)
  then have "on_data_available self p w1 = Some (?w2, False)"
    using c1(1) a d(1) c2(1) by (simp add: on_data_available_def upd_with_def pong_writer upd_conn_def)
  moreover have "on_data_available self p w = Some (w1, True)" using 1(1) resp_encode_hd by simp
  moreover have "w_conns ?w2 p = Some c2" "mq_abs (r_cb_queue (w_reactors ?w2 ! owner)) \<noteq> []"
    using 1(8) by (simp_all add: upd_conn_def)
  moreover have "c_flags c2 AND DISPATCH_WAITING \<noteq> 0" using c2(3) by (simp add: DISPATCH_WAITING_def)
  ultimately show ?thesis using c2(2) by blast
qed

theorem pipelined_reply_overtakes_witness:
  "\<exists>w w1 w2 c2. on_data_available 0 1 w = Some (w1, True) \<and> on_data_available 0 1 w1 = Some (w2, False)
     \<and> w_conns w2 1 = Some c2 \<and> pending c2 = bstr ''+PONG'' @ crlf \<and> mq_abs (r_cb_queue (w_reactors w2 ! 3)) \<noteq> []"
proof -
  have 0: "(0 :: nat) < 4" by simp
  have ne: "resp_encode demo_request @ resp_encode [bstr ''PING''] \<noteq> []" using resp_encode_hd by simp
  obtain w c where w: "world_ok w" "room w" "nshards w = 4" "w_conns w 1 = Some c"
    "received c = resp_encode demo_request @ resp_encode [bstr ''PING'']" "c_flags c = 0"
    "c_send_buf_size c = 0" "pending c = []" "\<And>j. mq_abs (r_cb_queue (w_reactors w ! j)) = [] \<or> 4 \<le> j"
    by (rule demo_world [OF demo_ping(2) ne 0], rule that, assumption+)
  have "0 < nshards w" "3 = unat (key_hash (demo_request ! 1)) mod nshards w" "(3 :: nat) \<noteq> 0"
    "mq_abs (r_cb_queue (w_reactors w ! 3)) = []" "c_send_buf_size c + 7 < MESSAGE_MAX_LENGTH"
    using w(3,7) w(9) [of 3] key_a demo_request(4) by (simp_all add: MESSAGE_MAX_LENGTH_def)
  from pipelined_reply_overtakes [OF w(1,2) this(1) w(4-6) demo_request(3) this(2-5)] w(8) show ?thesis by auto
qed

section \<open>Closing a connection\<close>

text \<open>
  C34: A connection can be closed while a message in a mailbox still points to it: the callback that
  takes the message up uses the freed connection, whichever shard it runs on.
\<close>

theorem closed_connection_used:
  assumes "world_ok w" "self < nshards w" "w_conns w p = Some c"
    "mq_abs (r_cb_queue (w_reactors w ! i)) = m # ms" "cb_conn (msg_ctx m) = p" "i < nshards w"
  shows "\<exists>w'. reactor_epoll_close self p w = Some w' \<and> poll_callback i w' = None"
proof -
  define w1 where "w1 = upd_reactor self (\<lambda>r. r\<lparr>r_conns := (r_conns r)[c_fd c := None]\<rparr>) w"
  define w' where "w' = w1\<lparr>w_conns := (w_conns w1)(p := None)\<rparr>"
  have close: "reactor_epoll_close self p w = Some w'"
    using assms(3) by (simp add: reactor_epoll_close_def Let_def w'_def w1_def)
  have ok: "world_ok w'" "nshards w' = nshards w" using reactor_epoll_close_ok [OF close assms(1,2)] by auto
  have q: "mq_abs (r_cb_queue (w_reactors w' ! i)) = m # ms"
    using assms(4) by (simp add: w'_def w1_def upd_reactor_field [where g = r_cb_queue])
  have "mq_inv (r_cb_queue (w_reactors w' ! i))" using ok assms(6) by (simp add: world_ok_def reactor_ok_def)
  from mpmcq.deq_law [OF this] q obtain q' where
    q': "mpmcq_dequeue (r_cb_queue (w_reactors w' ! i)) = Some (q', Some m)" by auto
  have "w_conns (upd_reactor i (\<lambda>r. r\<lparr>r_cb_queue := q'\<rparr>) w') p = None" by (simp add: w'_def)
  then have "on_cb i m (upd_reactor i (\<lambda>r. r\<lparr>r_cb_queue := q'\<rparr>) w') = None"
    using assms(5) by (cases m) (simp_all add: on_cb_def run_cb_def cmd_req_def cmd_resp_def)
  then have "poll_callback i w' = None" using q' by (simp add: poll_callback_def)
  then show ?thesis using close by blast
qed

theorem closed_connection_used_witness:
  "\<exists>w w'. reactor_epoll_close 0 1 w = Some w' \<and> poll_callback 3 w' = None"
proof -
  have 0: "(0 :: nat) < 4" by simp
  obtain w c where w: "world_ok w" "room w" "nshards w = 4" "w_conns w 1 = Some c" "received c = resp_encode demo_request" "c_flags c = 0"
    "\<And>j. mq_abs (r_cb_queue (w_reactors w ! j)) = [] \<or> 4 \<le> j"
    by (rule demo_world [OF demo_request(1,2) 0], rule that, assumption+)
  have a: "0 < nshards w" "3 = unat (key_hash (demo_request ! 1)) mod nshards w" "(3 :: nat) \<noteq> 0"
    "mq_abs (r_cb_queue (w_reactors w ! 3)) = []" "received c = resp_encode demo_request @ []" "c_flags c AND END = 0"
    using w(3,5,6) w(7) [of 3] key_a demo_request(4) by simp_all
  obtain w1 c1 where r: "world_ok w1" "w_conns w1 = (w_conns w)(1 \<mapsto> c1)" "w_shards w1 = w_shards w"
    "mq_abs (r_cb_queue (w_reactors w1 ! 3))
       = [Request \<lparr>cb_src = 0, cb_dst = 3, cb_conn = 1\<rparr> (demo_request ! 1) (key_hash (demo_request ! 1)) OpGet]"
    by (rule remote_send [OF w(1,2) a(1) w(4) a(5,6) demo_request(3) a(2,3,4)], rule that, assumption+)
  have "0 < nshards w1" "w_conns w1 1 = Some c1" "3 < nshards w1" using r(2,3) w(3) by simp_all
  from closed_connection_used [OF r(1) this(1,2) r(4) _ this(3)] show ?thesis by auto
qed

text \<open>
  The reply to QUIT is never sent: the request marks the connection as ending and puts the reply
  into the output, and the same event then closes and frees the connection, while output is only
  flushed at the head of the reactor's loop.
\<close>

theorem quit_reply_lost:
  assumes "world_ok w" "w_conns w p = Some c" "received c = resp_encode [bstr ''QUIT''] @ ys"
    "c_send_buf_size c + 5 < MESSAGE_MAX_LENGTH"
  shows "\<exists>w1 c1 w2. on_data_available self p w = Some (w1, False) \<and> w_conns w1 p = Some c1
    \<and> pending c1 = pending c @ bstr ''+OK'' @ crlf
    \<and> finish_event self p None False w1 = Some w2 \<and> w_conns w2 p = None"
proof -
  note ck = world_ok_conn [OF assms(1,2)]
  have cmd: "find (\<lambda>c. cm_name c = [bstr ''QUIT''] ! 0) command_table
      = Some \<lparr>cm_name = bstr ''QUIT'', cm_arity = 0, cm_func = Some Cmd_quit\<rparr>"
    by (simp add: command_table_def of_char_def)
  obtain args where a: "parse_request c = PARSE_OK args" "0 < a_argc args"
    "handle_command self p args w = call_command Cmd_quit self p args w"
    by (rule dispatch_command [OF assms(1-3) cmd, of Cmd_quit self]) (simp_all add: key_ok_def)
  let ?c = "c\<lparr>c_flags := c_flags c OR END\<rparr>"
  have "conn_ok ?c" "can_reply ?c (resp_simple (bstr ''OK''))"
    using ck assms(4) by (simp_all add: can_reply_def resp_simple_def)
  then obtain d where d: "cmd_quit c = Some d" "replied ?c (resp_simple (bstr ''OK'')) d"
    using sprintf_reply unfolding cmd_quit_def writers_as_sprintf(1) by blast
  have f: "c_flags d AND END \<noteq> 0" "pending d = pending c @ bstr ''+OK'' @ crlf"
    using d(2) by (auto simp: replied_def pending_def resp_simple_def END_def bit.conj_disj_distrib2)
  let ?w1 = "upd_conn p d w"
  have "consume (a_len args) d = (d, False)" using f(1) by (simp add: consume_def)
  moreover have "\<not> c_recv_buf_size c < 1"
    using arg_cong [OF assms(3), of length] length_received [OF ck] by (simp add: resp_encode_def)
  ultimately have "on_data_available self p w = Some (?w1, False)"
    using a d(1) assms(2) by (simp add: on_data_available_def call_command_def upd_with_def upd_conn_def)
  moreover have "finish_event self p None False ?w1 = reactor_epoll_close self p ?w1"
    using f(1) by (simp add: finish_event_def upd_conn_def)
  moreover obtain w2 where "reactor_epoll_close self p ?w1 = Some w2" "w_conns w2 p = None"
    by (simp add: reactor_epoll_close_def Let_def upd_conn_def)
  moreover have "w_conns ?w1 p = Some d" by (simp add: upd_conn_def)
  ultimately show ?thesis using f(2) by (intro exI [of _ ?w1] exI [of _ d] exI [of _ w2]) simp
qed

theorem quit_reply_lost_witness:
  "\<exists>w w1 c1 w2. on_data_available 2 1 w = Some (w1, False) \<and> w_conns w1 1 = Some c1
     \<and> pending c1 = bstr ''+OK'' @ crlf \<and> finish_event 2 1 None False w1 = Some w2 \<and> w_conns w2 1 = None"
proof -
  have q: "(2 :: nat) < 4" "length (resp_encode [bstr ''QUIT'']) \<le> MESSAGE_MAX_LENGTH"
    by (simp_all add: resp_encode_def resp_bulk_def dec_digits.simps MESSAGE_MAX_LENGTH_def)
  obtain w c where w: "world_ok w" "w_conns w 1 = Some c" "received c = resp_encode [bstr ''QUIT'']"
    "c_send_buf_size c = 0" "pending c = []"
    by (rule demo_world [OF q(2) resp_encode_hd(1) q(1)], rule that, assumption+)
  have "received c = resp_encode [bstr ''QUIT''] @ []" "c_send_buf_size c + 5 < MESSAGE_MAX_LENGTH"
    using w(3,4) by (simp_all add: MESSAGE_MAX_LENGTH_def)
  from quit_reply_lost [OF w(1,2) this, of 2] w(5) show ?thesis by auto
qed

end
