(* ===== verification/Command_Props.thy ===== *)
theory Command_Props
  imports Requests Wakeup KV_Props Protocol_Props
begin

text \<open>
  The properties of the commands: sequences of operations on a database against their
  specification, counters, the command table, SELECT, and the notification bits.
\<close>

section \<open>Sequences of operations\<close>

fun run_ops :: "(bytes \<times> keyed_op) list \<Rightarrow> entry hashmap \<Rightarrow> (entry hashmap \<times> keyed_res list) option" where
  "run_ops [] db = Some (db, [])"
| "run_ops ((key, oper) # ops) db = do {
     (db1, res) \<leftarrow> exec_op db key (key_hash key) oper;
     (db2, rs) \<leftarrow> run_ops ops db1;
     Some (db2, res # rs) }"

fun spec_ops :: "(bytes \<times> keyed_op) list \<Rightarrow> (bytes \<rightharpoonup> bytes) \<Rightarrow> ((bytes \<rightharpoonup> bytes) \<times> keyed_res list) option" where
  "spec_ops [] f = Some (f, [])"
| "spec_ops ((key, oper) # ops) f = do {
     (f1, res) \<leftarrow> spec_op f key oper;
     (f2, rs) \<leftarrow> spec_ops ops f1;
     Some (f2, res # rs) }"

lemma run_ops_spec:
  "db_inv db \<Longrightarrow> \<forall>(key, oper) \<in> set ops. key_ok key \<Longrightarrow> hm_count db + length ops \<le> 65535 \<Longrightarrow>
    case spec_ops ops (db_abs db) of
      None \<Rightarrow> run_ops ops db = None
    | Some (f, rs) \<Rightarrow> \<exists>db'. run_ops ops db = Some (db', rs) \<and> db_inv db' \<and> db_abs db' = f"
proof (induction ops arbitrary: db)
  case (Cons q ops)
  obtain key oper where q: "q = (key, oper)" by force
  have k: "key_ok key" "hm_count db < 65535" using Cons.prems q by auto
  show ?case
  proof (cases "spec_op (db_abs db) key oper")
    case None
    then show ?thesis using exec_refines [OF Cons.prems(1) k, of oper] q by simp
  next
    case (Some fr)
    obtain f r where fr: "fr = (f, r)" by force
    obtain db1 where 1: "exec_op db key (key_hash key) oper = Some (db1, r)" "db_inv db1" "db_abs db1 = f"
      "hm_count db1 \<le> hm_count db + 1"
      using exec_refines [OF Cons.prems(1) k, of oper] Some fr by auto
    have "\<forall>(key, oper) \<in> set ops. key_ok key" "hm_count db1 + length ops \<le> 65535" using Cons.prems 1(4) by auto
    from Cons.IH [OF 1(2) this] show ?thesis using 1 q Some fr by (auto split: option.splits)
  qed
qed simp

text \<open>
  C3: The operations behind GET, SET, DEL, INCR, DECR and their variants refine a finite map from
  keys to values: run one after the other on a consistent database, they return exactly when the
  specification is defined, give the specified results, and leave a consistent database in the
  specified state.
\<close>

theorem operations_refine_map:
  assumes "db_inv db" "\<forall>(key, oper) \<in> set ops. key_ok key" "hm_count db + length ops \<le> 65535"
  shows "case spec_ops ops (db_abs db) of
      None \<Rightarrow> run_ops ops db = None
    | Some (f, rs) \<Rightarrow> \<exists>db'. run_ops ops db = Some (db', rs) \<and> db_inv db' \<and> db_abs db' = f"
  by (rule run_ops_spec [OF assms])

theorem operations_refine_map_witness:
  "\<exists>db'. run_ops [(bstr ''n'', OpModify 1), (bstr ''n'', OpGet), (bstr ''n'', OpDel), (bstr ''n'', OpDel)] demo_db
     = Some (db', [ResInt 1, ResEntry (Some \<lparr>e_key = bstr ''n'', e_val = bstr ''1''\<rparr>), ResInt 1, ResInt 0])"
proof -
  let ?ops = "[(bstr ''n'', OpModify 1), (bstr ''n'', OpGet), (bstr ''n'', OpDel), (bstr ''n'', OpDel)]"
  have d: "db_inv demo_db" "db_abs demo_db = Map.empty" "hm_count demo_db = 0"
    using demo_db by (simp_all add: db_abs_def fun_eq_iff)
  have "spec_ops ?ops (db_abs demo_db)
      = Some (Map.empty, [ResInt 1, ResEntry (Some \<lparr>e_key = bstr ''n'', e_val = bstr ''1''\<rparr>), ResInt 1, ResInt 0])"
    by (simp add: d(2) spec_op_def spec_modify_def fmt_ld_def dec_digits.simps digit_char_def of_char_def)
  moreover have "\<forall>(key, oper) \<in> set ?ops. key_ok key" by (simp add: key_ok_def)
  ultimately show ?thesis using operations_refine_map [OF d(1), of ?ops] d(3) by auto
qed

section \<open>Counters\<close>

text \<open>
  Printing a counter and parsing it back is the identity on all 64-bit values, whatever bytes
  follow the number in memory.
\<close>

theorem counter_roundtrip: "try_parse_signed_integer (fmt_ld v @ rest) (length (fmt_ld v)) = Some (Some v)"
  by (rule try_parse_fmt_ld)

lemma fmt_ld_nat: "n < 10 ^ 18 \<Longrightarrow> fmt_ld (of_nat n) = dec_digits n \<and> length (dec_digits n) < 20"
proof -
  assume n: "n < 10 ^ 18"
  then have "sint (of_nat n :: u64) = int n" by (simp add: signed_of_nat signed_take_bit_int_eq_self)
  moreover have "length (dec_digits n) \<le> 18" using n by (simp only: length_dec_digits)
  ultimately show ?thesis by (simp add: fmt_ld_def)
qed

lemma spec_modify_number:
  assumes "f key = Some (fmt_ld v)" "length (fmt_ld (v + delta)) < 20"
  shows "spec_modify f key delta = Some (f(key \<mapsto> fmt_ld (v + delta)), ResInt (v + delta))"
  using assms try_parse_fmt_ld [of v "[]"] by (simp add: spec_modify_def)

lemma spec_counts:
  "f key = Some (dec_digits m) \<Longrightarrow> m + n < 10 ^ 18 \<Longrightarrow>
    spec_ops (replicate n (key, OpModify 1)) f
      = Some (f(key \<mapsto> dec_digits (m + n)), map (\<lambda>i. ResInt (of_nat (m + i))) [1..<n + 1])"
proof (induction n arbitrary: f m)
  case 0
  then show ?case by (auto simp: fun_eq_iff)
next
  case (Suc n)
  have b: "m < 10 ^ 18" "m + 1 < 10 ^ 18" "m + 1 + n < 10 ^ 18" using Suc.prems(2) by simp_all
  have e: "of_nat m + 1 = (of_nat (m + 1) :: u64)" by simp
  have "f key = Some (fmt_ld (of_nat m))" "length (fmt_ld (of_nat (m + 1))) < 20"
    using Suc.prems(1) fmt_ld_nat [OF b(1)] fmt_ld_nat [OF b(2)] by (simp_all del: of_nat_add)
  then have "spec_modify f key 1 = Some (f(key \<mapsto> dec_digits (m + 1)), ResInt (of_nat (m + 1)))"
    using spec_modify_number [of f key "of_nat m" 1] fmt_ld_nat [OF b(2)] unfolding e by (simp del: of_nat_add)
  moreover have "spec_ops (replicate n (key, OpModify 1)) (f(key \<mapsto> dec_digits (m + 1)))
      = Some (f(key \<mapsto> dec_digits (m + 1 + n)), map (\<lambda>i. ResInt (of_nat (m + 1 + i))) [1..<n + 1])"
    using Suc.IH [of "f(key \<mapsto> dec_digits (m + 1))" "m + 1"] b(3) by (simp only: fun_upd_same fun_upd_upd)
  ultimately have run: "spec_ops (replicate (Suc n) (key, OpModify 1)) f = Some (f(key \<mapsto> dec_digits (m + 1 + n)),
      ResInt (of_nat (m + 1)) # map (\<lambda>i. ResInt (of_nat (m + 1 + i))) [1..<n + 1])"
    by (simp add: spec_op_def del: upt_Suc of_nat_add)
  have results: "map (\<lambda>i. ResInt (of_nat (m + i))) [1..<Suc n + 1]
      = ResInt (of_nat (m + 1)) # map (\<lambda>i. ResInt (of_nat (m + 1 + i))) [1..<n + 1]"
  proof -
    have "[1..<Suc n + 1] = 1 # map Suc [1..<n + 1]" by (simp add: upt_conv_Cons map_Suc_upt del: upt_Suc)
    then show ?thesis by simp
  qed
  have "m + 1 + n = m + Suc n" by simp
  with run show ?case unfolding results by (simp only:)
qed

text \<open>
  Incrementing counts: starting from a key that holds the number \<open>m\<close>, \<open>n\<close> INCR operations
  answer \<open>m + 1\<close> to \<open>m + n\<close> and leave the decimal digits of \<open>m + n\<close> as the value, up to \<open>10^18\<close>.
\<close>

theorem increments_count:
  assumes "db_inv db" "key_ok key" "hm_count db + n \<le> 65535" "db_abs db key = Some (dec_digits m)" "m + n < 10 ^ 18"
  shows "\<exists>db'. run_ops (replicate n (key, OpModify 1)) db
      = Some (db', map (\<lambda>i. ResInt (of_nat (m + i))) [1..<n + 1])
    \<and> db_abs db' = (db_abs db)(key \<mapsto> dec_digits (m + n))"
  using run_ops_spec [OF assms(1), of "replicate n (key, OpModify 1)"] spec_counts [of "db_abs db" key m n, OF assms(4,5)] assms(2,3)
  by auto

lemma demo_db_with:
  assumes "key_ok k"
  obtains db where "db_inv db" "db_abs db = [k \<mapsto> v]" "hm_count db \<le> 1"
proof -
  have d: "db_inv demo_db" "db_abs demo_db = Map.empty" "hm_count demo_db = 0"
    using demo_db by (simp_all add: db_abs_def fun_eq_iff)
  have "hm_count demo_db < 65535" using d(3) by simp
  from db_set [OF d(1) assms this, of v] show thesis using that d(2,3) by auto
qed

theorem increments_count_witness:
  "\<exists>db db'. db_abs db (bstr ''n'') = Some (dec_digits 41)
     \<and> run_ops (replicate 2 (bstr ''n'', OpModify 1)) db = Some (db', [ResInt 42, ResInt 43])"
proof -
  have k: "key_ok (bstr ''n'')" by (simp add: key_ok_def)
  obtain db where db: "db_inv db" "db_abs db = [bstr ''n'' \<mapsto> dec_digits 41]" "hm_count db \<le> 1"
    by (rule demo_db_with [OF k])
  have "hm_count db + 2 \<le> 65535" "db_abs db (bstr ''n'') = Some (dec_digits 41)" "41 + 2 < (10 :: nat) ^ 18"
    using db(2,3) by simp_all
  from increments_count [OF db(1) k this] obtain db' where
    "run_ops (replicate 2 (bstr ''n'', OpModify 1)) db = Some (db', [ResInt 42, ResInt 43])" by (auto simp: upt_rec)
  then show ?thesis using db(2) by (intro exI [of _ db] exI [of _ db']) simp
qed

text \<open>
  The counter commands ignore whether the counter could be modified: on a value that is not a
  number, INCR and its variants change nothing and answer 0 instead of an error.
\<close>

theorem incr_non_number_answers_0:
  assumes "db_inv db" "key_ok key" "hm_count db < 65535" "db_abs db key = Some v"
    "try_parse_signed_integer v (length v) = Some None"
  shows "\<exists>db'. exec_op db key (key_hash key) (OpModify delta) = Some (db', ResInt 0) \<and> db_abs db' = db_abs db"
  using exec_refines [OF assms(1-3), of "OpModify delta"] assms(4,5) by (auto simp: spec_op_def spec_modify_def)

theorem incr_non_number_answers_0_witness:
  "\<exists>db db'. db_abs db (bstr ''n'') = Some (bstr ''ten'')
     \<and> exec_op db (bstr ''n'') (key_hash (bstr ''n'')) (OpModify 1) = Some (db', ResInt 0)"
proof -
  have k: "key_ok (bstr ''n'')" by (simp add: key_ok_def)
  obtain db where db: "db_inv db" "db_abs db = [bstr ''n'' \<mapsto> bstr ''ten'']" "hm_count db \<le> 1"
    by (rule demo_db_with [OF k])
  have "hm_count db < 65535" "db_abs db (bstr ''n'') = Some (bstr ''ten'')"
    "try_parse_signed_integer (bstr ''ten'') (length (bstr ''ten'')) = Some None"
    using db(2,3) by (simp_all add: try_parse_signed_integer_def is_digit_def of_char_def Let_def)
  from incr_non_number_answers_0 [OF db(1) k this, of 1] obtain db' where
    "exec_op db (bstr ''n'') (key_hash (bstr ''n'')) (OpModify 1) = Some (db', ResInt 0)" by auto
  then show ?thesis using db(2) by (intro exI [of _ db] exI [of _ db']) simp
qed

text \<open>
  C40: The new value of a counter is printed into 20 bytes: when it is \<open>-10^18\<close> or less its sign, its
  19 digits and the final NUL do not fit, and the command writes past the end of the allocation.
\<close>

theorem counter_overflows_buffer:
  assumes "db_inv db" "key_ok key" "hm_count db < 65535" "db_abs db key = Some (fmt_ld v)"
    "sint (v + delta) \<le> - (10 ^ 18)"
  shows "exec_op db key (key_hash key) (OpModify delta) = None"
proof -
  have "\<not> length (dec_digits (nat (- sint (v + delta)))) \<le> 18"
    using assms(5) by (simp add: length_dec_digits)
  then have "20 \<le> length (fmt_ld (v + delta))" using assms(5) by (simp add: fmt_ld_def)
  then have "spec_op (db_abs db) key (OpModify delta) = None"
    using assms(4) try_parse_fmt_ld [of v "[]"] by (simp add: spec_op_def spec_modify_def)
  then show ?thesis using exec_refines [OF assms(1-3), of "OpModify delta"] by simp
qed

theorem counter_overflows_buffer_witness:
  "\<exists>db. db_abs db (bstr ''n'') = Some (fmt_ld (- 999999999999999999))
     \<and> exec_op db (bstr ''n'') (key_hash (bstr ''n'')) (OpModify (- 1)) = None"
proof -
  have k: "key_ok (bstr ''n'')" by (simp add: key_ok_def)
  obtain db where db: "db_inv db" "db_abs db = [bstr ''n'' \<mapsto> fmt_ld (- 999999999999999999)]" "hm_count db \<le> 1"
    by (rule demo_db_with [OF k])
  have "hm_count db < 65535" "db_abs db (bstr ''n'') = Some (fmt_ld (- 999999999999999999))"
    "sint (- 999999999999999999 + - 1 :: u64) \<le> - (10 ^ 18)"
    using db(2,3) by simp_all
  from counter_overflows_buffer [OF db(1) k this] db(2) show ?thesis by (intro exI [of _ db]) simp
qed

section \<open>The command table\<close>

text \<open>
  Building the command table succeeds, and looking a name up in it gives exactly the registered
  command of that name, or none: the fourteen commands of \<^verbatim>\<open>init_commands\<close> with their arities.
\<close>

theorem registered_commands_found:
  assumes "key_ok name"
  shows "\<exists>m. init_commands = Some m \<and> lookup_command name m = Some (find (\<lambda>c. cm_name c = name) command_table)"
proof -
  obtain m where "init_commands = Some m" "table_ok m"
    "\<And>name. key_ok name \<Longrightarrow> lookup_command name m = Some (find (\<lambda>c. cm_name c = name) command_table)"
    by (rule init_commands_ok, rule that, assumption+)
  then show ?thesis using assms by blast
qed

theorem registered_commands_found_witness:
  "\<exists>m. init_commands = Some m
     \<and> lookup_command (bstr ''INCRBY'') m = Some (Some \<lparr>cm_name = bstr ''INCRBY'', cm_arity = 2, cm_func = Some Cmd_incrby\<rparr>)"
proof -
  have "key_ok (bstr ''INCRBY'')" by (simp add: key_ok_def)
  from registered_commands_found [OF this] show ?thesis by (simp add: command_table_def of_char_def)
qed

section \<open>SELECT\<close>

lemma error_writer:
  assumes "conn_ok c" "0 \<notin> set msg" "can_reply c (resp_error msg)"
  obtains c' where "write_simple_generic_error c msg = Some c'" "replied c (resp_error msg) c'"
proof -
  have "write_simple_generic_error c msg = send_sprintf c (resp_error msg)"
    using assms(2) by (simp add: write_simple_generic_error_def write_simple_error_def resp_error_def fmt_s_id of_char_def)
  then show thesis using sprintf_reply [OF assms(1,3)] that by auto
qed

lemma strtoull_dec: "k < 2 ^ 64 \<Longrightarrow> strtoull10 (takeWhile (\<lambda>b. b \<noteq> 0) (dec_digits k)) = (of_nat k, False)"
proof -
  assume k: "k < 2 ^ 64"
  have d: "\<forall>c \<in> set (dec_digits k). is_digit c" by (rule dec_digits_digits)
  then have "\<forall>c \<in> set (dec_digits k). c \<noteq> 0 \<and> \<not> is_space c \<and> c \<noteq> 45 \<and> c \<noteq> 43"
    by (auto simp: is_digit_def is_space_def word_le_nat_alt dest!: bspec)
  then have t: "takeWhile (\<lambda>b. b \<noteq> 0) (dec_digits k) = dec_digits k" and s: "dropWhile is_space (dec_digits k) = dec_digits k"
    and h: "\<And>x xs. dec_digits k = x # xs \<Longrightarrow> x \<noteq> 45 \<and> x \<noteq> 43"
    by (auto simp: takeWhile_eq_all_conv dropWhile_eq_self_iff)
  have "takeWhile is_digit (dec_digits k) = dec_digits k" using d by (simp add: takeWhile_eq_all_conv)
  moreover obtain x xs where e: "dec_digits k = x # xs" by (cases "dec_digits k") simp_all
  moreover have "dec_val (x # xs) = k" using dec_val_digits [of k] e by simp
  ultimately show ?thesis using k h [OF e] unfolding t strtoull10_def Let_def s by simp
qed

text \<open>
  With \<^verbatim>\<open>errno\<close> clear, SELECT of the decimal digits of a database number below the number of
  databases selects it and answers OK, and leaves \<^verbatim>\<open>errno\<close> clear.
\<close>

theorem select_sets_db:
  assumes "conn_ok c" "arg_bytes c args 1 = Some (dec_digits k)" "k < num_dbs" "num_dbs \<le> 2 ^ 63"
    "can_reply c (resp_simple (bstr ''OK''))"
  shows "\<exists>c'. cmd_select num_dbs c args 0 = Some (c', 0) \<and> c_db c' = of_nat k
    \<and> pending c' = pending c @ resp_simple (bstr ''OK'')"
proof -
  have k: "k < 2 ^ 64" using assms(3,4) by simp
  have u: "unat (of_nat k :: u64) = k" using k by (rule unat_of_nat_64)
  let ?c = "c\<lparr>c_db := of_nat k\<rparr>"
  have "conn_ok ?c" "can_reply ?c (resp_simple (bstr ''OK''))" using assms(1,5) by (simp_all add: can_reply_def)
  then obtain c' where c': "write_simple_string ?c (bstr ''OK'') 2 = Some c'" "replied ?c (resp_simple (bstr ''OK'')) c'"
    using sprintf_reply unfolding writers_as_sprintf(1) by blast
  have "cmd_select num_dbs c args 0 = Some (c', 0)"
    using assms(2,3) strtoull_dec [OF k] u c'(1) by (simp add: cmd_select_def)
  then show ?thesis using c'(2) by (auto simp: replied_def pending_def)
qed

theorem select_sets_db_witness:
  "\<exists>c args c'. arg_bytes c args 1 = Some (bstr ''7'') \<and> cmd_select 16 c args 0 = Some (c', 0) \<and> c_db c' = 7"
proof -
  let ?ss = "[bstr ''SELECT'', bstr ''7'']" and ?c = "demo_conn (resp_encode [bstr ''SELECT'', bstr ''7''])"
  have "length (resp_encode ?ss) \<le> MESSAGE_MAX_LENGTH"
    by (simp add: resp_encode_def resp_bulk_def dec_digits.simps MESSAGE_MAX_LENGTH_def)
  note d = demo_conn [OF this]
  have "received ?c = resp_encode ?ss @ []" "?ss \<noteq> []" "length ?ss \<le> 64" using d(2) by simp_all
  from parse_resp_args [OF d(1) this] obtain args where
    "\<And>i. i < length ?ss \<Longrightarrow> a_lens args ! i = of_nat (length (?ss ! i)) \<and> arg_bytes ?c args i = Some (?ss ! i)"
    by blast
  from this [of 1] have a: "arg_bytes ?c args 1 = Some (dec_digits 7)" by (simp add: dec_digits.simps digit_char_def of_char_def)
  have "can_reply ?c (resp_simple (bstr ''OK''))" using d(4) by (simp add: can_reply_def resp_simple_def MESSAGE_MAX_LENGTH_def)
  from select_sets_db [OF d(1) a, of 16, OF _ _ this] obtain c' where
    "cmd_select 16 ?c args 0 = Some (c', 0)" "c_db c' = 7" by auto
  then show ?thesis using a by (intro exI [of _ ?c] exI [of _ args] exI [of _ c'])
      (simp add: dec_digits.simps digit_char_def of_char_def)
qed

text \<open>
  \<^verbatim>\<open>cmd_select\<close> takes any old value of \<^verbatim>\<open>errno\<close> for a conversion error: once a read or a write of the
  reactor's thread has failed, or one SELECT was out of range, every SELECT of that thread is answered
  with an error and selects nothing, however valid its number is, until the thread accepts another
  connection, which happens to clear \<^verbatim>\<open>errno\<close>.
\<close>

theorem select_stale_errno:
  assumes "conn_ok c" "arg_bytes c args 1 = Some db" "can_reply c (resp_error (bstr ''invalid DB index''))"
    "errno0 \<noteq> 0 \<or> snd (strtoull10 (takeWhile (\<lambda>b. b \<noteq> 0) db))"
  shows "\<exists>c' errno. cmd_select num_dbs c args errno0 = Some (c', errno) \<and> errno \<noteq> 0 \<and> c_db c' = c_db c
    \<and> pending c' = pending c @ resp_error (bstr ''invalid DB index'')"
proof -
  have "0 \<notin> set (bstr ''invalid DB index'')" by (simp add: of_char_def)
  then obtain c' where c': "write_simple_generic_error c (bstr ''invalid DB index'') = Some c'"
    "replied c (resp_error (bstr ''invalid DB index'')) c'"
    using error_writer [OF assms(1) _ assms(3)] by blast
  obtain dbnum erange where s: "strtoull10 (takeWhile (\<lambda>b. b \<noteq> 0) db) = (dbnum, erange)" by force
  have "cmd_select num_dbs c args errno0 = Some (c', if erange then 34 else errno0)"
    unfolding cmd_select_def assms(2) using s assms(4) c'(1) by (auto simp del: bstr_Cons)
  moreover have "(if erange then 34 else errno0) \<noteq> 0" using s assms(4) by auto
  moreover have "c_db c' = c_db c" "pending c' = pending c @ resp_error (bstr ''invalid DB index'')"
    using c'(2) by (auto simp: replied_def)
  ultimately show ?thesis by blast
qed

theorem select_stale_errno_witness:
  "\<exists>c args c' errno. arg_bytes c args 1 = Some (bstr ''7'') \<and> cmd_select 16 c args 11 = Some (c', errno) \<and> errno \<noteq> 0
     \<and> pending c' = resp_error (bstr ''invalid DB index'')"
proof -
  let ?ss = "[bstr ''SELECT'', bstr ''7'']" and ?c = "demo_conn (resp_encode [bstr ''SELECT'', bstr ''7''])"
  have "length (resp_encode ?ss) \<le> MESSAGE_MAX_LENGTH"
    by (simp add: resp_encode_def resp_bulk_def dec_digits.simps MESSAGE_MAX_LENGTH_def)
  note d = demo_conn [OF this]
  have "received ?c = resp_encode ?ss @ []" "?ss \<noteq> []" "length ?ss \<le> 64" using d(2) by simp_all
  from parse_resp_args [OF d(1) this] obtain args where
    "\<And>i. i < length ?ss \<Longrightarrow> a_lens args ! i = of_nat (length (?ss ! i)) \<and> arg_bytes ?c args i = Some (?ss ! i)"
    by blast
  from this [of 1] have a: "arg_bytes ?c args 1 = Some (bstr ''7'')" by simp
  have r: "can_reply ?c (resp_error (bstr ''invalid DB index''))"
    using d(4) by (simp add: can_reply_def resp_error_def MESSAGE_MAX_LENGTH_def)
  have "pending ?c = []" using d(4) by (simp add: pending_def)
  moreover obtain c' errno where "cmd_select 16 ?c args 11 = Some (c', errno)" "errno \<noteq> 0"
    "pending c' = pending ?c @ resp_error (bstr ''invalid DB index'')"
    using select_stale_errno [OF d(1) a r, of 11 16] by auto
  ultimately show ?thesis using a
    by (intro exI [of _ ?c] exI [of _ args] exI [of _ c'] exI [of _ errno]) (simp del: bstr_Cons)
qed

section \<open>Notification bits\<close>

text \<open>
  The macros of \<^verbatim>\<open>bitset.h\<close> compute a set of shard numbers below 31: a set bit is set, a
  cleared one is not, and no operation touches another bit, although the shifts are done in a
  32-bit \<^verbatim>\<open>int\<close>.
\<close>

theorem notification_bits:
  assumes "b < 31" "c < 31"
  shows "(BITSET64_GET (BITSET64_SET s b) c \<longleftrightarrow> b = c \<or> BITSET64_GET s c)
    \<and> (BITSET64_GET (BITSET64_CLEAR s b) c \<longleftrightarrow> b \<noteq> c \<and> BITSET64_GET s c) \<and> \<not> BITSET64_GET 0 c"
  using mark_set [OF assms] mark_clear [OF assms] by (simp add: BITSET64_GET_def)

theorem notification_bits_witness:
  "BITSET64_GET (BITSET64_SET (BITSET64_SET 0 3) 30) 3 \<and> \<not> BITSET64_GET (BITSET64_SET 0 30) 3"
  using notification_bits [of 30 3 "BITSET64_SET 0 3"] notification_bits [of 3 3 0] notification_bits [of 30 3 0] by simp

end
