(* ===== verification/Request_Bounds.thy ===== *)
theory Request_Bounds
  imports Requests Protocol_Props
begin

text \<open>
  Where the arguments of a parsed request lie. Whatever bytes were received, the parsers return
  at most 64 arguments, and as long as no announced length is so large that the bound check wraps,
  every argument lies within the bytes of its own request.
\<close>

section \<open>Slices\<close>

text \<open>The arguments: offsets and lengths, one after the other within \<open>n\<close> bytes.\<close>

definition slices_ok :: "nat \<Rightarrow> u64 list \<Rightarrow> u64 list \<Rightarrow> bool" where
  "slices_ok n offs lens \<longleftrightarrow> list_all2 (\<lambda>off len. unat off + unat len \<le> n) offs lens"

lemma slices_mono: "slices_ok n offs lens \<Longrightarrow> n \<le> m \<Longrightarrow> slices_ok m offs lens"
  unfolding slices_ok_def by (erule list_all2_mono) simp

lemma slices_snoc: "slices_ok n offs lens \<Longrightarrow> unat off + unat len \<le> n \<Longrightarrow> slices_ok n (offs @ [off]) (lens @ [len])"
  by (simp add: slices_ok_def list_all2_appendI)

lemma slices_length: "slices_ok n offs lens \<Longrightarrow> length offs = length lens"
  by (simp add: slices_ok_def list_all2_lengthD)

section \<open>The RESP form\<close>

lemma ptr_le_word:
  assumes "conn_ok c" "unat p < 2 ^ 63" "unat q < 2 ^ 63"
  shows "ptr_le c p q \<longleftrightarrow> unat p \<le> unat q"
  using ptr_le_small [of c "unat p" "unat q"] assms by (simp add: conn_ok_def)

lemma parse_digits_range:
  assumes "parse_digits c p ed r = PARSE_OK (p', n)" "conn_ok c" "unat ed \<le> MESSAGE_MAX_LENGTH" "unat p \<le> MESSAGE_MAX_LENGTH"
  shows "unat p \<le> unat p' \<and> unat p' < MESSAGE_MAX_LENGTH"
  using assms
proof (induction c p ed r rule: parse_digits.induct)
  case (1 c p ed r)
  let ?b = "c_recv_buf c ! unat p"
  have le: "unat p < MESSAGE_MAX_LENGTH"
    using 1(2) by (subst (asm) parse_digits.simps) (auto split: if_splits)
  then have p1: "unat (p + 1) = unat p + 1" by (intro unat_inc) (simp add: MESSAGE_MAX_LENGTH_def)
  show ?case
  proof (cases "?b = CR")
    case True
    then show ?thesis using 1(2) le by (subst (asm) parse_digits.simps) (auto split: if_splits)
  next
    case False
    then have "parse_digits c (p + 1) ed (r * 10 + ucast (?b - 48)) = PARSE_OK (p', n)"
      and conds: "ptr_le c p ed" "\<not> (?b < 48 \<or> 57 < ?b)" "\<not> (- 1 - ucast (?b - 48)) div 10 < r"
      using 1(2) le by (subst (asm) parse_digits.simps; auto simp: Let_def split: if_splits)+
    then have "unat (p + 1) \<le> unat p' \<and> unat p' < MESSAGE_MAX_LENGTH"
      using 1(1) [OF _ _ refl False] 1(3,4) le p1 by simp
    then show ?thesis using p1 by simp
  qed
qed

lemma bind_parse_ok: "bind_parse m f = PARSE_OK y \<longleftrightarrow> (\<exists>x. m = PARSE_OK x \<and> f x = PARSE_OK y)"
  by (cases m) auto

lemma parse_number_range:
  assumes "parse_number c cur ed = PARSE_OK (cur', n)" "conn_ok c" "unat ed \<le> MESSAGE_MAX_LENGTH" "unat cur \<le> MESSAGE_MAX_LENGTH"
  shows "unat cur < unat cur' \<and> unat cur' \<le> unat ed"
proof -
  obtain p where p: "parse_digits c cur ed 0 = PARSE_OK (p, n)" "ptr_le c (p + 2) ed" "cur' = p + 2"
  proof -
    obtain x where x: "parse_digits c cur ed 0 = PARSE_OK x"
      "(case x of (p, res) \<Rightarrow> if \<not> ptr_le c (p + 2) ed then PARSE_INCOMPLETE else PARSE_OK (p + 2, res)) = PARSE_OK (cur', n)"
      using assms(1) unfolding parse_number_def bind_parse_ok by blast
    obtain p m where "x = (p, m)" by force
    then show thesis using x by (intro that [of p]) (simp_all split: if_splits)
  qed
  have r: "unat cur \<le> unat p" "unat p < MESSAGE_MAX_LENGTH" using parse_digits_range [OF p(1) assms(2-4)] by auto
  then have "unat (p + 2) = unat p + 2" by (simp add: unat_word_ariths MESSAGE_MAX_LENGTH_def)
  then show ?thesis using p(2,3) r assms(3) ptr_le_word [OF assms(2), of "p + 2" ed] by (simp add: MESSAGE_MAX_LENGTH_def)
qed

lemma parse_args_step:
  assumes "parse_args c start ed (Suc n) cur offs lens = PARSE_OK res"
  obtains cur' arglen where "parse_number c (cur + 1) ed = PARSE_OK (cur', arglen)" "ptr_le c (cur' + arglen + 2) ed"
    "unat cur < MESSAGE_MAX_LENGTH"
    "parse_args c start ed n (cur' + arglen + 2) (offs @ [cur' - start]) (lens @ [arglen]) = PARSE_OK res"
proof -
  have ne: "cur \<noteq> ed" using assms by (auto split: if_splits)
  then obtain b where b: "peek c cur = Some b" using assms by (auto split: option.splits)
  then have "bind_parse (parse_number c (cur + 1) ed) (\<lambda>(cur', arglen).
      if \<not> ptr_le c (cur' + arglen + 2) ed then PARSE_INCOMPLETE
      else parse_args c start ed n (cur' + arglen + 2) (offs @ [cur' - start]) (lens @ [arglen])) = PARSE_OK res"
    using assms ne by (simp split: if_splits)
  then obtain x where x: "parse_number c (cur + 1) ed = PARSE_OK x"
    "(case x of (cur', arglen) \<Rightarrow> if \<not> ptr_le c (cur' + arglen + 2) ed then PARSE_INCOMPLETE
      else parse_args c start ed n (cur' + arglen + 2) (offs @ [cur' - start]) (lens @ [arglen])) = PARSE_OK res"
    unfolding bind_parse_ok by blast
  obtain cur' arglen where "x = (cur', arglen)" by force
  moreover have "unat cur < MESSAGE_MAX_LENGTH" using b by (simp add: peek_def split: if_splits)
  ultimately show thesis using x by (intro that) (simp_all split: if_splits)
qed

lemma parse_args_extends:
  "parse_args c start ed n cur offs lens = PARSE_OK (cur', offs', lens') \<Longrightarrow>
    (\<exists>xs. lens' = lens @ xs \<and> length xs = n)"
proof (induction n arbitrary: cur offs lens)
  case (Suc n)
  from Suc.prems obtain cur1 arglen where
    "parse_args c start ed n (cur1 + arglen + 2) (offs @ [cur1 - start]) (lens @ [arglen]) = PARSE_OK (cur', offs', lens')"
    by (rule parse_args_step)
  from Suc.IH [OF this] show ?case by auto
qed simp

lemma parse_args_range:
  assumes "parse_args c start ed n cur offs lens = PARSE_OK (cur', offs', lens')" "conn_ok c" "unat ed \<le> MESSAGE_MAX_LENGTH"
    "unat start \<le> unat cur" "unat cur \<le> unat ed" "\<forall>l \<in> set lens'. l < 2 ^ 62" "slices_ok (unat cur - unat start) offs lens"
  shows "unat cur \<le> unat cur' \<and> unat cur' \<le> unat ed \<and> slices_ok (unat cur' - unat start) offs' lens'"
  using assms
proof (induction n arbitrary: cur offs lens)
  case (Suc n)
  obtain cur1 len where a: "parse_number c (cur + 1) ed = PARSE_OK (cur1, len)" "ptr_le c (cur1 + len + 2) ed"
    "unat cur < MESSAGE_MAX_LENGTH"
    "parse_args c start ed n (cur1 + len + 2) (offs @ [cur1 - start]) (lens @ [len]) = PARSE_OK (cur', offs', lens')"
    by (rule parse_args_step [OF Suc.prems(1)])
  have "unat (cur + 1) = unat cur + 1" using a(3) by (intro unat_inc) (simp add: MESSAGE_MAX_LENGTH_def)
  then have c1: "unat cur + 1 < unat cur1" "unat cur1 \<le> unat ed"
    using parse_number_range [OF a(1) Suc.prems(2,3)] a(3) by simp_all
  have "len \<in> set lens'" using parse_args_extends [OF a(4)] by auto
  then have "unat len < 2 ^ 62" using Suc.prems(6) by (auto simp: word_less_nat_alt)
  then have u: "unat (cur1 + len + 2) = unat cur1 + unat len + 2"
    using c1 Suc.prems(3) by (simp add: unat_word_ariths MESSAGE_MAX_LENGTH_def)
  then have le: "unat cur1 + unat len + 2 \<le> unat ed"
    using a(2) ptr_le_word [OF Suc.prems(2), of "cur1 + len + 2" ed] Suc.prems(3) \<open>unat len < 2 ^ 62\<close> c1
    by (simp add: MESSAGE_MAX_LENGTH_def)
  have off: "unat (cur1 - start) = unat cur1 - unat start"
    using c1 Suc.prems(4) by (intro unat_sub) (simp add: word_le_nat_alt)
  have "slices_ok (unat (cur1 + len + 2) - unat start) (offs @ [cur1 - start]) (lens @ [len])"
    using slices_mono [OF Suc.prems(7), of "unat (cur1 + len + 2) - unat start"] u c1 Suc.prems(4) off
    by (intro slices_snoc) simp_all
  from Suc.IH [OF a(4) Suc.prems(2,3) _ _ Suc.prems(6) this] show ?case
    using u le c1 Suc.prems(4) by simp
qed simp

lemma parse_resp_range:
  assumes "parse_resp_request c = PARSE_OK args" "conn_ok c" "\<forall>l \<in> set (a_lens args). l < 2 ^ 62"
  shows "a_buf args = of_nat (c_recv_buf_read c) \<and> unat (a_argc args) \<le> 64 \<and> length (a_lens args) = unat (a_argc args)
    \<and> 0 < unat (a_len args) \<and> unat (a_len args) \<le> c_recv_buf_size c
    \<and> slices_ok (unat (a_len args)) (a_offsets args) (a_lens args)"
proof -
  let ?s = "of_nat (c_recv_buf_read c) :: u64"
  let ?ed = "?s + of_nat (c_recv_buf_size c)"
  obtain cur argc cur' offs lens where p: "parse_number c (?s + 1) ?ed = PARSE_OK (cur, argc)" "\<not> MAX_ARGC < argc"
    "parse_args c ?s ?ed (unat argc) cur [] [] = PARSE_OK (cur', offs, lens)"
    "args = \<lparr>a_buf = ?s, a_argc = argc, a_len = cur' - ?s, a_offsets = offs, a_lens = lens\<rparr>"
    using assms(1) by (auto simp: parse_resp_request_def Let_def bind_parse_ok split: if_splits)
  have rs: "c_recv_buf_read c + c_recv_buf_size c \<le> 8192" using assms(2) by (simp add: conn_ok_def MESSAGE_MAX_LENGTH_def)
  then have u: "unat ?s = c_recv_buf_read c" "unat ?ed = c_recv_buf_read c + c_recv_buf_size c" "unat (?s + 1) = c_recv_buf_read c + 1"
    by (simp_all add: unat_word_ariths unat_of_nat_64)
  have "0 < c_recv_buf_size c" using assms(1) by (cases "c_recv_buf_size c = 0") (simp_all add: parse_resp_request_def)
  then have start: "unat (?s + 1) \<le> MESSAGE_MAX_LENGTH" using u rs by (simp add: MESSAGE_MAX_LENGTH_def)
  have ed: "unat ?ed \<le> MESSAGE_MAX_LENGTH" using u rs by (simp add: MESSAGE_MAX_LENGTH_def)
  have cur: "unat (?s + 1) < unat cur" "unat cur \<le> unat ?ed" using parse_number_range [OF p(1) assms(2) ed start] by simp_all
  have "slices_ok (unat cur - unat ?s) [] []" by (simp add: slices_ok_def)
  from parse_args_range [OF p(3) assms(2) ed _ cur(2) _ this] have
    r: "unat cur \<le> unat cur'" "unat cur' \<le> unat ?ed" "slices_ok (unat cur' - unat ?s) offs lens"
    using cur(1) u assms(3) p(4) by simp_all
  have len: "unat (cur' - ?s) = unat cur' - unat ?s"
    using r cur u by (intro unat_sub) (simp add: word_le_nat_alt)
  have "length lens = unat argc" using parse_args_extends [OF p(3)] by auto
  moreover have "unat argc \<le> 64" using p(2) by (simp add: MAX_ARGC_def word_less_nat_alt)
  ultimately show ?thesis using p(4) r u len cur(1) by simp
qed

section \<open>The inline form\<close>

definition inline_ok :: "nat \<Rightarrow> inline_state \<Rightarrow> bool" where
  "inline_ok i s \<longleftrightarrow> slices_ok i (il_offsets s) (il_lens s) \<and> length (il_offsets s) \<le> 64
     \<and> (il_in_arg s \<longrightarrow> il_offset s + il_len s \<le> i \<and> length (il_offsets s) < 64)"

lemma inline_ok_mono: "inline_ok i s \<Longrightarrow> i \<le> j \<Longrightarrow> inline_ok j s"
  by (auto simp: inline_ok_def slices_mono)

lemma inline_ok_close: "inline_ok i s \<Longrightarrow> i < 2 ^ 64 \<Longrightarrow> inline_ok i (il_close s) \<and> \<not> il_in_arg (il_close s)"
  by (auto simp: inline_ok_def il_close_def unat_of_nat_64 intro!: slices_snoc)

lemma inline_loop_range:
  assumes "inline_loop bs i s = PARSE_OK (j, s')" "inline_ok i s" "i + length bs < 2 ^ 63"
  shows "i \<le> j \<and> j < i + length bs \<and> inline_ok j s'"
  using assms
proof (induction bs arbitrary: i s)
  case (Cons b bs)
  have close: "inline_ok (i + 1) (il_close s)" "inline_ok (i + 1) ((il_close s)\<lparr>il_crlf := True\<rparr>)"
    using inline_ok_mono [of i "il_close s" "i + 1"] inline_ok_close [OF Cons.prems(2)] Cons.prems(3)
    by (simp_all add: inline_ok_def)
  consider "b = 32" | "b = CR" | "b = LF" | "b \<noteq> 32" "b \<noteq> CR" "b \<noteq> LF" by blast
  then show ?case
  proof cases
    case 1
    then show ?thesis using Cons.IH [of "i + 1" "il_close s"] Cons.prems close by auto
  next
    case 2
    then show ?thesis using Cons.IH [of "i + 1" "(il_close s)\<lparr>il_crlf := True\<rparr>"] Cons.prems close by auto
  next
    case 3
    then show ?thesis using Cons.prems by (auto simp: inline_ok_def split: if_splits)
  next
    case 4
    let ?s = "if il_in_arg s then s\<lparr>il_len := il_len s + 1\<rparr> else s\<lparr>il_offset := i, il_len := 1, il_in_arg := True\<rparr>"
    have room: "il_in_arg s \<or> length (il_offsets s) < 64"
    proof (rule ccontr)
      assume full: "\<not> (il_in_arg s \<or> length (il_offsets s) < 64)"
      then have "length (il_offsets s) = 64" using Cons.prems(2) by (simp add: inline_ok_def)
      then show False using full 4 Cons.prems(1) by (simp add: MAX_ARGC_def)
    qed
    then have ok: "inline_ok (i + 1) ?s"
      using Cons.prems(2) slices_mono [of i _ _ "i + 1"] by (auto simp: inline_ok_def)
    have "inline_loop bs (i + 1) ?s = PARSE_OK (j, s')"
      using Cons.prems(1) 4 by (auto split: if_splits)
    from Cons.IH [OF this ok] Cons.prems(3) show ?thesis by auto
  qed
qed simp

lemma parse_inline_range:
  assumes "parse_inline_request c = PARSE_OK args" "conn_ok c"
  shows "a_buf args = of_nat (c_recv_buf_read c) \<and> unat (a_argc args) \<le> 64 \<and> length (a_lens args) = unat (a_argc args)
    \<and> 0 < unat (a_len args) \<and> unat (a_len args) \<le> c_recv_buf_size c
    \<and> slices_ok (unat (a_len args)) (a_offsets args) (a_lens args)"
proof -
  obtain i s where p: "inline_loop (received c) 0 inline_start = PARSE_OK (i, s)"
    "args = \<lparr>a_buf = of_nat (c_recv_buf_read c), a_argc = of_nat (length (il_offsets (il_close s))),
      a_len = of_nat (i + 1), a_offsets = il_offsets (il_close s), a_lens = il_lens (il_close s)\<rparr>"
    using assms(1) by (auto simp: parse_inline_request_def Let_def bind_parse_ok)
  have len: "length (received c) = c_recv_buf_size c" "c_recv_buf_size c \<le> 8192"
    using length_received [OF assms(2)] assms(2) by (simp_all add: conn_ok_def MESSAGE_MAX_LENGTH_def)
  have "inline_ok 0 inline_start" by (simp add: inline_ok_def inline_start_def slices_ok_def)
  from inline_loop_range [OF p(1) this] have i: "i < c_recv_buf_size c" "inline_ok i s" using len by simp_all
  then have "inline_ok (i + 1) (il_close s)" using inline_ok_close [OF i(2)] inline_ok_mono len by fastforce
  moreover have "unat (of_nat (i + 1) :: u64) = i + 1" using i len by (intro unat_of_nat_64) simp
  ultimately show ?thesis
    using p(2) i slices_length [of _ "il_offsets (il_close s)"] by (auto simp: inline_ok_def unat_of_nat_64)
qed

section \<open>Both forms\<close>

lemma parse_request_range:
  assumes "parse_request c = PARSE_OK args" "conn_ok c" "\<forall>l \<in> set (a_lens args). l < 2 ^ 62"
  shows "a_buf args = of_nat (c_recv_buf_read c) \<and> unat (a_argc args) \<le> 64 \<and> length (a_lens args) = unat (a_argc args)
    \<and> 0 < unat (a_len args) \<and> unat (a_len args) \<le> c_recv_buf_size c
    \<and> slices_ok (unat (a_len args)) (a_offsets args) (a_lens args)"
proof -
  have "parse_resp_request c = PARSE_OK args \<or> parse_inline_request c = PARSE_OK args"
    using assms(1) by (auto simp: parse_request_def split: option.splits if_splits)
  then show ?thesis using parse_resp_range [OF _ assms(2,3)] parse_inline_range [OF _ assms(2)] by blast
qed

text \<open>The number of arguments is bounded whatever lengths are announced.\<close>

lemma parse_request_count:
  assumes "parse_request c = PARSE_OK args" "conn_ok c"
  shows "unat (a_argc args) \<le> 64 \<and> length (a_lens args) = unat (a_argc args)"
proof -
  have "unat (a_argc args) \<le> 64 \<and> length (a_lens args) = unat (a_argc args)" if p: "parse_resp_request c = PARSE_OK args"
  proof -
    obtain argc cur cur' offs lens where q: "\<not> MAX_ARGC < argc"
      "parse_args c (of_nat (c_recv_buf_read c)) (of_nat (c_recv_buf_read c) + of_nat (c_recv_buf_size c)) (unat argc) cur [] []
        = PARSE_OK (cur', offs, lens)" "a_argc args = argc" "a_lens args = lens"
      using p by (auto simp: parse_resp_request_def Let_def bind_parse_ok split: if_splits)
    have "length lens = unat argc" using parse_args_extends [OF q(2)] by auto
    then show ?thesis using q(1,3,4) by (simp add: MAX_ARGC_def word_less_nat_alt)
  qed
  moreover have "parse_resp_request c = PARSE_OK args \<or> parse_inline_request c = PARSE_OK args"
    using assms(1) by (auto simp: parse_request_def split: option.splits if_splits)
  ultimately show ?thesis using parse_inline_range [OF _ assms(2)] by blast
qed

lemma request_slices:
  assumes "conn_ok c" "parse_request c = PARSE_OK args" "\<forall>l \<in> set (a_lens args). l < 2 ^ 62"
  shows "0 < unat (a_len args) \<and> unat (a_len args) \<le> c_recv_buf_size c
    \<and> (\<forall>i < unat (a_argc args). unat (a_offsets args ! i) + unat (a_lens args ! i) \<le> unat (a_len args)
        \<and> arg_bytes c args i = Some (take (unat (a_lens args ! i)) (drop (unat (a_offsets args ! i)) (received c))))"
proof -
  have r: "a_buf args = of_nat (c_recv_buf_read c)" "0 < unat (a_len args)" "length (a_lens args) = unat (a_argc args)"
    "unat (a_len args) \<le> c_recv_buf_size c" "slices_ok (unat (a_len args)) (a_offsets args) (a_lens args)"
    using parse_request_range [OF assms(2,1,3)] by blast+
  have rs: "c_recv_buf_read c + c_recv_buf_size c \<le> 8192" using assms(1) by (simp add: conn_ok_def MESSAGE_MAX_LENGTH_def)
  have "unat (a_offsets args ! i) + unat (a_lens args ! i) \<le> unat (a_len args)
      \<and> arg_bytes c args i = Some (take (unat (a_lens args ! i)) (drop (unat (a_offsets args ! i)) (received c)))"
    if i: "i < unat (a_argc args)" for i
  proof -
    let ?o = "unat (a_offsets args ! i)" and ?l = "unat (a_lens args ! i)"
    have ol: "?o + ?l \<le> unat (a_len args)"
      using r(3,5) i by (auto simp: slices_ok_def list_all2_conv_all_nth)
    then have u: "unat (a_buf args + a_offsets args ! i) = c_recv_buf_read c + ?o"
      using r(1,4) rs by (simp add: unat_word_ariths unat_of_nat_64)
    have "take ?l (drop ?o (received c)) = take ?l (drop (c_recv_buf_read c + ?o) (c_recv_buf c))"
      using ol r(4) by (simp add: received_def drop_take min_absorb1 ac_simps)
    then show ?thesis using ol u r(4) rs by (simp add: arg_bytes_def Let_def MESSAGE_MAX_LENGTH_def)
  qed
  then show ?thesis using r by blast
qed

section \<open>Properties\<close>

text \<open>
  C17: Every request the parsers accept has at most 64 arguments, whatever bytes were received. When all
  the lengths it announces are below \<open>2^62\<close>, it is not empty and no longer than the bytes received, and
  every argument is a slice of the request's own bytes and lies inside the receive buffer. Without
  that condition it need not be, because the bound check wraps around: \<open>Request_Loop_Props\<close> shows what
  requests with longer lengths do.
\<close>

theorem parsed_request_well_formed:
  assumes "conn_ok c" "parse_request c = PARSE_OK args"
  shows "unat (a_argc args) \<le> 64 \<and> length (a_lens args) = unat (a_argc args)
    \<and> ((\<forall>l \<in> set (a_lens args). l < 2 ^ 62) \<longrightarrow>
        0 < unat (a_len args) \<and> unat (a_len args) \<le> c_recv_buf_size c
        \<and> (\<forall>i < unat (a_argc args). unat (a_offsets args ! i) + unat (a_lens args ! i) \<le> unat (a_len args)
            \<and> arg_bytes c args i = Some (take (unat (a_lens args ! i)) (drop (unat (a_offsets args ! i)) (received c)))))"
proof -
  have "0 < unat (a_len args) \<and> unat (a_len args) \<le> c_recv_buf_size c
      \<and> (\<forall>i < unat (a_argc args). unat (a_offsets args ! i) + unat (a_lens args ! i) \<le> unat (a_len args)
          \<and> arg_bytes c args i = Some (take (unat (a_lens args ! i)) (drop (unat (a_offsets args ! i)) (received c))))"
    if small: "\<forall>l \<in> set (a_lens args). l < 2 ^ 62"
    using request_slices [OF assms(1,2) small] .
  then show ?thesis using parse_request_count [OF assms(2,1)] by blast
qed

theorem parsed_request_well_formed_witness:
  "\<exists>args. parse_request (demo_conn (resp_encode [bstr ''GET'', bstr ''k''])) = PARSE_OK args \<and> unat (a_argc args) = 2
     \<and> unat (a_len args) \<le> 20 \<and> unat (a_offsets args ! 1) + unat (a_lens args ! 1) \<le> unat (a_len args)"
proof -
  let ?ss = "[bstr ''GET'', bstr ''k''] :: bytes list"
  let ?c = "demo_conn (resp_encode ?ss)"
  have len: "length (resp_encode ?ss) = 20" by (simp add: resp_encode_def resp_bulk_def dec_digits.simps)
  then have "length (resp_encode ?ss) \<le> MESSAGE_MAX_LENGTH" by (simp add: MESSAGE_MAX_LENGTH_def)
  note c = demo_conn [OF this]
  have r: "received ?c = resp_encode ?ss @ []" using c(2) by simp
  obtain args where a: "parse_resp_request ?c = PARSE_OK args" "a_argc args = of_nat (length ?ss)"
    "length (a_lens args) = length ?ss" "\<And>i. i < length ?ss \<Longrightarrow> a_lens args ! i = of_nat (length (?ss ! i)) \<and> arg_bytes ?c args i = Some (?ss ! i)"
    by (rule parse_resp_args [OF c(1) r], simp, simp, rule that, assumption+)
  have p: "parse_request ?c = PARSE_OK args"
    using parse_request_star [OF c(1) r] a(1) by (simp add: resp_encode_def of_char_def)
  have l: "a_lens args ! 0 = 3" "a_lens args ! 1 = 1" using a(4) [of 0] a(4) [of 1] by simp_all
  obtain l0 l1 where ls: "a_lens args = [l0, l1]" using a(3) by (auto simp: length_Suc_conv)
  then have "\<forall>l \<in> set (a_lens args). l < 2 ^ 62" using l by simp
  with parsed_request_well_formed [OF c(1) p] have
    w: "unat (a_len args) \<le> c_recv_buf_size ?c" "\<forall>i < unat (a_argc args). unat (a_offsets args ! i) + unat (a_lens args ! i) \<le> unat (a_len args)"
    by blast+
  moreover have "unat (a_argc args) = 2" using a(2) by simp
  ultimately show ?thesis using p len by (auto simp: demo_conn_def)
qed

end
