(* ===== verification/Request_Props.thy ===== *)
theory Request_Props
  imports Request_Bounds Command_Props System_Props
begin

text \<open>
  Requests that are not keyed: the rejection of unknown commands and wrong argument counts, and
  FLUSHALL, from the bytes received to the reply and the data.
\<close>

section \<open>Answering\<close>

lemma request_answered:
  assumes "world_ok w" "w_conns w p = Some c" "received c = resp_encode ss @ ys" "c_flags c AND END = 0"
    and args: "parse_request c = PARSE_OK args" "0 < a_argc args" "a_len args = of_nat (length (resp_encode ss))"
    and run: "handle_command self p args w = Some (upd_conn p c1 w1)" "replied c out c1"
  obtains c2 where "on_data_available self p w = Some (upd_conn p c2 w1, ys \<noteq> [])" "pending c2 = pending c @ out"
    "received c2 = ys" "conn_ok c2" "c_fd c2 = c_fd c" "c_shard_id c2 = c_shard_id c" "c_flags c2 = c_flags c" "c_db c2 = c_db c"
proof -
  obtain c2 where c2: "consume (of_nat (length (resp_encode ss))) c1 = (c2, ys \<noteq> [])" "received c2 = ys" "conn_ok c2"
    "pending c2 = pending c @ out"
    by (rule replied_consume [OF run(2) assms(3,4)], rule that, assumption+)
  have "\<not> c_recv_buf_size c < 1"
    using arg_cong [OF assms(3), of length] length_received [OF world_ok_conn [OF assms(1,2)]] by (simp add: resp_encode_def)
  then have "on_data_available self p w = Some (upd_conn p c2 w1, ys \<noteq> [])"
    using assms(2) args run(1) c2(1) by (simp add: on_data_available_def upd_conn_def)
  moreover have "c_fd c2 = c_fd c" "c_shard_id c2 = c_shard_id c" "c_flags c2 = c_flags c" "c_db c2 = c_db c"
    using c2(1) run(2) by (auto simp: consume_def replied_def Let_def split: if_splits)
  ultimately show thesis using that c2 by blast
qed

lemma request_args:
  assumes "conn_ok c" "received c = resp_encode ss @ ys" "ss \<noteq> []" "length ss \<le> 64"
  obtains args where "parse_request c = PARSE_OK args" "0 < a_argc args" "a_argc args = of_nat (length ss)"
    "a_len args = of_nat (length (resp_encode ss))"
    "\<And>i. i < length ss \<Longrightarrow> a_lens args ! i = of_nat (length (ss ! i)) \<and> arg_bytes c args i = Some (ss ! i)"
    "\<And>i. i < length ss \<Longrightarrow> arg_value c args i = Some (signed_value (ss ! i))"
proof -
  obtain args where a: "parse_resp_request c = PARSE_OK args" "a_argc args = of_nat (length ss)"
    "a_len args = of_nat (length (resp_encode ss))"
    "\<And>i. i < length ss \<Longrightarrow> a_lens args ! i = of_nat (length (ss ! i)) \<and> arg_bytes c args i = Some (ss ! i)"
    "\<And>i. i < length ss \<Longrightarrow> \<exists>r. drop (unat (a_buf args + a_offsets args ! i)) (c_recv_buf c) = ss ! i @ crlf @ r"
    by (rule parse_resp_args [OF assms], rule that, assumption+)
  have "unat (a_argc args) = length ss" using a(2) assms(4) by (simp add: unat_of_nat_64)
  then have "0 < a_argc args" using assms(3) by (simp add: word_less_nat_alt)
  moreover have "parse_request c = PARSE_OK args"
    using a(1) parse_request_star [OF assms(1,2) resp_encode_hd] by simp
  moreover have "arg_value c args i = Some (signed_value (ss ! i))" if "i < length ss" for i
    by (rule request_value [OF assms(1,2) a(4,5) that])
  ultimately show thesis using that a(2-4) by blast
qed

section \<open>Rejected requests\<close>

text \<open>
  The message a request is rejected with, when it is. INCRBY and DECRBY refuse an increment that is
  not a number or is negative.
\<close>

definition increment_error :: "bytes list \<Rightarrow> bytes option" where
  "increment_error ss =
    (if ss ! 0 = bstr ''INCRBY'' \<or> ss ! 0 = bstr ''DECRBY'' then
       (case signed_value (ss ! 2) of
          None \<Rightarrow> Some (bstr ''value is not an integer or out of range'')
        | Some d \<Rightarrow> if sint d < 0 then Some (bstr ''increment would produce negative integer'') else None)
     else None)"

definition rejection :: "bytes list \<Rightarrow> bytes option" where
  "rejection ss =
    (case find (\<lambda>c. cm_name c = ss ! 0) command_table of
       None \<Rightarrow> (let arg = (if 1 < length ss then ss ! 1 else [])
                in Some (unknown_command_message (ss ! 0) (of_nat (length (ss ! 0))) arg (of_nat (length arg))))
     | Some cmd \<Rightarrow>
         if cm_arity cmd = of_nat (length ss) - 1 then increment_error ss else Some (wrong_arity_message (ss ! 0)))"

lemma no_nul: "0 \<notin> set (fmt_prec_s n s)" "0 \<notin> set out \<Longrightarrow> 0 \<notin> set (snprintf_out n out)"
  by (auto simp: fmt_prec_s_def snprintf_out_def dest: set_takeWhileD in_set_takeD)

lemma messages_no_nul: "0 \<notin> set (unknown_command_message name nlen arg alen)" "0 \<notin> set (wrong_arity_message name)"
  unfolding unknown_command_message_def wrong_arity_message_def
  by (rule no_nul(2); simp add: no_nul(1) of_char_def)+

lemma rejection_no_nul: "rejection ss = Some msg \<Longrightarrow> 0 \<notin> set msg"
proof -
  have "0 \<notin> set (bstr ''value is not an integer or out of range'')" "0 \<notin> set (bstr ''increment would produce negative integer'')"
    by (simp_all add: of_char_def)
  then have "increment_error ss = Some msg \<Longrightarrow> 0 \<notin> set msg"
    unfolding increment_error_def by (auto split: option.splits if_splits simp del: bstr_Cons)
  then show "rejection ss = Some msg \<Longrightarrow> 0 \<notin> set msg"
    using messages_no_nul by (auto simp: rejection_def Let_def split: option.splits if_splits)
qed

lemma table_arity: "cmd \<in> set command_table \<Longrightarrow> cm_arity cmd \<noteq> VAR_ARGC"
  by (auto simp: command_table_def VAR_ARGC_def)

lemma rejected_command:
  assumes "world_ok w" "w_conns w p = Some c" "key_ok (ss ! 0)" "ss \<noteq> []" "length ss \<le> 64"
    "a_argc args = of_nat (length ss)"
    "\<And>i. i < length ss \<Longrightarrow> a_lens args ! i = of_nat (length (ss ! i)) \<and> arg_bytes c args i = Some (ss ! i)"
    "rejection ss = Some msg" "\<And>i. i < length ss \<Longrightarrow> arg_value c args i = Some (signed_value (ss ! i))"
  shows "handle_command self p args w = map_option (\<lambda>c'. upd_conn p c' w) (write_simple_generic_error c msg)"
proof -
  let ?found = "find (\<lambda>c. cm_name c = ss ! 0) command_table"
  have look: "lookup_command (ss ! 0) (w_commands w) = Some ?found"
    using assms(1,3) by (simp add: world_ok_def commands_ok_def)
  have 0: "arg_bytes c args 0 = Some (ss ! 0)" "a_lens args ! 0 = of_nat (length (ss ! 0))" using assms(4,7) by auto
  have argc: "1 < a_argc args \<longleftrightarrow> 1 < length ss" using assms(5,6) by (simp add: word_less_nat_alt unat_of_nat_64)
  show ?thesis
  proof (cases ?found)
    case None
    then have "msg = unknown_command_message (ss ! 0) (of_nat (length (ss ! 0))) (if 1 < length ss then ss ! 1 else [])
        (of_nat (length (if 1 < length ss then ss ! 1 else [])))"
      using assms(8) by (simp add: rejection_def Let_def)
    then show ?thesis
      using None look 0 argc assms(2,7) by (cases "1 < length ss") (simp_all add: handle_command_def map_conv_bind_option comp_def)
  next
    case (Some cmd)
    have "cm_name cmd = ss ! 0 \<and> cmd \<in> set command_table" using Some by (auto simp: find_Some_iff)
    then have cmd: "cm_name cmd = ss ! 0" "cm_arity cmd \<noteq> VAR_ARGC" using table_arity by blast+
    show ?thesis
    proof (cases "cm_arity cmd = of_nat (length ss) - 1")
      case False
      then have "msg = wrong_arity_message (ss ! 0)" using assms(8) Some by (simp add: rejection_def)
      then show ?thesis using False cmd Some look 0 assms(2,6) by (simp add: handle_command_def)
    next
      case True
      then have inc: "increment_error ss = Some msg" using assms(8) Some by (simp add: rejection_def)
      then have name: "ss ! 0 = bstr ''INCRBY'' \<or> ss ! 0 = bstr ''DECRBY''" by (simp add: increment_error_def split: if_splits)
      then have f: "cm_arity cmd = 2" "cm_func cmd = Some Cmd_incrby \<or> cm_func cmd = Some Cmd_decrby"
        using Some table_find by (auto simp del: bstr_Cons)
      then have "of_nat (length ss) = (of_nat 3 :: u64)" using True by (simp add: algebra_simps)
      then have n: "length ss = 3" using of_nat_eq_64 [of "length ss" 3] assms(5) by simp
      have v: "arg_bytes c args 1 = Some (ss ! 1)" "arg_value c args 2 = Some (signed_value (ss ! 2))"
        using assms(7) [of 1] assms(9) [of 2] n by simp_all
      have delta: "delta_vars c args g = Some (Inl msg)" for g
        using inc name v(2) by (auto simp: delta_vars_def increment_error_def arg_value_def split: option.splits if_splits)
      have "handle_command self p args w = call_command (the (cm_func cmd)) self p args w"
        using True Some look 0 assms(2,6) f(2) by (auto simp: handle_command_def)
      also have "\<dots> = keyed_command (the (cm_func cmd)) self p args w" using f(2) by (auto simp: call_command_def)
      also have "\<dots> = map_option (\<lambda>c'. upd_conn p c' w) (write_simple_generic_error c msg)"
        using f(2) delta assms(2) v(1) by (auto simp: keyed_command_def cmd_vars_def Let_def)
      finally show ?thesis .
    qed
  qed
qed

text \<open>
  C27: A request that names no registered command, or one with another number of arguments, or INCRBY or
  DECRBY with an increment that is not a number or is negative, is consumed and answered with exactly one error reply that says so; the databases, the mailboxes
  and all other connections stay as they are.
\<close>

theorem bad_request_rejected:
  assumes "world_ok w" "w_conns w p = Some c" "received c = resp_encode ss @ ys" "c_flags c AND END = 0"
    "ss \<noteq> []" "length ss \<le> 64" "key_ok (ss ! 0)" "rejection ss = Some msg" "can_reply c (resp_error msg)"
  shows "\<exists>c'. on_data_available self p w = Some (upd_conn p c' w, ys \<noteq> [])
    \<and> pending c' = pending c @ resp_error msg \<and> received c' = ys
    \<and> c_fd c' = c_fd c \<and> c_shard_id c' = c_shard_id c \<and> c_flags c' = c_flags c \<and> c_db c' = c_db c"
proof -
  note ck = world_ok_conn [OF assms(1,2)]
  obtain args where a: "parse_request c = PARSE_OK args" "0 < a_argc args" "a_argc args = of_nat (length ss)"
    "a_len args = of_nat (length (resp_encode ss))"
    "\<And>i. i < length ss \<Longrightarrow> a_lens args ! i = of_nat (length (ss ! i)) \<and> arg_bytes c args i = Some (ss ! i)"
    "\<And>i. i < length ss \<Longrightarrow> arg_value c args i = Some (signed_value (ss ! i))"
    by (rule request_args [OF ck assms(3,5,6)], rule that, assumption+)
  from error_writer [OF ck rejection_no_nul [OF assms(8)] assms(9)] obtain c1 where
    c1: "write_simple_generic_error c msg = Some c1" "replied c (resp_error msg) c1" by blast
  have "handle_command self p args w = Some (upd_conn p c1 w)"
    using rejected_command [OF assms(1,2,7,5,6) a(3,5) assms(8) a(6), of self] c1(1) by simp
  from request_answered [OF assms(1-4) a(1,2,4) this c1(2)] show ?thesis by metis
qed

theorem bad_request_rejected_witness:
  "\<exists>w w' c'. on_data_available 2 1 w = Some (w', False) \<and> w_conns w' 1 = Some c'
     \<and> pending c' = resp_error (wrong_arity_message (bstr ''GET''))"
proof -
  let ?ss = "[bstr ''GET'']" and ?msg = "wrong_arity_message (bstr ''GET'')"
  have q: "(2 :: nat) < 4" "length (resp_encode ?ss) \<le> MESSAGE_MAX_LENGTH"
    by (simp_all add: resp_encode_def resp_bulk_def dec_digits.simps MESSAGE_MAX_LENGTH_def)
  obtain w c where w: "world_ok w" "w_conns w 1 = Some c" "received c = resp_encode ?ss" "c_flags c = 0"
    "c_send_buf_size c = 0" "pending c = []"
    by (rule demo_world [OF q(2) resp_encode_hd(1) q(1)], rule that, assumption+)
  have "received c = resp_encode ?ss @ []" "c_flags c AND END = 0" using w(3,4) by simp_all
  moreover have "rejection ?ss = Some ?msg" by (simp add: rejection_def table_find del: bstr_Cons)
  moreover have "length ?msg \<le> 63" by (simp add: wrong_arity_message_def snprintf_out_def)
  then have "can_reply c (resp_error ?msg)" using w(5) by (simp add: can_reply_def resp_error_def MESSAGE_MAX_LENGTH_def)
  ultimately obtain c' where "on_data_available 2 1 w = Some (upd_conn 1 c' w, False)" "pending c' = resp_error ?msg"
    using bad_request_rejected [OF w(1,2), of ?ss "[]" ?msg 2] w(6) by (auto simp: key_ok_def simp del: bstr_Cons)
  then show ?thesis by (intro exI [of _ w] exI [of _ "upd_conn 1 c' w"] exI [of _ c']) (simp add: upd_conn_def)
qed

section \<open>FLUSHALL\<close>

lemma flush_data:
  assumes "world_ok w" "\<forall>s \<in> set (w_shards w). length (s_dbs s) \<le> w_num_dbs w" "i < nshards w" "j < length (s_dbs (w_shards w ! i))"
  shows "data (w\<lparr>w_shards := map (flush_shard (w_num_dbs w)) (w_shards w)\<rparr>) i j = Map.empty"
proof -
  have "length (s_dbs (w_shards w ! i)) \<le> w_num_dbs w" using assms(2,3) by simp
  then have d: "s_dbs (flush_shard (w_num_dbs w) (w_shards w ! i)) = map (\<lambda>db. fst (hashmap_clear db True)) (s_dbs (w_shards w ! i))"
    by (simp add: flush_shard_def)
  have "db_inv (s_dbs (w_shards w ! i) ! j)" using assms(1,3,4) by (simp add: world_ok_def shard_ok_def db_ok_def)
  then show ?thesis using assms(3,4) d db.clear_law(2) by (auto simp: data_def db_abs_def fun_eq_iff)
qed

text \<open>
  C28: FLUSHALL, run without interruption, empties every database of every shard and answers OK,
  whichever shard runs it; no connection but the requester's changes, and exactly its bytes are consumed.
\<close>

theorem flushall_empties:
  assumes "world_ok w" "w_conns w p = Some c" "received c = resp_encode [bstr ''FLUSHALL''] @ ys" "c_flags c AND END = 0"
    "\<forall>s \<in> set (w_shards w). length (s_dbs s) \<le> w_num_dbs w" "can_reply c (resp_simple (bstr ''OK''))"
  shows "\<exists>w' c'. on_data_available self p w = Some (w', ys \<noteq> []) \<and> w_conns w' = (w_conns w)(p \<mapsto> c')
    \<and> pending c' = pending c @ resp_simple (bstr ''OK'') \<and> received c' = ys \<and> c_flags c' = c_flags c \<and> c_db c' = c_db c
    \<and> w_reactors w' = w_reactors w
    \<and> (\<forall>i < nshards w. \<forall>j < length (s_dbs (w_shards w ! i)). data w' i j = Map.empty)"
proof -
  note ck = world_ok_conn [OF assms(1,2)]
  have cmd: "find (\<lambda>c. cm_name c = [bstr ''FLUSHALL''] ! 0) command_table
      = Some \<lparr>cm_name = bstr ''FLUSHALL'', cm_arity = 0, cm_func = Some Cmd_flushall\<rparr>"
    by (simp add: command_table_def of_char_def)
  obtain args where a: "parse_request c = PARSE_OK args" "0 < a_argc args"
    "a_len args = of_nat (length (resp_encode [bstr ''FLUSHALL'']))" "handle_command self p args w = call_command Cmd_flushall self p args w"
    by (rule dispatch_command [OF assms(1-3) cmd, of Cmd_flushall self]) (simp_all add: key_ok_def)
  obtain c1 where c1: "write_simple_string c (bstr ''OK'') 2 = Some c1" "replied c (resp_simple (bstr ''OK'')) c1"
    using sprintf_reply [OF ck assms(6)] unfolding writers_as_sprintf by blast
  let ?w1 = "w\<lparr>w_shards := map (flush_shard (w_num_dbs w)) (w_shards w)\<rparr>"
  have "handle_command self p args w = Some (upd_conn p c1 ?w1)"
    using a(4) assms(2) c1(1) by (simp add: call_command_def cmd_flushall_def)
  from request_answered [OF assms(1-4) a(1-3) this c1(2)] obtain c2 where
    c2: "on_data_available self p w = Some (upd_conn p c2 ?w1, ys \<noteq> [])" "pending c2 = pending c @ resp_simple (bstr ''OK'')"
    "received c2 = ys" "c_flags c2 = c_flags c" "c_db c2 = c_db c" by metis
  have "w_reactors (upd_conn p c2 ?w1) = w_reactors w" by (simp add: upd_conn_def)
  moreover have "w_conns (upd_conn p c2 ?w1) = (w_conns w)(p \<mapsto> c2)" by (simp add: upd_conn_def)
  ultimately show ?thesis using c2 flush_data [OF assms(1,5)] by (intro exI [of _ "upd_conn p c2 ?w1"] exI [of _ c2]) simp
qed

theorem flushall_empties_witness:
  "\<exists>w w' c'. on_data_available 2 1 w = Some (w', False) \<and> w_conns w' 1 = Some c'
     \<and> pending c' = resp_simple (bstr ''OK'') \<and> data w' 3 5 = Map.empty"
proof -
  let ?ss = "[bstr ''FLUSHALL'']"
  have q: "(2 :: nat) < 4" "length (resp_encode ?ss) \<le> MESSAGE_MAX_LENGTH"
    by (simp_all add: resp_encode_def resp_bulk_def dec_digits.simps MESSAGE_MAX_LENGTH_def)
  obtain w c where w: "world_ok w" "nshards w = 4" "w_conns w 1 = Some c" "received c = resp_encode ?ss" "c_flags c = 0"
    "c_send_buf_size c = 0" "pending c = []" "\<And>j. j < 4 \<Longrightarrow> length (s_dbs (w_shards w ! j)) = 16"
    by (rule demo_world [OF q(2) resp_encode_hd(1) q(1)], rule that, assumption+)
  let ?w = "w\<lparr>w_num_dbs := 16\<rparr>"
  have ok: "world_ok ?w" "w_conns ?w 1 = Some c" using w(1,3) by (simp_all add: world_ok_def)
  have "\<forall>s \<in> set (w_shards ?w). length (s_dbs s) \<le> w_num_dbs ?w" using w(2,8) by (auto simp: in_set_conv_nth)
  moreover have "can_reply c (resp_simple (bstr ''OK''))" using w(6) by (simp add: can_reply_def resp_simple_def MESSAGE_MAX_LENGTH_def)
  moreover have "received c = resp_encode ?ss @ []" "c_flags c AND END = 0" using w(4,5) by simp_all
  ultimately obtain w' c' where "on_data_available 2 1 ?w = Some (w', [] \<noteq> ([] :: bytes))" "w_conns w' = (w_conns ?w)(1 \<mapsto> c')"
    "pending c' = pending c @ resp_simple (bstr ''OK'')"
    "\<forall>i < nshards ?w. \<forall>j < length (s_dbs (w_shards ?w ! i)). data w' i j = Map.empty"
    using flushall_empties [OF ok, of "[]" 2] by blast
  then show ?thesis using w(2,7,8) by (intro exI [of _ ?w] exI [of _ w'] exI [of _ c']) simp
qed

end
