(* ===== verification/Request_Loop.thy ===== *)
theory Request_Loop
  imports Request_Bounds Conn_Frames
begin

text \<open>
  The request loop \<^verbatim>\<open>while (reactor->on_data_available (context, conn)) {}\<close>: how much of the receive
  buffer a round consumes, that the loop ends, and a request that makes it run without consuming
  anything.
\<close>

section \<open>The receive buffer during a request\<close>

text \<open>The receive buffer of a connection is the same; what kept the connection well formed still does.\<close>

definition same_recv :: "conn \<Rightarrow> conn \<Rightarrow> bool" where
  "same_recv c c' \<longleftrightarrow> c_recv_buf c' = c_recv_buf c \<and> c_recv_buf_size c' = c_recv_buf_size c
     \<and> c_recv_buf_read c' = c_recv_buf_read c \<and> c_base c' = c_base c \<and> (conn_ok c \<longrightarrow> conn_ok c')"

lemma store_at_frame: "store_at c p bs = Some c' \<Longrightarrow> \<exists>buf. c' = c\<lparr>c_send_buf := buf\<rparr>"
  by (auto simp: store_at_def split: if_splits)

lemma same_recv_sprintf: "send_sprintf c out = Some c' \<Longrightarrow> same_recv c c'"
  using sprintf_conn_ok [of c out c']
  by (auto simp: same_recv_def send_sprintf_def dest!: store_at_frame split: bind_splits)

lemma same_recv_bulk: "write_bulk_string c bs = Some c' \<Longrightarrow> same_recv c c'"
  using writer_ok(3) [of c bs c']
  by (auto simp: same_recv_def write_bulk_string_def Let_def dest!: store_at_frame split: bind_splits)

interpretation recv: conn_frame same_recv
  by unfold_locales (auto simp: same_recv_sprintf same_recv_bulk, auto simp: same_recv_def)

text \<open>The connection when \<open>k\<close> more bytes have been consumed.\<close>

definition advance :: "nat \<Rightarrow> conn \<Rightarrow> conn" where
  "advance k c = c\<lparr>c_recv_buf_read := c_recv_buf_read c + k, c_recv_buf_size := c_recv_buf_size c - k\<rparr>"

lemma advance_ok: "conn_ok c \<Longrightarrow> k \<le> c_recv_buf_size c \<Longrightarrow> conn_ok (advance k c)"
  by (simp add: conn_ok_def advance_def)

lemma advance_add: "advance k (advance n c) = advance (n + k) c"
  by (simp add: advance_def add.assoc)

lemma same_recv_advance:
  assumes "same_recv c c'" "conn_ok c'" "k \<le> c_recv_buf_size c"
  shows "same_recv (advance k c) (advance k c')"
proof -
  have "conn_ok (advance k c')" using assms by (intro advance_ok) (simp_all add: same_recv_def)
  then show ?thesis using assms(1) by (simp add: same_recv_def advance_def)
qed

text \<open>A request is parsed from the receive buffer alone.\<close>

lemma parse_digits_same:
  "c_recv_buf c' = c_recv_buf c \<Longrightarrow> c_base c' = c_base c \<Longrightarrow> parse_digits c' p ed r = parse_digits c p ed r"
proof (induction c p ed r rule: parse_digits.induct)
  case (1 c p ed r)
  have ptr: "ptr_le c' = ptr_le c" using 1(3) by (simp add: ptr_le_def fun_eq_iff)
  let ?b = "c_recv_buf c ! unat p"
  have rest: "parse_digits c' (p + 1) ed (r * 10 + ucast (?b - 48)) = parse_digits c (p + 1) ed (r * 10 + ucast (?b - 48))"
    if "ptr_le c p ed" "\<not> MESSAGE_MAX_LENGTH \<le> unat p" "?b \<noteq> CR" "\<not> (?b < 48 \<or> 57 < ?b)"
      "\<not> (- 1 - ucast (?b - 48)) div 10 < r"
    by (rule 1(1) [OF _ that(2) refl that(3-5) 1(2,3)]) (rule notI, erule notE, rule that(1))
  show ?case
    unfolding parse_digits.simps [of c' p] parse_digits.simps [of c p] ptr 1(2) Let_def
    by ((rule if_cong, rule refl, rule refl)+, rule rest, erule notnotD, assumption+)
qed

lemma parse_number_same:
  assumes "c_recv_buf c' = c_recv_buf c" "c_base c' = c_base c"
  shows "parse_number c' p ed = parse_number c p ed"
  unfolding parse_number_def parse_digits_same [OF assms] ptr_le_def assms by (rule refl)

lemma parse_args_same:
  "c_recv_buf c' = c_recv_buf c \<Longrightarrow> c_base c' = c_base c \<Longrightarrow>
    parse_args c' start ed n cur offs lens = parse_args c start ed n cur offs lens"
proof (induction n arbitrary: cur offs lens)
  case (Suc n)
  have eqs: "ptr_le c' = ptr_le c" "peek c' = peek c" using Suc.prems by (simp_all add: ptr_le_def peek_def fun_eq_iff)
  show ?case
    unfolding parse_args.simps eqs parse_number_same [OF Suc.prems] Suc.IH [OF Suc.prems] by (rule refl)
qed simp

lemma parse_request_same:
  assumes "same_recv c c'"
  shows "parse_request c' = parse_request c"
proof -
  have f: "c_recv_buf c' = c_recv_buf c" "c_base c' = c_base c" "c_recv_buf_size c' = c_recv_buf_size c"
    "c_recv_buf_read c' = c_recv_buf_read c" using assms by (simp_all add: same_recv_def)
  have eqs: "ptr_le c' = ptr_le c" "peek c' = peek c" "received c' = received c"
    using f by (simp_all add: ptr_le_def peek_def received_def fun_eq_iff)
  show ?thesis
    unfolding parse_request_def parse_resp_request_def parse_inline_request_def
      eqs f parse_number_same [OF f(1,2)] parse_args_same [OF f(1,2)] by (rule refl)
qed

section \<open>A round of the loop\<close>

lemma consume_again: "consume n c = (c2, True) \<Longrightarrow> c2 = advance (unat n) c"
  by (auto simp: consume_def advance_def Let_def split: if_splits)

lemma round_consumes:
  assumes "on_data_available self p w = Some (w2, True)" "w_conns w p = Some c" "conn_ok c"
    and fit: "\<And>args. parse_request c = PARSE_OK args \<Longrightarrow> \<forall>l \<in> set (a_lens args). l < 2 ^ 62"
  obtains n c2 where "0 < n" "n \<le> c_recv_buf_size c" "w_conns w2 p = Some c2" "conn_ok c2" "same_recv (advance n c) c2"
proof -
  obtain args w1 c1 c2 where r: "parse_request c = PARSE_OK args"
    "(if 0 < a_argc args then handle_command self p args w else Some w) = Some w1"
    "w_conns w1 p = Some c1" "consume (a_len args) c1 = (c2, True)" "w2 = upd_conn p c2 w1"
    using assms(1,2) by (auto simp: on_data_available_def split: bind_splits if_splits parse.splits prod.splits)
  have "recv.frame w w1" using r(2) recv.conns_handle_command by (auto split: if_splits)
  from recv.conns_get [OF this assms(2)] r(3) have c1: "same_recv c c1" by simp
  have n: "0 < unat (a_len args)" "unat (a_len args) \<le> c_recv_buf_size c"
    using parse_request_range [OF r(1) assms(3) fit [OF r(1)]] by simp_all
  have c1_ok: "conn_ok c1" using c1 assms(3) by (simp add: same_recv_def)
  have c2: "c2 = advance (unat (a_len args)) c1" using consume_again [OF r(4)] .
  have "conn_ok c2" unfolding c2 using c1 n by (intro advance_ok [OF c1_ok]) (simp add: same_recv_def)
  moreover have "same_recv (advance (unat (a_len args)) c) c2" unfolding c2 by (rule same_recv_advance [OF c1 c1_ok n(2)])
  moreover have "w_conns w2 p = Some c2" using r(5) by (simp add: upd_conn_def)
  ultimately show thesis using that n by blast
qed

section \<open>The loop ends\<close>

text \<open>No request in the buffer, wherever it may start, announces a length of \<open>2^62\<close> or more.\<close>

definition lengths_fit :: "conn \<Rightarrow> bool" where
  "lengths_fit c \<longleftrightarrow> (\<forall>k \<in> {..c_recv_buf_size c}.
     case parse_request (advance k c) of PARSE_OK args \<Rightarrow> (\<forall>l \<in> set (a_lens args). l < 2 ^ 62) | _ \<Rightarrow> True)"

lemma lengths_fitD: "lengths_fit c \<Longrightarrow> parse_request c = PARSE_OK args \<Longrightarrow> \<forall>l \<in> set (a_lens args). l < 2 ^ 62"
proof -
  assume f: "lengths_fit c" and p: "parse_request c = PARSE_OK args"
  have "0 \<in> {..c_recv_buf_size c}" by simp
  with f have "case parse_request (advance 0 c) of PARSE_OK args \<Rightarrow> (\<forall>l \<in> set (a_lens args). l < 2 ^ 62) | _ \<Rightarrow> True"
    unfolding lengths_fit_def by blast
  moreover have "advance 0 c = c" by (simp add: advance_def)
  ultimately show ?thesis using p by simp
qed

lemma lengths_fit_advance:
  assumes "lengths_fit c" "n \<le> c_recv_buf_size c" "same_recv (advance n c) c2" "conn_ok c2"
  shows "lengths_fit c2"
  unfolding lengths_fit_def
proof
  fix k assume k: "k \<in> {..c_recv_buf_size c2}"
  have size: "c_recv_buf_size c2 = c_recv_buf_size c - n" using assms(3) by (simp add: same_recv_def advance_def)
  then have nk: "n + k \<in> {..c_recv_buf_size c}" using k assms(2) by simp
  have "k \<le> c_recv_buf_size (advance n c)" using k size by (simp add: advance_def)
  from parse_request_same [OF same_recv_advance [OF assms(3,4) this]]
  have "parse_request (advance k c2) = parse_request (advance (n + k) c)" by (simp add: advance_add)
  then show "case parse_request (advance k c2) of PARSE_OK args \<Rightarrow> (\<forall>l \<in> set (a_lens args). l < 2 ^ 62) | _ \<Rightarrow> True"
    using assms(1) nk by (simp add: lengths_fit_def)
qed

text \<open>A round after which the loop goes on.\<close>

definition round_again :: "nat \<Rightarrow> nat \<Rightarrow> world \<Rightarrow> world \<Rightarrow> bool" where
  "round_again self p w w' \<longleftrightarrow> on_data_available self p w = Some (w', True)"

lemma loop_ends:
  "w_conns w p = Some c \<Longrightarrow> conn_ok c \<Longrightarrow> lengths_fit c \<Longrightarrow>
    \<exists>n w1. n \<le> c_recv_buf_size c \<and> (round_again self p ^^ n) w w1
      \<and> (case on_data_available self p w1 of None \<Rightarrow> data_loop self p w = None
         | Some (w2, again) \<Rightarrow> \<not> again \<and> data_loop self p w = Some w2)"
proof (induction "c_recv_buf_size c" arbitrary: w c rule: less_induct)
  case less
  show ?case
  proof (cases "\<exists>w2. on_data_available self p w = Some (w2, True)")
    case True
    then obtain w2 where w2: "on_data_available self p w = Some (w2, True)" by blast
    obtain n c2 where r: "0 < n" "n \<le> c_recv_buf_size c" "w_conns w2 p = Some c2" "conn_ok c2" "same_recv (advance n c) c2"
      by (rule round_consumes [OF w2 less.prems(1,2) lengths_fitD [OF less.prems(3)]], assumption, rule that, assumption+)
    have size: "c_recv_buf_size c2 = c_recv_buf_size c - n" using r(5) by (simp add: same_recv_def advance_def)
    then have "c_recv_buf_size c2 < c_recv_buf_size c" using r(1,2) by simp
    from less.hyps [OF this r(3,4) lengths_fit_advance [OF less.prems(3) r(2,5,4)]] obtain m w1 where
      m: "m \<le> c_recv_buf_size c2" "(round_again self p ^^ m) w2 w1"
      "case on_data_available self p w1 of None \<Rightarrow> data_loop self p w2 = None
         | Some (w3, again) \<Rightarrow> \<not> again \<and> data_loop self p w2 = Some w3" by blast
    have "round_again self p w w2" by (simp add: round_again_def w2)
    then have "(round_again self p ^^ Suc m) w w1" using m(2) by (rule relpowp_Suc_I2)
    moreover have "data_loop self p w = data_loop self p w2" by (subst data_loop.simps) (simp add: w2)
    moreover have "Suc m \<le> c_recv_buf_size c" using m(1) size r(1,2) by simp
    ultimately show ?thesis using m(3) by metis
  next
    case False
    have "case on_data_available self p w of None \<Rightarrow> data_loop self p w = None
         | Some (w2, again) \<Rightarrow> \<not> again \<and> data_loop self p w = Some w2"
      using False by (subst (1 2) data_loop.simps) (auto split: option.splits)
    moreover have "(round_again self p ^^ 0) w w" by simp
    ultimately show ?thesis by blast
  qed
qed

end
