(* ===== verification/Request_Loop_Props.thy ===== *)
theory Request_Loop_Props
  imports Request_Loop Request_Props
begin

text \<open>
  The properties of the request loop: it ends after at most as many rounds as bytes were received,
  unless an announced length wraps the bound check; then it may run without consuming anything
  until the output overflows, or hand a command an argument of almost \<open>2^64\<close> bytes.
\<close>

section \<open>Announced lengths that wrap\<close>

text \<open>
  A request of two arguments whose first has four bytes and whose second is announced with \<open>v\<close> bytes,
  of which none need follow.
\<close>

definition wrapped_request :: "bytes \<Rightarrow> nat \<Rightarrow> bytes" where
  "wrapped_request name v = bstr ''*2'' @ crlf @ bstr ''$4'' @ crlf @ name @ crlf @ bstr ''$'' @ dec_digits v @ crlf"

text \<open>An argument whose bytes pass the bound check, with the position as the code computes it.\<close>

lemma parse_args_header:
  assumes "conn_ok c" "drop n (c_recv_buf c) = 36 # dec_digits v @ crlf @ rest" "v < 2 ^ 64"
    "cur = n + 1 + length (dec_digits v) + 2" "cur \<le> e" "e \<le> MESSAGE_MAX_LENGTH"
    "ptr_le c (of_nat cur + of_nat v + 2) (of_nat e)"
  shows "parse_args c start (of_nat e) (Suc m) (of_nat n) offs lens
    = parse_args c start (of_nat e) m (of_nat cur + of_nat v + 2) (offs @ [of_nat cur - start]) (lens @ [of_nat v])"
proof -
  have lt: "n < e" "e \<le> 8192" using assms(4-6) by (simp_all add: MESSAGE_MAX_LENGTH_def)
  have ne: "(of_nat n :: u64) \<noteq> of_nat e" using of_nat_eq_64 [of n e] lt by simp
  have pk: "peek c (of_nat n) = Some 36"
    using nth_via_drop [OF assms(2)] lt by (simp add: peek_def unat_of_nat_64 MESSAGE_MAX_LENGTH_def)
  have "drop (n + 1) (c_recv_buf c) = dec_digits v @ crlf @ rest"
    using arg_cong [OF assms(2), of List.tl] by (simp add: drop_Suc tl_drop)
  from parse_number_ok [OF assms(1) this assms(3), of e]
  have num: "parse_number c (of_nat n + 1) (of_nat e) = PARSE_OK (of_nat cur, of_nat v)"
    using assms(4-6) by (simp add: add.commute)
  show ?thesis
    unfolding parse_args.simps num bind_parse.simps prod.case pk option.case using ne assms(7) by simp
qed

lemma digits_2_4: "dec_digits 2 = [50]" "dec_digits 4 = [52]"
  by (simp_all add: dec_digits.simps digit_char_def)

text \<open>
  When the position after the second argument wraps to one inside the received bytes, the request is
  accepted, and ends there.
\<close>

lemma wrapped_parse:
  assumes ok: "conn_ok c" and recv: "received c = wrapped_request name v @ ys" and name: "length name = 4"
    and v: "v < 2 ^ 64" "length (dec_digits v) = 20"
    and wraps: "\<And>st. of_nat (st + 37) + of_nat v + 2 = (of_nat (st + k) :: u64)" and k: "k \<le> 37"
  obtains args where "parse_request c = PARSE_OK args" "a_argc args = 2" "a_len args = of_nat k"
    "arg_bytes c args 0 = Some name" "a_lens args ! 1 = of_nat v"
proof -
  define st e where "st = c_recv_buf_read c" and "e = st + c_recv_buf_size c"
  let ?R = "wrapped_request name v"
  have len: "length ?R = 37" using name v(2) by (simp add: wrapped_request_def)
  obtain rest where dr: "drop st (c_recv_buf c) = ?R @ rest" and fit: "st + 37 \<le> e"
    using received_drop [OF ok recv] len unfolding st_def e_def by auto
  have e: "e \<le> 8192" "e \<le> MESSAGE_MAX_LENGTH"
    using ok by (simp_all add: conn_ok_def e_def st_def MESSAGE_MAX_LENGTH_def)
  have at: "drop (st + i) (c_recv_buf c) = drop i (?R @ rest)" for i
    using dr by (metis add.commute drop_drop)
  obtain n1 n2 n3 n4 where n: "name = [n1, n2, n3, n4]" using name by (auto simp: numeral_eq_Suc length_Suc_conv)
  have d: "drop (st + 1) (c_recv_buf c) = dec_digits 2 @ crlf @ drop 4 ?R @ rest"
    "drop (st + 4) (c_recv_buf c) = 36 # dec_digits 4 @ crlf @ drop 8 ?R @ rest"
    "drop (st + 8) (c_recv_buf c) = name @ drop 12 ?R @ rest"
    "drop (st + 14) (c_recv_buf c) = 36 # dec_digits v @ crlf @ rest"
    unfolding at digits_2_4 by (simp_all add: wrapped_request_def n of_char_def)
  have ptr: "ptr_le c (of_nat (st + i)) (of_nat e)" if "i \<le> 37" for i
    using that fit e(1) ok by (subst ptr_le_small) (simp_all add: conn_ok_def)
  have num: "parse_number c (of_nat (st + 1)) (of_nat e) = PARSE_OK (of_nat (st + 4), 2)"
    using parse_number_ok [OF ok d(1) _ _ e(2)] fit by (simp add: digits_2_4 add.assoc)
  have a1: "parse_args c (of_nat st) (of_nat e) (Suc m) (of_nat (st + 4)) offs lens
      = parse_args c (of_nat st) (of_nat e) m (of_nat (st + 14)) (offs @ [8]) (lens @ [4])" for m offs lens
    using parse_args_header [OF ok d(2), of "st + 8" e "of_nat st" m offs lens] ptr [of 14] fit e(2)
    by (simp add: digits_2_4 add.assoc)
  have a2: "parse_args c (of_nat st) (of_nat e) (Suc m) (of_nat (st + 14)) offs lens
      = parse_args c (of_nat st) (of_nat e) m (of_nat (st + k)) (offs @ [37]) (lens @ [of_nat v])" for m offs lens
  proof -
    have "st + 37 = st + 14 + 1 + length (dec_digits v) + 2" by (simp add: v(2))
    moreover have "ptr_le c (of_nat (st + 37) + of_nat v + 2) (of_nat e)" unfolding wraps by (rule ptr [OF k])
    moreover have "of_nat (st + 37) - of_nat st = (37 :: u64)" by simp
    ultimately show ?thesis
      using parse_args_header [OF ok d(4) v(1), of "st + 37" e "of_nat st" m offs lens] fit e(2) unfolding wraps by simp
  qed
  have args: "parse_args c (of_nat st) (of_nat e) 2 (of_nat (st + 4)) [] []
      = PARSE_OK (of_nat (st + k), [8, 37], [4, of_nat v])"
    unfolding numeral_2_eq_2 a1 a2 by simp
  let ?args = "\<lparr>a_buf = of_nat st, a_argc = 2, a_len = of_nat k, a_offsets = [8, 37], a_lens = [4, of_nat v]\<rparr>"
  have ne: "\<not> (of_nat st :: u64) = of_nat e" using of_nat_eq_64 [of st e] fit e(1) by simp
  have fold: "of_nat (c_recv_buf_read c) = (of_nat st :: u64)" "of_nat st + of_nat (c_recv_buf_size c) = (of_nat e :: u64)"
    "of_nat st + 1 = (of_nat (st + 1) :: u64)" by (simp_all add: st_def e_def)
  have "\<not> MAX_ARGC < 2" "ptr_le c (of_nat (st + 4) + 2) (of_nat e)" "unat (2 :: u64) = 2"
    using ptr [of 6] by (simp add: MAX_ARGC_def, simp add: add.commute, simp)
  then have "parse_resp_request c = PARSE_OK ?args"
    unfolding parse_resp_request_def Let_def fold num bind_parse.simps prod.case using ne args by simp
  moreover have "?R \<noteq> []" "hd ?R = 42" by (simp_all add: wrapped_request_def of_char_def)
  ultimately have "parse_request c = PARSE_OK ?args" using parse_request_star [OF ok recv] by simp
  moreover have "arg_bytes c ?args 0 = Some name"
  proof -
    have "unat (of_nat st + 8 :: u64) = st + 8" using fit e(1) by (simp add: unat_word_ariths unat_of_nat_64)
    then show ?thesis using d(3) fit e(1) name by (simp add: arg_bytes_def MESSAGE_MAX_LENGTH_def)
  qed
  ultimately show thesis using that [of ?args] by simp
qed

lemma wrap_sum: "v + n = 2 ^ 64 + k \<Longrightarrow> of_nat (st + n) + of_nat v = (of_nat (st + k) :: u64)"
proof -
  assume v: "v + n = 2 ^ 64 + k"
  have "st + n + v = st + k + 2 ^ 64" using v by simp
  then have "of_nat (st + n) + of_nat v = (of_nat (st + k + 2 ^ 64) :: u64)" by (metis of_nat_add)
  also have "\<dots> = of_nat (st + k) + of_nat (2 ^ 64)" by (rule of_nat_add)
  also have "(of_nat (2 ^ 64) :: u64) = 0" by (simp only: of_nat_power of_nat_numeral) simp
  finally show ?thesis by simp
qed

section \<open>A request of length zero\<close>

text \<open>
  \<^verbatim>\<open>*2 $4 PING $18446744073709551577\<close>: the second argument is announced with \<open>2^64 - 39\<close> bytes, so
  that the position after it is the start of the request.
\<close>

definition stuck_length :: nat where
  "stuck_length = 18446744073709551577"

definition stuck_request :: bytes where
  "stuck_request = bstr ''*2'' @ crlf @ bstr ''$4'' @ crlf @ bstr ''PING'' @ crlf @ bstr ''$18446744073709551577'' @ crlf"

lemma stuck_digits: "dec_digits stuck_length = bstr ''18446744073709551577''"
  by (simp add: stuck_length_def dec_digits.simps digit_char_def of_char_def)

lemma stuck_wrapped: "stuck_request = wrapped_request (bstr ''PING'') stuck_length" "length stuck_request = 37" "stuck_request \<noteq> []"
  unfolding wrapped_request_def stuck_digits by (simp_all add: stuck_request_def)

lemma stuck_parse:
  assumes "conn_ok c" "received c = stuck_request @ ys"
  obtains args where "parse_request c = PARSE_OK args" "a_argc args = 2" "a_len args = 0"
    "arg_bytes c args 0 = Some (bstr ''PING'')"
proof -
  have "of_nat (st + 37) + of_nat stuck_length + 2 = (of_nat (st + 0) :: u64)" for st
    using wrap_sum [of stuck_length 39 0 st] by (simp add: stuck_length_def ac_simps)
  note wraps = this
  have v: "length (bstr ''PING'') = 4" "stuck_length < 2 ^ 64" "length (dec_digits stuck_length) = 20"
    unfolding stuck_digits by (simp_all add: stuck_length_def)
  obtain args where "parse_request c = PARSE_OK args" "a_argc args = 2" "a_len args = of_nat 0"
    "arg_bytes c args 0 = Some (bstr ''PING'')" "a_lens args ! 1 = of_nat stuck_length"
    by (rule wrapped_parse [OF assms(1) assms(2) [unfolded stuck_wrapped(1)] v wraps]) (simp, rule that, assumption+)
  then show thesis using that by simp
qed

text \<open>A round on it: an error reply, and nothing is consumed.\<close>

definition stuck_reply :: bytes where
  "stuck_reply = resp_error (wrong_arity_message (bstr ''PING''))"

lemma stuck_round:
  assumes "world_ok w" "w_conns w p = Some c" "received c = stuck_request @ ys" "c_flags c AND END = 0"
  shows "on_data_available self p w = map_option (\<lambda>c'. (upd_conn p c' w, True)) (send_sprintf c stuck_reply)"
proof -
  note ok = world_ok_conn [OF assms(1,2)]
  obtain args where a: "parse_request c = PARSE_OK args" "a_argc args = 2" "a_len args = 0"
    "arg_bytes c args 0 = Some (bstr ''PING'')"
    by (rule stuck_parse [OF ok assms(3)], rule that, assumption+)
  have "lookup_command (bstr ''PING'') (w_commands w)
      = Some (find (\<lambda>c. cm_name c = bstr ''PING'') command_table)"
    using assms(1) by (simp add: world_ok_def commands_ok_def key_ok_def)
  moreover have "find (\<lambda>c. cm_name c = bstr ''PING'') command_table
      = Some \<lparr>cm_name = bstr ''PING'', cm_arity = 0, cm_func = Some Cmd_ping\<rparr>"
    by (simp add: command_table_def of_char_def)
  moreover have "write_simple_generic_error c (wrong_arity_message (bstr ''PING'')) = send_sprintf c stuck_reply"
    using messages_no_nul(2)
    by (simp add: stuck_reply_def write_simple_generic_error_def write_simple_error_def resp_error_def fmt_s_id of_char_def)
  ultimately have h: "handle_command self p args w = map_option (\<lambda>c'. upd_conn p c' w) (send_sprintf c stuck_reply)"
    using assms(2) a(2,4) by (simp add: handle_command_def VAR_ARGC_def)
  have size: "0 < c_recv_buf_size c"
    using arg_cong [OF assms(3), of length] length_received [OF ok] by (simp add: stuck_wrapped(2))
  show ?thesis
  proof (cases "send_sprintf c stuck_reply")
    case None
    then show ?thesis using assms(2) a(1,2) h size by (simp add: on_data_available_def)
  next
    case (Some c')
    have "c_flags c' = c_flags c" "c_recv_buf_size c' = c_recv_buf_size c"
      using send_sprintf_some [OF Some ok] by (auto simp: replied_def)
    then have "consume 0 c' = (c', True)" using assms(4) size by (simp add: consume_def)
    then show ?thesis using assms(2) a h size Some by (simp add: on_data_available_def upd_conn_def)
  qed
qed

lemma stuck_reply_length: "0 < length stuck_reply"
  by (simp add: stuck_reply_def resp_error_def)

section \<open>A copy of almost 2^64 bytes\<close>

text \<open>
  \<^verbatim>\<open>*2 $4 ECHO $18446744073709551614\<close>: the second argument is announced with \<open>2^64 - 2\<close> bytes, so
  that the position after it is the one before it.
\<close>

definition long_length :: nat where
  "long_length = 18446744073709551614"

definition long_echo :: bytes where
  "long_echo = bstr ''*2'' @ crlf @ bstr ''$4'' @ crlf @ bstr ''ECHO'' @ crlf @ bstr ''$18446744073709551614'' @ crlf"

lemma long_digits: "dec_digits long_length = bstr ''18446744073709551614''"
  by (simp add: long_length_def dec_digits.simps digit_char_def of_char_def)

lemma long_wrapped: "long_echo = wrapped_request (bstr ''ECHO'') long_length" "length long_echo = 37" "long_echo \<noteq> []"
  unfolding wrapped_request_def long_digits by (simp_all add: long_echo_def)

lemma long_parse:
  assumes "conn_ok c" "received c = long_echo @ ys"
  obtains args where "parse_request c = PARSE_OK args" "a_argc args = 2" "arg_bytes c args 0 = Some (bstr ''ECHO'')"
    "a_lens args ! 1 = - 2"
proof -
  have wraps: "of_nat (st + 37) + of_nat long_length + 2 = (of_nat (st + 37) :: u64)" for st
    using wrap_sum [of long_length 39 37 st] by (simp add: long_length_def ac_simps)
  have v: "length (bstr ''ECHO'') = 4" "long_length < 2 ^ 64" "length (dec_digits long_length) = 20"
    unfolding long_digits by (simp_all add: long_length_def)
  have minus: "of_nat long_length = (- 2 :: u64)" using wraps [of 0] by (simp add: eq_neg_iff_add_eq_0 add.commute)
  obtain args where "parse_request c = PARSE_OK args" "a_argc args = 2" "a_len args = of_nat 37"
    "arg_bytes c args 0 = Some (bstr ''ECHO'')" "a_lens args ! 1 = of_nat long_length"
    by (rule wrapped_parse [OF assms(1) assms(2) [unfolded long_wrapped(1)] v wraps]) (simp, rule that, assumption+)
  then show thesis using that minus by simp
qed

section \<open>Properties\<close>

text \<open>
  C13: The request loop ends: when no announced length is \<open>2^62\<close> or more, it runs at most as many rounds
  as bytes were received, and then either the last round leaves the loop, or it does something
  undefined.
\<close>

theorem request_loop_ends:
  assumes "w_conns w p = Some c" "conn_ok c" "lengths_fit c"
  shows "\<exists>n w1. n \<le> c_recv_buf_size c \<and> (round_again self p ^^ n) w w1
    \<and> (case on_data_available self p w1 of None \<Rightarrow> data_loop self p w = None
       | Some (w2, again) \<Rightarrow> \<not> again \<and> data_loop self p w = Some w2)"
  using assms by (rule loop_ends)

text \<open>
  C32: A request of 37 bytes that announces an argument of \<open>2^64 - 2\<close> bytes passes the parser, whose bound
  check wraps around; ECHO copies that many bytes into the send buffer. From any well-formed state the
  pass of the request loop over it has no defined result.
\<close>

theorem wrapped_length_faults:
  assumes "world_ok w" "w_conns w p = Some c" "received c = long_echo @ ys"
  shows "(\<exists>args. parse_request c = PARSE_OK args \<and> a_lens args ! 1 = - 2 \<and> cmd_echo c args = None)
    \<and> on_data_available self p w = None"
proof -
  note ok = world_ok_conn [OF assms(1,2)]
  obtain args where a: "parse_request c = PARSE_OK args" "a_argc args = 2" "arg_bytes c args 0 = Some (bstr ''ECHO'')"
    "a_lens args ! 1 = - 2" by (rule long_parse [OF ok assms(3)], rule that, assumption+)
  have "unat (- 2 :: u64) = 2 ^ 64 - 2" by simp
  then have "arg_bytes c args 1 = None" using a(4) by (simp add: arg_bytes_def Let_def MESSAGE_MAX_LENGTH_def)
  then have echo: "cmd_echo c args = None" by (simp add: cmd_echo_def)
  have "lookup_command (bstr ''ECHO'') (w_commands w) = Some (find (\<lambda>c. cm_name c = bstr ''ECHO'') command_table)"
    using assms(1) by (simp add: world_ok_def commands_ok_def key_ok_def)
  moreover have "find (\<lambda>c. cm_name c = bstr ''ECHO'') command_table
      = Some \<lparr>cm_name = bstr ''ECHO'', cm_arity = 1, cm_func = Some Cmd_echo\<rparr>"
    by (simp add: command_table_def of_char_def)
  ultimately have "handle_command self p args w = None"
    using assms(2) a(2,3) echo by (simp add: handle_command_def call_command_def upd_with_def)
  moreover have "\<not> c_recv_buf_size c < 1"
    using arg_cong [OF assms(3), of length] length_received [OF ok] by (simp add: long_wrapped(2))
  ultimately have "on_data_available self p w = None" using assms(2) a(1,2) by (simp add: on_data_available_def)
  then show ?thesis using a(1,4) echo by blast
qed

text \<open>
  C33: A well-formed looking request whose second argument is announced with \<open>2^64 - 39\<close> bytes has length
  zero: it is answered with an error and not consumed, again and again, until the replies overflow
  the send buffer.
\<close>

theorem zero_length_request_floods:
  assumes "world_ok w" "w_conns w p = Some c" "received c = stuck_request @ ys" "c_flags c AND END = 0"
  shows "\<exists>n w1 c1. (round_again self p ^^ n) w w1 \<and> w_conns w1 p = Some c1 \<and> received c1 = received c
    \<and> pending c1 = pending c @ concat (replicate n stuck_reply)
    \<and> MESSAGE_MAX_LENGTH \<le> c_send_buf_size c1 + length stuck_reply
    \<and> on_data_available self p w1 = None \<and> data_loop self p w = None"
  using assms
proof (induction "MESSAGE_MAX_LENGTH - c_send_buf_size c" arbitrary: w c rule: less_induct)
  case less
  note ok = world_ok_conn [OF less.prems(1,2)] and round = stuck_round [OF less.prems, of self]
  show ?case
  proof (cases "send_sprintf c stuck_reply")
    case None
    then have "on_data_available self p w = None" using round by simp
    moreover have "data_loop self p w = None" by (subst data_loop.simps) (simp add: calculation)
    moreover have "MESSAGE_MAX_LENGTH \<le> c_send_buf_size c + length stuck_reply"
      using send_sprintf_ok [OF ok, of stuck_reply] None by (metis leI option.distinct(1))
    moreover have "(round_again self p ^^ 0) w w" "pending c = pending c @ concat (replicate 0 stuck_reply)" by simp_all
    ultimately show ?thesis using less.prems(2) by blast
  next
    case (Some c')
    let ?w = "upd_conn p c' w"
    have r: "replied c stuck_reply c'" by (rule send_sprintf_some [OF Some ok])
    then have c': "conn_ok c'" "received c' = received c" "c_flags c' = c_flags c" "pending c' = pending c @ stuck_reply"
      "c_send_buf_size c' = c_send_buf_size c + length stuck_reply"
      by (auto simp: replied_def received_def)
    have w: "world_ok ?w" "w_conns ?w p = Some c'" using world_ok_upd_conn [OF less.prems(1) c'(1)] by (simp_all add: upd_conn_def)
    have "c_send_buf_size c' \<le> MESSAGE_MAX_LENGTH" using c'(1) by (simp add: conn_ok_def)
    then have "MESSAGE_MAX_LENGTH - c_send_buf_size c' < MESSAGE_MAX_LENGTH - c_send_buf_size c"
      using c'(5) stuck_reply_length by linarith
    moreover have "received c' = stuck_request @ ys" "c_flags c' AND END = 0" using c'(2,3) less.prems(3,4) by simp_all
    ultimately obtain n w1 c1 where n: "(round_again self p ^^ n) ?w w1" "w_conns w1 p = Some c1" "received c1 = received c'"
      "pending c1 = pending c' @ concat (replicate n stuck_reply)"
      "MESSAGE_MAX_LENGTH \<le> c_send_buf_size c1 + length stuck_reply"
      "on_data_available self p w1 = None" "data_loop self p ?w = None"
      using less.hyps [OF _ w] by blast
    have step: "on_data_available self p w = Some (?w, True)" using round Some by simp
    then have "round_again self p w ?w" by (simp add: round_again_def)
    from relpowp_Suc_I2 [of "round_again self p", OF this n(1)] have "(round_again self p ^^ Suc n) w w1" .
    moreover have "pending c1 = pending c @ concat (replicate (Suc n) stuck_reply)" using n(4) c'(4) by simp
    moreover have "data_loop self p w = None" by (subst data_loop.simps) (simp add: step n(7))
    ultimately show ?thesis using n(2,3,5,6) c'(2) by metis
  qed
qed

lemma no_star_fits:
  assumes "conn_ok c" "42 \<notin> set (received c)"
  shows "lengths_fit c"
  unfolding lengths_fit_def
proof
  fix k assume "k \<in> {..c_recv_buf_size c}"
  then have k: "k \<le> c_recv_buf_size c" by simp
  note ok = advance_ok [OF assms(1) k]
  let ?c = "advance k c"
  have rs: "c_recv_buf_read c + c_recv_buf_size c \<le> 8192" using assms(1) by (simp add: conn_ok_def MESSAGE_MAX_LENGTH_def)
  have "\<forall>l \<in> set (a_lens args). l < 2 ^ 62" if p: "parse_request ?c = PARSE_OK args" for args
  proof -
    obtain b where b: "peek ?c (of_nat (c_recv_buf_read ?c)) = Some b"
      "(if b = 42 then parse_resp_request ?c else parse_inline_request ?c) = PARSE_OK args"
      using p by (auto simp: parse_request_def split: option.splits)
    have "parse_inline_request ?c = PARSE_OK args"
    proof (cases "k < c_recv_buf_size c")
      case True
      have "unat (of_nat (c_recv_buf_read c + k) :: u64) = c_recv_buf_read c + k" using True rs by (intro unat_of_nat_64) simp
      moreover have "length (c_recv_buf c) = 8192" using assms(1) by (simp add: conn_ok_def MESSAGE_MAX_LENGTH_def)
      ultimately have "b = received c ! k"
        using b(1) rs True by (simp add: peek_def advance_def received_def split: if_splits)
      moreover have "k < length (received c)" using True length_received [OF assms(1)] by simp
      ultimately have "b \<noteq> 42" using assms(2) nth_mem by metis
      then show ?thesis using b(2) by simp
    next
      case False
      then have "c_recv_buf_size ?c = 0" using k by (simp add: advance_def)
      then have "parse_resp_request ?c = PARSE_INCOMPLETE" by (simp add: parse_resp_request_def)
      then show ?thesis using b(2) by (simp split: if_splits)
    qed
    from parse_inline_range [OF this ok] have s: "slices_ok (unat (a_len args)) (a_offsets args) (a_lens args)"
      "unat (a_len args) \<le> c_recv_buf_size ?c" by simp_all
    have "unat l \<le> unat (a_len args)" if "l \<in> set (a_lens args)" for l
      using s(1) that by (auto simp: slices_ok_def in_set_conv_nth list_all2_conv_all_nth intro: add_leD2)
    moreover have "c_recv_buf_size ?c \<le> 8192" using rs by (simp add: advance_def)
    ultimately show ?thesis using s(2) by (fastforce simp: word_less_nat_alt)
  qed
  then show "case parse_request ?c of PARSE_OK args \<Rightarrow> (\<forall>l \<in> set (a_lens args). l < 2 ^ 62) | _ \<Rightarrow> True"
    by (simp split: parse.splits)
qed

text \<open>Two requests in one read.\<close>

theorem request_loop_ends_witness:
  "\<exists>(w :: world) n w1. (\<exists>c. w_conns w 1 = Some c \<and> received c = bstr ''PING'' @ crlf @ bstr ''PING'' @ crlf) \<and> n \<le> 12
     \<and> (round_again 0 1 ^^ n) w w1 \<and> (\<forall>w2. on_data_available 0 1 w1 \<noteq> Some (w2, True))"
proof -
  let ?bs = "bstr ''PING'' @ crlf @ bstr ''PING'' @ crlf"
  have len: "length ?bs \<le> MESSAGE_MAX_LENGTH" "?bs \<noteq> []" "(0 :: nat) < 4" by (simp_all add: MESSAGE_MAX_LENGTH_def)
  obtain w :: world and c where w: "w_conns w 1 = Some c" "received c = ?bs" "conn_ok c"
    by (rule demo_world [OF len], rule that, assumption+)
  have "42 \<notin> set (received c)" unfolding w(2) by (simp add: of_char_def)
  from request_loop_ends [OF w(1,3) no_star_fits [OF w(3) this], of 0] obtain n w1 where
    n: "n \<le> c_recv_buf_size c" "(round_again 0 1 ^^ n) w w1"
      "case on_data_available 0 1 w1 of None \<Rightarrow> data_loop 0 1 w = None
       | Some (w2, again) \<Rightarrow> \<not> again \<and> data_loop 0 1 w = Some w2" by blast
  have "n \<le> 12" using n(1) length_received [OF w(3)] w(2) by simp
  moreover have "\<forall>w2. on_data_available 0 1 w1 \<noteq> Some (w2, True)" using n(3) by auto
  ultimately show ?thesis using w(1,2) n(2) by blast
qed

theorem wrapped_length_faults_witness:
  "\<exists>w c. w_conns w 1 = Some c \<and> received c = long_echo \<and> on_data_available 0 1 w = None"
proof -
  have len: "length long_echo \<le> MESSAGE_MAX_LENGTH" "long_echo \<noteq> []" "(0 :: nat) < 4"
    using long_wrapped(2,3) by (simp_all add: MESSAGE_MAX_LENGTH_def)
  obtain w c where w: "world_ok w" "w_conns w 1 = Some c" "received c = long_echo" "c_flags c = 0" "pending c = []"
    by (rule demo_world [OF len], rule that, assumption+)
  have "received c = long_echo @ []" using w(3) by simp
  from wrapped_length_faults [OF w(1,2) this, of 0] show ?thesis using w(2,3) by blast
qed

theorem zero_length_request_floods_witness:
  "\<exists>w c n w1 c1. w_conns w 1 = Some c \<and> received c = stuck_request \<and> (round_again 0 1 ^^ n) w w1
     \<and> w_conns w1 1 = Some c1 \<and> pending c1 = concat (replicate n stuck_reply)
     \<and> MESSAGE_MAX_LENGTH \<le> c_send_buf_size c1 + length stuck_reply \<and> on_data_available 0 1 w1 = None"
proof -
  have len: "length stuck_request \<le> MESSAGE_MAX_LENGTH" "stuck_request \<noteq> []" "(0 :: nat) < 4"
    using stuck_wrapped(2,3) by (simp_all add: MESSAGE_MAX_LENGTH_def)
  obtain w c where w: "world_ok w" "w_conns w 1 = Some c" "received c = stuck_request" "c_flags c = 0" "pending c = []"
    by (rule demo_world [OF len], rule that, assumption+)
  have "received c = stuck_request @ []" "c_flags c AND END = 0" using w(3,4) by simp_all
  from zero_length_request_floods [OF w(1,2) this, of 0] show ?thesis using w(2,3,5) by fastforce
qed

end
