(* ===== verification/Memory.thy ===== *)
theory Memory
  imports Commands_Correct
begin

text \<open>
  The ownership of the buffers of keys and values: the same keyed commands as in \<open>Commands\<close>, with
  the calls of \<^verbatim>\<open>malloc\<close> and \<^verbatim>\<open>free\<close> the blocks of \<^verbatim>\<open>DEFINE_COMMAND\<close> make, with \<open>entry_free\<close> of
  \<^verbatim>\<open>src/include/kv.c\<close>, and with the request and response contexts that carry pointers from shard to
  shard and are released by \<^verbatim>\<open>reactor_poll_callbacks\<close>.

  The memory is the set of the addresses of the live blocks. The bytes of a key or value are
  copied into its block once and never written again, so they are kept beside the pointer, in an
  \<open>object\<close>. Reading or releasing a block that is not live is \<open>None\<close>. The address \<^verbatim>\<open>malloc\<close> returns
  is the argument \<open>alloc\<close>, a function of the live blocks; allocations succeed.
\<close>

section \<open>Blocks\<close>

text \<open>What the code relies on: an allocated block is not NULL and is distinct from the live ones.\<close>

definition allocator :: "(nat set \<Rightarrow> nat) \<Rightarrow> bool" where
  "allocator alloc \<longleftrightarrow> (\<forall>live. finite live \<longrightarrow> alloc live \<notin> live \<and> alloc live \<noteq> 0)"

definition malloc :: "(nat set \<Rightarrow> nat) \<Rightarrow> nat set \<Rightarrow> nat \<times> nat set" where
  "malloc alloc live = (alloc live, insert (alloc live) live)"

definition free_block :: "nat \<Rightarrow> nat set \<Rightarrow> nat set option" where
  "free_block p live = (if p = 0 then Some live else if p \<in> live then Some (live - {p}) else None)"

section \<open>Entries with their pointers\<close>

record object =
  o_entry :: entry
  o_key :: nat
  o_val :: nat

definition okey :: "object \<Rightarrow> bytes" where
  "okey ob = e_key (o_entry ob)"

definition object_compare :: "object \<Rightarrow> object \<Rightarrow> u32" where
  "object_compare a b = entry_compare (o_entry a) (o_entry b)"

definition object_hash :: "object \<Rightarrow> u64 \<Rightarrow> u64 \<Rightarrow> u64" where
  "object_hash a seed0 seed1 = entry_hash_xxhash3 (o_entry a) seed0 seed1"

definition probe_object :: "bytes \<Rightarrow> object" where
  "probe_object k = \<lparr>o_entry = probe_entry k, o_key = 0, o_val = 0\<rparr>"

definition entry_free :: "object \<Rightarrow> nat set \<Rightarrow> nat set option" where
  "entry_free ob live = do {
     live1 \<leftarrow> (if o_key ob \<noteq> 0 then free_block (o_key ob) live else Some live);
     (if o_val ob \<noteq> 0 then free_block (o_val ob) live1 else Some live1) }"

definition free_existing :: "object option \<Rightarrow> nat set \<Rightarrow> nat set option" where
  "free_existing existing live = (case existing of None \<Rightarrow> Some live | Some ob \<Rightarrow> entry_free ob live)"

fun free_objects :: "object list \<Rightarrow> nat set \<Rightarrow> nat set option" where
  "free_objects [] live = Some live"
| "free_objects (ob # obs) live = do { live1 \<leftarrow> entry_free ob live; free_objects obs live1 }"

section \<open>Access to a database\<close>

text \<open>
  An operation of the hash map may compare any stored key with the one it looks for, so all of
  them have to be live.
\<close>

definition keys_live :: "object hashmap \<Rightarrow> nat set \<Rightarrow> bool" where
  "keys_live db live \<longleftrightarrow> (\<forall>b \<in> set (hm_buckets db). b_dib b \<noteq> 0 \<longrightarrow> o_key (b_item b) \<in> live)"

definition obj_get :: "object hashmap \<Rightarrow> bytes \<Rightarrow> u64 \<Rightarrow> nat set \<Rightarrow> object option option" where
  "obj_get db key hash live =
    (if keys_live db live then hashmap_get_with_hash db (probe_object key) hash else None)"

definition obj_set :: "object hashmap \<Rightarrow> object \<Rightarrow> u64 \<Rightarrow> nat set \<Rightarrow> (object hashmap \<times> object option) option" where
  "obj_set db ob hash live = (if keys_live db live then hashmap_set_with_hash True db ob hash else None)"

definition obj_del :: "object hashmap \<Rightarrow> bytes \<Rightarrow> u64 \<Rightarrow> nat set \<Rightarrow> (object hashmap \<times> object option) option" where
  "obj_del db key hash live =
    (if keys_live db live then hashmap_delete_with_hash True db (probe_object key) hash else None)"

section \<open>Executing an operation\<close>

text \<open>
  \<open>try_modify_counter\<close> owns the copy of the key it is given: it releases it when the value is not a
  number and stores it otherwise.
\<close>

definition modify_counter_mem ::
  "(nat set \<Rightarrow> nat) \<Rightarrow> object hashmap \<Rightarrow> nat \<Rightarrow> bytes \<Rightarrow> u64 \<Rightarrow> u64 \<Rightarrow> u64 \<Rightarrow> nat set
    \<Rightarrow> (object hashmap \<times> u64 \<times> nat set) option" where
  "modify_counter_mem alloc db kp key hash res delta live = do {
     existing \<leftarrow> obj_get db key hash live;
     parsed \<leftarrow> (case existing of None \<Rightarrow> Some (Some 0)
                | Some ob \<Rightarrow> if o_val ob \<notin> live then None
                    else try_parse_signed_integer (e_val (o_entry ob)) (length (e_val (o_entry ob))));
     (case parsed of
        None \<Rightarrow> map_option (\<lambda>live1. (db, res, live1)) (free_block kp live)
      | Some v \<Rightarrow>
         (let val = v + delta; buf = fmt_ld val; (bp, live1) = malloc alloc live
          in if 20 < length buf + 1 then None
             else do {
               (db', old) \<leftarrow> obj_set db \<lparr>o_entry = \<lparr>e_key = key, e_val = buf\<rparr>, o_key = kp, o_val = bp\<rparr> hash live1;
               live2 \<leftarrow> free_existing old live1;
               Some (db', val, live2) })) }"

text \<open>The \<^verbatim>\<open>CMD_EXEC\<close> blocks: the database, the entry found by a GET, the result, the memory.\<close>

definition exec_mem ::
  "(nat set \<Rightarrow> nat) \<Rightarrow> object hashmap \<Rightarrow> nat \<Rightarrow> nat \<Rightarrow> bytes \<Rightarrow> u64 \<Rightarrow> keyed_op \<Rightarrow> nat set
    \<Rightarrow> (object hashmap \<times> object option \<times> keyed_res \<times> nat set) option" where
  "exec_mem alloc db kp vp key hash oper live =
    (case oper of
       OpGet \<Rightarrow> map_option (\<lambda>found. (db, found, ResEntry (map_option o_entry found), live)) (obj_get db key hash live)
     | OpSet val \<Rightarrow> do {
         (db', old) \<leftarrow> obj_set db \<lparr>o_entry = \<lparr>e_key = key, e_val = val\<rparr>, o_key = kp, o_val = vp\<rparr> hash live;
         live1 \<leftarrow> free_existing old live;
         Some (db', None, ResOK, live1) }
     | OpDel \<Rightarrow> do {
         (db', old) \<leftarrow> obj_del db key hash live;
         live1 \<leftarrow> free_existing old live;
         Some (db', None, ResInt (if old = None then 0 else 1), live1) }
     | OpPing sid \<Rightarrow> Some (db, None, ResInt sid, live)
     | OpModify delta \<Rightarrow> do {
         (db', res, live1) \<leftarrow> modify_counter_mem alloc db kp key hash 0 delta live;
         Some (db', None, ResInt res, live1) })"

text \<open>
  The copies the \<^verbatim>\<open>CMD_VARS\<close> blocks make: of key and value for SET, of the key for the counters;
  the other commands use the key in the receive buffer.
\<close>

definition copy_vars :: "(nat set \<Rightarrow> nat) \<Rightarrow> keyed_op \<Rightarrow> nat set \<Rightarrow> nat \<times> nat \<times> nat set" where
  "copy_vars alloc oper live =
    (case oper of
       OpSet val \<Rightarrow> (let (kp, live1) = malloc alloc live; (vp, live2) = malloc alloc live1 in (kp, vp, live2))
     | OpModify delta \<Rightarrow> (let (kp, live1) = malloc alloc live in (kp, 0, live1))
     | _ \<Rightarrow> (0, 0, live))"

text \<open>The command in place: the reply of a GET reads the value of the entry.\<close>

definition run_local ::
  "(nat set \<Rightarrow> nat) \<Rightarrow> bytes \<Rightarrow> keyed_op \<Rightarrow> object hashmap \<Rightarrow> nat set \<Rightarrow> (object hashmap \<times> keyed_res \<times> nat set) option" where
  "run_local alloc key oper db live = do {
     let (kp, vp, live1) = copy_vars alloc oper live;
     (db', found, res, live2) \<leftarrow> exec_mem alloc db kp vp key (key_hash key) oper live1;
     (if \<forall>ob. found = Some ob \<longrightarrow> o_val ob \<in> live2 then Some (db', res, live2) else None) }"

section \<open>Requests and responses\<close>

record request =
  q_ctx :: nat
  q_key :: nat
  q_val :: nat
  q_bytes :: bytes
  q_hash :: u64
  q_op :: keyed_op

record response =
  p_ctx :: nat
  p_entry :: nat
  p_object :: "object option"
  p_res :: keyed_res

text \<open>
  Sending: the copies of \<^verbatim>\<open>CMD_VARS\<close>, the context, and in \<^verbatim>\<open>CMD_PRE_DISPATCH\<close> a copy of the key for
  the context, except for SET, which hands its own copies over.
\<close>

definition send_request :: "(nat set \<Rightarrow> nat) \<Rightarrow> bytes \<Rightarrow> keyed_op \<Rightarrow> nat set \<Rightarrow> request \<times> nat set" where
  "send_request alloc key oper live =
    (let (kp, vp, live1) = copy_vars alloc oper live;
         (cp, live2) = malloc alloc live1;
         (qp, live3) = (case oper of OpSet val \<Rightarrow> (kp, live2) | _ \<Rightarrow> malloc alloc live2)
     in (\<lparr>q_ctx = cp, q_key = qp, q_val = vp, q_bytes = key, q_hash = key_hash key, q_op = oper\<rparr>, live3))"

text \<open>
  The \<^verbatim>\<open>CMD_POST_DISPATCH_EXEC\<close> blocks: GET, DEL and DPING release the key of the request, and GET
  copies the entry it found into three new blocks, because the entry may be released before the
  response is handled.
\<close>

definition post_dispatch ::
  "(nat set \<Rightarrow> nat) \<Rightarrow> request \<Rightarrow> object option \<Rightarrow> nat set \<Rightarrow> (nat \<times> object option \<times> nat set) option" where
  "post_dispatch alloc q found live =
    (case q_op q of
       OpGet \<Rightarrow> do {
         live1 \<leftarrow> free_block (q_key q) live;
         (case found of
            None \<Rightarrow> Some (0, None, live1)
          | Some ob \<Rightarrow>
             (if o_key ob \<notin> live1 \<or> o_val ob \<notin> live1 then None
              else let (kp, live2) = malloc alloc live1; (vp, live3) = malloc alloc live2;
                       (ep, live4) = malloc alloc live3
                   in Some (ep, Some \<lparr>o_entry = o_entry ob, o_key = kp, o_val = vp\<rparr>, live4))) }
     | OpDel \<Rightarrow> map_option (\<lambda>live1. (0, None, live1)) (free_block (q_key q) live)
     | OpPing sid \<Rightarrow> map_option (\<lambda>live1. (0, None, live1)) (free_block (q_key q) live)
     | _ \<Rightarrow> Some (0, None, live))"

text \<open>The request handler, and the \<^verbatim>\<open>free (ctx)\<close> of \<^verbatim>\<open>reactor_poll_callbacks\<close> after it.\<close>

definition run_request ::
  "(nat set \<Rightarrow> nat) \<Rightarrow> request \<Rightarrow> object hashmap \<Rightarrow> nat set \<Rightarrow> (object hashmap \<times> response \<times> nat set) option" where
  "run_request alloc q db live =
    (if q_ctx q \<notin> live \<or> q_key q \<notin> live then None
     else do {
       (db', found, res, live1) \<leftarrow> exec_mem alloc db (q_key q) (q_val q) (q_bytes q) (q_hash q) (q_op q) live;
       let (rp, live2) = malloc alloc live1;
       (ep, ob, live3) \<leftarrow> post_dispatch alloc q found live2;
       live4 \<leftarrow> free_block (q_ctx q) live3;
       Some (db', \<lparr>p_ctx = rp, p_entry = ep, p_object = ob, p_res = res\<rparr>, live4) })"

text \<open>
  The response handler: the reply reads the copied entry, \<^verbatim>\<open>CMD_POST_RESP\<close> of GET releases its three
  blocks, and the context is released last.
\<close>

definition run_response :: "response \<Rightarrow> nat set \<Rightarrow> nat set option" where
  "run_response p live =
    (if p_ctx p \<notin> live then None
     else do {
       live1 \<leftarrow> (case p_object p of
           None \<Rightarrow> Some live
         | Some ob \<Rightarrow>
            (if p_entry p \<notin> live \<or> o_val ob \<notin> live then None
             else do { l1 \<leftarrow> free_block (o_key ob) live; l2 \<leftarrow> free_block (o_val ob) l1; free_block (p_entry p) l2 }));
       free_block (p_ctx p) live1 })"

section \<open>All databases, and what is in flight\<close>

record memory =
  m_live :: "nat set"
  m_dbs :: "object hashmap list"
  m_requests :: "request list"
  m_responses :: "response list"
  m_replies :: "keyed_res list"

text \<open>
  The events of the server that touch the buffers, in any order: a command in place on a database,
  an INCRBY or DECRBY refused after it has copied its key, a command sent, a request executed on a
  database, a response handled, FLUSHALL.
\<close>

datatype mem_op =
    Local nat bytes keyed_op
  | Refused
  | Send bytes keyed_op
  | Execute nat nat
  | Respond nat
  | Flush

definition without :: "nat \<Rightarrow> 'a list \<Rightarrow> 'a list" where
  "without i xs = take i xs @ drop (Suc i) xs"

fun flush_dbs :: "object hashmap list \<Rightarrow> nat set \<Rightarrow> nat set option" where
  "flush_dbs [] live = Some live"
| "flush_dbs (db # dbs) live = do {
     live1 \<leftarrow> free_objects (snd (hashmap_clear db True)) live;
     flush_dbs dbs live1 }"

fun mem_step :: "(nat set \<Rightarrow> nat) \<Rightarrow> mem_op \<Rightarrow> memory \<Rightarrow> memory option" where
  "mem_step alloc (Local d key oper) s =
    (if d < length (m_dbs s) then do {
       (db, res, live) \<leftarrow> run_local alloc key oper (m_dbs s ! d) (m_live s);
       Some (s\<lparr>m_live := live, m_dbs := (m_dbs s)[d := db], m_replies := m_replies s @ [res]\<rparr>) }
     else None)"
| "mem_step alloc Refused s = Some (s\<lparr>m_live := snd (malloc alloc (m_live s))\<rparr>)"
| "mem_step alloc (Send key oper) s =
    (case send_request alloc key oper (m_live s) of
       (q, live) \<Rightarrow> Some (s\<lparr>m_live := live, m_requests := m_requests s @ [q]\<rparr>))"
| "mem_step alloc (Execute i d) s =
    (if i < length (m_requests s) \<and> d < length (m_dbs s) then do {
       (db, p, live) \<leftarrow> run_request alloc (m_requests s ! i) (m_dbs s ! d) (m_live s);
       Some (s\<lparr>m_live := live, m_dbs := (m_dbs s)[d := db], m_requests := without i (m_requests s),
               m_responses := m_responses s @ [p]\<rparr>) }
     else None)"
| "mem_step alloc (Respond i) s =
    (if i < length (m_responses s) then do {
       live \<leftarrow> run_response (m_responses s ! i) (m_live s);
       Some (s\<lparr>m_live := live, m_responses := without i (m_responses s),
               m_replies := m_replies s @ [p_res (m_responses s ! i)]\<rparr>) }
     else None)"
| "mem_step alloc Flush s = do {
     live \<leftarrow> flush_dbs (m_dbs s) (m_live s);
     Some (s\<lparr>m_live := live, m_dbs := map (\<lambda>db. fst (hashmap_clear db True)) (m_dbs s)\<rparr>) }"

fun mem_run :: "(nat set \<Rightarrow> nat) \<Rightarrow> mem_op list \<Rightarrow> memory \<Rightarrow> memory option" where
  "mem_run alloc [] s = Some s"
| "mem_run alloc (op # ops) s = do { s1 \<leftarrow> mem_step alloc op s; mem_run alloc ops s1 }"

text \<open>
  \<^verbatim>\<open>free_context\<close> of every shard, at the end of \<^verbatim>\<open>main\<close>: each database hands its entries to
  \<open>entry_free\<close>.
\<close>

fun free_dbs :: "object hashmap list \<Rightarrow> nat set \<Rightarrow> nat set option" where
  "free_dbs [] live = Some live"
| "free_dbs (db # dbs) live = do { live1 \<leftarrow> free_objects (hashmap_free (Some db)) live; free_dbs dbs live1 }"

definition free_contexts :: "memory \<Rightarrow> memory option" where
  "free_contexts s = map_option (\<lambda>live. s\<lparr>m_live := live, m_dbs := []\<rparr>) (free_dbs (m_dbs s) (m_live s))"

text \<open>The databases \<^verbatim>\<open>init_shards\<close> creates, \<open>n\<close> in all, and no entry or message yet.\<close>

definition mem_init :: "u64 \<Rightarrow> nat \<Rightarrow> memory option" where
  "mem_init seed n = do {
     db \<leftarrow> hashmap_new True \<lparr>o_entry = \<lparr>e_key = [], e_val = []\<rparr>, o_key = 0, o_val = 0\<rparr> (2 ^ 20) seed seed object_hash
            (Some object_compare) True;
     Some \<lparr>m_live = {}, m_dbs = replicate n db, m_requests = [], m_responses = [], m_replies = []\<rparr> }"

section \<open>The values alone\<close>

text \<open>
  What the events do to the values: the specification of the operations on finite maps, with the
  requests and responses in flight.
\<close>

record store_values =
  v_dbs :: "(bytes \<rightharpoonup> bytes) list"
  v_requests :: "(bytes \<times> keyed_op) list"
  v_responses :: "keyed_res list"
  v_replies :: "keyed_res list"

fun val_step :: "mem_op \<Rightarrow> store_values \<Rightarrow> store_values option" where
  "val_step (Local d key oper) v =
    (if d < length (v_dbs v) then do {
       (f, res) \<leftarrow> spec_op (v_dbs v ! d) key oper;
       Some (v\<lparr>v_dbs := (v_dbs v)[d := f], v_replies := v_replies v @ [res]\<rparr>) }
     else None)"
| "val_step Refused v = Some v"
| "val_step (Send key oper) v = Some (v\<lparr>v_requests := v_requests v @ [(key, oper)]\<rparr>)"
| "val_step (Execute i d) v =
    (if i < length (v_requests v) \<and> d < length (v_dbs v) then do {
       (f, res) \<leftarrow> spec_op (v_dbs v ! d) (fst (v_requests v ! i)) (snd (v_requests v ! i));
       Some (v\<lparr>v_dbs := (v_dbs v)[d := f], v_requests := without i (v_requests v),
               v_responses := v_responses v @ [res]\<rparr>) }
     else None)"
| "val_step (Respond i) v =
    (if i < length (v_responses v)
     then Some (v\<lparr>v_responses := without i (v_responses v), v_replies := v_replies v @ [v_responses v ! i]\<rparr>)
     else None)"
| "val_step Flush v = Some (v\<lparr>v_dbs := map (\<lambda>f. Map.empty) (v_dbs v)\<rparr>)"

fun val_run :: "mem_op list \<Rightarrow> store_values \<Rightarrow> store_values option" where
  "val_run [] v = Some v"
| "val_run (op # ops) v = do { v1 \<leftarrow> val_step op v; val_run ops v1 }"

text \<open>
  The blocks an event loses: a refused INCRBY or DECRBY its copy of the key, a dispatched counter
  command the copy of the key it made before the one of the context.
\<close>

fun lost_blocks :: "mem_op \<Rightarrow> nat" where
  "lost_blocks Refused = 1"
| "lost_blocks (Send key (OpModify delta)) = 1"
| "lost_blocks _ = 0"

end
