(* ===== verification/Memory_Correct.thy ===== *)
theory Memory_Correct
  imports Memory
begin

text \<open>
  Every operation of \<open>Memory\<close> releases what it owns and nothing else. Ownership is a multiset of
  addresses: \<open>holds live M\<close> says that \<open>M\<close> lists each live block exactly once, and each lemma says how
  an operation changes the part of \<open>M\<close> it works on, beside any rest \<open>F\<close>.
\<close>

section \<open>Ownership\<close>

definition holds :: "nat set \<Rightarrow> nat multiset \<Rightarrow> bool" where
  "holds live M \<longleftrightarrow> finite live \<and> 0 \<notin> live \<and> mset_set live = M"

lemma holds_mem: "holds live M \<Longrightarrow> p \<in># M \<Longrightarrow> p \<in> live \<and> p \<noteq> 0"
  by (metis holds_def elem_mset_set)

lemma holds_malloc:
  assumes "holds live M" "allocator alloc" "malloc alloc live = (p, live')"
  shows "holds live' (add_mset p M)"
proof -
  have "finite live" using assms(1) by (simp add: holds_def)
  then have "p \<notin> live" "p \<noteq> 0" "live' = insert p live" using assms(2,3) by (auto simp: allocator_def malloc_def)
  then show ?thesis using assms(1) by (simp add: holds_def)
qed

lemma holds_free:
  assumes "holds live (add_mset p M)"
  shows "\<exists>live'. free_block p live = Some live' \<and> holds live' M"
proof -
  have p: "p \<in> live" "p \<noteq> 0" using holds_mem [OF assms] by simp_all
  have "mset_set live = add_mset p (mset_set (live - {p}))"
    using assms p(1) unfolding holds_def by (metis mset_set.remove)
  moreover have "mset_set live = add_mset p M" using assms by (simp add: holds_def)
  ultimately have "mset_set (live - {p}) = M" by (metis add_mset_add_mset_same_iff)
  then have "holds (live - {p}) M" using assms by (simp add: holds_def)
  then show ?thesis using p by (simp add: free_block_def)
qed

definition object_blocks :: "object \<Rightarrow> nat multiset" where
  "object_blocks ob = {#o_key ob, o_val ob#}"

lemma entry_free_holds:
  assumes "holds live (object_blocks ob + M)"
  shows "\<exists>live'. entry_free ob live = Some live' \<and> holds live' M"
proof -
  have h: "holds live (add_mset (o_key ob) (add_mset (o_val ob) M))" using assms by (simp add: object_blocks_def)
  have nz: "o_key ob \<noteq> 0" "o_val ob \<noteq> 0" using holds_mem [OF h] by simp_all
  obtain l1 where l1: "free_block (o_key ob) live = Some l1" "holds l1 (add_mset (o_val ob) M)"
    using holds_free [OF h] by blast
  obtain l2 where "free_block (o_val ob) l1 = Some l2" "holds l2 M" using holds_free [OF l1(2)] by blast
  then show ?thesis using l1(1) nz by (simp add: entry_free_def)
qed

definition blocks_of :: "object multiset \<Rightarrow> nat multiset" where
  "blocks_of obs = (\<Sum>ob \<in># obs. object_blocks ob)"

lemma blocks_of_simps [simp]:
  "blocks_of {#} = {#}" "blocks_of (add_mset ob obs) = object_blocks ob + blocks_of obs"
  by (simp_all add: blocks_of_def)

lemma free_objects_holds:
  "holds live (blocks_of (mset obs) + M) \<Longrightarrow> \<exists>live'. free_objects obs live = Some live' \<and> holds live' M"
proof (induction obs arbitrary: live)
  case (Cons ob obs)
  have "holds live (object_blocks ob + (blocks_of (mset obs) + M))" using Cons.prems by (simp add: ac_simps)
  from entry_free_holds [OF this] obtain l1 where "entry_free ob live = Some l1" "holds l1 (blocks_of (mset obs) + M)"
    by blast
  then show ?case using Cons.IH by simp
qed simp

section \<open>The objects of a database\<close>

interpretation objs: hashed_items okey probe_object key_hash key_ok object_compare
  by unfold_locales (simp_all add: okey_def probe_object_def probe_entry_def object_compare_def entry_compare_exact)

text \<open>The items a map stores are the values of its abstraction, each once.\<close>

definition stored :: "'a hashmap \<Rightarrow> 'a multiset" where
  "stored m = image_mset snd (Robin_Hood.contents (hm_buckets m))"

context hashed_items begin

lemma stored_bound:
  assumes "hs_inv key kh ok m" "x \<in># stored m"
  shows "hs_abs key kh m (key x) = Some x"
proof -
  have u: "unique_keys key (contents (hm_buckets m))" using hs_inv_hm [OF assms(1)] by (simp add: hm_inv_def)
  obtain h where h: "(h, x) \<in># contents (hm_buckets m)" using assms(2) by (auto simp: stored_def)
  then have "hm_map key m (h, key x) = Some x" using hm_map_iff [OF u] by blast
  moreover from this have "h = hkey (kh (key x))" using assms(1) by (force simp: hs_inv_def)
  ultimately show ?thesis by (simp add: hs_abs_def)
qed

lemma bound_stored:
  assumes "hs_inv key kh ok m" "hs_abs key kh m k = Some x"
  shows "x \<in># stored m \<and> key x = k"
proof -
  have u: "unique_keys key (contents (hm_buckets m))" using hs_inv_hm [OF assms(1)] by (simp add: hm_inv_def)
  then have "(hkey (kh k), x) \<in># contents (hm_buckets m)" "key x = k"
    using hm_map_iff [OF u] assms(2) by (auto simp: hs_abs_def)
  then show ?thesis by (force simp: stored_def)
qed

lemma stored_keys:
  assumes "hs_inv key kh ok m"
  shows "image_mset key (stored m) = mset_set (dom (hs_abs key kh m))"
proof -
  have u: "unique_keys key (contents (hm_buckets m))" using hs_inv_hm [OF assms] by (simp add: hm_inv_def)
  have fst_h: "fst s = hkey (kh (key (snd s)))" if "s \<in># contents (hm_buckets m)" for s
  proof -
    have "hm_map key m (fst s, key (snd s)) = Some (snd s)" using hm_map_iff [OF u] that by (metis prod.collapse)
    then show ?thesis using assms by (force simp: hs_inv_def)
  qed
  have sk: "image_mset (skey key) (contents (hm_buckets m)) = image_mset (\<lambda>k. (hkey (kh k), k)) (image_mset key (stored m))"
    unfolding stored_def image_mset.compositionality comp_def
    by (rule image_mset_cong) (use fst_h in \<open>auto simp: skey_def split_beta\<close>)
  have cnt: "count (image_mset (\<lambda>k. (hkey (kh k), k)) K) (hkey (kh k), k) = count K k" for K k
    by (induction K) auto
  have le1: "count (image_mset key (stored m)) k \<le> 1" for k
  proof -
    have "count (image_mset (skey key) (contents (hm_buckets m))) (hkey (kh k), k) \<le> 1"
      using u unfolding unique_keys_def by (rule spec)
    then show ?thesis unfolding sk cnt .
  qed
  have "set_mset (image_mset key (stored m)) = dom (hs_abs key kh m)"
    using stored_bound [OF assms] bound_stored [OF assms] by (auto simp: dom_def)
  moreover have "image_mset key (stored m) = mset_set (set_mset (image_mset key (stored m)))"
  proof (rule multiset_eqI)
    fix k :: 'k
    have "count K k = (if k \<in># K then 1 else 0)" if "count K k \<le> 1" for K :: "'k multiset"
      using that count_greater_zero_iff [of K k] by (cases "count K k") (auto simp: not_in_iff)
    then show "count (image_mset key (stored m)) k = count (mset_set (set_mset (image_mset key (stored m)))) k"
      using le1 [of k] by (simp add: count_mset_set' del: set_image_mset)
  qed
  ultimately show ?thesis by simp
qed

lemma stored_values:
  assumes "hs_inv key kh ok m"
  shows "stored m = image_mset (\<lambda>k. the (hs_abs key kh m k)) (mset_set (dom (hs_abs key kh m)))"
proof -
  have "stored m = image_mset (\<lambda>x. the (hs_abs key kh m (key x))) (stored m)"
    using stored_bound [OF assms] by (simp add: multiset.map_ident_strong)
  then show ?thesis using stored_keys [OF assms] by (metis (mono_tags) image_mset.compositionality comp_def image_mset_cong)
qed

lemma finite_bound: "hs_inv key kh ok m \<Longrightarrow> finite (dom (hs_abs key kh m))"
  using stored_keys [of m] bound_stored [of m] by (auto intro: finite_subset [of _ "key ` set_mset (stored m)"])

text \<open>How binding and unbinding a key changes the stored items.\<close>

lemma stored_unbind:
  assumes "hs_inv key kh ok m" "hs_inv key kh ok m'" "hs_abs key kh m' = (hs_abs key kh m)(k := None)"
  shows "stored m = (case hs_abs key kh m k of None \<Rightarrow> stored m' | Some x \<Rightarrow> add_mset x (stored m'))"
proof (cases "hs_abs key kh m k")
  case None
  then have "hs_abs key kh m' = hs_abs key kh m" using assms(3) by (simp add: fun_upd_idem)
  then show ?thesis using stored_values [OF assms(1)] stored_values [OF assms(2)] None by simp
next
  case (Some x)
  let ?D = "dom (hs_abs key kh m)"
  have "mset_set ?D = add_mset k (mset_set (?D - {k}))"
    using finite_bound [OF assms(1)] Some by (simp add: mset_set.remove domI)
  moreover have "image_mset (\<lambda>k. the (hs_abs key kh m k)) (mset_set (?D - {k}))
      = image_mset (\<lambda>k. the (hs_abs key kh m' k)) (mset_set (?D - {k}))"
    using finite_bound [OF assms(1)] by (intro image_mset_cong) (simp add: assms(3))
  moreover have "dom (hs_abs key kh m') = ?D - {k}" by (simp add: assms(3))
  ultimately show ?thesis using stored_values [OF assms(1)] stored_values [OF assms(2)] Some by simp
qed

lemma stored_bind:
  assumes "hs_inv key kh ok m" "hs_inv key kh ok m'" "hs_abs key kh m' = (hs_abs key kh m)(k \<mapsto> x)"
  shows "add_mset x (stored m) = (case hs_abs key kh m k of None \<Rightarrow> stored m' | Some y \<Rightarrow> add_mset y (stored m'))"
proof -
  let ?D = "dom (hs_abs key kh m)"
  have D: "mset_set (insert k ?D) = add_mset k (mset_set (?D - {k}))"
    using finite_bound [OF assms(1)] by (metis finite_Diff insert_Diff_single mset_set.insert_remove)
  have rest: "image_mset (\<lambda>k. the (hs_abs key kh m k)) (mset_set (?D - {k}))
      = image_mset (\<lambda>k. the (hs_abs key kh m' k)) (mset_set (?D - {k}))"
    using finite_bound [OF assms(1)] by (intro image_mset_cong) (simp add: assms(3))
  have m': "stored m' = add_mset x (image_mset (\<lambda>k. the (hs_abs key kh m k)) (mset_set (?D - {k})))"
    using stored_values [OF assms(2)] D rest by (simp add: assms(3))
  show ?thesis
  proof (cases "hs_abs key kh m k")
    case None
    then have "?D - {k} = ?D" by auto
    then show ?thesis using m' stored_values [OF assms(1)] None by simp
  next
    case (Some y)
    then have "mset_set ?D = add_mset k (mset_set (?D - {k}))"
      using finite_bound [OF assms(1)] by (simp add: mset_set.remove domI)
    then show ?thesis using m' stored_values [OF assms(1)] Some by simp
  qed
qed

end

section \<open>Databases of objects\<close>

definition odb_ok :: "object hashmap \<Rightarrow> bool" where
  "odb_ok db \<longleftrightarrow> hs_inv okey key_hash key_ok db \<and> hm_elfree db"

definition odb_abs :: "object hashmap \<Rightarrow> bytes \<rightharpoonup> bytes" where
  "odb_abs db k = map_option (\<lambda>ob. e_val (o_entry ob)) (hs_abs okey key_hash db k)"

definition db_blocks :: "object hashmap \<Rightarrow> nat multiset" where
  "db_blocks db = blocks_of (stored db)"

lemma odb_abs_update:
  "hs_abs okey key_hash db' = (hs_abs okey key_hash db)(k := r) \<Longrightarrow>
    odb_abs db' = (odb_abs db)(k := map_option (\<lambda>ob. e_val (o_entry ob)) r)"
  by (simp add: odb_abs_def fun_eq_iff)

lemma stored_blocks:
  assumes "holds live (db_blocks db + F)" "ob \<in># stored db"
  shows "o_key ob \<in> live \<and> o_val ob \<in> live"
proof -
  obtain obs where "stored db = add_mset ob obs" using assms(2) by (blast dest: multi_member_split)
  then have "o_key ob \<in># db_blocks db + F" "o_val ob \<in># db_blocks db + F"
    by (simp_all add: db_blocks_def object_blocks_def)
  then show ?thesis using holds_mem [OF assms(1)] by blast
qed

lemma keys_live_holds: "holds live (db_blocks db + F) \<Longrightarrow> keys_live db live"
  unfolding keys_live_def
proof (intro ballI impI)
  fix b assume h: "holds live (db_blocks db + F)" and "b \<in> set (hm_buckets db)" "b_dib b \<noteq> 0"
  then have "b_item b \<in># stored db"
    by (force simp: stored_def Robin_Hood.contents_def occ_def slot_def image_iff)
  then show "o_key (b_item b) \<in> live" using stored_blocks [OF h] by blast
qed

text \<open>The element-freeing function of a map is never changed.\<close>

lemma resize_elfree: "resize mem m n = Some (m', b) \<Longrightarrow> hm_elfree m' = hm_elfree m"
  by (auto simp: resize_def split: option.splits)

lemma set_elfree: "hashmap_set_with_hash mem m x h = Some (m', r) \<Longrightarrow> hm_elfree m' = hm_elfree m"
  by (auto simp: hashmap_set_with_hash_def grow_check_def Let_def dest!: resize_elfree
      split: option.splits prod.splits bool.splits if_splits)

lemma delete_elfree: "hashmap_delete_with_hash mem m x h = Some (m', r) \<Longrightarrow> hm_elfree m' = hm_elfree m"
  by (auto simp: hashmap_delete_with_hash_def shrink_check_def Let_def dest!: resize_elfree
      split: option.splits prod.splits if_splits)

lemma obj_get_ok:
  assumes "odb_ok db" "key_ok key" "holds live (db_blocks db + F)"
  shows "obj_get db key (key_hash key) live = Some (hs_abs okey key_hash db key)"
  using assms objs.get_law [of db key] keys_live_holds by (simp add: obj_get_def odb_ok_def hs_get_def)

lemma obj_set_ok:
  assumes db: "odb_ok db" "key_ok key" "hm_count db < 65535" "holds live (object_blocks ob + db_blocks db + F)"
    and ob: "okey ob = key"
  shows "\<exists>db' old live'. obj_set db ob (key_hash key) live = Some (db', old) \<and> free_existing old live = Some live'
    \<and> odb_ok db' \<and> odb_abs db' = (odb_abs db)(key \<mapsto> e_val (o_entry ob)) \<and> hm_count db' \<le> hm_count db + 1
    \<and> holds live' (db_blocks db' + F)"
proof -
  have inv: "hs_inv okey key_hash key_ok db" "key_ok (okey ob)" using db ob by (simp_all add: odb_ok_def)
  from objs.set_law [OF inv db(3)] ob obtain db' where
    s: "hs_set okey key_hash db ob = Some (db', hs_abs okey key_hash db key)" "hs_inv okey key_hash key_ok db'"
      "hs_abs okey key_hash db' = (hs_abs okey key_hash db)(key \<mapsto> ob)" "hm_count db' \<le> hm_count db + 1" by auto
  have set: "hashmap_set_with_hash True db ob (key_hash key) = Some (db', hs_abs okey key_hash db key)"
    using s(1) ob by (simp add: hs_set_def)
  have "holds live (db_blocks db + (object_blocks ob + F))" using db(4) by (simp add: ac_simps)
  then have run: "obj_set db ob (key_hash key) live = Some (db', hs_abs okey key_hash db key)"
    using set keys_live_holds by (simp add: obj_set_def)
  note st = objs.stored_bind [OF inv(1) s(2,3)]
  have "\<exists>live'. free_existing (hs_abs okey key_hash db key) live = Some live' \<and> holds live' (db_blocks db' + F)"
  proof (cases "hs_abs okey key_hash db key")
    case None
    then have "object_blocks ob + db_blocks db = db_blocks db'"
      using arg_cong [OF st, of blocks_of] by (simp add: db_blocks_def)
    then show ?thesis using None db(4) by (simp add: free_existing_def)
  next
    case (Some old)
    then have "object_blocks ob + db_blocks db = object_blocks old + db_blocks db'"
      using arg_cong [OF st, of blocks_of] by (simp add: db_blocks_def)
    then have "holds live (object_blocks old + (db_blocks db' + F))" using db(4) by (simp add: ac_simps)
    from entry_free_holds [OF this] show ?thesis using Some by (simp add: free_existing_def)
  qed
  then show ?thesis
    using run s db(1) set_elfree [OF set] odb_abs_update [OF s(3)] by (auto simp: odb_ok_def)
qed

lemma obj_del_ok:
  assumes db: "odb_ok db" "key_ok key" "hm_count db < 65535" "holds live (db_blocks db + F)"
  shows "\<exists>db' old live'. obj_del db key (key_hash key) live = Some (db', old) \<and> free_existing old live = Some live'
    \<and> old = hs_abs okey key_hash db key
    \<and> odb_ok db' \<and> odb_abs db' = (odb_abs db)(key := None) \<and> hm_count db' \<le> hm_count db + 1
    \<and> holds live' (db_blocks db' + F)"
proof -
  have inv: "hs_inv okey key_hash key_ok db" "hm_count db \<le> 65535" using db by (simp_all add: odb_ok_def)
  from objs.delete_law [OF inv(1) db(2) inv(2)] obtain db' where
    s: "hs_del probe_object key_hash db key = Some (db', hs_abs okey key_hash db key)" "hs_inv okey key_hash key_ok db'"
      "hs_abs okey key_hash db' = (hs_abs okey key_hash db)(key := None)" "hm_count db' \<le> hm_count db" by auto
  have del: "hashmap_delete_with_hash True db (probe_object key) (key_hash key) = Some (db', hs_abs okey key_hash db key)"
    using s(1) by (simp add: hs_del_def)
  then have run: "obj_del db key (key_hash key) live = Some (db', hs_abs okey key_hash db key)"
    using keys_live_holds [OF db(4)] by (simp add: obj_del_def)
  note st = objs.stored_unbind [OF inv(1) s(2,3)]
  have "\<exists>live'. free_existing (hs_abs okey key_hash db key) live = Some live' \<and> holds live' (db_blocks db' + F)"
  proof (cases "hs_abs okey key_hash db key")
    case None
    then show ?thesis using st db(4) by (simp add: free_existing_def db_blocks_def)
  next
    case (Some old)
    then have "holds live (object_blocks old + (db_blocks db' + F))" using st db(4) by (simp add: db_blocks_def ac_simps)
    from entry_free_holds [OF this] show ?thesis using Some by (simp add: free_existing_def)
  qed
  then show ?thesis
    using run s db(1) delete_elfree [OF del] odb_abs_update [OF s(3)] by (auto simp: odb_ok_def)
qed

section \<open>The operations\<close>

text \<open>The blocks an operation is given: copies of the key and of the value, or of the key.\<close>

definition vars_blocks :: "keyed_op \<Rightarrow> nat \<Rightarrow> nat \<Rightarrow> nat multiset" where
  "vars_blocks oper kp vp = (case oper of OpSet val \<Rightarrow> {#kp, vp#} | OpModify delta \<Rightarrow> {#kp#} | _ \<Rightarrow> {#})"

lemma modify_counter_mem_ok:
  assumes al: "allocator alloc" and db: "odb_ok db" "key_ok key" "hm_count db < 65535"
    and h: "holds live (add_mset kp (db_blocks db + F))"
    and sp: "spec_modify (odb_abs db) key delta = Some (f, r)"
  shows "\<exists>db' res live'. modify_counter_mem alloc db kp key (key_hash key) 0 delta live = Some (db', res, live')
    \<and> r = ResInt res \<and> odb_ok db' \<and> odb_abs db' = f \<and> hm_count db' \<le> hm_count db + 1
    \<and> holds live' (db_blocks db' + F)"
proof -
  let ?e = "hs_abs okey key_hash db key"
  have h': "holds live (db_blocks db + add_mset kp F)" using h by simp
  have val: "o_val ob \<in> live" if "?e = Some ob" for ob
    using stored_blocks [OF h'] objs.bound_stored that db(1) by (auto simp: odb_ok_def)
  define parsed where "parsed = (case ?e of None \<Rightarrow> Some (Some 0)
     | Some ob \<Rightarrow> try_parse_signed_integer (e_val (o_entry ob)) (length (e_val (o_entry ob))))"
  have sp': "(case odb_abs db key of None \<Rightarrow> Some (Some 0) | Some v \<Rightarrow> try_parse_signed_integer v (length v)) = parsed"
    by (auto simp: parsed_def odb_abs_def split: option.splits)
  have run: "modify_counter_mem alloc db kp key (key_hash key) 0 delta live = do {
      parsed \<leftarrow> parsed;
      (case parsed of None \<Rightarrow> map_option (\<lambda>live1. (db, 0, live1)) (free_block kp live)
       | Some v \<Rightarrow> (let val = v + delta; buf = fmt_ld val; (bp, live1) = malloc alloc live
          in if 20 < length buf + 1 then None
             else do {
               (db', old) \<leftarrow> obj_set db \<lparr>o_entry = \<lparr>e_key = key, e_val = buf\<rparr>, o_key = kp, o_val = bp\<rparr> (key_hash key) live1;
               live2 \<leftarrow> free_existing old live1;
               Some (db', val, live2) })) }"
    unfolding modify_counter_mem_def obj_get_ok [OF db(1,2) h'] parsed_def bind.bind_lunit
    by (cases ?e) (simp_all only: option.case val not_True_eq_False if_False)
  obtain pv where pv: "parsed = Some pv" using sp by (cases parsed) (auto simp: spec_modify_def sp')
  show ?thesis
  proof (cases pv)
    case None
    obtain live' where "free_block kp live = Some live'" "holds live' (db_blocks db + F)" using holds_free [OF h] by blast
    then show ?thesis using sp None pv db by (simp add: run spec_modify_def sp')
  next
    case (Some v)
    let ?buf = "fmt_ld (v + delta)"
    have len: "\<not> 20 < length ?buf + 1" "f = (odb_abs db)(key \<mapsto> ?buf)" "r = ResInt (v + delta)"
      using sp Some pv by (auto simp: spec_modify_def sp' split: if_splits)
    obtain bp live1 where m: "malloc alloc live = (bp, live1)" by force
    let ?ob = "\<lparr>o_entry = \<lparr>e_key = key, e_val = ?buf\<rparr>, o_key = kp, o_val = bp\<rparr>"
    have "holds live1 (object_blocks ?ob + db_blocks db + F)"
      using holds_malloc [OF h al m] by (simp add: object_blocks_def add_mset_commute)
    from obj_set_ok [OF db this] obtain db' old live' where
      "obj_set db ?ob (key_hash key) live1 = Some (db', old)" "free_existing old live1 = Some live'"
      "odb_ok db'" "odb_abs db' = (odb_abs db)(key \<mapsto> ?buf)" "hm_count db' \<le> hm_count db + 1"
      "holds live' (db_blocks db' + F)" by (auto simp: okey_def)
    then show ?thesis using len Some pv m by (simp add: run)
  qed
qed

lemma exec_mem_ok:
  assumes al: "allocator alloc" and db: "odb_ok db" "key_ok key" "hm_count db < 65535"
    and h: "holds live (vars_blocks oper kp vp + db_blocks db + F)"
    and sp: "spec_op (odb_abs db) key oper = Some (f, r)"
  shows "\<exists>db' found live'. exec_mem alloc db kp vp key (key_hash key) oper live = Some (db', found, r, live')
    \<and> odb_ok db' \<and> odb_abs db' = f \<and> hm_count db' \<le> hm_count db + 1 \<and> holds live' (db_blocks db' + F)
    \<and> (\<forall>ob. found = Some ob \<longrightarrow> oper = OpGet \<and> ob \<in># stored db')"
proof (cases oper)
  case OpGet
  have h': "holds live (db_blocks db + F)" using h OpGet by (simp add: vars_blocks_def)
  let ?e = "hs_abs okey key_hash db key"
  have bound: "ob \<in># stored db \<and> okey ob = key" if "?e = Some ob" for ob
    using objs.bound_stored that db(1) by (auto simp: odb_ok_def)
  then have e: "map_option o_entry ?e = map_option (\<lambda>v. \<lparr>e_key = key, e_val = v\<rparr>) (odb_abs db key)"
    by (cases ?e) (auto simp: odb_abs_def okey_def)
  have "r = ResEntry (map_option o_entry ?e)" "f = odb_abs db" using sp OpGet unfolding e by (auto simp: spec_op_def)
  then show ?thesis using OpGet db h' bound by (simp add: exec_mem_def obj_get_ok [OF db(1,2) h'])
next
  case (OpSet val)
  let ?ob = "\<lparr>o_entry = \<lparr>e_key = key, e_val = val\<rparr>, o_key = kp, o_val = vp\<rparr>"
  have "holds live (object_blocks ?ob + db_blocks db + F)"
    using h OpSet by (simp add: object_blocks_def vars_blocks_def)
  from obj_set_ok [OF db this] obtain db' old live' where
    "obj_set db ?ob (key_hash key) live = Some (db', old)" "free_existing old live = Some live'"
    "odb_ok db'" "odb_abs db' = (odb_abs db)(key \<mapsto> val)" "hm_count db' \<le> hm_count db + 1"
    "holds live' (db_blocks db' + F)" by (auto simp: okey_def)
  then show ?thesis using sp OpSet by (simp add: exec_mem_def spec_op_def)
next
  case OpDel
  have "holds live (db_blocks db + F)" using h OpDel by (simp add: vars_blocks_def)
  from obj_del_ok [OF db this] obtain db' old live' where
    d: "obj_del db key (key_hash key) live = Some (db', old)" "free_existing old live = Some live'"
    "old = hs_abs okey key_hash db key" "odb_ok db'" "odb_abs db' = (odb_abs db)(key := None)"
    "hm_count db' \<le> hm_count db + 1" "holds live' (db_blocks db' + F)" by auto
  have "old = None \<longleftrightarrow> odb_abs db key = None" using d(3) by (simp add: odb_abs_def)
  then show ?thesis using d sp OpDel by (simp add: exec_mem_def spec_op_def)
next
  case (OpPing sid)
  then show ?thesis using h sp db by (simp add: exec_mem_def spec_op_def vars_blocks_def)
next
  case (OpModify delta)
  have h': "holds live (add_mset kp (db_blocks db + F))" using h OpModify by (simp add: vars_blocks_def)
  have sp': "spec_modify (odb_abs db) key delta = Some (f, r)" using sp OpModify by (simp add: spec_op_def)
  from modify_counter_mem_ok [OF al db h' sp'] obtain db' res live' where
    "modify_counter_mem alloc db kp key (key_hash key) 0 delta live = Some (db', res, live')" "r = ResInt res"
    "odb_ok db'" "odb_abs db' = f" "hm_count db' \<le> hm_count db + 1" "holds live' (db_blocks db' + F)"
    by auto
  then show ?thesis using OpModify by (simp add: exec_mem_def)
qed

lemma copy_vars_ok:
  assumes "holds live M" "allocator alloc" "copy_vars alloc oper live = (kp, vp, live')"
  shows "holds live' (vars_blocks oper kp vp + M)"
proof (cases oper)
  case (OpSet val)
  obtain l1 where m: "malloc alloc live = (kp, l1)" "malloc alloc l1 = (vp, live')"
    using assms(3) OpSet by (auto simp: copy_vars_def split: prod.splits)
  show ?thesis using holds_malloc [OF holds_malloc [OF assms(1,2) m(1)] assms(2) m(2)] OpSet
    by (simp add: vars_blocks_def add_mset_commute)
next
  case (OpModify delta)
  then have "malloc alloc live = (kp, live')" using assms(3) by (auto simp: copy_vars_def split: prod.splits)
  then show ?thesis using holds_malloc [OF assms(1,2)] OpModify by (simp add: vars_blocks_def)
qed (use assms in \<open>simp_all add: copy_vars_def vars_blocks_def\<close>)

lemma run_local_ok:
  assumes al: "allocator alloc" and db: "odb_ok db" "key_ok key" "hm_count db < 65535"
    and h: "holds live (db_blocks db + F)" and sp: "spec_op (odb_abs db) key oper = Some (f, r)"
  shows "\<exists>db' live'. run_local alloc key oper db live = Some (db', r, live')
    \<and> odb_ok db' \<and> odb_abs db' = f \<and> hm_count db' \<le> hm_count db + 1 \<and> holds live' (db_blocks db' + F)"
proof -
  obtain kp vp l1 where v: "copy_vars alloc oper live = (kp, vp, l1)" by (metis prod.collapse)
  have "holds l1 (vars_blocks oper kp vp + db_blocks db + F)"
    using copy_vars_ok [OF h al v] by (simp add: ac_simps)
  from exec_mem_ok [OF al db this sp] obtain db' found live' where
    e: "exec_mem alloc db kp vp key (key_hash key) oper l1 = Some (db', found, r, live')"
    "odb_ok db'" "odb_abs db' = f" "hm_count db' \<le> hm_count db + 1" "holds live' (db_blocks db' + F)"
    "\<And>ob. found = Some ob \<Longrightarrow> ob \<in># stored db'" by auto
  have "\<forall>ob. found = Some ob \<longrightarrow> o_val ob \<in> live'" using stored_blocks [OF e(5)] e(6) by blast
  then show ?thesis using e(1-5) v by (simp add: run_local_def)
qed

section \<open>Requests and responses\<close>

definition req_blocks :: "request \<Rightarrow> nat multiset" where
  "req_blocks q = {#q_ctx q, q_key q#} + (case q_op q of OpSet val \<Rightarrow> {#q_val q#} | _ \<Rightarrow> {#})"

definition resp_blocks :: "response \<Rightarrow> nat multiset" where
  "resp_blocks p = {#p_ctx p#} + (case p_object p of None \<Rightarrow> {#} | Some ob \<Rightarrow> {#p_entry p#} + object_blocks ob)"

lemma send_request_ok:
  assumes h: "holds live M" and al: "allocator alloc" and run: "send_request alloc key oper live = (q, live')"
  shows "\<exists>lost. size lost = lost_blocks (Send key oper) \<and> holds live' (req_blocks q + lost + M)"
    "q_bytes q = key" "q_hash q = key_hash key" "q_op q = oper"
proof -
  obtain kp vp l1 where v: "copy_vars alloc oper live = (kp, vp, l1)" by (metis prod.collapse)
  obtain cp l2 where c: "malloc alloc l1 = (cp, l2)" by force
  obtain qp l3 where k: "malloc alloc l2 = (qp, l3)" by force
  note h2 = holds_malloc [OF copy_vars_ok [OF h al v] al c]
  note h3 = holds_malloc [OF h2 al k]
  have q: "q = \<lparr>q_ctx = cp, q_key = (case oper of OpSet val \<Rightarrow> kp | _ \<Rightarrow> qp), q_val = vp, q_bytes = key,
      q_hash = key_hash key, q_op = oper\<rparr> \<and> live' = (case oper of OpSet val \<Rightarrow> l2 | _ \<Rightarrow> l3)"
    using run v c k by (cases oper) (auto simp: send_request_def)
  then show "q_bytes q = key" "q_hash q = key_hash key" "q_op q = oper" by simp_all
  show "\<exists>lost. size lost = lost_blocks (Send key oper) \<and> holds live' (req_blocks q + lost + M)"
  proof (cases oper)
    case (OpModify delta)
    then have "holds live' (req_blocks q + {#kp#} + M)"
      using h3 q by (simp add: req_blocks_def vars_blocks_def add_mset_commute)
    then show ?thesis using OpModify by (intro exI [of _ "{#kp#}"]) simp
  qed (use h2 h3 q in \<open>auto simp: req_blocks_def vars_blocks_def add_mset_commute\<close>)
qed

lemma post_dispatch_ok:
  assumes al: "allocator alloc" and h: "holds live (db_blocks db + F)"
    and F: "F = (case q_op q of OpSet val \<Rightarrow> {#} | OpModify d \<Rightarrow> {#} | _ \<Rightarrow> {#q_key q#}) + G"
    and found: "\<forall>ob. found = Some ob \<longrightarrow> q_op q = OpGet \<and> ob \<in># stored db"
  shows "\<exists>ep ob live'. post_dispatch alloc q found live = Some (ep, ob, live')
    \<and> holds live' ((case ob of None \<Rightarrow> {#} | Some x \<Rightarrow> {#ep#} + object_blocks x) + db_blocks db + G)"
proof (cases "q_op q")
  case OpGet
  have "holds live (add_mset (q_key q) (db_blocks db + G))" using h F OpGet by simp
  then obtain l1 where l1: "free_block (q_key q) live = Some l1" "holds l1 (db_blocks db + G)" using holds_free by blast
  show ?thesis
  proof (cases found)
    case None
    then show ?thesis using l1 OpGet by (simp add: post_dispatch_def)
  next
    case (Some ob)
    obtain kp l2 where k: "malloc alloc l1 = (kp, l2)" by force
    obtain vp l3 where v: "malloc alloc l2 = (vp, l3)" by force
    obtain ep l4 where e: "malloc alloc l3 = (ep, l4)" by force
    have "holds l4 ({#ep#} + object_blocks \<lparr>o_entry = o_entry ob, o_key = kp, o_val = vp\<rparr> + db_blocks db + G)"
      using holds_malloc [OF holds_malloc [OF holds_malloc [OF l1(2) al k] al v] al e]
      by (simp add: object_blocks_def add_mset_commute)
    moreover have "o_key ob \<in> l1" "o_val ob \<in> l1" using stored_blocks [OF l1(2)] found Some by auto
    ultimately show ?thesis using Some OpGet l1(1) k v e by (simp add: post_dispatch_def)
  qed
next
  case OpDel
  have "holds live (add_mset (q_key q) (db_blocks db + G))" using h F OpDel by simp
  from holds_free [OF this] show ?thesis using OpDel by (auto simp: post_dispatch_def)
next
  case (OpPing sid)
  have "holds live (add_mset (q_key q) (db_blocks db + G))" using h F OpPing by simp
  from holds_free [OF this] show ?thesis using OpPing by (auto simp: post_dispatch_def)
qed (use h F in \<open>auto simp: post_dispatch_def\<close>)

lemma run_request_ok:
  assumes al: "allocator alloc" and db: "odb_ok db" "key_ok (q_bytes q)" "hm_count db < 65535"
    and h: "holds live (req_blocks q + db_blocks db + F)" and q: "q_hash q = key_hash (q_bytes q)"
    and sp: "spec_op (odb_abs db) (q_bytes q) (q_op q) = Some (f, r)"
  shows "\<exists>db' p live'. run_request alloc q db live = Some (db', p, live') \<and> p_res p = r
    \<and> odb_ok db' \<and> odb_abs db' = f \<and> hm_count db' \<le> hm_count db + 1
    \<and> holds live' (resp_blocks p + db_blocks db' + F)"
proof -
  let ?rest = "case q_op q of OpSet val \<Rightarrow> {#} | OpModify d \<Rightarrow> {#} | _ \<Rightarrow> {#q_key q#}"
  have split: "req_blocks q = vars_blocks (q_op q) (q_key q) (q_val q) + add_mset (q_ctx q) ?rest"
    by (cases "q_op q") (simp_all add: req_blocks_def vars_blocks_def add_mset_commute)
  have live: "q_ctx q \<in> live" "q_key q \<in> live" using holds_mem [OF h] by (simp_all add: req_blocks_def)
  have "holds live (vars_blocks (q_op q) (q_key q) (q_val q) + db_blocks db + (add_mset (q_ctx q) ?rest + F))"
    using h split by (simp add: ac_simps)
  from exec_mem_ok [OF al db this sp] obtain db' found l1 where
    e: "exec_mem alloc db (q_key q) (q_val q) (q_bytes q) (q_hash q) (q_op q) live = Some (db', found, r, l1)"
    "odb_ok db'" "odb_abs db' = f" "hm_count db' \<le> hm_count db + 1"
    "holds l1 (db_blocks db' + (add_mset (q_ctx q) ?rest + F))"
    "\<forall>ob. found = Some ob \<longrightarrow> q_op q = OpGet \<and> ob \<in># stored db'" using q by auto
  obtain rp l2 where m: "malloc alloc l1 = (rp, l2)" by force
  let ?G = "{#rp, q_ctx q#} + F"
  have "holds l2 (db_blocks db' + (?rest + ?G))"
    using holds_malloc [OF e(5) al m] by (simp add: ac_simps)
  from post_dispatch_ok [OF al this refl e(6)] obtain ep ob l3 where
    p: "post_dispatch alloc q found l2 = Some (ep, ob, l3)"
    "holds l3 ((case ob of None \<Rightarrow> {#} | Some x \<Rightarrow> {#ep#} + object_blocks x) + db_blocks db' + ?G)" by auto
  let ?p = "\<lparr>p_ctx = rp, p_entry = ep, p_object = ob, p_res = r\<rparr>"
  have "holds l3 (add_mset (q_ctx q) (resp_blocks ?p + db_blocks db' + F))"
    using p(2) by (cases ob) (simp_all add: resp_blocks_def ac_simps add_mset_commute)
  then obtain l4 where "free_block (q_ctx q) l3 = Some l4" "holds l4 (resp_blocks ?p + db_blocks db' + F)"
    using holds_free by blast
  then show ?thesis using live e(1-4) m p(1) by (simp add: run_request_def)
qed

lemma run_response_ok:
  assumes "holds live (resp_blocks p + F)"
  shows "\<exists>live'. run_response p live = Some live' \<and> holds live' F"
proof (cases "p_object p")
  case None
  then have h: "holds live (add_mset (p_ctx p) F)" using assms by (simp add: resp_blocks_def)
  from holds_free [OF h] show ?thesis using None holds_mem [OF h] by (auto simp: run_response_def)
next
  case (Some ob)
  then have h: "holds live (add_mset (o_key ob) (add_mset (o_val ob) (add_mset (p_entry p) (add_mset (p_ctx p) F))))"
    using assms by (simp add: resp_blocks_def object_blocks_def add_mset_commute)
  obtain l1 where l1: "free_block (o_key ob) live = Some l1"
    "holds l1 (add_mset (o_val ob) (add_mset (p_entry p) (add_mset (p_ctx p) F)))" using holds_free [OF h] by blast
  obtain l2 where l2: "free_block (o_val ob) l1 = Some l2" "holds l2 (add_mset (p_entry p) (add_mset (p_ctx p) F))"
    using holds_free [OF l1(2)] by blast
  obtain l3 where l3: "free_block (p_entry p) l2 = Some l3" "holds l3 (add_mset (p_ctx p) F)"
    using holds_free [OF l2(2)] by blast
  from holds_free [OF l3(2)] show ?thesis
    using Some l1(1) l2(1) l3(1) holds_mem [OF h] by (auto simp: run_response_def)
qed

section \<open>The whole memory\<close>

definition owned :: "memory \<Rightarrow> nat multiset" where
  "owned s = sum_list (map db_blocks (m_dbs s)) + sum_list (map req_blocks (m_requests s))
     + sum_list (map resp_blocks (m_responses s))"

text \<open>Each live block belongs to a stored entry, to a message in flight, or is one of the \<open>lost\<close> ones.\<close>

definition mem_ok :: "nat multiset \<Rightarrow> memory \<Rightarrow> bool" where
  "mem_ok lost s \<longleftrightarrow> holds (m_live s) (owned s + lost) \<and> (\<forall>db \<in> set (m_dbs s). odb_ok db)
     \<and> (\<forall>q \<in> set (m_requests s). key_ok (q_bytes q) \<and> q_hash q = key_hash (q_bytes q))"

definition mem_values :: "memory \<Rightarrow> store_values" where
  "mem_values s = \<lparr>v_dbs = map odb_abs (m_dbs s), v_requests = map (\<lambda>q. (q_bytes q, q_op q)) (m_requests s),
     v_responses = map p_res (m_responses s), v_replies = m_replies s\<rparr>"

lemma split_nth: "i < length xs \<Longrightarrow> sum_list (map f xs) = f (xs ! i) + sum_list (map f (without i xs))"
  for f :: "'a \<Rightarrow> nat multiset"
  by (subst id_take_nth_drop [of i xs]) (simp_all add: without_def ac_simps)

lemma split_upd: "i < length xs \<Longrightarrow> sum_list (map f (xs[i := x])) = f x + sum_list (map f (without i xs))"
  for f :: "'a \<Rightarrow> nat multiset"
  by (simp add: upd_conv_take_nth_drop without_def ac_simps)

lemma set_without: "set (without i xs) \<subseteq> set xs"
  by (auto simp: without_def dest: in_set_takeD in_set_dropD)

lemma map_without: "map f (without i xs) = without i (map f xs)"
  by (simp add: without_def take_map drop_map)

lemma flush_dbs_ok:
  "\<forall>db \<in> set dbs. odb_ok db \<Longrightarrow> holds live (sum_list (map db_blocks dbs) + F) \<Longrightarrow>
    \<exists>live'. flush_dbs dbs live = Some live' \<and> free_dbs dbs live = Some live' \<and> holds live' F"
proof (induction dbs arbitrary: live)
  case (Cons db dbs)
  have inv: "hm_inv okey (key_ok \<circ> okey) db" "hm_elfree db"
    using Cons.prems(1) by (simp_all add: odb_ok_def hs_inv_def)
  have "mset (snd (hashmap_clear db True)) = stored db"
    using hashmap_clear_correct(5) [OF inv(1) prod.collapse [symmetric] inv(2)] by (simp add: stored_def)
  moreover have "hashmap_free (Some db) = snd (hashmap_clear db True)"
    by (simp add: hashmap_free_def hashmap_clear_def Let_def)
  moreover have "holds live (blocks_of (stored db) + (sum_list (map db_blocks dbs) + F))"
    using Cons.prems(2) by (simp add: db_blocks_def [of db] ac_simps)
  ultimately obtain l1 where "free_objects (snd (hashmap_clear db True)) live = Some l1"
    "free_objects (hashmap_free (Some db)) live = Some l1" "holds l1 (sum_list (map db_blocks dbs) + F)"
    using free_objects_holds by metis
  then show ?case using Cons.IH [of l1] Cons.prems(1) by auto
qed simp

lemma odb_clear: "odb_ok db \<Longrightarrow> odb_ok (fst (hashmap_clear db True)) \<and> odb_abs (fst (hashmap_clear db True)) = Map.empty
    \<and> db_blocks (fst (hashmap_clear db True)) = {#} \<and> hm_count (fst (hashmap_clear db True)) = 0"
proof -
  assume "odb_ok db"
  then have inv: "hs_inv okey key_hash key_ok db" "hm_elfree db" by (simp_all add: odb_ok_def)
  note c = objs.clear_law [OF inv(1), of True]
  have "hm_elfree (fst (hashmap_clear db True))" using inv(2) by (simp add: hashmap_clear_def Let_def)
  moreover have "stored (fst (hashmap_clear db True)) = {#}" using objs.stored_values [OF c(1)] c(2) by simp
  ultimately show ?thesis using c by (simp add: odb_ok_def odb_abs_def db_blocks_def fun_eq_iff)
qed

fun op_ok :: "mem_op \<Rightarrow> bool" where
  "op_ok (Local d key oper) \<longleftrightarrow> key_ok key"
| "op_ok (Send key oper) \<longleftrightarrow> key_ok key"
| "op_ok _ \<longleftrightarrow> True"

text \<open>A step: what it does to the values is specified, and the memory follows without a fault.\<close>

definition follows :: "nat multiset \<Rightarrow> nat \<Rightarrow> nat \<Rightarrow> store_values \<Rightarrow> memory \<Rightarrow> bool" where
  "follows lost n k v s \<longleftrightarrow> (\<exists>more. size more = k \<and> mem_ok (more + lost) s) \<and> mem_values s = v
     \<and> (\<forall>db \<in> set (m_dbs s). hm_count db \<le> n)"

lemma followsI:
  "size extra = k \<Longrightarrow> mem_ok (extra + lost) s \<Longrightarrow> mem_values s = v \<Longrightarrow> (\<forall>db \<in> set (m_dbs s). hm_count db \<le> n)
    \<Longrightarrow> follows lost n k v s"
  unfolding follows_def by blast

lemma local_step:
  assumes al: "allocator alloc" and ok: "mem_ok lost s" "\<forall>db \<in> set (m_dbs s). hm_count db \<le> n" "n < 65535" "key_ok key"
    and sp: "val_step (Local d key oper) (mem_values s) = Some v"
  shows "\<exists>s'. mem_step alloc (Local d key oper) s = Some s' \<and> follows lost (n + 1) 0 v s'"
proof -
  have d: "d < length (m_dbs s)" using sp by (simp add: mem_values_def split: if_splits)
  let ?db = "m_dbs s ! d"
  obtain f r where f: "spec_op (odb_abs ?db) key oper = Some (f, r)"
    and v: "v = (mem_values s)\<lparr>v_dbs := (v_dbs (mem_values s))[d := f], v_replies := v_replies (mem_values s) @ [r]\<rparr>"
    using sp d by (auto simp: mem_values_def split: bind_splits)
  let ?F = "sum_list (map db_blocks (without d (m_dbs s))) + sum_list (map req_blocks (m_requests s))
     + sum_list (map resp_blocks (m_responses s)) + lost"
  have db: "odb_ok ?db" "hm_count ?db \<le> n" using ok(1,2) nth_mem [OF d] by (simp_all add: mem_ok_def)
  then have "hm_count ?db < 65535" using ok(3) by simp
  have "holds (m_live s) (db_blocks ?db + ?F)"
    using ok(1) split_nth [OF d, of db_blocks] by (simp add: mem_ok_def owned_def ac_simps)
  from run_local_ok [OF al db(1) ok(4) \<open>hm_count ?db < 65535\<close> this f] obtain db' live' where
    r: "run_local alloc key oper ?db (m_live s) = Some (db', r, live')" "odb_ok db'" "odb_abs db' = f"
      "hm_count db' \<le> hm_count ?db + 1" "holds live' (db_blocks db' + ?F)" by auto
  let ?s = "s\<lparr>m_live := live', m_dbs := (m_dbs s)[d := db'], m_replies := m_replies s @ [r]\<rparr>"
  have "mem_step alloc (Local d key oper) s = Some ?s" using d r(1) by simp
  moreover have "follows lost (n + 1) 0 v ?s"
  proof (rule followsI [of "{#}"])
    show "mem_ok ({#} + lost) ?s"
      using ok(1) r(2,5) split_upd [OF d, of db_blocks db'] set_update_subset_insert [of "m_dbs s" d db']
      by (auto simp: mem_ok_def owned_def ac_simps)
    show "mem_values ?s = v" using v r(3) by (simp add: mem_values_def map_update)
    show "\<forall>db \<in> set (m_dbs ?s). hm_count db \<le> n + 1"
      using ok(2) r(4) db(2) set_update_subset_insert [of "m_dbs s" d db'] by fastforce
  qed simp
  ultimately show ?thesis by blast
qed

lemma execute_step:
  assumes al: "allocator alloc" and ok: "mem_ok lost s" "\<forall>db \<in> set (m_dbs s). hm_count db \<le> n" "n < 65535"
    and sp: "val_step (Execute i d) (mem_values s) = Some v"
  shows "\<exists>s'. mem_step alloc (Execute i d) s = Some s' \<and> follows lost (n + 1) 0 v s'"
proof -
  have d: "d < length (m_dbs s)" and i: "i < length (m_requests s)"
    using sp by (simp_all add: mem_values_def split: if_splits)
  let ?db = "m_dbs s ! d" and ?q = "m_requests s ! i"
  obtain f r where f: "spec_op (odb_abs ?db) (q_bytes ?q) (q_op ?q) = Some (f, r)"
    and v: "v = (mem_values s)\<lparr>v_dbs := (v_dbs (mem_values s))[d := f],
        v_requests := without i (v_requests (mem_values s)), v_responses := v_responses (mem_values s) @ [r]\<rparr>"
    using sp d i by (auto simp: mem_values_def split: bind_splits)
  let ?F = "sum_list (map db_blocks (without d (m_dbs s))) + sum_list (map req_blocks (without i (m_requests s)))
     + sum_list (map resp_blocks (m_responses s)) + lost"
  have db: "odb_ok ?db" "hm_count ?db \<le> n" using ok(1,2) nth_mem [OF d] by (simp_all add: mem_ok_def)
  then have cnt: "hm_count ?db < 65535" using ok(3) by simp
  have q: "key_ok (q_bytes ?q)" "q_hash ?q = key_hash (q_bytes ?q)" using ok(1) nth_mem [OF i] by (simp_all add: mem_ok_def)
  have "holds (m_live s) (req_blocks ?q + db_blocks ?db + ?F)"
    using ok(1) split_nth [OF d, of db_blocks] split_nth [OF i, of req_blocks] by (simp add: mem_ok_def owned_def ac_simps)
  from run_request_ok [OF al db(1) q(1) cnt this q(2) f] obtain db' p live' where
    r: "run_request alloc ?q ?db (m_live s) = Some (db', p, live')" "p_res p = r" "odb_ok db'" "odb_abs db' = f"
      "hm_count db' \<le> hm_count ?db + 1" "holds live' (resp_blocks p + db_blocks db' + ?F)" by auto
  let ?s = "s\<lparr>m_live := live', m_dbs := (m_dbs s)[d := db'], m_requests := without i (m_requests s),
      m_responses := m_responses s @ [p]\<rparr>"
  have "mem_step alloc (Execute i d) s = Some ?s" using d i r(1) by simp
  moreover have "follows lost (n + 1) 0 v ?s"
  proof (rule followsI [of "{#}"])
    show "mem_ok ({#} + lost) ?s"
      using ok(1) r(3,6) split_upd [OF d, of db_blocks db'] set_update_subset_insert [of "m_dbs s" d db']
        set_without [of i "m_requests s"]
      by (auto simp: mem_ok_def owned_def ac_simps)
    show "mem_values ?s = v" using v r(2,4) by (simp add: mem_values_def map_update map_without)
    show "\<forall>db \<in> set (m_dbs ?s). hm_count db \<le> n + 1"
      using ok(2) r(5) db(2) set_update_subset_insert [of "m_dbs s" d db'] by fastforce
  qed simp
  ultimately show ?thesis by blast
qed

lemma respond_step:
  assumes ok: "mem_ok lost s" "\<forall>db \<in> set (m_dbs s). hm_count db \<le> n"
    and sp: "val_step (Respond i) (mem_values s) = Some v"
  shows "\<exists>s'. mem_step alloc (Respond i) s = Some s' \<and> follows lost (n + 1) 0 v s'"
proof -
  have i: "i < length (m_responses s)" using sp by (simp add: mem_values_def split: if_splits)
  let ?p = "m_responses s ! i"
  let ?F = "sum_list (map db_blocks (m_dbs s)) + sum_list (map req_blocks (m_requests s))
     + sum_list (map resp_blocks (without i (m_responses s))) + lost"
  have "holds (m_live s) (resp_blocks ?p + ?F)"
    using ok(1) split_nth [OF i, of resp_blocks] by (simp add: mem_ok_def owned_def ac_simps)
  from run_response_ok [OF this] obtain live' where r: "run_response ?p (m_live s) = Some live'" "holds live' ?F" by blast
  let ?s = "s\<lparr>m_live := live', m_responses := without i (m_responses s), m_replies := m_replies s @ [p_res ?p]\<rparr>"
  have "mem_step alloc (Respond i) s = Some ?s" using i r(1) by simp
  moreover have "follows lost (n + 1) 0 v ?s"
  proof (rule followsI [of "{#}"])
    show "mem_ok ({#} + lost) ?s" using ok(1) r(2) by (simp add: mem_ok_def owned_def ac_simps)
    show "mem_values ?s = v" using sp i by (auto simp: mem_values_def map_without)
    show "\<forall>db \<in> set (m_dbs ?s). hm_count db \<le> n + 1" using ok(2) by fastforce
  qed simp
  ultimately show ?thesis by blast
qed

lemma send_step:
  assumes al: "allocator alloc" and ok: "mem_ok lost s" "\<forall>db \<in> set (m_dbs s). hm_count db \<le> n" "key_ok key"
    and sp: "val_step (Send key oper) (mem_values s) = Some v"
  shows "\<exists>s'. mem_step alloc (Send key oper) s = Some s' \<and> follows lost (n + 1) (lost_blocks (Send key oper)) v s'"
proof -
  obtain q live' where run: "send_request alloc key oper (m_live s) = (q, live')" by force
  have "holds (m_live s) (owned s + lost)" using ok(1) by (simp add: mem_ok_def)
  from send_request_ok [OF this al run] obtain extra where
    r: "size extra = lost_blocks (Send key oper)" "holds live' (req_blocks q + extra + (owned s + lost))"
    "q_bytes q = key" "q_hash q = key_hash key" "q_op q = oper" by auto
  let ?s = "s\<lparr>m_live := live', m_requests := m_requests s @ [q]\<rparr>"
  have "mem_step alloc (Send key oper) s = Some ?s" using run by simp
  moreover have "follows lost (n + 1) (lost_blocks (Send key oper)) v ?s"
  proof (rule followsI [of extra])
    show "mem_ok (extra + lost) ?s" using ok(1,3) r(2-4) by (auto simp: mem_ok_def owned_def ac_simps)
    show "mem_values ?s = v" using sp r(3,5) by (auto simp: mem_values_def)
    show "\<forall>db \<in> set (m_dbs ?s). hm_count db \<le> n + 1" using ok(2) by fastforce
  qed (rule r(1))
  ultimately show ?thesis by blast
qed

lemma refused_step:
  assumes al: "allocator alloc" and ok: "mem_ok lost s" "\<forall>db \<in> set (m_dbs s). hm_count db \<le> n"
  shows "\<exists>s'. mem_step alloc Refused s = Some s' \<and> follows lost (n + 1) 1 (mem_values s) s'"
proof -
  obtain p live' where m: "malloc alloc (m_live s) = (p, live')" by force
  have "holds (m_live s) (owned s + lost)" using ok(1) by (simp add: mem_ok_def)
  from holds_malloc [OF this al m] have h: "holds live' (add_mset p (owned s + lost))" .
  have "follows lost (n + 1) 1 (mem_values s) (s\<lparr>m_live := live'\<rparr>)"
  proof (rule followsI [of "{#p#}"])
    show "mem_ok ({#p#} + lost) (s\<lparr>m_live := live'\<rparr>)" using ok(1) h by (simp add: mem_ok_def owned_def)
    show "\<forall>db \<in> set (m_dbs (s\<lparr>m_live := live'\<rparr>)). hm_count db \<le> n + 1" using ok(2) by fastforce
  qed (simp_all add: mem_values_def)
  then show ?thesis using m by simp
qed

lemma flush_step:
  assumes ok: "mem_ok lost s" and sp: "val_step Flush (mem_values s) = Some v"
  shows "\<exists>s'. mem_step alloc Flush s = Some s' \<and> follows lost (n + 1) 0 v s'"
proof -
  let ?F = "sum_list (map req_blocks (m_requests s)) + sum_list (map resp_blocks (m_responses s)) + lost"
  have dbs: "\<forall>db \<in> set (m_dbs s). odb_ok db" using ok by (simp add: mem_ok_def)
  have "holds (m_live s) (sum_list (map db_blocks (m_dbs s)) + ?F)" using ok by (simp add: mem_ok_def owned_def ac_simps)
  from flush_dbs_ok [OF dbs this] obtain live' where r: "flush_dbs (m_dbs s) (m_live s) = Some live'" "holds live' ?F" by blast
  let ?s = "s\<lparr>m_live := live', m_dbs := map (\<lambda>db. fst (hashmap_clear db True)) (m_dbs s)\<rparr>"
  have "sum_list (map db_blocks (m_dbs ?s)) = {#}"
    using dbs odb_clear by (simp add: comp_def cong: map_cong)
  then have "follows lost (n + 1) 0 v ?s"
    using ok r(2) dbs odb_clear sp
    by (intro followsI [of "{#}"]) (auto simp: mem_ok_def owned_def mem_values_def comp_def)
  then show ?thesis using r(1) by simp
qed

lemma mem_step_ok:
  assumes al: "allocator alloc" and ok: "mem_ok lost s" "\<forall>db \<in> set (m_dbs s). hm_count db \<le> n" "n < 65535" "op_ok op"
    and sp: "val_step op (mem_values s) = Some v"
  shows "\<exists>s'. mem_step alloc op s = Some s' \<and> follows lost (n + 1) (lost_blocks op) v s'"
proof (cases op)
  case (Local d key oper)
  then show ?thesis using local_step [OF al ok(1-3)] ok(4) sp by simp
next
  case Refused
  then show ?thesis using refused_step [OF al ok(1,2)] sp by simp
next
  case (Send key oper)
  then show ?thesis using send_step [OF al ok(1,2)] ok(4) sp by simp
next
  case (Execute i d)
  then show ?thesis using execute_step [OF al ok(1-3)] sp by simp
next
  case (Respond i)
  then show ?thesis using respond_step [OF ok(1,2)] sp by simp
next
  case Flush
  then show ?thesis using flush_step [OF ok(1)] sp by simp
qed

lemma mem_run_ok:
  assumes "allocator alloc"
  shows "mem_ok lost s \<Longrightarrow> \<forall>db \<in> set (m_dbs s). hm_count db \<le> n \<Longrightarrow> n + length ops \<le> 65535 \<Longrightarrow>
    \<forall>op \<in> set ops. op_ok op \<Longrightarrow> val_run ops (mem_values s) = Some v \<Longrightarrow>
    \<exists>s' extra. mem_run alloc ops s = Some s' \<and> mem_values s' = v \<and> mem_ok (extra + lost) s'
      \<and> size extra = sum_list (map lost_blocks ops)"
proof (induction ops arbitrary: s n lost)
  case (Cons op ops)
  obtain v1 where v1: "val_step op (mem_values s) = Some v1" "val_run ops v1 = Some v"
    using Cons.prems(5) by (auto split: bind_splits)
  have "n < 65535" "op_ok op" using Cons.prems(3,4) by simp_all
  from mem_step_ok [OF assms Cons.prems(1,2) this v1(1)] obtain s1 where
    s1: "mem_step alloc op s = Some s1" "follows lost (n + 1) (lost_blocks op) v1 s1" by blast
  then obtain e1 where e1: "size e1 = lost_blocks op" "mem_ok (e1 + lost) s1" "mem_values s1 = v1"
    "\<forall>db \<in> set (m_dbs s1). hm_count db \<le> n + 1" by (auto simp: follows_def)
  have "n + 1 + length ops \<le> 65535" "\<forall>op \<in> set ops. op_ok op" using Cons.prems(3,4) by simp_all
  from Cons.IH [OF e1(2,4) this] v1(2) e1(3) obtain s' e2 where
    "mem_run alloc ops s1 = Some s'" "mem_values s' = v" "mem_ok (e2 + (e1 + lost)) s'"
    "size e2 = sum_list (map lost_blocks ops)" by auto
  then show ?case using s1(1) e1(1) by (intro exI [of _ s'] exI [of _ "e2 + e1"]) (simp add: ac_simps)
qed (auto intro: exI [of _ "{#}"])

section \<open>The start and the end\<close>

definition no_values :: "nat \<Rightarrow> store_values" where
  "no_values n = \<lparr>v_dbs = replicate n Map.empty, v_requests = [], v_responses = [], v_replies = []\<rparr>"

lemma mem_init_ok:
  obtains s where "mem_init seed n = Some s" "mem_ok {#} s" "mem_values s = no_values n"
    "\<forall>db \<in> set (m_dbs s). hm_count db \<le> 0"
proof -
  let ?z = "\<lparr>o_entry = \<lparr>e_key = [], e_val = []\<rparr>, o_key = 0, o_val = 0\<rparr>"
  obtain db where db: "hashmap_new True ?z (2 ^ 20) seed seed object_hash (Some object_compare) True = Some db"
    "hs_inv okey key_hash key_ok db" "hs_abs okey key_hash db = Map.empty" "hm_count db = 0"
    using objs.new_law [of ?z "2 ^ 20" seed seed object_hash True] by blast
  have "hm_elfree db" using db(1) by (auto simp: hashmap_new_with_allocator_def Let_def)
  moreover have "db_blocks db = {#}" using objs.stored_values [OF db(2)] db(3) by (simp add: db_blocks_def)
  moreover have "sum_list (replicate n {#}) = ({#} :: nat multiset)" by (induction n) simp_all
  ultimately show thesis
    using that [of "\<lparr>m_live = {}, m_dbs = replicate n db, m_requests = [], m_responses = [], m_replies = []\<rparr>"] db
    by (auto simp: mem_init_def mem_ok_def owned_def holds_def odb_ok_def mem_values_def no_values_def
        odb_abs_def fun_eq_iff)
qed

lemma free_contexts_ok:
  assumes "mem_ok lost s" "m_requests s = []" "m_responses s = []"
  shows "\<exists>s'. free_contexts s = Some s' \<and> mset_set (m_live s') = lost"
proof -
  have "holds (m_live s) (sum_list (map db_blocks (m_dbs s)) + lost)" "\<forall>db \<in> set (m_dbs s). odb_ok db"
    using assms by (simp_all add: mem_ok_def owned_def)
  from flush_dbs_ok [OF this(2,1)] show ?thesis by (auto simp: free_contexts_def holds_def)
qed

end
