(* ===== verification/Memory_Props.thy ===== *)
theory Memory_Props
  imports Memory_Correct
begin

text \<open>
  The properties of the buffers of keys and values: no operation reads or releases a block that is
  not live, each block has one owner, and what is not released is known. The witnesses use an
  allocator that returns the address after the largest live one.
\<close>

section \<open>An allocator\<close>

definition bump :: "nat set \<Rightarrow> nat" where
  "bump live = Suc (Max (insert 0 live))"

lemma bump: "allocator bump"
  unfolding allocator_def
proof (intro allI impI)
  fix live :: "nat set" assume f: "finite live"
  have "x \<le> Max (insert 0 live)" if "x \<in> live" for x using f that by (intro Max_ge) simp_all
  then show "bump live \<notin> live \<and> bump live \<noteq> 0" by (fastforce simp: bump_def)
qed

section \<open>Accounting\<close>

text \<open>
  C11: Whatever the allocator returns, in every sequence of local commands, dispatched requests,
  executed requests, handled responses and FLUSHALLs, interleaved in any order, that the
  specification on finite maps defines, the code with its pointers runs without reading or
  releasing a block that is not live, computes the specified values and replies, and ends in a
  memory in which each live block belongs to exactly one stored entry or message in flight, but for
  as many blocks as counter commands were dispatched or refused.
\<close>

theorem buffers_accounted:
  assumes "allocator alloc" "mem_ok lost s" "\<forall>db \<in> set (m_dbs s). hm_count db \<le> n" "n + length ops \<le> 65535"
    "\<forall>op \<in> set ops. op_ok op" "val_run ops (mem_values s) = Some v"
  shows "\<exists>s' extra. mem_run alloc ops s = Some s' \<and> mem_values s' = v
    \<and> mset_set (m_live s') = owned s' + (extra + lost) \<and> size extra = sum_list (map lost_blocks ops)"
  using mem_run_ok [OF assms] by (auto simp: mem_ok_def holds_def)

lemma spec_key_demo:
  "spec_op (Map.empty(k \<mapsto> v)) k OpDel = Some (Map.empty, ResInt 1)"
  "spec_op Map.empty k (OpSet v) = Some (Map.empty(k \<mapsto> v), ResOK)"
  "spec_op (Map.empty(k \<mapsto> v)) k OpGet = Some (Map.empty(k \<mapsto> v), ResEntry (Some \<lparr>e_key = k, e_val = v\<rparr>))"
  by (simp_all add: spec_op_def)

text \<open>A dispatched GET whose entry is overwritten and deleted before the response is handled.\<close>

theorem buffers_accounted_witness:
  "\<exists>s s'. mem_init 0 1 = Some s
    \<and> mem_run bump [Local 0 (bstr ''k'') (OpSet (bstr ''v'')), Send (bstr ''k'') OpGet, Execute 0 0,
        Local 0 (bstr ''k'') OpDel, Respond 0] s = Some s'
    \<and> m_replies s' = [ResOK, ResInt 1, ResEntry (Some \<lparr>e_key = bstr ''k'', e_val = bstr ''v''\<rparr>)]
    \<and> mset_set (m_live s') = owned s'"
proof -
  let ?ops = "[Local 0 (bstr ''k'') (OpSet (bstr ''v'')), Send (bstr ''k'') OpGet, Execute 0 0,
        Local 0 (bstr ''k'') OpDel, Respond 0]"
  let ?replies = "[ResOK, ResInt 1, ResEntry (Some \<lparr>e_key = bstr ''k'', e_val = bstr ''v''\<rparr>)]"
  obtain s where s: "mem_init 0 1 = Some s" "mem_ok {#} s" "mem_values s = no_values 1"
    "\<forall>db \<in> set (m_dbs s). hm_count db \<le> 0" by (rule mem_init_ok)
  have v: "val_run ?ops (mem_values s) = Some ((no_values 1)\<lparr>v_replies := ?replies\<rparr>)"
    by (simp add: s(3) no_values_def spec_key_demo without_def)
  have "\<forall>op \<in> set ?ops. op_ok op" "0 + length ?ops \<le> 65535" by (simp_all add: key_ok_def)
  from buffers_accounted [OF bump s(2,4) this(2,1) v] obtain s' where
    "mem_run bump ?ops s = Some s'" "mem_values s' = (no_values 1)\<lparr>v_replies := ?replies\<rparr>"
    "mset_set (m_live s') = owned s'" by auto
  moreover have "m_replies s' = ?replies" using calculation(2) by (simp add: mem_values_def no_values_def)
  ultimately show ?thesis using s(1) by blast
qed

section \<open>The end of the process\<close>

text \<open>
  C20: From the start on empty databases to the end of the process, when every request has been
  executed and every response handled, releasing the databases releases every buffer of a key or
  value exactly once, except one block for each INCRBY or DECRBY that was refused and each counter
  command that was dispatched to another shard.
\<close>

theorem buffers_released:
  assumes "allocator alloc" "mem_init seed n = Some s" "length ops \<le> 65535" "\<forall>op \<in> set ops. op_ok op"
    "val_run ops (no_values n) = Some v" "v_requests v = []" "v_responses v = []"
  shows "\<exists>s1 s2. mem_run alloc ops s = Some s1 \<and> free_contexts s1 = Some s2
    \<and> card (m_live s2) = sum_list (map lost_blocks ops)"
proof -
  obtain s0 where s0: "mem_init seed n = Some s0" "mem_ok {#} s0" "mem_values s0 = no_values n"
    "\<forall>db \<in> set (m_dbs s0). hm_count db \<le> 0" by (rule mem_init_ok)
  then have s: "s0 = s" using assms(2) by simp
  have "0 + length ops \<le> 65535" using assms(3) by simp
  from mem_run_ok [OF assms(1) s0(2,4) this assms(4)] assms(5) s0(3) obtain s1 extra where
    s1: "mem_run alloc ops s = Some s1" "mem_values s1 = v" "mem_ok (extra + {#}) s1"
      "size extra = sum_list (map lost_blocks ops)" unfolding s by auto
  have "m_requests s1 = []" "m_responses s1 = []" using assms(6,7) s1(2) by (auto simp: mem_values_def)
  from free_contexts_ok [OF s1(3) this] obtain s2 where "free_contexts s1 = Some s2" "mset_set (m_live s2) = extra"
    by auto
  then show ?thesis using s1(1,4) by (metis size_mset_set)
qed

text \<open>One dispatched INCR: the first copy of its key is never released.\<close>

theorem buffers_released_witness:
  "\<exists>s s1 s2. mem_init 0 1 = Some s
    \<and> mem_run bump [Send (bstr ''k'') (OpModify 1), Execute 0 0, Respond 0] s = Some s1
    \<and> free_contexts s1 = Some s2 \<and> card (m_live s2) = 1"
proof -
  let ?ops = "[Send (bstr ''k'') (OpModify 1), Execute 0 0, Respond 0]"
  obtain s where s: "mem_init 0 1 = Some s" by (rule mem_init_ok)
  have "length (fmt_ld 1) < 20"
    by (simp add: fmt_ld_def dec_digits.simps)
  then have "val_run ?ops (no_values 1) = Some ((no_values 1)\<lparr>v_dbs := [[bstr ''k'' \<mapsto> fmt_ld 1]], v_replies := [ResInt 1]\<rparr>)"
    by (simp add: no_values_def spec_op_def spec_modify_def without_def)
  from buffers_released [OF bump s _ _ this] s show ?thesis
    by (auto simp: key_ok_def no_values_def)
qed

end
