(* ===== verification/Process.thy ===== *)
theory Process
  imports Runs Requests
begin

text \<open>
  The life of the process, from \<^verbatim>\<open>main\<close> in \<^verbatim>\<open>src/server.c\<close>: the threads run interleaved, and the main
  thread joins them in the order of their numbers and releases the context of each - the databases
  of its shard, its mailbox and its vector of connections - as soon as that one thread has ended.
\<close>

section \<open>Joining and releasing\<close>

text \<open>
  The last component is the number of threads joined so far; the contexts below it have been
  released by \<^verbatim>\<open>free_context\<close>. The values in released memory are left as they were.
\<close>

inductive process_step :: "world \<times> (nat \<Rightarrow> phase) \<times> nat \<Rightarrow> world \<times> (nat \<Rightarrow> phase) \<times> nat \<Rightarrow> bool" where
  run: "server_step (w, phases) (w', phases') \<Longrightarrow> process_step (w, phases, k) (w', phases', k)"
| join: "k < length (w_shards w) \<Longrightarrow> phases k = Stopped \<Longrightarrow> process_step (w, phases, k) (w, phases, k + 1)"

inductive process_reachable :: "world \<times> (nat \<Rightarrow> phase) \<times> nat \<Rightarrow> bool" where
  start: "init_world seeds = Some w \<Longrightarrow> process_reachable (w, \<lambda>_. Loop_head, 0)"
| step: "process_reachable s \<Longrightarrow> process_step s s' \<Longrightarrow> process_reachable s'"

definition released :: "nat \<Rightarrow> nat \<Rightarrow> bool" where
  "released k j \<longleftrightarrow> j < k"

text \<open>The states of the server in it are the reachable ones, and released contexts are of stopped threads.\<close>

lemma stopped_stays: "\<not> thread_step i (w, Stopped) s"
  by (auto elim: thread_step.cases)

lemma process_reachable_ok:
  "process_reachable s \<Longrightarrow> case s of (w, phases, k) \<Rightarrow> reachable (w, phases) \<and> (\<forall>j. released k j \<longrightarrow> phases j = Stopped)"
proof (induction rule: process_reachable.induct)
  case (start seeds w)
  then show ?case using reachable.start by (simp add: released_def)
next
  case (step s s')
  from step.hyps(2) step.IH show ?case
  proof cases
    case (run w phases w' phases' k)
    have old: "reachable (w, phases)" "\<forall>j. released k j \<longrightarrow> phases j = Stopped" using run(1) step.IH by simp_all
    obtain i ph where i: "thread_step i (w, phases i) (w', ph)" "phases' = phases(i := ph)"
      using run(3) by (auto elim: server_stepE)
    have "phases j = phases' j" if "released k j" for j
      using i old(2) that stopped_stays by (cases "j = i") auto
    then show ?thesis using run old reachable.step [OF old(1) run(3)] by simp
  next
    case (join k w phases)
    then show ?thesis using step.IH less_Suc_eq by (auto simp: released_def)
  qed
qed

lemma process_server: "reachable s \<Longrightarrow> process_reachable (fst s, snd s, 0)"
proof (induction rule: reachable.induct)
  case (start seeds w)
  then show ?case using process_reachable.start by simp
next
  case (step s s')
  have "process_step (fst s, snd s, 0) (fst s', snd s', 0)" using step.hyps(2) by (intro process_step.run) simp
  then show ?case using step.IH process_reachable.step by blast
qed

section \<open>A shutdown\<close>

lemma wakeup_loop_field:
  assumes "\<And>r b n. g (r\<lparr>r_sleeping := b, r_wakeup := n\<rparr>) = g r"
  shows "g (w_reactors (fst (wakeup_loop self is (w, b))) ! j) = g (w_reactors w ! j)"
proof (induction "is" arbitrary: w b)
  case (Cons i "is")
  obtain w1 rung where t: "wakeup_target self i w = (w1, rung)" by force
  then have "g (w_reactors w1 ! j) = g (w_reactors w ! j)"
    using upd_reactor_field [where g = g and f = "\<lambda>r. r\<lparr>r_sleeping := False, r_wakeup := r_wakeup r + 1\<rparr>", OF assms]
    by (auto simp: wakeup_target_def split: if_splits)
  then show ?case using Cons.IH [of w1 "b \<or> rung"] t by simp
qed simp

lemma shutdown_fields:
  assumes "length (w_reactors w) = nshards w" "j < nshards w"
  shows "r_cb_queue (w_reactors (cmd_shutdown self w) ! j) = r_cb_queue (w_reactors w ! j)"
    "\<not> r_running (w_reactors (cmd_shutdown self w) ! j)"
proof -
  define w1 where "w1 = w\<lparr>w_reactors := map (\<lambda>r. r\<lparr>r_running := False\<rparr>) (w_reactors w)\<rparr>"
  define w2 where "w2 = upd_reactor self (\<lambda>r. r\<lparr>r_soft_notify := mark_all (nshards w) (r_soft_notify r)\<rparr>) w1"
  have s: "cmd_shutdown self w = BITSET64_RESET self (fst (wakeup_loop self [0..<nshards w2] (w2, False)))"
    by (simp add: cmd_shutdown_def reactor_wakeup_pending_def Let_def w2_def w1_def split: prod.splits)
  have w1: "w_reactors w1 ! j = (w_reactors w ! j)\<lparr>r_running := False\<rparr>" using assms by (simp add: w1_def)
  show "r_cb_queue (w_reactors (cmd_shutdown self w) ! j) = r_cb_queue (w_reactors w ! j)"
    using w1 wakeup_loop_field [of r_cb_queue self "[0..<nshards w2]" w2 False j]
    by (simp add: s BITSET64_RESET_def upd_reactor_field [where g = r_cb_queue]) (simp add: w2_def upd_reactor_field [where g = r_cb_queue])
  show "\<not> r_running (w_reactors (cmd_shutdown self w) ! j)"
    using w1 wakeup_loop_field [of r_running self "[0..<nshards w2]" w2 False j]
    by (simp add: s BITSET64_RESET_def upd_reactor_field [where g = r_running]) (simp add: w2_def upd_reactor_field [where g = r_running])
qed

lemma wakeup_loop_shards: "w_shards (fst (wakeup_loop self is (w, b))) = w_shards w \<and> w_conns (fst (wakeup_loop self is (w, b))) = w_conns w"
proof (induction "is" arbitrary: w b)
  case (Cons i "is")
  obtain w1 rung where t: "wakeup_target self i w = (w1, rung)" by force
  then have "w_shards w1 = w_shards w \<and> w_conns w1 = w_conns w" by (auto simp: wakeup_target_def split: if_splits)
  then show ?case using Cons.IH [of w1 "b \<or> rung"] t by simp
qed simp

lemma shutdown_rest: "w_shards (cmd_shutdown self w) = w_shards w" "w_conns (cmd_shutdown self w) = w_conns w"
  by (simp_all add: cmd_shutdown_def reactor_wakeup_pending_def Let_def BITSET64_RESET_def split_beta wakeup_loop_shards)

lemma shutdown_request:
  assumes "world_ok w" "w_conns w p = Some c" "received c = resp_encode [bstr ''SHUTDOWN'']" "c_flags c AND END = 0"
  obtains c' where "on_data_available self p w = Some (upd_conn p c' (cmd_shutdown self w), False)"
    "c_flags c' = c_flags c" "same_id c c'"
proof -
  note ck = world_ok_conn [OF assms(1,2)]
  have cmd: "find (\<lambda>c. cm_name c = [bstr ''SHUTDOWN''] ! 0) command_table
      = Some \<lparr>cm_name = bstr ''SHUTDOWN'', cm_arity = 0, cm_func = Some Cmd_shutdown\<rparr>"
    by (simp add: command_table_def of_char_def)
  have rec: "received c = resp_encode [bstr ''SHUTDOWN''] @ []" using assms(3) by simp
  obtain args where a: "parse_request c = PARSE_OK args" "0 < a_argc args"
    "a_len args = of_nat (length (resp_encode [bstr ''SHUTDOWN'']))"
    "handle_command self p args w = call_command Cmd_shutdown self p args w"
    by (rule dispatch_command [OF assms(1,2) rec cmd, of Cmd_shutdown self]) (simp_all add: key_ok_def)
  obtain c' where c': "consume (of_nat (length (resp_encode [bstr ''SHUTDOWN'']))) c = (c', [] \<noteq> ([] :: bytes))"
    "c_flags c' = c_flags c"
    by (rule consume_request [OF ck rec assms(4)], rule that, assumption+)
  have "\<not> c_recv_buf_size c < 1"
    using arg_cong [OF assms(3), of length] length_received [OF ck] by (simp add: resp_encode_def)
  moreover have "w_conns (cmd_shutdown self w) p = Some c" using assms(2) by (simp add: shutdown_rest)
  ultimately have "on_data_available self p w = Some (upd_conn p c' (cmd_shutdown self w), False)"
    using a(1,2,4) c'(1) [folded a(3)] assms(2) by (simp add: on_data_available_def call_command_def)
  then show thesis using that c'(2) id_consume [OF c'(1)] by blast
qed

lemma shutdown_bytes: "length (resp_encode [bstr ''SHUTDOWN'']) \<le> MESSAGE_MAX_LENGTH" "resp_encode [bstr ''SHUTDOWN''] \<noteq> []"
  by (simp_all add: resp_encode_def resp_bulk_def dec_digits.simps MESSAGE_MAX_LENGTH_def)

text \<open>A thread accepts a connection that sends SHUTDOWN and hangs up; then the thread ends.\<close>

lemma shutdown_run:
  assumes w: "world_ok w" "i < nshards w" "room w" and r: "r_running (w_reactors w ! i)" "r_soft_notify (w_reactors w ! i) = 0"
    "mq_abs (r_cb_queue (w_reactors w ! i)) = []" "r_sleeping (w_reactors w ! i)" "\<And>k. conn_at w i k = None"
    and new: "fd_free w fd" "w_conns w p = None"
  obtains w' where "(thread_step i)\<^sup>*\<^sup>* (w, Loop_head) (w', Stopped)" "world_ok w'" "w_shards w' = w_shards w"
    "w_conns w' = w_conns w" "\<And>j. j < nshards w \<Longrightarrow> \<not> r_running (w_reactors w' ! j)"
    "\<And>j. j < nshards w \<Longrightarrow> r_cb_queue (w_reactors w' ! j) = r_cb_queue (w_reactors w ! j)"
    "\<And>j. j < nshards w \<Longrightarrow> conn_at w' j = conn_at w j"
proof -
  let ?bs = "resp_encode [bstr ''SHUTDOWN'']"
  have "nothing_pending w i" "(4096 :: u64) < 2 ^ 63" using r(5) by (simp_all add: nothing_pending_def)
  obtain w1 c where w1: "(thread_step i)\<^sup>*\<^sup>* (w, Loop_head) (w1, Reading p None True [])" "world_ok w1"
    "w_shards w1 = w_shards w" "w_conns w1 = (w_conns w)(p \<mapsto> c)" "received c = ?bs" "c_flags c = 0" "c_fd c = fd"
    "\<And>k. conn_at w1 i k = (if k = fd then Some p else conn_at w i k)"
    "\<And>j. j \<noteq> i \<Longrightarrow> w_reactors w1 ! j = w_reactors w ! j"
    "r_cb_queue (w_reactors w1 ! i) = r_cb_queue (w_reactors w ! i)"
    by (rule accept_request_run [OF w(1,2) r(1-3) \<open>nothing_pending w i\<close> r(4) new \<open>4096 < 2 ^ 63\<close> shutdown_bytes],
        rule that, assumption+)
  have c1: "w_conns w1 p = Some c" "c_flags c AND END = 0" using w1(4,6) by simp_all
  obtain c2 where c2: "on_data_available i p w1 = Some (upd_conn p c2 (cmd_shutdown i w1), False)" "c_flags c2 = c_flags c"
    "same_id c c2" by (rule shutdown_request [OF w1(2) c1(1) w1(5) c1(2)], rule that, assumption+)
  let ?w2 = "upd_conn p c2 (cmd_shutdown i w1)"
  have room1: "room w1" using w(3) w1(3) by (simp add: room_def)
  have len: "length (w_reactors w1) = nshards w" "i < length (w_reactors w1)"
    using w1(2,3) w(2) by (simp_all add: world_ok_def)
  have ok2: "world_ok ?w2" "nshards ?w2 = nshards w"
    using on_data_available_ok [OF c2(1) w1(2) room1] w(2) w1(3) by simp_all
  have p2: "w_conns ?w2 p = Some c2" by (simp add: upd_conn_def)
  obtain w3 where close: "reactor_epoll_close i p ?w2 = Some w3"
    using p2 by (simp add: reactor_epoll_close_def Let_def)
  have "upd_conn p c2 ?w2 = ?w2" by (simp add: upd_conn_def)
  then have fin: "finish_event i p None True ?w2 = Some w3" using p2 close by (simp add: finish_event_def)
  have len2: "i < length (w_reactors ?w2)" using ok2 w(2) by (simp add: world_ok_def)
  have same: "same_conns w1 ?w2" using same_on_data_available [OF c2(1)] .
  note ids = close_ids [OF close p2 len2]
  have at: "conn_at w3 j = conn_at w j" if "j < nshards w" for j
  proof (rule ext)
    fix k
    have "conn_at ?w2 j = conn_at w1 j" using same that len by (simp add: same_conns_def)
    moreover have "conn_at w1 j k = conn_at w j k" if "j \<noteq> i" using w1(9) that by (simp add: conn_at_def)
    moreover have "c_fd c2 = fd" using c2(3) w1(7) by (simp add: same_id_def)
    ultimately show "conn_at w3 j k = conn_at w j k" using ids(2) [of j k] w1(8) [of k] r(5) by (cases "j = i") auto
  qed
  have w3: "w3 = (upd_reactor i (\<lambda>r. r\<lparr>r_conns := (r_conns r)[c_fd c2 := None]\<rparr>) ?w2)\<lparr>w_conns := (w_conns ?w2)(p := None)\<rparr>"
    using close p2 by (simp add: reactor_epoll_close_def Let_def)
  have run3: "\<not> r_running (w_reactors w3 ! j)" "r_cb_queue (w_reactors w3 ! j) = r_cb_queue (w_reactors w ! j)"
    if "j < nshards w" for j
    using shutdown_fields [of w1 j i] that len(1) w1(3,9,10)
    by (cases "j = i"; simp add: w3 upd_reactor_field [where g = r_running] upd_reactor_field [where g = r_cb_queue])+
  have "thread_step i (w1, Reading p None True []) (?w2, Finishing p None True [])"
    using request [OF room1 c2(1), of None True "[]"] by simp
  with w1(1) have "(thread_step i)\<^sup>*\<^sup>* (w, Loop_head) (?w2, Finishing p None True [])" by simp
  also have "(thread_step i)\<^sup>*\<^sup>* (?w2, Finishing p None True []) (w3, Handling [])"
    using finish [OF fin, of 1 "[]"] by (intro r_into_rtranclp) simp
  also have "(thread_step i)\<^sup>*\<^sup>* (w3, Handling []) (w3, Loop_head)" by (intro r_into_rtranclp events_end)
  also have "(thread_step i)\<^sup>*\<^sup>* (w3, Loop_head) (w3, Closing 0)" using run3(1) w(2) by (intro r_into_rtranclp head_stop) simp
  also have "(thread_step i)\<^sup>*\<^sup>* (w3, Closing 0) (w3, Stopped)" using at w(2) r(5) by (intro close_run) simp
  finally have "(thread_step i)\<^sup>*\<^sup>* (w, Loop_head) (w3, Stopped)" .
  moreover have "world_ok w3" using reactor_epoll_close_ok [OF close ok2(1)] ok2(2) w(2) by simp
  moreover have "w_shards w3 = w_shards w" using w1(3) by (simp add: w3 shutdown_rest)
  moreover have "w_conns w3 = w_conns w"
    using new(2) w1(4) by (simp add: w3 upd_conn_def shutdown_rest fun_upd_idem)
  ultimately show thesis using that [of w3] run3 at by blast
qed

end
