(* ===== verification/Process_Props.thy ===== *)
theory Process_Props
  imports Process System_Props
begin

text \<open>
  The properties of connections over the life of the server and of the end of the process. The
  witnesses run the server from its start to a shutdown.
\<close>

section \<open>Connections\<close>

text \<open>
  C12: In every reachable state every connection in memory sits in exactly the place of its own
  reactor and descriptor, every pointer in a reactor's vector is such a connection, an event for a
  connection always finds one, with the descriptor of the event, and the connection a thread is
  reading from or finishing is in memory and its own: no thread ever follows a NULL or dangling
  pointer of its vector, and no two threads work on the events of one connection.
\<close>

theorem connections_owned:
  assumes "reachable (w, phases)"
  shows "(\<forall>p c. w_conns w p = Some c \<longrightarrow> c_shard_id c < nshards w \<and> conn_at w (c_shard_id c) (c_fd c) = Some p)
    \<and> (\<forall>i < nshards w. \<forall>fd p. conn_at w i fd = Some p \<longrightarrow>
         (\<exists>c. w_conns w p = Some c \<and> c_shard_id c = i \<and> c_fd c = fd))
    \<and> (\<forall>i < nshards w. \<forall>fd inp out hup evs. phases i = Handling (Ready fd inp out hup # evs) \<longrightarrow>
         (\<exists>p c. conn_at w i fd = Some p \<and> w_conns w p = Some c \<and> c_fd c = fd \<and> c_shard_id c = i))
    \<and> (\<forall>i < nshards w. \<forall>p out hup evs. phases i = Reading p out hup evs \<or> phases i = Finishing p out hup evs \<longrightarrow>
         (\<exists>c. w_conns w p = Some c \<and> c_shard_id c = i))"
proof -
  have own: "slots_ok w" "\<And>i. i < nshards w \<Longrightarrow> phase_ok w i (phases i)"
    using reachable_conns_owned [OF assms] by (simp_all add: conns_owned_def)
  have len: "length (w_reactors w) = nshards w" using reachable_world_ok [OF assms] by (simp add: world_ok_def)
  note slots = slots_okD [OF own(1), unfolded len]
  have 1: "c_shard_id c < nshards w \<and> conn_at w (c_shard_id c) (c_fd c) = Some p" if "w_conns w p = Some c" for p c
    using slots(2,3) [of p "c_shard_id c" "c_fd c"] that by (simp add: conn_id_some)
  have 2: "\<exists>c. w_conns w p = Some c \<and> c_shard_id c = i \<and> c_fd c = fd" if "i < nshards w" "conn_at w i fd = Some p" for i fd p
    using slots(1) [OF that] by (simp add: conn_id_some)
  have 3: "\<exists>p c. conn_at w i fd = Some p \<and> w_conns w p = Some c \<and> c_fd c = fd \<and> c_shard_id c = i"
    if "i < nshards w" "phases i = Handling (Ready fd inp out hup # evs)" for i fd inp out hup evs
  proof -
    have "conn_at w i fd \<noteq> None" using own(2) [OF that(1)] that(2) by (simp add: registered_def)
    then show ?thesis using 2 [OF that(1)] by blast
  qed
  have 4: "\<exists>c. w_conns w p = Some c \<and> c_shard_id c = i"
    if "i < nshards w" "phases i = Reading p out hup evs \<or> phases i = Finishing p out hup evs" for i p out hup evs
    using own(2) [OF that(1)] that(2) by (auto simp: conn_id_some)
  show ?thesis using 1 2 3 4 by blast
qed

theorem connections_owned_witness:
  "\<exists>w phases. reachable (w, phases) \<and> phases 3 = Waiting True \<and>
     (\<forall>p c. w_conns w p = Some c \<longrightarrow> conn_at w (c_shard_id c) (c_fd c) = Some p)"
proof -
  obtain w phases where r: "reachable (w, phases)" "phases 3 = Waiting True" by (rule demo_run, rule that, assumption+)
  have "\<forall>p c. w_conns w p = Some c \<longrightarrow> conn_at w (c_shard_id c) (c_fd c) = Some p"
    using connections_owned [OF r(1)] by simp
  then show ?thesis using r by blast
qed

section \<open>Shutting down\<close>

text \<open>The start-up state, with what its threads need for a run.\<close>

lemma fresh_world:
  obtains w where "init_world (\<lambda>_. 0) = Some w" "world_ok w" "nshards w = 4" "room w" "w_conns w = Map.empty"
    "\<And>i. i < 4 \<Longrightarrow> r_running (w_reactors w ! i) \<and> r_soft_notify (w_reactors w ! i) = 0
       \<and> mq_abs (r_cb_queue (w_reactors w ! i)) = [] \<and> r_sleeping (w_reactors w ! i) \<and> r_wakeup (w_reactors w ! i) = 0"
    "\<And>i k. i < 4 \<Longrightarrow> conn_at w i k = None" "length (w_reactors w) = 4"
proof -
  obtain w where w: "init_world (\<lambda>_. 0) = Some w" "world_ok w" "nshards w = 4" "room w"
    "w_reactors w = map reactor_init [0..<4]" "w_conns w = Map.empty"
    by (rule init_world_ok [of "\<lambda>_. 0"], rule that, assumption+)
  then show thesis using that [of w] by (simp add: reactor_init_def mailbox_init conn_at_def)
qed

text \<open>
  C21: When all threads have left their loops, every connection has been closed and released, whatever
  has happened before.
\<close>

theorem connections_closed:
  assumes "reachable (w, phases)" "\<forall>i < nshards w. phases i = Stopped"
  shows "w_conns w = Map.empty"
proof (rule ext)
  fix p
  have own: "slots_ok w" "\<And>i fd. i < nshards w \<Longrightarrow> conn_at w i fd = None"
    using reachable_conns_owned [OF assms(1)] assms(2) by (simp_all add: conns_owned_def)
  have len: "length (w_reactors w) = nshards w" using reachable_world_ok [OF assms(1)] by (simp add: world_ok_def)
  show "w_conns w p = None"
  proof (cases "w_conns w p")
    case (Some c)
    then have "conn_id w p = Some (c_shard_id c, c_fd c)" by (simp add: conn_id_def)
    from slots_okD(2,3) [OF own(1) this] show ?thesis using own(2) len by simp
  qed simp
qed

theorem connections_closed_witness:
  "\<exists>w phases. reachable (w, phases) \<and> (\<forall>i < nshards w. phases i = Stopped) \<and> w_conns w = Map.empty"
proof -
  obtain w where w: "init_world (\<lambda>_. 0) = Some w" "world_ok w" "nshards w = 4" "room w" "w_conns w = Map.empty"
    "\<And>i. i < 4 \<Longrightarrow> r_running (w_reactors w ! i) \<and> r_soft_notify (w_reactors w ! i) = 0
       \<and> mq_abs (r_cb_queue (w_reactors w ! i)) = [] \<and> r_sleeping (w_reactors w ! i) \<and> r_wakeup (w_reactors w ! i) = 0"
    "\<And>i k. i < 4 \<Longrightarrow> conn_at w i k = None" "length (w_reactors w) = 4"
    by (rule fresh_world, rule that, assumption+)
  have pre: "0 < nshards w" "r_running (w_reactors w ! 0)" "r_soft_notify (w_reactors w ! 0) = 0"
    "mq_abs (r_cb_queue (w_reactors w ! 0)) = []" "r_sleeping (w_reactors w ! 0)" "\<And>k. conn_at w 0 k = None"
    "fd_free w 5" "w_conns w 1 = None"
    using w(3,5-8) by (simp_all add: fd_free_def)
  obtain w' where w': "(thread_step 0)\<^sup>*\<^sup>* (w, Loop_head) (w', Stopped)" "w_shards w' = w_shards w"
    "\<And>j. j < nshards w \<Longrightarrow> \<not> r_running (w_reactors w' ! j)" "\<And>j. j < nshards w \<Longrightarrow> conn_at w' j = conn_at w j"
    by (rule shutdown_run [OF w(2) pre(1) w(4) pre(2-8)], rule that, assumption+)
  have stop: "(thread_step i)\<^sup>*\<^sup>* (w', Loop_head) (w', Stopped)" if "i < 4" for i
  proof -
    have "thread_step i (w', Loop_head) (w', Closing 0)" using w'(3) w(3) that by (intro head_stop) simp
    moreover have "(thread_step i)\<^sup>*\<^sup>* (w', Closing 0) (w', Stopped)"
      using w'(4) w(3,7) that by (intro close_run) simp
    ultimately show ?thesis by (rule converse_rtranclp_into_rtranclp)
  qed
  have n: "nshards w' = 4" using w'(2) w(3) by simp
  note thread = reachable_thread [of _ "(w', Loop_head)" "(w', Stopped)", OF stop]
  have "reachable (w', (\<lambda>_. Loop_head)(0 := Stopped))"
    using reachable_thread [OF w'(1), of "\<lambda>_. Loop_head"] reachable.start [OF w(1)] w(3) by simp
  then have "reachable (w', (\<lambda>_. Loop_head)(0 := Stopped, 1 := Stopped))" using thread [of 1] n by simp
  then have "reachable (w', (\<lambda>_. Loop_head)(0 := Stopped, 1 := Stopped, 2 := Stopped))" using thread [of 2] n by simp
  then have r: "reachable (w', (\<lambda>_. Loop_head)(0 := Stopped, 1 := Stopped, 2 := Stopped, 3 := Stopped))"
    using thread [of 3] n by simp
  have s: "\<forall>i < nshards w'. ((\<lambda>_. Loop_head)(0 := Stopped, 1 := Stopped, 2 := Stopped, 3 := Stopped)) i = Stopped"
    using n by (auto simp: less_Suc_eq numeral_eq_Suc)
  show ?thesis using connections_closed [OF r s] r s by blast
qed

section \<open>Releasing contexts too early\<close>

text \<open>
  C35: The main thread releases the context of a thread as soon as that thread has ended, while the
  others still run: a thread that has a keyed request for the shard of a released context in a
  receive buffer puts a message into the mailbox that has been released.
\<close>

theorem released_mailbox_used:
  assumes "process_reachable (w, phases, k)" "released k j" "i < nshards w" "phases i = Reading p out hup evs" "room w"
    "w_conns w p = Some c" "received c = resp_encode ss" "c_flags c AND END = 0" "request_op ss = Some (f, oper)"
    "j = unat (key_hash (ss ! 1)) mod nshards w" "j \<noteq> i" "mq_abs (r_cb_queue (w_reactors w ! j)) = []"
  shows "\<exists>w'. process_step (w, phases, k) (w', phases(i := Finishing p out hup evs), k) \<and> phases j = Stopped
    \<and> mq_abs (r_cb_queue (w_reactors w' ! j))
        = [Request \<lparr>cb_src = i, cb_dst = j, cb_conn = p\<rparr> (ss ! 1) (key_hash (ss ! 1)) oper]"
proof -
  have r: "reachable (w, phases)" "phases j = Stopped"
    using process_reachable_ok [OF assms(1)] assms(2) by simp_all
  note ok = reachable_world_ok [OF r(1), unfolded fst_conv]
  have rec: "received c = resp_encode ss @ []" using assms(7) by simp
  obtain w' where w': "on_data_available i p w = Some (w', [] \<noteq> ([] :: bytes))"
    "mq_abs (r_cb_queue (w_reactors w' ! j))
       = [Request \<lparr>cb_src = i, cb_dst = j, cb_conn = p\<rparr> (ss ! 1) (key_hash (ss ! 1)) oper]"
    by (rule remote_send [OF ok assms(5,3,6) rec assms(8-12)], rule that, assumption+)
  have "thread_step i (w, phases i) (w', Finishing p out hup evs)"
    using request [OF assms(5), of i p w' False out hup evs] w'(1) assms(4) by simp
  then have "server_step (w, phases) (w', phases(i := Finishing p out hup evs))" by (rule server_step.intros [OF assms(3)])
  then show ?thesis using process_step.run r(2) w'(2) by blast
qed

lemma key_d: "unat (key_hash (bstr ''d'')) mod 4 = 0"
proof -
  have "key_hash (bstr ''d'') = 5764846059352036580" by (simp add: key_hash_def hash_eval)
  then show ?thesis by simp
qed

text \<open>Thread 1 has received \<^verbatim>\<open>GET d\<close> when thread 0 shuts down, ends and is joined.\<close>

theorem released_mailbox_used_witness:
  "\<exists>w phases w' p. process_reachable (w, phases, 1) \<and> released 1 0 \<and> phases 0 = Stopped
     \<and> process_step (w, phases, 1) (w', phases(1 := Finishing p None False []), 1)
     \<and> mq_abs (r_cb_queue (w_reactors w ! 0)) = [] \<and> mq_abs (r_cb_queue (w_reactors w' ! 0)) \<noteq> []"
proof -
  let ?ss = "[bstr ''GET'', bstr ''d'']"
  have ss: "length (resp_encode ?ss) \<le> MESSAGE_MAX_LENGTH" "resp_encode ?ss \<noteq> []" "request_op ?ss = Some (Cmd_get, OpGet)"
    by (simp_all add: resp_encode_def resp_bulk_def dec_digits.simps MESSAGE_MAX_LENGTH_def)
  obtain w where w: "init_world (\<lambda>_. 0) = Some w" "world_ok w" "nshards w = 4" "room w" "w_conns w = Map.empty"
    "\<And>i. i < 4 \<Longrightarrow> r_running (w_reactors w ! i) \<and> r_soft_notify (w_reactors w ! i) = 0
       \<and> mq_abs (r_cb_queue (w_reactors w ! i)) = [] \<and> r_sleeping (w_reactors w ! i) \<and> r_wakeup (w_reactors w ! i) = 0"
    "\<And>i k. i < 4 \<Longrightarrow> conn_at w i k = None" "length (w_reactors w) = 4"
    by (rule fresh_world, rule that, assumption+)
  have pre: "1 < nshards w" "r_running (w_reactors w ! 1)" "r_soft_notify (w_reactors w ! 1) = 0"
    "mq_abs (r_cb_queue (w_reactors w ! 1)) = []" "nothing_pending w 1" "r_sleeping (w_reactors w ! 1)"
    "fd_free w 6" "w_conns w 2 = None" "(4096 :: u64) < 2 ^ 63"
    using w(3,5-8) by (simp_all add: fd_free_def nothing_pending_def)
  obtain w1 c where w1: "(thread_step 1)\<^sup>*\<^sup>* (w, Loop_head) (w1, Reading 2 None False [])" "world_ok w1"
    "w_shards w1 = w_shards w" "w_conns w1 = (w_conns w)(2 \<mapsto> c)" "received c = resp_encode ?ss" "c_flags c = 0"
    "\<And>k. conn_at w1 1 k = (if k = 6 then Some 2 else conn_at w 1 k)"
    "\<And>j. j \<noteq> 1 \<Longrightarrow> w_reactors w1 ! j = w_reactors w ! j"
    by (rule accept_request_run [OF w(2) pre ss(1,2)], rule that, assumption+)
  have at1: "conn_at w1 j k = (if j = 1 \<and> k = 6 then Some 2 else None)" if "j < 4" for j k
    using w1(7,8) w(7) that by (cases "j = 1") (auto simp: conn_at_def)
  have len1: "length (w_reactors w1) = 4" using w1(2,3) w(3) by (simp add: world_ok_def)
  have pre1: "0 < nshards w1" "room w1" "r_running (w_reactors w1 ! 0)" "r_soft_notify (w_reactors w1 ! 0) = 0"
    "mq_abs (r_cb_queue (w_reactors w1 ! 0)) = []" "r_sleeping (w_reactors w1 ! 0)" "\<And>k. conn_at w1 0 k = None"
    "fd_free w1 5" "w_conns w1 1 = None"
    using w(3-6) w1(3,4,8) at1 len1 by (simp_all add: room_def fd_free_def)
  obtain w2 where w2: "(thread_step 0)\<^sup>*\<^sup>* (w1, Loop_head) (w2, Stopped)" "w_shards w2 = w_shards w1"
    "w_conns w2 = w_conns w1" "\<And>j. j < nshards w1 \<Longrightarrow> r_cb_queue (w_reactors w2 ! j) = r_cb_queue (w_reactors w1 ! j)"
    by (rule shutdown_run [OF w1(2) pre1], rule that, assumption+)
  let ?ph = "(\<lambda>_ :: nat. Loop_head)(1 := Reading 2 None False [], 0 := Stopped)"
  have "reachable (w1, (\<lambda>_. Loop_head)(1 := Reading 2 None False []))"
    using reachable_thread [OF w1(1), of "\<lambda>_. Loop_head"] reachable.start [OF w(1)] w(3) by simp
  then have "reachable (w2, ?ph)" using reachable_thread [OF w2(1)] w(3) w1(3) by simp
  then have "process_reachable (w2, ?ph, 0)" using process_server by fastforce
  moreover have n: "nshards w2 = 4" using w2(2) w1(3) w(3) by simp
  ultimately have pr: "process_reachable (w2, ?ph, 1)"
    using process_reachable.step process_step.join [of 0 w2 ?ph] by fastforce
  have q: "released 1 0" "1 < nshards w2" "?ph 1 = Reading 2 None False []" "room w2" "w_conns w2 2 = Some c"
    "received c = resp_encode ?ss" "c_flags c AND END = 0" "0 = unat (key_hash (?ss ! 1)) mod nshards w2" "(0 :: nat) \<noteq> 1"
    "mq_abs (r_cb_queue (w_reactors w2 ! 0)) = []"
    using n w1(4-6) w2 pre1(1,2,5) key_d by (simp_all add: released_def room_def)
  note used = released_mailbox_used [OF pr q(1-7) ss(3) q(8-10)]
  obtain w3 where w3: "process_step (w2, ?ph, 1) (w3, ?ph(1 := Finishing 2 None False []), 1)"
    "mq_abs (r_cb_queue (w_reactors w3 ! 0))
       = [Request \<lparr>cb_src = 1, cb_dst = 0, cb_conn = 2\<rparr> (?ss ! 1) (key_hash (?ss ! 1)) OpGet]"
    using used by blast
  have "mq_abs (r_cb_queue (w_reactors w3 ! 0)) \<noteq> []" unfolding w3(2) by simp
  moreover have "?ph 0 = Stopped" by simp
  ultimately show ?thesis using pr q(1,10) w3(1) by blast
qed

end
