(* ===== verification/Shutdown.thy ===== *)
theory Shutdown
  imports Process_Props
begin

text \<open>
  A shutdown that one thread misses. SHUTDOWN rings only the reactors that have announced their sleep,
  and a reactor looks at its running flag only at the head of its loop; the other threads end, and
  nothing the program does can wake the one that has gone to sleep in between.
\<close>

section \<open>Threads that end\<close>

lemma server_thread:
  assumes "(thread_step i)\<^sup>*\<^sup>* s t" "reachable (fst s, phases)" "i < nshards (fst s)" "phases i = snd s"
  shows "server_step\<^sup>*\<^sup>* (fst s, phases) (fst t, phases(i := snd t))"
  using assms
proof (induction rule: rtranclp_induct)
  case base
  then have "phases(i := snd s) = phases" by (metis fun_upd_triv)
  then show ?case by simp
next
  case (step t u)
  have "nshards (fst t) = nshards (fst s)" using reachable_thread [OF step.hyps(1) step.prems] by blast
  moreover have "thread_step i (fst t, (phases(i := snd t)) i) (fst u, snd u)" using step.hyps(2) by simp
  ultimately have "server_step (fst t, phases(i := snd t)) (fst u, (phases(i := snd t))(i := snd u))"
    using step.prems(2) by (intro server_step.intros) simp_all
  then have "server_step (fst t, phases(i := snd t)) (fst u, phases(i := snd u))" unfolding fun_upd_upd .
  with step.IH [OF step.prems] show ?case by (rule rtranclp.rtrancl_into_rtrancl)
qed

text \<open>A thread that leaves its loop closes its connections and ends; the other reactors are not touched.\<close>

lemma closing_run:
  assumes "slots_ok w" "i < length (w_reactors w)"
  shows "\<exists>w'. (thread_step i)\<^sup>*\<^sup>* (w, Closing k) (w', Stopped) \<and> (\<forall>m. m \<noteq> i \<longrightarrow> w_reactors w' ! m = w_reactors w ! m)"
  using assms
proof (induction "length (r_conns (w_reactors w ! i)) - k" arbitrary: k w)
  case 0
  then have "thread_step i (w, Closing k) (w, Stopped)" by (intro close_end) simp
  then show ?case by blast
next
  case (Suc d)
  have k: "k < length (r_conns (w_reactors w ! i))" using Suc.hyps(2) by simp
  have "\<exists>w1. thread_step i (w, Closing k) (w1, Closing (k + 1)) \<and> slots_ok w1
    \<and> length (w_reactors w1) = length (w_reactors w) \<and> length (r_conns (w_reactors w1 ! i)) = length (r_conns (w_reactors w ! i))
    \<and> (\<forall>m. m \<noteq> i \<longrightarrow> w_reactors w1 ! m = w_reactors w ! m)"
  proof (cases "conn_at w i k")
    case None
    then have "thread_step i (w, Closing k) (w, Closing (k + 1))" by (intro close_next [OF k]) simp
    then show ?thesis using Suc.prems(1) by blast
  next
    case (Some p)
    note id = slots_okD(1) [OF Suc.prems Some]
    then obtain c where c: "w_conns w p = Some c" "c_fd c = k" by (auto simp: conn_id_some)
    let ?r = "upd_reactor i (\<lambda>r. r\<lparr>r_conns := (r_conns r)[k := None]\<rparr>) w"
    have close: "reactor_epoll_close i p w = Some (?r\<lparr>w_conns := (w_conns ?r)(p := None)\<rparr>)" (is "_ = Some ?w1")
      using c by (simp add: reactor_epoll_close_def Let_def)
    have "thread_step i (w, Closing k) (?w1, Closing (k + 1))" by (intro close_next [OF k]) (simp only: Some option.case close)
    moreover have "slots_ok ?w1" by (rule close_slots [OF close Suc.prems(1) id])
    ultimately show ?thesis using Suc.prems(2) by (intro exI [of _ ?w1]) simp
  qed
  then obtain w1 where w1: "thread_step i (w, Closing k) (w1, Closing (k + 1))" "slots_ok w1"
    "length (w_reactors w1) = length (w_reactors w)" "length (r_conns (w_reactors w1 ! i)) = length (r_conns (w_reactors w ! i))"
    "\<forall>m. m \<noteq> i \<longrightarrow> w_reactors w1 ! m = w_reactors w ! m" by blast
  have "d = length (r_conns (w_reactors w1 ! i)) - (k + 1)" "i < length (w_reactors w1)" using Suc.hyps(2) Suc.prems(2) w1(3,4) by simp_all
  from Suc.hyps(1) [OF this(1) w1(2) this(2)] obtain w' where
    "(thread_step i)\<^sup>*\<^sup>* (w1, Closing (k + 1)) (w', Stopped)" "\<forall>m. m \<noteq> i \<longrightarrow> w_reactors w' ! m = w_reactors w1 ! m" by blast
  then show ?case using converse_rtranclp_into_rtranclp [of "thread_step i", OF w1(1)] w1(5) by metis
qed

text \<open>The threads below \<open>n\<close> other than \<open>j\<close> end one after the other.\<close>

lemma threads_end:
  assumes r: "reachable (w, phases)" and n: "n \<le> nshards w"
    and head: "\<forall>i < nshards w. i \<noteq> j \<longrightarrow> phases i = Loop_head \<and> \<not> r_running (w_reactors w ! i)"
  shows "\<exists>w' phases'. server_step\<^sup>*\<^sup>* (w, phases) (w', phases') \<and> reachable (w', phases') \<and> nshards w' = nshards w
    \<and> phases' j = phases j \<and> w_reactors w' ! j = w_reactors w ! j \<and> (\<forall>i < n. i \<noteq> j \<longrightarrow> phases' i = Stopped)
    \<and> (\<forall>i < nshards w. n \<le> i \<and> i \<noteq> j \<longrightarrow> phases' i = Loop_head \<and> \<not> r_running (w_reactors w' ! i))"
  using n
proof (induction n)
  case 0
  then show ?case using r head by blast
next
  case (Suc n)
  then obtain w1 ph1 where 1: "server_step\<^sup>*\<^sup>* (w, phases) (w1, ph1)" "reachable (w1, ph1)" "nshards w1 = nshards w"
    "ph1 j = phases j" "w_reactors w1 ! j = w_reactors w ! j" "\<forall>i < n. i \<noteq> j \<longrightarrow> ph1 i = Stopped"
    "\<forall>i < nshards w. n \<le> i \<and> i \<noteq> j \<longrightarrow> ph1 i = Loop_head \<and> \<not> r_running (w_reactors w1 ! i)" by force
  show ?case
  proof (cases "n = j")
    case True
    then show ?thesis using 1 by (intro exI [of _ w1] exI [of _ ph1]) (auto simp: less_Suc_eq)
  next
    case False
    have at: "ph1 n = Loop_head" "\<not> r_running (w_reactors w1 ! n)" "n < nshards w1" using 1(3,7) False Suc.prems by simp_all
    have own: "slots_ok w1" using reachable_conns_owned [OF 1(2)] by (simp add: conns_owned_def)
    have len: "n < length (w_reactors w1)" using reachable_world_ok [OF 1(2)] at(3) by (simp add: world_ok_def)
    obtain w' where w': "(thread_step n)\<^sup>*\<^sup>* (w1, Closing 0) (w', Stopped)" "\<forall>m. m \<noteq> n \<longrightarrow> w_reactors w' ! m = w_reactors w1 ! m"
      using closing_run [OF own len] by blast
    have run: "(thread_step n)\<^sup>*\<^sup>* (w1, Loop_head) (w', Stopped)"
      using head_stop [OF at(2)] w'(1) by (rule converse_rtranclp_into_rtranclp)
    have "server_step\<^sup>*\<^sup>* (w, phases) (w', ph1(n := Stopped))"
      using 1(1) server_thread [OF run, of ph1] 1(2) at(1,3) by simp
    moreover have "reachable (w', ph1(n := Stopped))" "nshards w' = nshards w"
      using reachable_thread [OF run, of ph1] 1(2,3) at(1,3) by simp_all
    moreover have "\<forall>i < Suc n. i \<noteq> j \<longrightarrow> (ph1(n := Stopped)) i = Stopped" using 1(6) by (simp add: less_Suc_eq)
    moreover have "\<forall>i < nshards w. Suc n \<le> i \<and> i \<noteq> j \<longrightarrow>
        (ph1(n := Stopped)) i = Loop_head \<and> \<not> r_running (w_reactors w' ! i)" using 1(7) w'(2) by simp
    moreover have "(ph1(n := Stopped)) j = phases j" "w_reactors w' ! j = w_reactors w ! j" using 1(4,5) w'(2) False by simp_all
    ultimately show ?thesis by blast
  qed
qed

section \<open>What can still happen\<close>

text \<open>
  The kernel reports to thread \<open>j\<close> something other than its event descriptor - a client or a new
  connection - or a signal interrupts its wait.
\<close>

definition kernel_report :: "nat \<Rightarrow> world \<times> (nat \<Rightarrow> phase) \<Rightarrow> world \<times> (nat \<Rightarrow> phase) \<Rightarrow> bool" where
  "kernel_report j = (\<lambda>(w, phases) s'.
     (\<exists>evs. evs \<noteq> [] \<and> Wakeup \<notin> set evs \<and> s' = (w, phases(j := Woken True (Some evs))))
     \<or> s' = (upd_reactor j (\<lambda>r. r\<lparr>r_errno := 4\<rparr>) w, phases(j := Woken True None)))"

lemma only_kernel_wakes:
  assumes "server_step (w, phases) s'" "phases j = Waiting True" "r_wakeup (w_reactors w ! j) = 0"
    "\<forall>i < nshards w. i \<noteq> j \<longrightarrow> phases i = Stopped"
  shows "kernel_report j (w, phases) s'"
proof -
  obtain i w' ph where st: "i < nshards w" "thread_step i (w, phases i) (w', ph)" "s' = (w', phases(i := ph))"
    using assms(1) by (auto elim: server_stepE)
  have "i = j" using st(1,2) assms(4) stopped_stays by metis
  then have "thread_step j (w, Waiting True) (w', ph)" using st(2) assms(2) by simp
  then show ?thesis using assms(3) st(3) \<open>i = j\<close> by (cases rule: thread_step.cases) (auto simp: kernel_report_def)
qed

section \<open>The shutdown\<close>

lemma wakeup_loop_awake:
  "\<not> r_sleeping (w_reactors w ! j) \<Longrightarrow> w_reactors (fst (wakeup_loop self is (w, b))) ! j = w_reactors w ! j"
proof (induction "is" arbitrary: w b)
  case (Cons i "is")
  obtain w1 rung where t: "wakeup_target self i w = (w1, rung)" by force
  then have "w_reactors w1 ! j = w_reactors w ! j"
    using Cons.prems by (cases "i = j") (auto simp: wakeup_target_def split: if_splits)
  then show ?case using Cons.IH [of w1 "b \<or> rung"] Cons.prems t by simp
qed simp

text \<open>A reactor that has not announced its sleep is not rung.\<close>

lemma shutdown_awake:
  assumes "length (w_reactors w) = nshards w" "j < nshards w" "j \<noteq> self" "\<not> r_sleeping (w_reactors w ! j)"
  shows "w_reactors (cmd_shutdown self w) ! j = (w_reactors w ! j)\<lparr>r_running := False\<rparr>"
proof -
  define w1 where "w1 = w\<lparr>w_reactors := map (\<lambda>r. r\<lparr>r_running := False\<rparr>) (w_reactors w)\<rparr>"
  define w2 where "w2 = upd_reactor self (\<lambda>r. r\<lparr>r_soft_notify := mark_all (nshards w) (r_soft_notify r)\<rparr>) w1"
  have sd: "cmd_shutdown self w = BITSET64_RESET self (fst (wakeup_loop self [0..<nshards w2] (w2, False)))"
    by (simp add: cmd_shutdown_def reactor_wakeup_pending_def w1_def w2_def split: prod.splits)
  have "w_reactors w2 ! j = (w_reactors w ! j)\<lparr>r_running := False\<rparr>" using assms(1-3) by (simp add: w2_def w1_def)
  then show ?thesis
    using wakeup_loop_awake [of w2 j self "[0..<nshards w2]" False] assms(3,4) by (simp add: sd BITSET64_RESET_def)
qed

text \<open>
  C37: A shutdown can be missed for ever. SHUTDOWN rings only the reactors that have announced their
  sleep. If one other reactor has passed the head of its loop and found nothing to do, but has not
  announced its sleep yet, and the rest are at the heads of their loops, there is a run in which all
  other threads end and this one waits in \<^verbatim>\<open>epoll_wait\<close> without a time-out, its running flag cleared;
  from there the program has no step of its own left: nothing happens any more unless the kernel
  reports a client or a new connection to that thread or a signal interrupts its wait.
\<close>

theorem shutdown_missed:
  assumes r: "reachable (w, phases)" "room w" and i: "self < nshards w" "j < nshards w" "j \<noteq> self"
    and p: "phases self = Reading p None False []" "w_conns w p = Some c"
      "received c = resp_encode [bstr ''SHUTDOWN'']" "c_flags c AND END = 0"
    and j: "phases j = Idle" "\<not> r_sleeping (w_reactors w ! j)" "r_wakeup (w_reactors w ! j) = 0"
      "mq_abs (r_cb_queue (w_reactors w ! j)) = []"
    and rest: "\<forall>i < nshards w. i \<noteq> j \<and> i \<noteq> self \<longrightarrow> phases i = Loop_head"
  shows "\<exists>w' phases'. server_step\<^sup>*\<^sup>* (w, phases) (w', phases') \<and> phases' j = Waiting True
    \<and> \<not> r_running (w_reactors w' ! j) \<and> (\<forall>i < nshards w'. i \<noteq> j \<longrightarrow> phases' i = Stopped)
    \<and> (\<forall>s'. server_step (w', phases') s' \<longrightarrow> kernel_report j (w', phases') s')"
proof -
  have ok: "world_ok w" using reachable_world_ok [OF r(1)] by simp
  have len: "length (w_reactors w) = nshards w" using ok by (simp add: world_ok_def)
  obtain c1 where c1: "on_data_available self p w = Some (upd_conn p c1 (cmd_shutdown self w), False)" "c_flags c1 = c_flags c"
    by (rule shutdown_request [OF ok p(2-4)], rule that, assumption+)
  let ?c = "c1\<lparr>c_flags := c_flags c1 AND NOT BLOCKED\<rparr>"
  let ?w1 = "upd_conn p c1 (cmd_shutdown self w)" and ?w2 = "upd_conn p ?c (cmd_shutdown self w)"
  have fin: "finish_event self p None False ?w1 = Some ?w2"
    using c1(2) p(4) by (simp add: finish_event_def upd_conn_def)
  have "thread_step self (w, Reading p None False []) (?w1, Finishing p None False [])"
    using request [OF r(2) c1(1), of None False "[]"] by simp
  moreover have "thread_step self (?w1, Finishing p None False []) (?w2, Handling [])"
    using finish [OF fin, of 1 "[]"] by (simp add: set_write_errno_def)
  moreover have "thread_step self (?w2, Handling []) (?w2, Loop_head)" by (rule events_end)
  ultimately have run: "(thread_step self)\<^sup>*\<^sup>* (w, phases self) (?w2, Loop_head)"
    unfolding p(1) by (meson r_into_rtranclp rtranclp.rtrancl_into_rtrancl)
  let ?ph2 = "phases(self := Loop_head)"
  have s2: "server_step\<^sup>*\<^sup>* (w, phases) (?w2, ?ph2)" "reachable (?w2, ?ph2)" "nshards ?w2 = nshards w"
    using server_thread [OF run, of phases] reachable_thread [OF run, of phases] r(1) i(1) by simp_all
  have down: "\<not> r_running (w_reactors ?w2 ! m)" if "m < nshards w" for m using shutdown_fields(2) [OF len that] by simp
  have j2: "w_reactors ?w2 ! j = (w_reactors w ! j)\<lparr>r_running := False\<rparr>" using shutdown_awake [OF len i(2,3) j(2)] by simp
  obtain w3 ph3 where 3: "server_step\<^sup>*\<^sup>* (?w2, ?ph2) (w3, ph3)" "reachable (w3, ph3)" "nshards w3 = nshards w"
    "ph3 j = Idle" "w_reactors w3 ! j = w_reactors ?w2 ! j" "\<forall>i < nshards w. i \<noteq> j \<longrightarrow> ph3 i = Stopped"
    using threads_end [OF s2(2), of "nshards w" j] rest down s2(3) i(3) j(1) by force
  have ok3: "world_ok w3" using reachable_world_ok [OF 3(2)] by simp
  let ?w4 = "set_sleeping j True w3" and ?ph4 = "ph3(j := Waiting True)"
  have ok4: "world_ok ?w4" "nshards ?w4 = nshards w" using set_sleeping_ok [OF ok3, of j] i(2) 3(3) by auto
  have j4: "w_reactors ?w4 ! j = (w_reactors w ! j)\<lparr>r_running := False, r_sleeping := True\<rparr>"
    using 3(3,5) j2 ok3 i(2) by (simp add: set_sleeping_def world_ok_def)
  have "thread_step j (w3, Idle) (?w4, Checking)" by (rule sleep)
  moreover have "thread_step j (?w4, Checking) (?w4, Waiting True)"
    using pending_iff [OF ok4(1)] ok4(2) i(2) j(4) j4 by (intro check_none) simp
  ultimately have "(thread_step j)\<^sup>*\<^sup>* (w3, ph3 j) (?w4, Waiting True)"
    unfolding 3(4) by (meson r_into_rtranclp rtranclp.rtrancl_into_rtrancl)
  from server_thread [OF this, of ph3] have "server_step\<^sup>*\<^sup>* (w3, ph3) (?w4, ?ph4)" using 3(2,3) i(2) by simp
  then have "server_step\<^sup>*\<^sup>* (w, phases) (?w4, ?ph4)" using s2(1) 3(1) by simp
  moreover have "\<forall>i < nshards ?w4. i \<noteq> j \<longrightarrow> ?ph4 i = Stopped" using 3(6) ok4(2) by simp
  moreover have "kernel_report j (?w4, ?ph4) s'" if "server_step (?w4, ?ph4) s'" for s'
    using only_kernel_wakes [OF that, of j] 3(6) ok4(2) j4 j(3) by simp
  ultimately show ?thesis using j4 by (intro exI [of _ ?w4] exI [of _ ?ph4]) simp
qed

text \<open>A thread with no connection that a signal wakes goes round its loop up to announcing its sleep.\<close>

lemma awake_and_idle:
  assumes w: "world_ok w" "i < nshards w" and r: "r_running (w_reactors w ! i)" "r_soft_notify (w_reactors w ! i) = 0"
    "mq_abs (r_cb_queue (w_reactors w ! i)) = []" "r_sleeping (w_reactors w ! i)" "\<And>k. conn_at w i k = None"
  obtains w1 where "(thread_step i)\<^sup>*\<^sup>* (w, Loop_head) (w1, Idle)" "world_ok w1" "w_shards w1 = w_shards w" "w_conns w1 = w_conns w"
    "w_reactors w1 ! i = (w_reactors w ! i)\<lparr>r_errno := 4, r_sleeping := False\<rparr>" "\<And>m. m \<noteq> i \<Longrightarrow> w_reactors w1 ! m = w_reactors w ! m"
proof -
  let ?E = "upd_reactor i (\<lambda>r. r\<lparr>r_errno := 4\<rparr>) w"
  define w1 where "w1 = set_sleeping i False ?E"
  have len: "i < length (w_reactors w)" using w by (simp add: world_ok_def)
  have pend: "nothing_pending w i" using r(5) by (simp add: nothing_pending_def)
  have same: "set_sleeping i True w = w" unfolding set_sleeping_def using r(4) by (intro upd_reactor_id) simp
  have w1: "w_reactors w1 ! i = (w_reactors w ! i)\<lparr>r_errno := 4, r_sleeping := False\<rparr>" "w_shards w1 = w_shards w"
    "w_conns w1 = w_conns w" using len by (simp_all add: w1_def set_sleeping_def)
  have other: "w_reactors w1 ! m = w_reactors w ! m" if "m \<noteq> i" for m using that by (simp add: w1_def set_sleeping_def)
  have "world_ok ?E" "nshards ?E = nshards w" using world_ok_upd_reactor [OF w, of "\<lambda>r. r\<lparr>r_errno := 4\<rparr>"] w
    by (simp_all add: world_ok_def reactor_ok_def)
  then have ok1: "world_ok w1" "i < nshards w1" using set_sleeping_ok [of ?E i] w(2) w1(2) by (simp_all add: w1_def)
  have "conn_at w1 i k = None" for k using r(5) w1(1) by (simp add: conn_at_def)
  then have pend1: "nothing_pending w1 i" by (simp add: nothing_pending_def)
  have r1: "r_running (w_reactors w1 ! i)" "r_soft_notify (w_reactors w1 ! i) = 0" "mq_abs (r_cb_queue (w_reactors w1 ! i)) = []"
    using r(1-3) w1(1) by simp_all
  have "(thread_step i)\<^sup>*\<^sup>* (w, Loop_head) (w, Waiting True)" using idle_run [OF w r(1-3) pend] same by simp
  also have "(thread_step i)\<^sup>*\<^sup>* (w, Waiting True) (?E, Woken True None)" by (intro r_into_rtranclp wait_interrupted)
  also have "(thread_step i)\<^sup>*\<^sup>* (?E, Woken True None) (w1, Loop_head)"
    using woken [of i ?E True None] by (intro r_into_rtranclp) (simp add: w1_def)
  also have "(thread_step i)\<^sup>*\<^sup>* (w1, Loop_head) (w1, Flushing 0)" by (intro r_into_rtranclp head_run [OF r1(1)])
  also have "(thread_step i)\<^sup>*\<^sup>* (w1, Flushing 0) (w1, Polling 0)"
    using calm_run [OF calm_poll_run [OF pend1, of 0]] unmarked [OF r1(2)] by simp
  also have "(thread_step i)\<^sup>*\<^sup>* (w1, Polling 0) (w1, Idle)"
    using calm_poll_idle [OF ok1 r1(3)] by (intro r_into_rtranclp) (simp add: calm_step_def)
  finally have "(thread_step i)\<^sup>*\<^sup>* (w, Loop_head) (w1, Idle)" .
  from that [OF this ok1(1) w1(2,3,1) other] show thesis .
qed

theorem shutdown_missed_witness:
  "\<exists>w phases w' phases'. reachable (w, phases) \<and> phases 0 = Reading 2 None False [] \<and> phases 1 = Idle
     \<and> server_step\<^sup>*\<^sup>* (w, phases) (w', phases') \<and> phases' 1 = Waiting True
     \<and> (\<forall>i < nshards w'. i \<noteq> 1 \<longrightarrow> phases' i = Stopped)
     \<and> (\<forall>s'. server_step (w', phases') s' \<longrightarrow> kernel_report 1 (w', phases') s')"
proof -
  obtain w where w: "init_world (\<lambda>_. 0) = Some w" "world_ok w" "nshards w = 4" "room w" "w_conns w = Map.empty"
    "\<And>i. i < 4 \<Longrightarrow> r_running (w_reactors w ! i) \<and> r_soft_notify (w_reactors w ! i) = 0
       \<and> mq_abs (r_cb_queue (w_reactors w ! i)) = [] \<and> r_sleeping (w_reactors w ! i) \<and> r_wakeup (w_reactors w ! i) = 0"
    "\<And>i k. i < 4 \<Longrightarrow> conn_at w i k = None" "length (w_reactors w) = 4"
    by (rule fresh_world, rule that, assumption+)
  have pre: "1 < nshards w" "r_running (w_reactors w ! 1)" "r_soft_notify (w_reactors w ! 1) = 0"
    "mq_abs (r_cb_queue (w_reactors w ! 1)) = []" "r_sleeping (w_reactors w ! 1)" "\<And>k. conn_at w 1 k = None"
    using w(3,6,7) by simp_all
  obtain w1 where w1: "(thread_step 1)\<^sup>*\<^sup>* (w, Loop_head) (w1, Idle)" "world_ok w1" "w_shards w1 = w_shards w" "w_conns w1 = w_conns w"
    "w_reactors w1 ! 1 = (w_reactors w ! 1)\<lparr>r_errno := 4, r_sleeping := False\<rparr>" "\<And>m. m \<noteq> 1 \<Longrightarrow> w_reactors w1 ! m = w_reactors w ! m"
    by (rule awake_and_idle [OF w(2) pre], rule that, assumption+)
  have "conn_at w1 i k = None" if "i < 4" for i k
    using w1(5,6) w(7) [OF that, of k] by (cases "i = 1") (simp_all add: conn_at_def)
  moreover have "length (w_reactors w1) = 4" using w1(2,3) w(3) by (simp add: world_ok_def)
  ultimately have pre1: "0 < nshards w1" "r_running (w_reactors w1 ! 0)" "r_soft_notify (w_reactors w1 ! 0) = 0"
    "mq_abs (r_cb_queue (w_reactors w1 ! 0)) = []" "nothing_pending w1 0" "r_sleeping (w_reactors w1 ! 0)"
    "fd_free w1 6" "w_conns w1 2 = None" "(4096 :: u64) < 2 ^ 63"
    using w(3,5,6) w1(3,4,6) by (simp_all add: fd_free_def nothing_pending_def)
  obtain w2 c where w2: "(thread_step 0)\<^sup>*\<^sup>* (w1, Loop_head) (w2, Reading 2 None False [])" "w_shards w2 = w_shards w1"
    "w_conns w2 = (w_conns w1)(2 \<mapsto> c)" "received c = resp_encode [bstr ''SHUTDOWN'']" "c_flags c = 0"
    "\<And>j. j \<noteq> 0 \<Longrightarrow> w_reactors w2 ! j = w_reactors w1 ! j"
    by (rule accept_request_run [OF w1(2) pre1 shutdown_bytes], rule that, assumption+)
  let ?ph = "(\<lambda>_ :: nat. Loop_head)(1 := Idle, 0 := Reading 2 None False [])"
  have "reachable (w1, (\<lambda>_. Loop_head)(1 := Idle))"
    using reachable_thread [OF w1(1), of "\<lambda>_. Loop_head"] reachable.start [OF w(1)] w(3) by simp
  then have r: "reachable (w2, ?ph)" using reachable_thread [OF w2(1)] w(3) w1(3) by simp
  have q: "room w2" "0 < nshards w2" "1 < nshards w2" "(1 :: nat) \<noteq> 0" "?ph 0 = Reading 2 None False []"
    "w_conns w2 2 = Some c" "received c = resp_encode [bstr ''SHUTDOWN'']" "c_flags c AND END = 0" "?ph 1 = Idle"
    "\<not> r_sleeping (w_reactors w2 ! 1)" "r_wakeup (w_reactors w2 ! 1) = 0" "mq_abs (r_cb_queue (w_reactors w2 ! 1)) = []"
    "\<forall>i < nshards w2. i \<noteq> 1 \<and> i \<noteq> 0 \<longrightarrow> ?ph i = Loop_head"
    using w(3,4,6) w1(3,5) w2(2-6) by (simp_all add: room_def)
  from shutdown_missed [OF r q] obtain w' phases' where m: "server_step\<^sup>*\<^sup>* (w2, ?ph) (w', phases')" "phases' 1 = Waiting True"
    "\<forall>i < nshards w'. i \<noteq> 1 \<longrightarrow> phases' i = Stopped"
    "\<forall>s'. server_step (w', phases') s' \<longrightarrow> kernel_report 1 (w', phases') s'" by (elim exE conjE)
  show ?thesis
    by (rule exI [of _ w2], rule exI [of _ ?ph], rule exI [of _ w'], rule exI [of _ phases'], intro conjI) (fact r q(5,9) m)+
qed

end
