(* ===== verification/Epoll.thy ===== *)
theory Epoll
  imports Connections
begin

text \<open>
  The interest lists of the epoll instances: what \<^verbatim>\<open>epoll_register\<close>, \<^verbatim>\<open>epoll_unregister\<close> and
  \<^verbatim>\<open>epoll_modify\<close> of \<^verbatim>\<open>src/include/reactor_epoll.c\<close> ask the kernel for, and the calls \<^verbatim>\<open>reactor_run\<close> makes
  of them at its start and with every event. The lists ride on the steps of the threads of
  \<open>Event_Loop\<close>; a failing call ends the process (\<^verbatim>\<open>panic\<close>) and is \<open>None\<close>.
\<close>

section \<open>The calls\<close>

definition EPOLLIN :: u32 where "EPOLLIN = 0x1"
definition EPOLLOUT :: u32 where "EPOLLOUT = 0x4"
definition EPOLLERR :: u32 where "EPOLLERR = 0x8"
definition EPOLLHUP :: u32 where "EPOLLHUP = 0x10"
definition EPOLLRDHUP :: u32 where "EPOLLRDHUP = 0x2000"

type_synonym interest = "nat \<rightharpoonup> u32"

text \<open>\<^verbatim>\<open>epoll_ctl\<close> fails when a descriptor is added twice, or changed or removed without being there.\<close>

definition epoll_register :: "nat \<Rightarrow> u32 \<Rightarrow> interest \<Rightarrow> interest option" where
  "epoll_register fd events E = (if E fd = None then Some (E(fd \<mapsto> events)) else None)"

definition epoll_unregister :: "nat \<Rightarrow> interest \<Rightarrow> interest option" where
  "epoll_unregister fd E = (if E fd = None then None else Some (E(fd := None)))"

definition epoll_modify :: "nat \<Rightarrow> u32 \<Rightarrow> interest \<Rightarrow> interest option" where
  "epoll_modify fd events E = (if E fd = None then None else Some (E(fd \<mapsto> events)))"

text \<open>The two masks of a connection, without and with an interest in writing.\<close>

definition conn_events :: u32 where
  "conn_events = EPOLLIN OR EPOLLERR OR EPOLLRDHUP OR EPOLLHUP"

definition conn_events_out :: u32 where
  "conn_events_out = EPOLLIN OR EPOLLOUT OR EPOLLERR OR EPOLLRDHUP OR EPOLLHUP"

section \<open>The calls of the loop\<close>

text \<open>The listening socket and the event descriptor of a reactor, registered before the loop.\<close>

record reactor_fds =
  fd_listener :: nat
  wakeup_fd :: nat

definition setup_interest :: "reactor_fds \<Rightarrow> interest option" where
  "setup_interest fds = do {
     E \<leftarrow> epoll_register (fd_listener fds) EPOLLIN Map.empty;
     epoll_register (wakeup_fd fds) EPOLLIN E }"

text \<open>
  The end of the handling of a connection's event: the mask after a write, the removal of a
  connection that is closed, and the interest in writing of one that is blocked.
\<close>

definition finish_interest :: "u64 option \<Rightarrow> bool \<Rightarrow> conn \<Rightarrow> interest \<Rightarrow> interest option" where
  "finish_interest out hup c E = do {
     c' \<leftarrow> (case out of None \<Rightarrow> Some c | Some rv \<Rightarrow> reactor_epoll_flush rv c);
     E1 \<leftarrow> (if out \<noteq> None \<and> c_flags c' AND BLOCKED = 0 then epoll_modify (c_fd c) conn_events E else Some E);
     if c_flags c' AND END \<noteq> 0 \<or> hup then epoll_unregister (c_fd c) E1
     else if c_flags c' AND BLOCKED \<noteq> 0 then epoll_modify (c_fd c) conn_events_out E1
     else Some E1 }"

text \<open>
  What a step of a thread does to its interest list. The kernel drops a descriptor that is closed: the
  listening socket, closed when the loop is left, and the connections closed after it, which the
  code does not unregister.
\<close>

fun step_interest :: "reactor_fds \<Rightarrow> nat \<Rightarrow> world \<Rightarrow> phase \<Rightarrow> interest \<Rightarrow> interest option" where
  "step_interest fds i w Loop_head E =
    Some (if r_running (w_reactors w ! i) then E else E(fd_listener fds := None))"
| "step_interest fds i w (Handling (Listener fd p base # evs)) E = epoll_register fd conn_events E"
| "step_interest fds i w (Finishing p out hup evs) E =
    (case w_conns w p of None \<Rightarrow> None | Some c \<Rightarrow> finish_interest out hup c E)"
| "step_interest fds i w (Closing k) E = Some (if conn_at w i k = None then E else E(k := None))"
| "step_interest fds i w _ E = Some E"

section \<open>What the kernel reports\<close>

text \<open>
  Only events of registered descriptors are reported, reading only where \<^verbatim>\<open>EPOLLIN\<close> and writing only
  where \<^verbatim>\<open>EPOLLOUT\<close> was asked for, and the descriptors a reactor has open are not accepted again.
\<close>

definition reported :: "reactor_fds \<Rightarrow> interest \<Rightarrow> event \<Rightarrow> bool" where
  "reported fds E ev =
    (case ev of
       Ready fd inp out hup \<Rightarrow> fd \<noteq> fd_listener fds \<and> fd \<noteq> wakeup_fd fds
         \<and> (case E fd of None \<Rightarrow> False
            | Some events \<Rightarrow> (inp \<noteq> None \<longrightarrow> events AND EPOLLIN \<noteq> 0) \<and> (out \<noteq> None \<longrightarrow> events AND EPOLLOUT \<noteq> 0))
     | Listener fd p base \<Rightarrow> fd \<noteq> fd_listener fds \<and> fd \<noteq> wakeup_fd fds \<and> E (fd_listener fds) \<noteq> None
     | Wakeup \<Rightarrow> E (wakeup_fd fds) \<noteq> None)"

fun kernel_ok :: "reactor_fds \<Rightarrow> interest \<Rightarrow> phase \<Rightarrow> phase \<Rightarrow> bool" where
  "kernel_ok fds E (Waiting blocking) (Woken b (Some evs)) = list_all (reported fds E) evs"
| "kernel_ok fds E _ _ = True"

section \<open>The server with its interest lists\<close>

inductive polled_step ::
  "(nat \<Rightarrow> reactor_fds) \<Rightarrow> world \<times> (nat \<Rightarrow> phase) \<times> (nat \<Rightarrow> interest) \<Rightarrow> world \<times> (nat \<Rightarrow> phase) \<times> (nat \<Rightarrow> interest) \<Rightarrow> bool"
  for fds where
  "i < length (w_shards w) \<Longrightarrow> thread_step i (w, phases i) (w', phase) \<Longrightarrow> kernel_ok (fds i) (Es i) (phases i) phase \<Longrightarrow>
    step_interest (fds i) i w (phases i) (Es i) = Some E \<Longrightarrow>
    polled_step fds (w, phases, Es) (w', phases(i := phase), Es(i := E))"

inductive polled :: "(nat \<Rightarrow> reactor_fds) \<Rightarrow> world \<times> (nat \<Rightarrow> phase) \<times> (nat \<Rightarrow> interest) \<Rightarrow> bool" for fds where
  start: "init_world seeds = Some w \<Longrightarrow> (\<forall>i. setup_interest (fds i) = Some (Es i)) \<Longrightarrow> polled fds (w, \<lambda>_. Loop_head, Es)"
| step: "polled fds s \<Longrightarrow> polled_step fds s s' \<Longrightarrow> polled fds s'"

end
