(* ===== verification/Epoll_Correct.thy ===== *)
theory Epoll_Correct
  imports Epoll Runs
begin

text \<open>
  What the interest lists are: the listening socket and the event descriptor while the loop runs, and
  the open connections, always with the mask that does not ask for writing. The last point rests on
  \<^verbatim>\<open>BLOCKED\<close> never being set.
\<close>

section \<open>No connection is ever blocked\<close>

definition not_blocked :: "conn \<Rightarrow> bool" where
  "not_blocked c \<longleftrightarrow> c_flags c AND BLOCKED = 0"

definition stays_free :: "conn \<Rightarrow> conn \<Rightarrow> bool" where
  "stays_free c c' \<longleftrightarrow> (not_blocked c \<longrightarrow> not_blocked c')"

lemma free_flags: "c_flags c' = c_flags c \<Longrightarrow> stays_free c c'"
  by (simp add: stays_free_def not_blocked_def)

lemma flags_store_at: "store_at c p bs = Some c' \<Longrightarrow> c_flags c' = c_flags c"
  by (auto simp: store_at_def split: if_splits)

lemma free_sprintf: "send_sprintf c out = Some c' \<Longrightarrow> stays_free c c'"
  by (intro free_flags) (auto simp: send_sprintf_def dest!: flags_store_at split: bind_splits)

lemma free_bulk: "write_bulk_string c bs = Some c' \<Longrightarrow> stays_free c c'"
  by (intro free_flags) (auto simp: write_bulk_string_def Let_def dest!: flags_store_at split: bind_splits)

lemma free_end: "stays_free c (c\<lparr>c_flags := c_flags c OR END\<rparr>)" "stays_free c (c\<lparr>c_flags := c_flags c OR DISPATCH_WAITING\<rparr>)"
proof -
  have "END AND BLOCKED = 0" "DISPATCH_WAITING AND BLOCKED = 0" by (simp_all add: END_def DISPATCH_WAITING_def BLOCKED_def)
  then show "stays_free c (c\<lparr>c_flags := c_flags c OR END\<rparr>)" "stays_free c (c\<lparr>c_flags := c_flags c OR DISPATCH_WAITING\<rparr>)"
    by (simp_all add: stays_free_def not_blocked_def bit.conj_disj_distrib2)
qed

lemma free_mask: "stays_free c (c\<lparr>c_flags := c_flags c AND m\<rparr>)"
proof -
  have "(c_flags c AND m) AND BLOCKED = (c_flags c AND BLOCKED) AND m" by (simp only: and.assoc and.left_commute and.commute)
  then show ?thesis by (simp add: stays_free_def not_blocked_def)
qed

lemma free_consume: "consume len c = (c', b) \<Longrightarrow> stays_free c c'"
  by (intro free_flags) (auto simp: consume_def Let_def split: if_splits)

lemma free_flush: "reactor_epoll_flush rv c = Some c' \<Longrightarrow> stays_free c c'"
  by (intro free_flags) (auto simp: reactor_epoll_flush_def Let_def split: if_splits)

lemma free_read: "on_epollin_read rv c = Some (c', go) \<Longrightarrow> stays_free c c'"
proof -
  assume r: "on_epollin_read rv c = Some (c', go)"
  then have "c_flags c' = c_flags c \<or> c_flags c' = c_flags c OR END"
    by (auto simp: on_epollin_read_def compact_def Let_def split: sum.splits io_error.splits if_splits)
  then show ?thesis
  proof
    assume "c_flags c' = c_flags c OR END"
    then show ?thesis using free_end(1) [of c] by (simp add: stays_free_def not_blocked_def)
  qed (rule free_flags)
qed

interpretation free: loop_frame stays_free
  by unfold_locales
     (simp_all add: free_sprintf free_bulk free_end free_mask free_consume free_flush free_read,
      simp_all add: stays_free_def not_blocked_def)

definition unblocked :: "world \<Rightarrow> bool" where
  "unblocked w \<longleftrightarrow> (\<forall>p c. w_conns w p = Some c \<longrightarrow> not_blocked c)"

lemma unblocked_frame:
  assumes "free.frame w w'" "unblocked w"
  shows "unblocked w'"
  unfolding unblocked_def
proof (intro allI impI)
  fix p c' assume c': "w_conns w' p = Some c'"
  have "rel_option stays_free (w_conns w p) (w_conns w' p)" using assms(1) by (simp add: conns_frame_def)
  with c' obtain c where "w_conns w p = Some c" "stays_free c c'" by (auto simp: option_rel_Some2)
  then show "not_blocked c'" using assms(2) by (simp add: unblocked_def stays_free_def)
qed

lemma unblocked_close: "reactor_epoll_close i p w = Some w' \<Longrightarrow> unblocked w \<Longrightarrow> unblocked w'"
  by (auto simp: reactor_epoll_close_def unblocked_def Let_def split: bind_splits if_splits)

lemma unblocked_step:
  assumes st: "thread_step i (w, ph) (w', ph')" and w: "unblocked w"
  shows "unblocked w'"
proof (cases "(\<exists>k. ph = Closing k) \<or> (\<exists>p out hup evs. ph = Finishing p out hup evs)
    \<or> (\<exists>fd p base evs. ph = Handling (Listener fd p base # evs))")
  case False
  then show ?thesis using unblocked_frame [OF free.conns_thread_step [OF st]] w by blast
next
  case True
  show ?thesis using st
  proof (cases rule: thread_step.cases)
    case (accept fd p base evs)
    then show ?thesis using w by (auto simp: unblocked_def accept_conn_def set_fd_options_def on_accept_def upd_conn_def not_blocked_def split: if_splits)
  next
    case (finish p out hup w1 e evs)
    obtain c c' where c: "w_conns w p = Some c" "(case out of None \<Rightarrow> Some c | Some rv \<Rightarrow> reactor_epoll_flush rv c) = Some c'"
      and w': "(if c_flags c' AND END \<noteq> 0 \<or> hup then reactor_epoll_close i p (upd_conn p c' w)
         else Some (upd_conn p (c'\<lparr>c_flags := c_flags c' AND NOT BLOCKED\<rparr>) w)) = Some w1"
      using finish(4) by (auto simp: finish_event_def split: bind_splits)
    have 1: "unblocked (upd_conn p c' w)" by (rule unblocked_frame [OF free.conns_upd_conn [OF c(1) free.R_write [OF c(2)]] w])
    have 2: "unblocked (upd_conn p (c'\<lparr>c_flags := c_flags c' AND NOT BLOCKED\<rparr>) w)"
      by (rule unblocked_frame [OF free.conns_upd_conn [OF c(1) free.R_trans [OF free.R_write [OF c(2)] free_mask]] w])
    have "unblocked w1" using w' 1 2 unblocked_close by (auto split: if_splits)
    then show ?thesis by (simp add: finish(2) unblocked_def)
  next
    case (close_next k)
    then show ?thesis using w unblocked_close by (auto split: option.splits)
  qed (use True w in auto)
qed

lemma reachable_unblocked: "reachable s \<Longrightarrow> unblocked (fst s)"
proof (induction rule: reachable.induct)
  case (start seeds w)
  obtain w0 where w0: "init_world seeds = Some w0" "w_conns w0 = Map.empty"
    by (rule init_world_ok [of seeds], rule that, assumption+)
  then show ?case using start by (simp add: unblocked_def)
next
  case (step s s')
  then show ?case by (auto elim!: server_step.cases intro: unblocked_step)
qed

section \<open>The lists\<close>

fun left_loop :: "phase \<Rightarrow> bool" where
  "left_loop (Closing k) = True"
| "left_loop Stopped = True"
| "left_loop _ = False"

definition open_interest :: "reactor_fds \<Rightarrow> world \<Rightarrow> nat \<Rightarrow> phase \<Rightarrow> interest" where
  "open_interest fds w i ph fd =
    (if fd = wakeup_fd fds then Some EPOLLIN
     else if fd = fd_listener fds then (if left_loop ph then None else Some EPOLLIN)
     else if conn_at w i fd = None then None else Some conn_events)"

text \<open>The events still to be handled: no interest in writing, no descriptor of the reactor accepted.\<close>

fun quiet_event :: "reactor_fds \<Rightarrow> event \<Rightarrow> bool" where
  "quiet_event fds (Listener fd p base) \<longleftrightarrow> fd \<noteq> fd_listener fds \<and> fd \<noteq> wakeup_fd fds"
| "quiet_event fds Wakeup \<longleftrightarrow> True"
| "quiet_event fds (Ready fd inp out hup) \<longleftrightarrow> out = None"

fun quiet_phase :: "reactor_fds \<Rightarrow> phase \<Rightarrow> bool" where
  "quiet_phase fds (Woken blocking (Some evs)) \<longleftrightarrow> list_all (quiet_event fds) evs"
| "quiet_phase fds (Handling evs) \<longleftrightarrow> list_all (quiet_event fds) evs"
| "quiet_phase fds (Reading p out hup evs) \<longleftrightarrow> out = None \<and> list_all (quiet_event fds) evs"
| "quiet_phase fds (Finishing p out hup evs) \<longleftrightarrow> out = None \<and> list_all (quiet_event fds) evs"
| "quiet_phase fds _ \<longleftrightarrow> True"

definition fds_ok :: "reactor_fds \<Rightarrow> world \<Rightarrow> nat \<Rightarrow> bool" where
  "fds_ok fds w i \<longleftrightarrow> fd_listener fds \<noteq> wakeup_fd fds
     \<and> conn_at w i (fd_listener fds) = None \<and> conn_at w i (wakeup_fd fds) = None"

definition polled_ok :: "reactor_fds \<Rightarrow> world \<Rightarrow> nat \<Rightarrow> phase \<Rightarrow> interest \<Rightarrow> bool" where
  "polled_ok fds w i ph E \<longleftrightarrow> fds_ok fds w i \<and> quiet_phase fds ph \<and> E = open_interest fds w i ph"

lemma no_writing: "open_interest fds w i ph fd = Some events \<Longrightarrow> events AND EPOLLOUT = 0"
  by (auto simp: open_interest_def conn_events_def EPOLLIN_def EPOLLOUT_def EPOLLERR_def EPOLLRDHUP_def EPOLLHUP_def
      split: if_splits)

lemma reported_quiet: "reported fds (open_interest fds w i ph) ev \<Longrightarrow> quiet_event fds ev"
  by (cases ev) (auto simp: reported_def dest: no_writing split: option.splits)

lemma open_interest_same:
  "conn_at w' i = conn_at w i \<Longrightarrow> left_loop ph' = left_loop ph \<Longrightarrow> open_interest fds w' i ph' = open_interest fds w i ph"
  by (simp add: open_interest_def fun_eq_iff)

lemma open_interest_update:
  assumes "fds_ok fds w i" "fd \<noteq> fd_listener fds" "fd \<noteq> wakeup_fd fds"
    "\<And>k. conn_at w' i k = (if k = fd then q else conn_at w i k)" "left_loop ph' = left_loop ph"
  shows "open_interest fds w' i ph' = (open_interest fds w i ph)(fd := if q = None then None else Some conn_events)"
    "fds_ok fds w' i"
  using assms by (auto simp: open_interest_def fds_ok_def fun_eq_iff)

text \<open>A step that leaves the vector of the reactor alone.\<close>

lemma polled_same:
  assumes "polled_ok fds w i ph E" "conn_at w' i = conn_at w i" "left_loop ph' = left_loop ph" "quiet_phase fds ph'"
  shows "polled_ok fds w' i ph' E"
  using assms open_interest_same [OF assms(2,3)] by (simp add: polled_ok_def fds_ok_def)

lemma finish_polled:
  assumes run: "finish_event i p out hup w = Some w'" and w: "slots_ok w" "i < length (w_reactors w)" "unblocked w"
    and ph: "conn_id w p = Some (i, fd)" and E: "polled_ok fds w i (Finishing p out hup evs) E"
  shows "\<exists>E'. step_interest fds i w (Finishing p out hup evs) E = Some E' \<and> polled_ok fds w' i (Handling evs) E'"
proof -
  have out: "out = None" "list_all (quiet_event fds) evs" "fds_ok fds w i"
    "E = open_interest fds w i (Finishing p out hup evs)" using E by (simp_all add: polled_ok_def)
  obtain c where c: "w_conns w p = Some c" "c_fd c = fd" using ph by (auto simp: conn_id_some)
  have free: "c_flags c AND BLOCKED = 0" using w(3) c(1) by (simp add: unblocked_def not_blocked_def)
  have at: "conn_at w i fd = Some p" by (rule slots_okD(3) [OF w(1) ph])
  then have fd: "fd \<noteq> fd_listener fds" "fd \<noteq> wakeup_fd fds" using out(3) by (auto simp: fds_ok_def)
  then have Efd: "E fd = Some conn_events" using at out(4) by (simp add: open_interest_def)
  note same = same_upd_conn [OF c(1)]
  show ?thesis
  proof (cases "c_flags c AND END \<noteq> 0 \<or> hup")
    case True
    then have close: "reactor_epoll_close i p (upd_conn p c w) = Some w'"
      using run c(1) out(1) by (simp add: finish_event_def)
    have s: "same_conns w (upd_conn p c w)" by (rule same) simp
    have at': "conn_at w' i k = (if k = fd then None else conn_at w i k)" for k
      using close_ids(2) [OF close, of c i k] s w(2) c(2) by (simp add: same_conns_def upd_conn_def)
    have "step_interest fds i w (Finishing p out hup evs) E = Some (E(fd := None))"
      using c True out(1) Efd by (simp add: finish_interest_def epoll_unregister_def)
    moreover have "polled_ok fds w' i (Handling evs) (E(fd := None))"
      using open_interest_update [OF out(3) fd at', of "Handling evs" "Finishing p out hup evs"] out(2,4)
      by (simp add: polled_ok_def)
    ultimately show ?thesis by blast
  next
    case False
    then have w': "w' = upd_conn p (c\<lparr>c_flags := c_flags c AND NOT BLOCKED\<rparr>) w"
      using run c(1) out(1) by (simp add: finish_event_def)
    have "conn_at w' i = conn_at w i" unfolding w' using same [OF same_id_refl(2)] w(2) by (simp add: same_conns_def)
    then have "polled_ok fds w' i (Handling evs) E" using polled_same [OF E] out(2) by simp
    moreover have "step_interest fds i w (Finishing p out hup evs) E = Some E"
      using c False out(1) free by (simp add: finish_interest_def)
    ultimately show ?thesis by blast
  qed
qed

lemma close_polled:
  assumes run: "(case conn_at w i k of None \<Rightarrow> Some w | Some p \<Rightarrow> reactor_epoll_close i p w) = Some w'"
    and w: "slots_ok w" "i < length (w_reactors w)" and E: "polled_ok fds w i (Closing k) E"
  shows "\<exists>E'. step_interest fds i w (Closing k) E = Some E' \<and> polled_ok fds w' i (Closing (k + 1)) E'"
proof (cases "conn_at w i k")
  case None
  then have "polled_ok fds w' i (Closing (k + 1)) E" using polled_same [OF E] run by simp
  then show ?thesis using None by simp
next
  case (Some p)
  have id: "conn_id w p = Some (i, k)" using slots_okD(1) [OF w(1,2) Some] .
  then obtain c where c: "w_conns w p = Some c" "c_fd c = k" by (auto simp: conn_id_some)
  have close: "reactor_epoll_close i p w = Some w'" using run Some by simp
  have at': "conn_at w' i j = (if j = k then None else conn_at w i j)" for j
    using close_ids(2) [OF close c(1) w(2), of i j] c(2) by simp
  have f: "fds_ok fds w i" "E = open_interest fds w i (Closing k)" using E by (simp_all add: polled_ok_def)
  then have k: "k \<noteq> fd_listener fds" "k \<noteq> wakeup_fd fds" using Some by (auto simp: fds_ok_def)
  have "polled_ok fds w' i (Closing (k + 1)) (E(k := None))"
    using open_interest_update [OF f(1) k at', of "Closing (k + 1)" "Closing k"] f(2) by (simp add: polled_ok_def)
  then show ?thesis using Some by simp
qed

lemma accept_polled:
  assumes w: "world_ok w" "i < nshards w" and new: "fd_free w fd"
    and E: "polled_ok fds w i (Handling (Listener fd p base # evs)) E"
  shows "\<exists>E'. step_interest fds i w (Handling (Listener fd p base # evs)) E = Some E'
    \<and> polled_ok fds (accept_conn i fd p base w) i (Handling evs) E'"
proof -
  have f: "fds_ok fds w i" "E = open_interest fds w i (Handling (Listener fd p base # evs))"
    "fd \<noteq> fd_listener fds" "fd \<noteq> wakeup_fd fds" "list_all (quiet_event fds) evs" using E by (simp_all add: polled_ok_def)
  have at': "conn_at (accept_conn i fd p base w) i k = (if k = fd then Some p else conn_at w i k)" for k
    using accept_ids(2) [OF w, of fd p base i k] by simp
  have "i < length (w_reactors w)" using w by (simp add: world_ok_def)
  then have "conn_at w i fd = None" using new by (simp add: fd_free_def)
  then have "E fd = None" using f by (simp add: open_interest_def)
  then have "step_interest fds i w (Handling (Listener fd p base # evs)) E = Some (E(fd \<mapsto> conn_events))"
    by (simp add: epoll_register_def)
  moreover have "polled_ok fds (accept_conn i fd p base w) i (Handling evs) (E(fd \<mapsto> conn_events))"
    using open_interest_update [OF f(1,3,4) at', of "Handling evs" "Handling (Listener fd p base # evs)"] f
    by (simp add: polled_ok_def)
  ultimately show ?thesis by blast
qed

text \<open>Every step of a thread makes its calls, and the list is again what it should be.\<close>

lemma thread_step_polled:
  assumes st: "thread_step i (w, ph) (w', ph')" and w: "world_ok w" "i < nshards w" "slots_ok w" "phase_ok w i ph" "unblocked w"
    and E: "polled_ok fds w i ph E" and kernel: "kernel_ok fds E ph ph'"
  shows "\<exists>E'. step_interest fds i w ph E = Some E' \<and> polled_ok fds w' i ph' E'"
proof -
  have i: "i < length (w_reactors w)" using w(1,2) by (simp add: world_ok_def)
  have keep: "\<exists>E'. step_interest fds i w ph E = Some E' \<and> polled_ok fds w' i ph' E'"
    if "step_interest fds i w ph E = Some E" "left_loop ph' = left_loop ph" "quiet_phase fds ph'"
      "\<And>k. ph \<noteq> Closing k" "\<And>p out hup evs. ph \<noteq> Finishing p out hup evs"
      "\<And>fd p base evs. ph \<noteq> Handling (Listener fd p base # evs)"
  proof -
    have "conn_at w' i = conn_at w i" using same_thread_step [OF st that(4-6)] i by (simp add: same_conns_def)
    from polled_same [OF E this that(2,3)] show ?thesis using that(1) by blast
  qed
  have q: "quiet_phase fds ph" "fds_ok fds w i" "E = open_interest fds w i ph" using E by (simp_all add: polled_ok_def)
  show ?thesis using st
  proof (cases rule: thread_step.cases)
    case head_stop
    have "E(fd_listener fds := None) = open_interest fds w' i ph'"
      using q(2,3) head_stop by (auto simp: open_interest_def fds_ok_def fun_eq_iff)
    then show ?thesis using head_stop q(2) by (simp add: polled_ok_def)
  next
    case (wait_events blocking evs)
    then have "list_all (quiet_event fds) evs"
      using kernel q(3) reported_quiet by (auto simp: list_all_iff)
    then show ?thesis using keep wait_events by simp
  next
    case (woken blocking res)
    then show ?thesis using keep q(1) by (cases res) simp_all
  next
    case (accept fd p base evs)
    then show ?thesis using accept_polled [OF w(1,2)] E by simp
  next
    case (finish p out hup w1 e evs)
    then obtain fd where "conn_id w p = Some (i, fd)" using w(4) by auto
    from finish_polled [OF finish(4) w(3) i w(5) this E [unfolded finish(1)]] obtain E' where
      E': "step_interest fds i w ph E = Some E'" "polled_ok fds w1 i (Handling evs) E'" unfolding finish(1) by blast
    have "polled_ok fds w' i ph' E'" unfolding finish(2,3) by (rule polled_same [OF E'(2)]) (use E'(2) in \<open>simp_all add: polled_ok_def\<close>)
    then show ?thesis using E'(1) by blast
  next
    case (close_next k)
    then show ?thesis using close_polled [OF close_next(4) w(3) i] E by simp
  next
    case (close_end k)
    have "conn_at w i k = None" using close_end by (simp add: conn_at_def Let_def)
    moreover have "polled_ok fds w' i ph' E"
      using polled_same [OF E] close_end by simp
    ultimately show ?thesis using close_end by simp
  qed (use keep q(1) in simp_all)
qed

section \<open>Every state of the server\<close>

lemma setup_ok:
  assumes "setup_interest fds = Some E" "\<And>fd. conn_at w i fd = None"
  shows "polled_ok fds w i Loop_head E"
proof -
  have ne: "fd_listener fds \<noteq> wakeup_fd fds" and E: "E = [fd_listener fds \<mapsto> EPOLLIN, wakeup_fd fds \<mapsto> EPOLLIN]"
    using assms(1) by (auto simp: setup_interest_def epoll_register_def split: if_splits)
  then show ?thesis using assms(2) by (auto simp: polled_ok_def fds_ok_def open_interest_def fun_eq_iff)
qed

definition all_polled :: "(nat \<Rightarrow> reactor_fds) \<Rightarrow> world \<times> (nat \<Rightarrow> phase) \<times> (nat \<Rightarrow> interest) \<Rightarrow> bool" where
  "all_polled fds s \<longleftrightarrow> (case s of (w, phases, Es) \<Rightarrow>
     reachable (w, phases) \<and> (\<forall>i < nshards w. polled_ok (fds i) w i (phases i) (Es i)))"

lemma polled_all: "polled fds s \<Longrightarrow> all_polled fds s"
proof (induction rule: polled.induct)
  case (start seeds w Es)
  obtain w0 where w0: "init_world seeds = Some w0" "w_reactors w0 = map reactor_init [0..<4]" "nshards w0 = 4"
    by (rule init_world_ok [of seeds], rule that, assumption+)
  have "conn_at w i fd = None" if "i < 4" for i fd
    using that w0 start(1) by (simp add: conn_at_def reactor_init_def)
  then show ?case
    using start w0 setup_ok reachable.start [OF start(1)] by (simp add: all_polled_def)
next
  case (step s s')
  from step.hyps(2) show ?case
  proof cases
    case (1 i w phases w' ph Es E)
    have r: "reachable (w, phases)" and E: "\<And>j. j < nshards w \<Longrightarrow> polled_ok (fds j) w j (phases j) (Es j)"
      using step.IH 1(1) by (simp_all add: all_polled_def)
    have ok: "world_ok w" "conns_owned w phases" "unblocked w"
      using reachable_world_ok [OF r] reachable_conns_owned [OF r] reachable_unblocked [OF r] by simp_all
    have i: "i < nshards w" using 1(3) by simp
    have slots: "slots_ok w" "phase_ok w i (phases i)" using ok(2) i by (simp_all add: conns_owned_def)
    from thread_step_polled [OF 1(4) ok(1) i slots ok(3) E [OF i] 1(5)] have mine: "polled_ok (fds i) w' i ph E"
      using 1(6) by simp
    have s: "step_ok i w w' ph" "nshards w' = nshards w"
      using thread_step_slots [OF 1(4) ok(1) i slots] thread_step_ok [OF 1(4) ok(1) i] by simp_all
    have len: "length (w_reactors w) = nshards w" using ok(1) by (simp add: world_ok_def)
    have "polled_ok (fds j) w' j ((phases(i := ph)) j) ((Es(i := E)) j)" if "j < nshards w'" for j
    proof (cases "j = i")
      case False
      then have "conn_at w' j = conn_at w j" using s that len by (simp add: step_ok_def own_same_def)
      from polled_same [OF E this refl] show ?thesis using False E that s(2) by (simp add: polled_ok_def)
    qed (use mine in simp)
    moreover have "reachable (w', phases(i := ph))"
      using reachable.step [OF r] server_step.intros [of i w phases w' ph] 1(3,4) by simp
    ultimately show ?thesis using 1(2) by (simp add: all_polled_def)
  qed
qed

text \<open>A step of a thread on which the kernel keeps its contract is a step of the server with its lists.\<close>

lemma polled_thread_step:
  assumes "polled fds (w, phases, Es)" "i < nshards w" "thread_step i (w, phases i) (w', ph)"
    "kernel_ok (fds i) (Es i) (phases i) ph"
  shows "\<exists>E. step_interest (fds i) i w (phases i) (Es i) = Some E \<and> polled fds (w', phases(i := ph), Es(i := E))"
proof -
  have r: "reachable (w, phases)" and E: "polled_ok (fds i) w i (phases i) (Es i)"
    using polled_all [OF assms(1)] assms(2) by (simp_all add: all_polled_def)
  have ok: "world_ok w" "slots_ok w" "phase_ok w i (phases i)" "unblocked w"
    using reachable_world_ok [OF r] reachable_conns_owned [OF r] reachable_unblocked [OF r] assms(2)
    by (simp_all add: conns_owned_def)
  obtain E' where E': "step_interest (fds i) i w (phases i) (Es i) = Some E'"
    using thread_step_polled [OF assms(3) ok(1) assms(2) ok(2-4) E assms(4)] by blast
  from polled_step.intros [of i w phases w' ph fds Es E'] assms(2-4) E'
  have "polled_step fds (w, phases, Es) (w', phases(i := ph), Es(i := E'))" by simp
  then show ?thesis using polled.step [OF assms(1)] E' by blast
qed

end
