(* ===== verification/Epoll_Props.thy ===== *)
theory Epoll_Props
  imports Epoll_Correct Process_Props
begin

text \<open>
  The properties of the interest lists: what they contain in every state, that no call of
  \<^verbatim>\<open>epoll_ctl\<close> fails, and that the server never asks to be told when it can write again.
\<close>

section \<open>A run\<close>

lemma calm_polled:
  assumes "(calm_step i)\<^sup>*\<^sup>* s t" "polled fds (fst s, phases, Es)" "i < nshards (fst s)" "phases i = snd s"
  shows "\<exists>E. polled fds (fst t, phases(i := snd t), Es(i := E)) \<and> nshards (fst t) = nshards (fst s)"
  using assms
proof (induction rule: rtranclp_induct)
  case base
  then have "phases(i := snd s) = phases" "Es(i := Es i) = Es" by (simp_all add: fun_upd_idem)
  then show ?case using base.prems(1) by metis
next
  case (step t u)
  obtain E where E: "polled fds (fst t, phases(i := snd t), Es(i := E))" "nshards (fst t) = nshards (fst s)"
    using step.IH [OF step.prems] by blast
  have i: "i < nshards (fst t)" using E(2) step.prems(2) by simp
  have st: "thread_step i (fst t, (phases(i := snd t)) i) (fst u, snd u)" "\<And>b. snd t \<noteq> Waiting b"
    using step.hyps(2) by (simp_all add: calm_step_def)
  then have "kernel_ok (fds i) ((Es(i := E)) i) ((phases(i := snd t)) i) (snd u)" by (cases "snd t") auto
  from polled_thread_step [OF E(1) i st(1) this] obtain E' where
    "polled fds (fst u, (phases(i := snd t))(i := snd u), (Es(i := E))(i := E'))" by blast
  moreover have "reachable (fst t, phases(i := snd t))" using polled_all [OF E(1)] by (simp add: all_polled_def)
  then have "nshards (fst u) = nshards (fst t)"
    using thread_step_ok [of i "fst t" "snd t" "fst u" "snd u"] st(1) reachable_world_ok i by fastforce
  ultimately show ?case using E(2) by (metis fun_upd_upd)
qed

text \<open>Descriptors for the reactors, and a thread that has accepted a connection.\<close>

definition demo_fds :: "nat \<Rightarrow> reactor_fds" where
  "demo_fds i = \<lparr>fd_listener = 10 + 2 * i, wakeup_fd = 11 + 2 * i\<rparr>"

lemma demo_accepted:
  obtains w phases Es where "polled demo_fds (w, phases, Es)" "nshards w = 4" "phases 3 = Handling []" "conn_at w 3 5 = Some 1"
proof -
  obtain w where w: "init_world (\<lambda>_. 0) = Some w" "world_ok w" "nshards w = 4" "w_conns w = Map.empty"
    "\<And>i. i < 4 \<Longrightarrow> r_running (w_reactors w ! i) \<and> r_soft_notify (w_reactors w ! i) = 0
       \<and> mq_abs (r_cb_queue (w_reactors w ! i)) = [] \<and> r_sleeping (w_reactors w ! i) \<and> r_wakeup (w_reactors w ! i) = 0"
    "\<And>i k. i < 4 \<Longrightarrow> conn_at w i k = None" "length (w_reactors w) = 4"
    by (rule fresh_world, rule that, assumption+)
  define Es where "Es i = [fd_listener (demo_fds i) \<mapsto> EPOLLIN, wakeup_fd (demo_fds i) \<mapsto> EPOLLIN]" for i
  have "setup_interest (demo_fds i) = Some (Es i)" for i
    by (simp add: Es_def setup_interest_def epoll_register_def demo_fds_def)
  then have start: "polled demo_fds (w, \<lambda>_. Loop_head, Es)" using polled.start [OF w(1)] by blast
  have i: "(3 :: nat) < nshards w" using w(3) by simp
  have fresh: "r_running (w_reactors w ! 3)" "r_soft_notify (w_reactors w ! 3) = 0"
    "mq_abs (r_cb_queue (w_reactors w ! 3)) = []" "r_sleeping (w_reactors w ! 3)" using w(5) [of 3] by simp_all
  have "nothing_pending w 3" using w(6) by (simp add: nothing_pending_def)
  moreover have "set_sleeping 3 True w = w" unfolding set_sleeping_def using fresh(4) by (intro upd_reactor_id) simp
  ultimately have "(calm_step 3)\<^sup>*\<^sup>* (w, Loop_head) (w, Waiting True)"
    using calm_idle_run [OF w(2) i fresh(1-3)] by simp
  from calm_polled [OF this, of demo_fds "\<lambda>_. Loop_head" Es] start i obtain E1 where
    p1: "polled demo_fds (w, (\<lambda>_. Loop_head)(3 := Waiting True), Es(3 := E1))" by auto
  let ?new = "Listener 5 1 4096"
  have "polled_ok (demo_fds 3) w 3 (Waiting True) E1" using polled_all [OF p1] i by (auto simp: all_polled_def)
  then have E1: "reported (demo_fds 3) E1 ?new"
    by (simp add: polled_ok_def open_interest_def reported_def demo_fds_def)
  have "thread_step 3 (w, Waiting True) (w, Woken True (Some [?new]))" by (rule wait_events) (simp_all add: registered_def)
  with polled_thread_step [OF p1 i, of w "Woken True (Some [?new])"] E1 obtain E2 where
    p2: "polled demo_fds (w, (\<lambda>_. Loop_head)(3 := Woken True (Some [?new])), Es(3 := E2))" by auto
  define w1 where "w1 = set_sleeping 3 False w"
  have "thread_step 3 (w, Woken True (Some [?new])) (w1, Handling [?new])"
    using woken [of 3 w True "Some [?new]"] by (simp add: w1_def)
  with polled_thread_step [OF p2 i, of w1 "Handling [?new]"] obtain E3 where
    p3: "polled demo_fds (w1, (\<lambda>_. Loop_head)(3 := Handling [?new]), Es(3 := E3))" by auto
  have n1: "nshards w1 = nshards w" by (simp add: w1_def set_sleeping_def)
  have ok1: "world_ok w1" "3 < nshards w1" using set_sleeping_ok [OF w(2) i] i n1 by (simp_all add: w1_def)
  have at1: "conn_at w1 j fd = None" if "j < 4" for j fd
    using w(6) [OF that] by (simp add: w1_def set_sleeping_def conn_at_def upd_reactor_field [where g = r_conns])
  have free: "fd_free w1 5" "w_conns w1 1 = None"
    using at1 w(4,7) by (simp_all add: fd_free_def w1_def set_sleeping_def)
  then have "thread_step 3 (w1, Handling [?new]) (accept_conn 3 5 1 4096 w1, Handling [])" by (intro accept) simp_all
  with polled_thread_step [OF p3 ok1(2), of "accept_conn 3 5 1 4096 w1" "Handling []"] obtain E4 where
    p4: "polled demo_fds (accept_conn 3 5 1 4096 w1, (\<lambda>_. Loop_head)(3 := Handling []), Es(3 := E4))" by auto
  have "nshards (accept_conn 3 5 1 4096 w1) = 4" using n1 w(3) by (simp add: accept_conn_def set_fd_options_def)
  then show thesis using that [OF p4] accept_ids(2) [OF ok1, of 5 1 4096 3 5] by simp
qed

section \<open>Properties\<close>

text \<open>
  C14: In every state of the server the interest list of a reactor holds exactly its event descriptor,
  its listening socket until it has left the loop, and its open connections, all without interest
  in writing. No call to \<^verbatim>\<open>epoll_ctl\<close> that a step makes fails, and every connection for which the
  kernel may report an event is in the reactor's vector.
\<close>

theorem interest_list_exact:
  assumes "polled fds (w, phases, Es)" "i < nshards w"
  shows "Es i = (\<lambda>fd. if fd = wakeup_fd (fds i) then Some EPOLLIN
      else if fd = fd_listener (fds i) then (if left_loop (phases i) then None else Some EPOLLIN)
      else if conn_at w i fd = None then None else Some conn_events)
    \<and> (\<forall>w' ph. thread_step i (w, phases i) (w', ph) \<longrightarrow> kernel_ok (fds i) (Es i) (phases i) ph \<longrightarrow>
         step_interest (fds i) i w (phases i) (Es i) \<noteq> None)
    \<and> (\<forall>evs. list_all (reported (fds i) (Es i)) evs \<longrightarrow> (\<forall>fd \<in> set (ready_fds evs). conn_at w i fd \<noteq> None))"
proof -
  have E: "Es i = open_interest (fds i) w i (phases i)"
    using polled_all [OF assms(1)] assms(2) by (simp add: all_polled_def polled_ok_def)
  have "conn_at w i fd \<noteq> None" if "list_all (reported (fds i) (Es i)) evs" "fd \<in> set (ready_fds evs)" for evs fd
    using that
  proof (induction evs rule: ready_fds.induct)
    case (2 fd' inp out hup evs)
    then show ?case by (auto simp: reported_def E open_interest_def split: option.splits if_splits)
  qed simp_all
  moreover have "Es i = (\<lambda>fd. if fd = wakeup_fd (fds i) then Some EPOLLIN
      else if fd = fd_listener (fds i) then (if left_loop (phases i) then None else Some EPOLLIN)
      else if conn_at w i fd = None then None else Some conn_events)"
    by (simp add: E open_interest_def fun_eq_iff)
  moreover have "step_interest (fds i) i w (phases i) (Es i) \<noteq> None"
    if "thread_step i (w, phases i) (w', ph)" "kernel_ok (fds i) (Es i) (phases i) ph" for w' ph
    using polled_thread_step [OF assms that] by auto
  ultimately show ?thesis by blast
qed

theorem interest_list_exact_witness:
  "\<exists>w phases Es. polled demo_fds (w, phases, Es) \<and> Es 3 5 = Some conn_events \<and> Es 3 16 = Some EPOLLIN"
proof -
  obtain w phases Es where w: "polled demo_fds (w, phases, Es)" "nshards w = 4" "phases 3 = Handling []" "conn_at w 3 5 = Some 1"
    by (rule demo_accepted)
  have i: "(3 :: nat) < nshards w" using w(2) by simp
  have "Es 3 5 = Some conn_events" "Es 3 16 = Some EPOLLIN"
    using interest_list_exact [OF w(1) i] w(3,4) by (simp_all add: demo_fds_def)
  then show ?thesis using w(1) by blast
qed

text \<open>
  No connection ever has \<^verbatim>\<open>BLOCKED\<close> set, so the server never asks the kernel to be told when a
  connection can be written to again, and no event it handles is one for writing: the code under
  \<^verbatim>\<open>EPOLLOUT\<close> in \<^verbatim>\<open>reactor_run\<close> is never reached.
\<close>

theorem writing_never_requested:
  assumes "polled fds (w, phases, Es)" "i < nshards w"
  shows "(\<forall>fd events. Es i fd = Some events \<longrightarrow> events AND EPOLLOUT = 0)
    \<and> (\<forall>fd inp out hup evs. phases i = Handling (Ready fd inp out hup # evs) \<longrightarrow> out = None)
    \<and> (\<forall>p out hup evs. phases i = Finishing p out hup evs \<longrightarrow> out = None)
    \<and> (\<forall>p c. w_conns w p = Some c \<longrightarrow> c_flags c AND BLOCKED = 0)"
proof -
  have s: "polled_ok (fds i) w i (phases i) (Es i)" "reachable (w, phases)"
    using polled_all [OF assms(1)] assms(2) by (simp_all add: all_polled_def)
  have "\<forall>p c. w_conns w p = Some c \<longrightarrow> c_flags c AND BLOCKED = 0"
    using reachable_unblocked [OF s(2)] by (simp add: unblocked_def not_blocked_def)
  moreover have "\<forall>fd events. Es i fd = Some events \<longrightarrow> events AND EPOLLOUT = 0"
    using s(1) no_writing by (auto simp: polled_ok_def)
  moreover have "quiet_phase (fds i) (phases i)" using s(1) by (simp add: polled_ok_def)
  ultimately show ?thesis by auto
qed

theorem writing_never_requested_witness:
  "\<exists>w phases Es events. polled demo_fds (w, phases, Es) \<and> conn_at w 3 5 = Some 1 \<and> Es 3 5 = Some events
     \<and> events AND EPOLLIN \<noteq> 0 \<and> events AND EPOLLOUT = 0"
proof -
  obtain w phases Es where w: "polled demo_fds (w, phases, Es)" "nshards w = 4" "phases 3 = Handling []" "conn_at w 3 5 = Some 1"
    by (rule demo_accepted)
  have i: "(3 :: nat) < nshards w" using w(2) by simp
  have "polled_ok (demo_fds 3) w 3 (phases 3) (Es 3)" using polled_all [OF w(1)] i by (simp add: all_polled_def)
  then have E: "Es 3 5 = Some conn_events" using w(4) by (simp add: polled_ok_def open_interest_def demo_fds_def)
  moreover have "conn_events AND EPOLLOUT = 0" using writing_never_requested [OF w(1) i] E by blast
  moreover have "conn_events AND EPOLLIN \<noteq> 0"
    by (simp add: conn_events_def EPOLLIN_def EPOLLERR_def EPOLLRDHUP_def EPOLLHUP_def)
  ultimately show ?thesis using w(1,4) by blast
qed

end
