(* ===== verification/Store_Refinement.thy ===== *)
theory Store_Refinement
  imports Process "HOL-Library.Sublist"
begin

text \<open>
  What the server promises as a whole: a sharded store of finite maps with one FIFO queue of messages
  per shard, in which each operation on a key happens at one moment, on the shard that owns the key.
  The detailed server - hash maps, ring buffers, connections, event loop - refines it, step by step.
\<close>

section \<open>The abstract server\<close>

record kv_state =
  kv_store :: "nat \<Rightarrow> nat \<Rightarrow> bytes \<rightharpoonup> bytes"
  kv_queues :: "nat \<Rightarrow> message list"
  kv_clients :: "nat \<rightharpoonup> nat \<times> bytes"

text \<open>
  A client is the database it has selected and the bytes it is still to be sent. By itself it joins,
  leaves, is written further replies, or takes the bytes that wait for it.
\<close>

inductive client_step :: "(nat \<times> bytes) option \<Rightarrow> (nat \<times> bytes) option \<Rightarrow> bool" where
  joins: "client_step None (Some (0, []))"
| leaves: "client_step (Some cl) None"
| written: "client_step (Some (j, out)) (Some (j', out @ rest))"
| taken: "client_step (Some (j, out)) (Some (j, []))"
| same: "client_step x x"

definition owns :: "nat \<Rightarrow> nat \<Rightarrow> bytes \<Rightarrow> bool" where
  "owns n i key \<longleftrightarrow> i < n \<and> key_ok key \<and> unat (key_hash key) mod n = i"

text \<open>Client \<open>p\<close> has database \<open>j\<close> selected and is written a reply.\<close>

definition replies :: "nat \<Rightarrow> nat \<Rightarrow> bytes \<Rightarrow> kv_state \<Rightarrow> kv_state \<Rightarrow> bool" where
  "replies p j reply s s' \<longleftrightarrow>
    (\<exists>out. kv_clients s p = Some (j, out) \<and> kv_clients s' = (kv_clients s)(p \<mapsto> (j, out @ reply)))"

text \<open>
  The steps, for \<open>n\<close> shards and \<open>k\<close> databases each: an operation in place with its reply; sending a
  request to the owner of its key; serving the first request of a queue on the client's database, with
  the result sent back; answering the first response of a queue; clearing the store; a step of one
  client that touches neither the store nor the queues.
\<close>

inductive kv_step :: "nat \<Rightarrow> nat \<Rightarrow> kv_state \<Rightarrow> kv_state \<Rightarrow> bool" for n k where
  quiet: "kv_store s' = kv_store s \<Longrightarrow> kv_queues s' = kv_queues s \<Longrightarrow> client_step (kv_clients s p) x \<Longrightarrow>
    kv_clients s' = (kv_clients s)(p := x) \<Longrightarrow> kv_step n k s s'"
| local: "owns n i key \<Longrightarrow> replies p j (reply_of res) s s' \<Longrightarrow>
    spec_op (kv_store s i j) key oper = Some (m, res) \<Longrightarrow>
    kv_store s' = (kv_store s)(i := (kv_store s i)(j := m)) \<Longrightarrow> kv_queues s' = kv_queues s \<Longrightarrow> kv_step n k s s'"
| send: "owns n i key \<Longrightarrow> cb_dst cb = i \<Longrightarrow> kv_store s' = kv_store s \<Longrightarrow>
    kv_queues s' = (kv_queues s)(i := kv_queues s i @ [Request cb key (key_hash key) oper]) \<Longrightarrow>
    kv_clients s' = kv_clients s \<Longrightarrow> kv_step n k s s'"
| serve: "kv_queues s i = Request cb key (key_hash key) oper # ms \<Longrightarrow> owns n i key \<Longrightarrow>
    kv_clients s (cb_conn cb) = Some (j, out) \<Longrightarrow> spec_op (kv_store s i j) key oper = Some (m, res) \<Longrightarrow>
    kv_store s' = (kv_store s)(i := (kv_store s i)(j := m)) \<Longrightarrow>
    qs = (kv_queues s)(i := ms) \<Longrightarrow> cb' = \<lparr>cb_src = cb_dst cb, cb_dst = cb_src cb, cb_conn = cb_conn cb\<rparr> \<Longrightarrow>
    kv_queues s' = qs(cb_src cb := qs (cb_src cb) @ [Response cb' res]) \<Longrightarrow>
    kv_clients s' = kv_clients s \<Longrightarrow> kv_step n k s s'"
| answer: "kv_queues s i = Response cb res # ms \<Longrightarrow> replies (cb_conn cb) j (reply_of res) s s' \<Longrightarrow>
    kv_store s' = kv_store s \<Longrightarrow> kv_queues s' = (kv_queues s)(i := ms) \<Longrightarrow> kv_step n k s s'"
| flushall: "kv_store s' = (\<lambda>i j. if j < k then Map.empty else kv_store s i j) \<Longrightarrow>
    kv_queues s' = kv_queues s \<Longrightarrow> replies p j (resp_simple (bstr ''OK'')) s s' \<Longrightarrow> kv_step n k s s'"

inductive kv_reachable :: "nat \<Rightarrow> nat \<Rightarrow> kv_state \<Rightarrow> bool" for n k where
  start: "kv_reachable n k \<lparr>kv_store = \<lambda>i j. Map.empty, kv_queues = \<lambda>i. [], kv_clients = Map.empty\<rparr>"
| step: "kv_reachable n k s \<Longrightarrow> kv_step n k s s' \<Longrightarrow> kv_reachable n k s'"

section \<open>The abstraction\<close>

definition store :: "world \<Rightarrow> nat \<Rightarrow> nat \<Rightarrow> bytes \<rightharpoonup> bytes" where
  "store w i j = (if i < nshards w \<and> j < length (s_dbs (w_shards w ! i)) then data w i j else Map.empty)"

definition queue :: "world \<Rightarrow> nat \<Rightarrow> message list" where
  "queue w i = (if i < length (w_reactors w) then mq_abs (r_cb_queue (w_reactors w ! i)) else [])"

definition client :: "conn \<Rightarrow> nat \<times> bytes" where
  "client c = (unat (c_db c), pending c)"

definition kv_of :: "world \<Rightarrow> kv_state" where
  "kv_of w = \<lparr>kv_store = store w, kv_queues = queue w, kv_clients = (\<lambda>p. map_option client (w_conns w p))\<rparr>"

lemma kv_of_simps [simp]:
  "kv_store (kv_of w) = store w" "kv_queues (kv_of w) = queue w"
  "kv_clients (kv_of w) p = map_option client (w_conns w p)"
  by (simp_all add: kv_of_def)

lemma clients_upd:
  "w_conns w' = (w_conns w)(p := x) \<Longrightarrow> kv_clients (kv_of w') = (kv_clients (kv_of w))(p := map_option client x)"
  by (auto simp: kv_of_def)

lemma replies_upd:
  "w_conns w p = Some c \<Longrightarrow> w_conns w' = (w_conns w)(p \<mapsto> c') \<Longrightarrow> c_db c' = c_db c \<Longrightarrow> pending c' = pending c @ reply \<Longrightarrow>
    replies p (unat (c_db c)) reply (kv_of w) (kv_of w')"
  by (simp add: replies_def clients_upd client_def)

text \<open>The shards and the mailboxes, and all connections but one, which most operations leave alone.\<close>

definition same_core :: "nat \<Rightarrow> world \<Rightarrow> world \<Rightarrow> bool" where
  "same_core p w w' \<longleftrightarrow> w_shards w' = w_shards w \<and> w_num_dbs w' = w_num_dbs w
     \<and> length (w_reactors w') = length (w_reactors w)
     \<and> (\<forall>j < length (w_reactors w). r_cb_queue (w_reactors w' ! j) = r_cb_queue (w_reactors w ! j))
     \<and> (\<forall>q. q \<noteq> p \<longrightarrow> w_conns w' q = w_conns w q)"

lemma same_core_refl [simp]: "same_core p w w"
  by (simp add: same_core_def)

lemma same_core_trans: "same_core p w w1 \<Longrightarrow> same_core p w1 w2 \<Longrightarrow> same_core p w w2"
  by (simp add: same_core_def)

lemma core_upd_conn [simp]: "same_core p w (upd_conn p c w1) = same_core p w w1"
  by (simp add: same_core_def upd_conn_def)

lemma num_dbs_upd [simp]:
  "w_num_dbs (upd_reactor i f w) = w_num_dbs w" "w_num_dbs (upd_conn p c w) = w_num_dbs w"
  "w_num_dbs (upd_db i j db w) = w_num_dbs w" "w_num_dbs (notify i j w) = w_num_dbs w"
  by (simp_all add: upd_reactor_def upd_conn_def upd_db_def notify_def)

lemma core_upd_reactor: "(\<And>r. r_cb_queue (f r) = r_cb_queue r) \<Longrightarrow> same_core p w (upd_reactor i f w)"
  by (simp add: same_core_def upd_reactor_field [where g = r_cb_queue])

lemma core_sets [simp]:
  "same_core p w (set_sleeping i b w)" "same_core p w (BITSET64_RESET i w)" "same_core p w (notify i j w)"
  "same_core p w (set_read_errno i rv w)"
  by (simp_all add: set_sleeping_def BITSET64_RESET_def notify_def set_read_errno_def core_upd_reactor split: sum.splits)

lemma core_wakeup: "same_core p w (fst (wakeup_target self i w))"
  by (auto simp: wakeup_target_def core_upd_reactor split: if_splits)

lemma core_close: "reactor_epoll_close i p w = Some w' \<Longrightarrow> same_core p w w' \<and> w_conns w' p = None"
  by (auto simp: reactor_epoll_close_def Let_def same_core_def upd_reactor_field [where g = r_cb_queue] split: bind_splits)

lemma core_abs: "same_core p w w' \<Longrightarrow> store w' = store w \<and> queue w' = queue w"
  by (auto simp: same_core_def store_def queue_def data_def fun_eq_iff)

lemma core_quiet:
  assumes "same_core p w w'" "client_step (map_option client (w_conns w p)) (map_option client (w_conns w' p))"
  shows "kv_step n k (kv_of w) (kv_of w')"
proof (rule kv_step.quiet [where p = p])
  show "client_step (kv_clients (kv_of w) p) (map_option client (w_conns w' p))" using assms(2) by simp
  have "w_conns w' = (w_conns w)(p := w_conns w' p)" using assms(1) by (auto simp: same_core_def)
  then show "kv_clients (kv_of w') = (kv_clients (kv_of w))(p := map_option client (w_conns w' p))" by (rule clients_upd)
qed (use core_abs [OF assms(1)] in simp_all)

lemma core_still: "same_core p w w' \<Longrightarrow> w_conns w' = w_conns w \<Longrightarrow> kv_step n k (kv_of w) (kv_of w')"
  by (rule core_quiet) (simp_all add: client_step.same)

section \<open>Messages and operations\<close>

lemma send_cases:
  assumes run: "reactor_send_message i msg w = Some (w', sent)" and w: "world_ok w" "i < nshards w"
  shows "sent \<and> w_shards w' = w_shards w \<and> w_num_dbs w' = w_num_dbs w \<and> w_conns w' = w_conns w \<and> queue w' = (queue w)(i := queue w i @ [msg])"
proof -
  let ?q = "r_cb_queue (w_reactors w ! i)"
  obtain q where q: "mpmcq_enqueue ?q msg = Some (q, sent)" "w' = set_queue i q w"
    using run by (auto simp: reactor_send_message_def set_queue_def split: bind_splits)
  have rep: "mq_rep ?q (mq_abs ?q)" using w by (simp add: world_ok_def reactor_ok_def mq_inv_rep)
  have "length (mq_abs ?q) \<noteq> mq_cap ?q" using mpmcq_enqueue_full [OF rep] q(1) by auto
  then have "length (mq_abs ?q) < mq_cap ?q" using rep by (auto simp: mq_rep_def mq_cap_def)
  from mpmcq_enqueue_ok [OF rep this, of msg] q(1) have s: "sent" "mq_rep q (mq_abs ?q @ [msg])" by auto
  have i: "i < length (w_reactors w)" using w by (simp add: world_ok_def)
  have "queue w' = (queue w)(i := queue w i @ [msg])"
    using mq_rep_abs [OF s(2)] w(2) i q(2) by (auto simp: queue_def fun_eq_iff set_queue_def)
  then show ?thesis using s(1) q(2) by (simp add: set_queue_def)
qed

lemma receive_cases:
  assumes run: "mpmcq_dequeue (r_cb_queue (w_reactors w ! i)) = Some (q, m)" and w: "world_ok w" "i < nshards w"
  shows "case m of None \<Rightarrow> set_queue i q w = w
    | Some msg \<Rightarrow> (\<exists>ms. queue w i = msg # ms \<and> queue (set_queue i q w) = (queue w)(i := ms) \<and> msg_ok (nshards w) i msg)"
proof -
  let ?q = "r_cb_queue (w_reactors w ! i)"
  have rep: "mq_rep ?q (mq_abs ?q)" and msgs: "\<forall>m \<in> set (mq_abs ?q). msg_ok (nshards w) i m"
    using w by (simp_all add: world_ok_def reactor_ok_def mq_inv_rep)
  have i: "i < length (w_reactors w)" using w by (simp add: world_ok_def)
  show ?thesis
  proof (cases "mq_abs ?q")
    case Nil
    then have "mpmcq_dequeue ?q = Some (?q, None)" using mpmcq_dequeue_empty rep by simp
    then have "q = ?q" "m = None" using run by simp_all
    then show ?thesis unfolding set_queue_def using i by (simp add: upd_reactor_id)
  next
    case (Cons x xs)
    then obtain q' where q': "mpmcq_dequeue ?q = Some (q', Some x)" "mq_rep q' xs" using mpmcq_dequeue_ok rep by metis
    then have "q = q'" "m = Some x" using run by simp_all
    then show ?thesis using Cons mq_rep_abs [OF q'(2)] w(2) i msgs by (auto simp: queue_def fun_eq_iff set_queue_def)
  qed
qed

text \<open>An operation on a database of the world is the specified one on the store.\<close>

lemma exec_store:
  assumes w: "world_ok w" "room w" and key: "owns (nshards w) i key"
    and run: "get_db w i j = Some db" "exec_op db key (key_hash key) oper = Some (db', res)"
  obtains m where "spec_op (store w i (unat j)) key oper = Some (m, res)"
    "store (upd_db i (unat j) db' w) = (store w)(i := (store w i)(unat j := m))"
proof -
  have i: "i < nshards w" "key_ok key" using key by (simp_all add: owns_def)
  have j: "unat j < length (s_dbs (w_shards w ! i))" "db = s_dbs (w_shards w ! i) ! unat j"
    using run(1) by (simp_all add: get_db_def split: if_splits)
  have "db_inv db" "hm_count db < 65535" using get_db_ok(1) [OF w(1) run(1)] get_db_room [OF w(2) run(1)] by (simp_all add: db_ok_def)
  from exec_refines [OF this(1) i(2) this(2), of oper] obtain m where
    m: "spec_op (db_abs db) key oper = Some (m, res)" "db_abs db' = m"
    using run(2) by (auto split: option.splits)
  have "store w i (unat j) = db_abs db" using i(1) j by (simp add: store_def data_def)
  moreover have "store (upd_db i (unat j) db' w) = (store w)(i := (store w i)(unat j := m))"
    using data_upd_db [OF i(1) j(1), of db'] m(2) i(1) j(1)
    by (auto simp: store_def upd_db_def fun_eq_iff nth_list_update)
  ultimately show thesis using that m(1) by simp
qed

lemma store_same_db:
  assumes "i < nshards w" "get_db w i j = Some db" "db_abs db' = db_abs db"
  shows "store (upd_db i (unat j) db' w) = store w"
proof -
  have j: "unat j < length (s_dbs (w_shards w ! i))" "db = s_dbs (w_shards w ! i) ! unat j"
    using assms(2) by (simp_all add: get_db_def split: if_splits)
  then show ?thesis
    using data_upd_db [OF assms(1) j(1), of db'] assms(1,3) by (auto simp: store_def upd_db_def fun_eq_iff nth_list_update data_def)
qed

lemma queue_upd_db [simp]: "queue (upd_db i j db w) = queue w"
  by (simp add: queue_def upd_db_def fun_eq_iff)

lemma abs_upd_conn [simp]: "store (upd_conn p c w) = store w" "queue (upd_conn p c w) = queue w"
  by (simp_all add: store_def queue_def upd_conn_def fun_eq_iff data_def)

lemma abs_notify [simp]: "store (notify i j w) = store w" "queue (notify i j w) = queue w"
  using core_abs [OF core_sets(3) [of undefined]] by simp_all

lemma core_queue: "same_core p w w1 \<Longrightarrow> queue w1 = queue w"
  by (simp add: core_abs)

section \<open>Connections only grow\<close>

text \<open>
  What a command writes goes after the bytes that wait already: the contract of connections holds
  of this relation.
\<close>

definition grows :: "conn \<Rightarrow> conn \<Rightarrow> bool" where
  "grows c c' \<longleftrightarrow> prefix (pending c) (pending c')"

lemma prefix_take: "m \<le> n \<Longrightarrow> prefix (take m xs) (take n xs)"
  by (metis min.absorb1 take_is_prefix take_take)

lemma store_at_prefix:
  assumes "store_at c p bs = Some c'" "n \<le> p"
  shows "prefix (take n (c_send_buf c)) (take n (c_send_buf c'))" "c_send_buf_size c' = c_send_buf_size c"
proof -
  have c': "c' = c\<lparr>c_send_buf := take p (c_send_buf c) @ bs @ drop (p + length bs) (c_send_buf c)\<rparr>"
    using assms(1) by (simp add: store_at_def split: if_splits)
  show "prefix (take n (c_send_buf c)) (take n (c_send_buf c'))"
    using assms(2) by (simp add: c' min_absorb1)
  show "c_send_buf_size c' = c_send_buf_size c" by (simp add: c')
qed

lemma grows_sprintf: "send_sprintf c out = Some c' \<Longrightarrow> grows c c'"
proof -
  assume "send_sprintf c out = Some c'"
  then obtain c1 where c1: "store_at c (c_send_buf_size c) (out @ [0]) = Some c1"
    "c' = c1\<lparr>c_send_buf_size := c_send_buf_size c + length out\<rparr>"
    by (auto simp: send_sprintf_def split: bind_splits)
  have "prefix (take (c_send_buf_size c) (c_send_buf c1)) (pending c')" by (simp add: pending_def c1(2) prefix_take)
  with store_at_prefix(1) [OF c1(1) order_refl] show ?thesis
    unfolding grows_def pending_def [of c] by (rule prefix_order.trans)
qed

lemma grows_bulk:
  assumes "write_bulk_string c bs = Some c'"
  shows "grows c c'"
proof -
  let ?n = "c_send_buf_size c"
  obtain b1 c1 k2 b2 c2 k3 b3 c3 k4 b4 c4 k5 where s: "store_at c ?n b1 = Some c1" "store_at c1 (?n + k2) b2 = Some c2"
    "store_at c2 (?n + k3) b3 = Some c3" "store_at c3 (?n + k4) b4 = Some c4" "c' = c4\<lparr>c_send_buf_size := ?n + k5\<rparr>"
    using assms unfolding write_bulk_string_def Let_def Option.bind_eq_Some_conv add.assoc by blast
  note pre = store_at_prefix(1) [OF s(1), of ?n] store_at_prefix(1) [OF s(2), of ?n]
    store_at_prefix(1) [OF s(3), of ?n] store_at_prefix(1) [OF s(4), of ?n]
  have "prefix (take ?n (c_send_buf c)) (take ?n (c_send_buf c4))"
    using pre by (meson le_add1 order_refl prefix_order.trans)
  moreover have "prefix (take ?n (c_send_buf c4)) (pending c')" by (simp add: pending_def s(5) prefix_take)
  ultimately show ?thesis unfolding grows_def pending_def [of c] by (rule prefix_order.trans)
qed

interpretation outs: conn_frame grows
  by unfold_locales (auto simp: grows_sprintf grows_bulk, auto simp: grows_def pending_def)

lemma grows_client: "grows c c' \<Longrightarrow> client_step (Some (client c)) (Some (client c'))"
  by (auto simp: grows_def client_def prefix_def intro: client_step.written)

section \<open>Requests\<close>

lemma consume_pending: "consume len c = (c', b) \<Longrightarrow> pending c' = pending c"
  by (auto simp: consume_def pending_def Let_def split: if_splits)

lemma consume_client: "consume len c = (c', b) \<Longrightarrow> pending c' = pending c \<and> c_db c' = c_db c"
  by (auto simp: consume_def pending_def Let_def split: if_splits)

lemma replied_client: "replied c out c' \<Longrightarrow> pending c' = pending c @ out \<and> c_db c' = c_db c"
  by (auto simp: replied_def)

lemma resp_op_client:
  assumes "resp_op c res = Some c'" "conn_ok c"
  shows "pending c' = pending c @ reply_of res \<and> c_db c' = c_db c"
proof -
  have "replied c (reply_of res) c'"
    using assms(1) send_sprintf_some [OF _ assms(2)] write_bulk_string_some [OF _ assms(2)]
    by (auto simp: resp_op_def reply_of_def writers_as_sprintf simp del: bstr_Cons split: keyed_res.splits option.splits if_splits)
  then show ?thesis by (rule replied_client)
qed

lemma keyed_kv:
  assumes run: "keyed_command f self p args w = Some w1" and w: "world_ok w" "room w" "self < nshards w"
    and c: "w_conns w1 p = Some c1" "pending c2 = pending c1" "c_db c2 = c_db c1"
  shows "kv_step (nshards w) k (kv_of w) (kv_of (upd_conn p c2 w1)) \<and> w_num_dbs w1 = w_num_dbs w"
  using run
proof (cases rule: keyed_command_cases)
  case (reply c msg c')
  then have "grows c c2" using outs.R_writers(2) [OF reply(2)] c by (simp add: grows_def upd_conn_def)
  moreover have "w_conns (upd_conn p c2 w1) p = Some c2" by (simp add: upd_conn_def)
  ultimately have "kv_step (nshards w) k (kv_of w) (kv_of (upd_conn p c2 w1))"
    using reply by (intro core_quiet [where p = p]) (simp_all add: grows_client)
  then show ?thesis using reply(3) by simp
next
  case (here c key db oper db' res c')
  have key: "owns (nshards w) self key"
    using here(2,3) w arg_bytes_key_ok world_ok_shard_id [OF w(1,3)] by (simp add: owns_def)
  obtain m where m: "spec_op (store w self (unat (c_db c))) key oper = Some (m, res)"
    "store (upd_db self (unat (c_db c)) db' w) = (store w)(self := (store w self)(unat (c_db c) := m))"
    by (rule exec_store [OF w(1,2) key here(4,5)])
  have conns: "w_conns (upd_conn p c2 w1) = (w_conns w)(p \<mapsto> c2)" "c1 = c'"
    using c(1) by (simp_all add: here(7) upd_conn_def upd_db_def)
  have "replies p (unat (c_db c)) (reply_of res) (kv_of w) (kv_of (upd_conn p c2 w1))"
    using resp_op_client [OF here(6) world_ok_conn [OF w(1) here(1)]] c(2,3) conns(2)
    by (intro replies_upd [OF here(1) conns(1)]) simp_all
  then show ?thesis using key m by (auto intro!: kv_step.local simp: here(7))
next
  case (remote c key oper sid w0)
  have sid: "sid < nshards w" using world_ok_owner [OF w(1)] remote(3) by simp
  have key: "owns (nshards w) sid key" using remote(2,3) sid arg_bytes_key_ok by (simp add: owns_def)
  from send_cases [OF remote(5) w(1) sid] have s: "w_shards w0 = w_shards w" "w_conns w0 = w_conns w" "w_num_dbs w0 = w_num_dbs w"
    "queue w0 = (queue w)(sid := queue w sid @ [Request \<lparr>cb_src = self, cb_dst = sid, cb_conn = p\<rparr> key (key_hash key) oper])"
    by simp_all
  have "store w0 = store w" using s(1) by (simp add: store_def data_def fun_eq_iff)
  moreover have "w_conns (upd_conn p c2 w1) = (w_conns w)(p \<mapsto> c2)" "client c2 = client c"
    using c s(2) by (auto simp: remote(6) upd_conn_def pending_def notify_def client_def)
  then have "kv_clients (kv_of (upd_conn p c2 w1)) = kv_clients (kv_of w)"
    using remote(1) by (simp add: fun_eq_iff)
  ultimately have "kv_step (nshards w) k (kv_of w) (kv_of (upd_conn p c2 w1))"
    using key s(4) by (intro kv_step.send) (simp_all add: remote(6))
  then show ?thesis using s(3) by (simp add: remote(6))
next
  case (refused c key oper sid w0 msg c')
  have "sid < nshards w" using world_ok_owner [OF w(1)] refused(3) by simp
  from send_cases [OF refused(4) w(1) this] show ?thesis by simp
next
  case (far c db len hash oper db' res c')
  have conns: "w_conns (upd_conn p c2 w1) = (w_conns w)(p \<mapsto> c2)" "c1 = c'"
    using c(1) by (simp_all add: far(5) upd_conn_def upd_db_def)
  note grown = resp_op_client [OF far(4) world_ok_conn [OF w(1) far(1)]]
  from w(1,2) far(2,3) show ?thesis
  proof (cases rule: far_cases)
    case kept
    have "store (upd_db self (unat (c_db c)) db' w) = store w" by (rule store_same_db [OF w(3) far(2) kept(2)])
    moreover have "client_step (kv_clients (kv_of w) p) (Some (client c2))"
      using grown c(2,3) conns(2) far(1) client_step.written by (simp add: client_def)
    ultimately show ?thesis using clients_upd [OF conns(1)] far(1)
      by (auto intro!: kv_step.quiet [where p = p and x = "Some (client c2)"] simp: far(5) fun_eq_iff)
  next
    case (deleted key)
    have key: "owns (nshards w) self key" using deleted(1,2) w(3) by (simp add: owns_def)
    obtain m where m: "spec_op (store w self (unat (c_db c))) key OpDel = Some (m, res)"
      "store (upd_db self (unat (c_db c)) db' w) = (store w)(self := (store w self)(unat (c_db c) := m))"
      by (rule exec_store [OF w(1,2) key far(2) deleted(3)])
    have "replies p (unat (c_db c)) (reply_of res) (kv_of w) (kv_of (upd_conn p c2 w1))"
      using grown c(2,3) conns(2) by (intro replies_upd [OF far(1) conns(1)]) simp_all
    then show ?thesis using key m by (auto intro!: kv_step.local simp: far(5))
  qed
qed

lemma wakeup_loop_size:
  "length (w_reactors (fst (wakeup_loop self is (w, b)))) = length (w_reactors w)
    \<and> w_num_dbs (fst (wakeup_loop self is (w, b))) = w_num_dbs w"
proof (induction "is" arbitrary: w b)
  case (Cons i "is")
  obtain w1 rung where t: "wakeup_target self i w = (w1, rung)" by force
  then have "same_core 0 w w1" using core_wakeup [of 0 w self i] by simp
  then show ?case using Cons.IH [of w1 "b \<or> rung"] t by (simp add: same_core_def)
qed simp

lemma core_shutdown:
  assumes "world_ok w"
  shows "same_core p w (cmd_shutdown self w)"
proof -
  have "nshards w = length (w_reactors w)" using assms by (simp add: world_ok_def)
  moreover have "length (w_reactors (cmd_shutdown self w)) = length (w_reactors w)"
    "w_num_dbs (cmd_shutdown self w) = w_num_dbs w"
    by (simp_all add: cmd_shutdown_def reactor_wakeup_pending_def Let_def BITSET64_RESET_def split_beta wakeup_loop_size)
  ultimately show ?thesis using shutdown_fields(1) [of w _ self] shutdown_rest by (simp add: same_core_def)
qed


section \<open>Commands and events\<close>

lemma flushall_kv:
  assumes run: "cmd_flushall p w = Some w1" and w: "world_ok w"
    and c: "w_conns w1 p = Some c1" "pending c2 = pending c1" "c_db c2 = c_db c1"
  shows "kv_step n (w_num_dbs w) (kv_of w) (kv_of (upd_conn p c2 w1)) \<and> w_num_dbs w1 = w_num_dbs w"
proof -
  let ?k = "w_num_dbs w" and ?v = "w\<lparr>w_shards := map (flush_shard (w_num_dbs w)) (w_shards w)\<rparr>"
  obtain c c' where r: "w_conns w p = Some c" "write_simple_string c (bstr ''OK'') 2 = Some c'" "w1 = upd_conn p c' ?v"
    using run by (auto simp: cmd_flushall_def split: bind_splits)
  have inv: "db_inv (s_dbs (w_shards w ! i) ! j)" if "i < nshards w" "j < length (s_dbs (w_shards w ! i))" for i j
    using w that by (simp add: world_ok_def shard_ok_def db_ok_def)
  have st: "store ?v i j = (if j < ?k then Map.empty else store w i j)" "queue ?v = queue w" for i j
    using inv [of i j] db.clear_law(2) [of "s_dbs (w_shards w ! i) ! j" True]
    by (auto simp: store_def data_def flush_shard_def nth_append db_abs_def queue_def fun_eq_iff)
  have "replied c (resp_simple (bstr ''OK'')) c'"
    using r(2) send_sprintf_some [OF _ world_ok_conn [OF w r(1)]] by (simp add: writers_as_sprintf del: bstr_Cons)
  then have "pending c2 = pending c @ resp_simple (bstr ''OK'') \<and> c_db c2 = c_db c"
    using replied_client c by (auto simp: r(3) upd_conn_def)
  moreover have conns: "w_conns (upd_conn p c2 w1) = (w_conns w)(p \<mapsto> c2)" by (simp add: r(3) upd_conn_def)
  ultimately have "replies p (unat (c_db c)) (resp_simple (bstr ''OK'')) (kv_of w) (kv_of (upd_conn p c2 w1))"
    using replies_upd [OF r(1) conns] by blast
  then show ?thesis using st by (auto intro!: kv_step.flushall simp: r(3) fun_eq_iff)
qed

text \<open>A command is one on a key, FLUSHALL, or one that leaves the shards and the mailboxes alone.\<close>

lemma upd_with_core: "upd_with p f w = Some w' \<Longrightarrow> same_core p w w'"
  by (auto simp: upd_with_def split: bind_splits)

lemma call_command_core:
  assumes "call_command f self p args w = Some w1" "world_ok w"
  shows "keyed_command f self p args w = Some w1 \<or> cmd_flushall p w = Some w1 \<or> same_core p w w1"
proof (cases f)
  case Cmd_select
  then show ?thesis using assms
    by (auto simp: call_command_def intro: same_core_trans [OF _ core_upd_reactor] split: bind_splits)
qed (use assms upd_with_core core_shutdown in \<open>auto simp: call_command_def\<close>)

lemma handle_command_core:
  assumes run: "handle_command self p args w = Some w1" and w: "world_ok w"
  shows "(\<exists>f. keyed_command f self p args w = Some w1) \<or> cmd_flushall p w = Some w1 \<or> same_core p w w1"
proof -
  obtain c found where c: "w_conns w p = Some c" "find_command c args (w_commands w) = Some found"
    using run by (auto simp: handle_command_def split: bind_splits)
  note run' = run [unfolded handle_command_def c bind.bind_lunit]
  show ?thesis
  proof (cases found)
    case None
    then have "same_core p w w1" using run' by (auto simp: Let_def split: bind_splits)
    then show ?thesis by simp
  next
    case (Some cmd)
    then have "same_core p w w1 \<or> (\<exists>f. call_command f self p args w = Some w1)"
      using run' by (auto split: option.splits if_splits)
    then show ?thesis using call_command_core [OF _ w] by blast
  qed
qed

text \<open>One pass of the request loop is one step of the store.\<close>

lemma on_data_available_kv:
  assumes run: "on_data_available self p w = Some (w', again)" and w: "world_ok w" "room w" "self < nshards w"
  shows "kv_step (nshards w) (w_num_dbs w) (kv_of w) (kv_of w') \<and> w_num_dbs w' = w_num_dbs w"
proof -
  let ?goal = "\<lambda>w'. kv_step (nshards w) (w_num_dbs w) (kv_of w) (kv_of w') \<and> w_num_dbs w' = w_num_dbs w"
  obtain c where c: "w_conns w p = Some c" using run by (auto simp: on_data_available_def split: bind_splits)
  note run' = run [unfolded on_data_available_def c bind.bind_lunit]
  have quiet: "?goal v" if "same_core p w v" "w_conns v p = Some c'" "grows c c'" for v c'
    using that c by (auto intro: core_quiet simp: grows_client same_core_def)
  have fail: "?goal w'" if "fail_conn msg c = Some c'" "w' = upd_conn p c' w" for msg c'
  proof (rule quiet)
    show "grows c c'" by (rule outs.R_fail_conn [OF that(1)])
  qed (simp_all add: that(2), simp add: upd_conn_def)
  have still: "?goal w" by (simp add: core_still)
  show ?thesis
  proof (cases "c_recv_buf_size c < 1")
    case True
    then show ?thesis using run' still by simp
  next
    case False
    show ?thesis
    proof (cases "parse_request c")
      case (PARSE_OK args)
      then obtain w1 c1 c2 where r: "(if 0 < a_argc args then handle_command self p args w else Some w) = Some w1"
        "w_conns w1 p = Some c1" "consume (a_len args) c1 = (c2, again)" "w' = upd_conn p c2 w1"
        using run' False by (auto split: bind_splits prod.splits)
      note c2 = consume_client [OF r(3)]
      have grow: "conns_frame grows w w1" using r(1) outs.conns_handle_command by (auto split: if_splits)
      then have "grows c c2" using outs.conns_get [OF grow c] r(2) c2 by (auto simp: grows_def)
      then have core: "?goal w'" if "same_core p w w1"
      proof (intro quiet)
        show "w_conns w' p = Some c2" by (simp add: r(4) upd_conn_def)
      qed (use that r(4) in simp_all)
      have "(\<exists>f. keyed_command f self p args w = Some w1) \<or> cmd_flushall p w = Some w1 \<or> same_core p w w1"
        using r(1) handle_command_core [OF _ w(1), of self p args w1] by (cases "0 < a_argc args") simp_all
      then consider f where "keyed_command f self p args w = Some w1" | "cmd_flushall p w = Some w1" | "same_core p w w1"
        by blast
      then show ?thesis
      proof cases
        case 1
        then show ?thesis using keyed_kv [OF _ w r(2)] c2 r(4) by simp
      next
        case 2
        then show ?thesis using flushall_kv [OF _ w(1) r(2)] c2 r(4) by simp
      qed (rule core)
    qed (use run' False fail still in auto)
  qed
qed


lemma abs_set_queue [simp]:
  "store (set_queue i q w) = store w" "w_conns (set_queue i q w) = w_conns w" "w_num_dbs (set_queue i q w) = w_num_dbs w"
  "nshards (set_queue i q w) = nshards w"
  by (simp_all add: store_def data_def set_queue_def fun_eq_iff)

lemma poll_message_kv:
  assumes deq: "mpmcq_dequeue (r_cb_queue (w_reactors w ! self)) = Some (q, Some m)"
    and run: "run_cb self m (set_queue self q w) = Some w'" and w: "world_ok w" "room w" "self < nshards w"
  shows "kv_step (nshards w) k (kv_of w) (kv_of w') \<and> w_num_dbs w' = w_num_dbs w"
proof -
  let ?w0 = "set_queue self q w"
  obtain ms where q: "queue w self = m # ms" "queue ?w0 = (queue w)(self := ms)" "msg_ok (nshards w) self m"
    using receive_cases [OF deq w(1,3)] by auto
  have w0: "world_ok ?w0" "room ?w0" using world_ok_dequeue(1) [OF w(1,3) deq] w(2) by simp_all
  show ?thesis
  proof (cases m)
    case (Request cb key hash oper)
    then have msg: "hash = key_hash key" "owns (nshards w) self key" "cb_src cb < nshards w"
      using q(3) w(3) by (auto simp: owns_def)
    let ?cb = "\<lparr>cb_src = cb_dst cb, cb_dst = cb_src cb, cb_conn = cb_conn cb\<rparr>"
    obtain c db db' res w1 sent where r: "w_conns w (cb_conn cb) = Some c" "get_db ?w0 self (c_db c) = Some db"
      "exec_op db key (key_hash key) oper = Some (db', res)"
      "reactor_send_message (cb_src cb) (Response ?cb res) (upd_db self (unat (c_db c)) db' ?w0) = Some (w1, sent)"
      "w' = notify self (cb_src cb) w1"
      using run Request msg(1) by (auto simp: run_cb_def cmd_req_def split: bind_splits)
    have key: "owns (nshards ?w0) self key" using msg(2) by simp
    obtain v where v: "spec_op (store ?w0 self (unat (c_db c))) key oper = Some (v, res)"
      "store (upd_db self (unat (c_db c)) db' ?w0) = (store ?w0)(self := (store ?w0 self)(unat (c_db c) := v))"
      by (rule exec_store [OF w0 key r(2,3)])
    have "key_ok key" "unat (key_hash key) mod nshards ?w0 = self" "self < nshards ?w0" using key by (simp_all add: owns_def)
    from send_cases [OF r(4) exec_world_ok [OF w0 this(3,1,2) r(2,3)]] msg(3)
    have s: "w_shards w1 = w_shards (upd_db self (unat (c_db c)) db' ?w0)" "w_conns w1 = w_conns w" "w_num_dbs w1 = w_num_dbs w"
      "queue w1 = (queue ?w0)(cb_src cb := queue ?w0 (cb_src cb) @ [Response ?cb res])"
      by simp_all
    have "store w1 = store (upd_db self (unat (c_db c)) db' ?w0)" using s(1) by (simp add: store_def data_def fun_eq_iff)
    moreover have "kv_clients (kv_of w') = kv_clients (kv_of w)" using s(2) by (simp add: fun_eq_iff r(5) notify_def)
    ultimately have "kv_step (nshards w) k (kv_of w) (kv_of w')"
      using q(1) Request msg(1,2) r(1,5) v s(4)
      by (intro kv_step.serve [where i = self and cb = cb and key = key and oper = oper and ms = ms
            and qs = "queue ?w0" and res = res])
        (simp_all add: client_def q(2))
    then show ?thesis using s(3) by (simp add: r(5))
  next
    case (Response cb res)
    then obtain c c' where c: "w_conns w (cb_conn cb) = Some c" "resp_op c res = Some c'"
      "w' = upd_conn (cb_conn cb) (c'\<lparr>c_flags := c_flags c' AND NOT DISPATCH_WAITING\<rparr>) ?w0"
      using run by (auto simp: run_cb_def cmd_resp_def split: bind_splits)
    have "w_conns w' = (w_conns w)(cb_conn cb \<mapsto> c'\<lparr>c_flags := c_flags c' AND NOT DISPATCH_WAITING\<rparr>)"
      by (simp add: c(3) upd_conn_def)
    from replies_upd [OF c(1) this] have "replies (cb_conn cb) (unat (c_db c)) (reply_of res) (kv_of w) (kv_of w')"
      using resp_op_client [OF c(2) world_ok_conn [OF w(1) c(1)]] by (simp add: pending_def)
    then have "kv_step (nshards w) k (kv_of w) (kv_of w')"
      using q(1,2) Response by (intro kv_step.answer) (simp_all add: c(3))
    then show ?thesis by (simp add: c(3))
  qed
qed


section \<open>Every step\<close>

lemma core_step:
  assumes "same_core p w w'" "client_step (map_option client (w_conns w p)) (map_option client (w_conns w' p))"
  shows "kv_step (nshards w) (w_num_dbs w) (kv_of w) (kv_of w') \<and> w_num_dbs w' = w_num_dbs w"
  using assms core_quiet by (simp add: same_core_def)

lemma core_step_conn:
  "same_core p w w1 \<Longrightarrow> w_conns w p = Some c \<Longrightarrow> client_step (Some (client c)) (Some (client c')) \<Longrightarrow>
    kv_step (nshards w) (w_num_dbs w) (kv_of w) (kv_of (upd_conn p c' w1)) \<and> w_num_dbs (upd_conn p c' w1) = w_num_dbs w"
  by (rule core_step [where p = p]) (simp, simp add: upd_conn_def)

lemma core_step_still:
  "same_core p w w' \<Longrightarrow> w_conns w' = w_conns w \<Longrightarrow>
    kv_step (nshards w) (w_num_dbs w) (kv_of w) (kv_of w') \<and> w_num_dbs w' = w_num_dbs w"
  by (rule core_step) (simp_all add: client_step.same)

lemma flush_client: "reactor_epoll_flush rv c = Some c' \<Longrightarrow> client_step (Some (client c)) (Some (client c'))"
  by (auto simp: reactor_epoll_flush_def client_def pending_def Let_def intro: client_step.intros split: if_splits)

lemma read_client: "on_epollin_read rv c = Some (c', go) \<Longrightarrow> client c' = client c"
  by (auto simp: on_epollin_read_def compact_def client_def pending_def Let_def split: sum.splits io_error.splits if_splits)

lemma close_kv:
  assumes "reactor_epoll_close i p w = Some w'"
  shows "kv_step (nshards w) (w_num_dbs w) (kv_of w) (kv_of w') \<and> w_num_dbs w' = w_num_dbs w"
proof -
  have "w_conns w p \<noteq> None" using assms by (auto simp: reactor_epoll_close_def split: bind_splits)
  then have "client_step (map_option client (w_conns w p)) (map_option client (w_conns w' p))"
    using core_close [OF assms] by (auto simp: client_step.leaves)
  then show ?thesis using core_step core_close [OF assms] by blast
qed

lemma finish_event_kv:
  assumes run: "finish_event self p out hup w = Some w'"
  shows "kv_step (nshards w) (w_num_dbs w) (kv_of w) (kv_of w') \<and> w_num_dbs w' = w_num_dbs w"
proof -
  obtain c c' where c: "w_conns w p = Some c" "(case out of None \<Rightarrow> Some c | Some rv \<Rightarrow> reactor_epoll_flush rv c) = Some c'"
    using run by (auto simp: finish_event_def split: bind_splits)
  have cl: "client_step (Some (client c)) (Some (client c'))"
    using c(2) flush_client by (auto simp: client_step.same split: option.splits)
  show ?thesis
  proof (cases "c_flags c' AND END \<noteq> 0 \<or> hup")
    case True
    then have "reactor_epoll_close self p (upd_conn p c' w) = Some w'" using run c by (simp add: finish_event_def)
    note cc = core_close [OF this]
    show ?thesis
    proof (rule core_step)
      show "same_core p w w'" using cc by (auto intro: same_core_trans [of p _ "upd_conn p c' w"])
    qed (use cc c(1) in \<open>simp add: client_step.leaves\<close>)
  next
    case False
    then have "w' = upd_conn p (c'\<lparr>c_flags := c_flags c' AND NOT BLOCKED\<rparr>) w" using run c by (simp add: finish_event_def)
    moreover have "client (c'\<lparr>c_flags := c_flags c' AND NOT BLOCKED\<rparr>) = client c'" by (simp add: client_def pending_def)
    ultimately show ?thesis using core_step_conn [OF same_core_refl c(1)] cl by simp
  qed
qed

lemma thread_step_kv:
  assumes st: "thread_step self (w, ph) (w', ph')" and w: "world_ok w" "self < nshards w"
  shows "kv_step (nshards w) (w_num_dbs w) (kv_of w) (kv_of w') \<and> w_num_dbs w' = w_num_dbs w"
  using st
proof (cases rule: thread_step.cases)
  case (flush_write k p c rv c' e)
  have "same_core p w (set_write_errno self (Some rv) e w)" by (simp add: set_write_errno_def core_upd_reactor)
  then show ?thesis unfolding flush_write(2) by (rule core_step_conn [OF _ flush_write(5) flush_client [OF flush_write(7)]])
next
  case (wake k)
  have "w_conns (fst (wakeup_target self k w)) = w_conns w" by (simp add: wakeup_target_def)
  then show ?thesis unfolding wake(2) by (rule core_step_still [OF core_wakeup])
next
  case (poll_message q m go cnt)
  show ?thesis by (rule poll_message_kv [OF poll_message(3,5) w(1) poll_message(4) w(2)])
next
  case (poll_empty q cnt)
  then have "w' = w" using receive_cases [OF poll_empty(4) w] by simp
  then show ?thesis by (simp add: core_step_still)
next
  case callback
  then show ?thesis using on_data_available_kv w by simp
next
  case request
  then show ?thesis using on_data_available_kv w by simp
next
  case (accept fd p base evs)
  have core: "same_core p w (accept_conn self fd p base w)"
    unfolding accept_conn_def set_fd_options_def
    by (rule same_core_trans [OF _ core_upd_reactor]) (simp_all add: reactor_conn_emplace_def core_upd_reactor)
  have joined: "map_option client (w_conns (accept_conn self fd p base w) p) = Some (0, [])"
    by (simp add: accept_conn_def set_fd_options_def upd_conn_def on_accept_def client_def pending_def)
  have "client_step (map_option client (w_conns w p)) (map_option client (w_conns (accept_conn self fd p base w) p))"
    unfolding joined accept(5) by (simp add: client_step.joins)
  then show ?thesis unfolding accept(2) by (rule core_step [OF core])
next
  case wakeup_read
  then show ?thesis by (simp add: core_step_still [OF core_upd_reactor])
next
  case wait_interrupted
  then show ?thesis by (simp add: core_step_still [OF core_upd_reactor])
next
  case (readable fd p c rv c' go out hup evs)
  have "client_step (Some (client c)) (Some (client c'))" by (simp add: read_client [OF readable(6)] client_step.same)
  then show ?thesis unfolding readable(2) by (rule core_step_conn [OF core_sets(4) readable(5)])
next
  case (finish p out hup w1 e evs)
  have "same_core p w1 (set_write_errno self out e w1)" by (simp add: set_write_errno_def core_upd_reactor)
  note e = core_abs [OF this]
  have "w_num_dbs w' = w_num_dbs w1" by (simp add: finish(2) set_write_errno_def)
  moreover have "kv_of w' = kv_of w1" using e by (simp add: finish(2) kv_of_def)
  ultimately show ?thesis using finish_event_kv [OF finish(4)] by simp
next
  case (close_next k)
  then show ?thesis using close_kv by (auto simp: core_step_still split: option.splits)
qed (use core_step_still [OF core_sets(1)] core_step_still [OF core_sets(2)] core_step_still [OF same_core_refl]
  in \<open>simp_all add: set_sleeping_def BITSET64_RESET_def\<close>)

section \<open>Reachable states\<close>

lemma kv_of_init:
  assumes "init_world seeds = Some w"
  shows "kv_of w = \<lparr>kv_store = \<lambda>i j. Map.empty, kv_queues = \<lambda>i. [], kv_clients = Map.empty\<rparr>"
    "nshards w = 4" "w_num_dbs w = 16"
proof -
  obtain w0 where w0: "init_world seeds = Some w0" "nshards w0 = 4" "w_reactors w0 = map reactor_init [0..<4]"
    "w_conns w0 = Map.empty" "w_num_dbs w0 = 16" "\<forall>s \<in> set (w_shards w0). \<forall>db \<in> set (s_dbs s). db_abs db = Map.empty"
    by (rule init_world_ok [of seeds], rule that, assumption+)
  then have w: "w0 = w" using assms by simp
  have "db_abs (s_dbs (w_shards w ! i) ! j) = Map.empty" if "i < nshards w" "j < length (s_dbs (w_shards w ! i))" for i j
    using bspec [OF bspec [OF w0(6) [unfolded w] nth_mem [OF that(1)]] nth_mem [OF that(2)]] .
  then have "store w i j = Map.empty" for i j by (simp add: store_def data_def)
  moreover have "queue w i = []" for i using w0(3) unfolding w by (simp add: queue_def reactor_init_def mailbox_init)
  ultimately show "kv_of w = \<lparr>kv_store = \<lambda>i j. Map.empty, kv_queues = \<lambda>i. [], kv_clients = Map.empty\<rparr>"
    using w0(4) unfolding w by (simp add: kv_of_def fun_eq_iff)
  show "nshards w = 4" "w_num_dbs w = 16" using w0(2,5) unfolding w .
qed

lemma server_step_kv:
  assumes "server_step (w, phases) (w', phases')" "world_ok w" "nshards w = n" "w_num_dbs w = k"
  shows "kv_step n k (kv_of w) (kv_of w') \<and> nshards w' = n \<and> w_num_dbs w' = k"
proof -
  obtain i ph where i: "i < nshards w" "thread_step i (w, phases i) (w', ph)"
    using assms(1) by (auto elim: server_stepE)
  show ?thesis using thread_step_kv [OF i(2) assms(2) i(1)] thread_step_ok [OF i(2) assms(2) i(1)] assms(3,4) by simp
qed

lemma reachable_kv:
  "reachable s \<Longrightarrow> kv_reachable 4 16 (kv_of (fst s)) \<and> nshards (fst s) = 4 \<and> w_num_dbs (fst s) = 16"
proof (induction rule: reachable.induct)
  case (start seeds w)
  then show ?case using kv_of_init [OF start] kv_reachable.start by simp
next
  case (step s s')
  have "server_step (fst s, snd s) (fst s', snd s')" using step.hyps(2) by simp
  from server_step_kv [OF this reachable_world_ok [OF step.hyps(1)]] show ?case
    using step.IH kv_reachable.step by blast
qed

end
