(* ===== verification/Store_Props.thy ===== *)
theory Store_Props
  imports Store_Refinement System_Props
begin

text \<open>
  The refinement of the whole server: its reachable states are states of the sharded store, and its
  steps are steps of the store. The witness is a server with a request on its way to another shard.
\<close>

text \<open>
  C1: The server is a sharded store. At start-up every map is empty, and whatever a thread does next -
  parse and execute a request, take a message from its mailbox, read, write, accept, close, stop -
  is exactly one step of the specification: one operation on one key of the database its client has
  selected, on the shard that owns the key, with the reply the operation gives appended to what
  that client is sent; or a request put last in the queue of the owner; or the first message of
  a queue served or answered; or FLUSHALL; or a step of one client that changes neither the data nor
  the queues and never alters bytes that client is waiting for.
\<close>

theorem server_refines_store:
  assumes "reachable (w, phases)"
  shows "kv_reachable 4 16 (kv_of w)
    \<and> (\<forall>w' phases'. server_step (w, phases) (w', phases') \<longrightarrow> kv_step 4 16 (kv_of w) (kv_of w'))"
  using reachable_kv [OF assms] server_step_kv [OF _ reachable_world_ok [OF assms, unfolded fst_conv]] by auto

theorem server_refines_store_witness:
  "\<exists>w phases. reachable (w, phases) \<and> queue w 3 \<noteq> [] \<and> kv_reachable 4 16 (kv_of w)"
proof -
  obtain w phases where r: "reachable (w, phases)" "nshards w = 4" "mq_abs (r_cb_queue (w_reactors w ! 3)) \<noteq> []"
    by (rule demo_run, rule that, assumption+)
  have "length (w_reactors w) = 4" using reachable_world_ok [OF r(1)] r(2) by (simp add: world_ok_def)
  then have "queue w 3 \<noteq> []" using r(3) by (simp add: queue_def)
  with server_refines_store [OF r(1)] r(1) show ?thesis by blast
qed

end
