(* ===== verification/Progress.thy ===== *)
theory Progress
  imports Store_Refinement Wakeup
begin

text \<open>
  Infinite executions of the server under a fair schedule: what every thread gets done in a turn of its
  loop, that its marks are rung, and that the messages of its mailbox are taken.
\<close>

section \<open>Executions\<close>

text \<open>Thread \<open>i\<close> takes the step from the state at time \<open>n\<close> to the next.\<close>

definition steps_at :: "nat \<Rightarrow> (nat \<Rightarrow> world \<times> (nat \<Rightarrow> phase)) \<Rightarrow> nat \<Rightarrow> bool" where
  "steps_at i \<sigma> n \<longleftrightarrow> i < nshards (fst (\<sigma> n))
     \<and> thread_step i (fst (\<sigma> n), snd (\<sigma> n) i) (fst (\<sigma> (Suc n)), snd (\<sigma> (Suc n)) i)
     \<and> snd (\<sigma> (Suc n)) = (snd (\<sigma> n))(i := snd (\<sigma> (Suc n)) i)"

text \<open>
  In \<open>marks_ok\<close> a thread that has found its mailbox empty at once has no marks left. It holds at start-up,
  and a thread leaves it only by taking \<open>2^64\<close> messages in one poll, when the count of them wraps.
\<close>

fun settled :: "phase \<Rightarrow> bool" where
  "settled (Polling cnt) \<longleftrightarrow> cnt = 0"
| "settled (Waiting blocking) \<longleftrightarrow> blocking"
| "settled Idle \<longleftrightarrow> True"
| "settled Checking \<longleftrightarrow> True"
| "settled _ \<longleftrightarrow> False"

fun counted :: "phase \<Rightarrow> bool" where
  "counted (Callback cnt p) \<longleftrightarrow> cnt \<noteq> 0"
| "counted _ \<longleftrightarrow> True"

definition marks_ok :: "world \<times> (nat \<Rightarrow> phase) \<Rightarrow> bool" where
  "marks_ok s \<longleftrightarrow> (\<forall>i < nshards (fst s). counted (snd s i)
     \<and> (settled (snd s i) \<longrightarrow> r_soft_notify (w_reactors (fst s) ! i) = 0))"

lemma marks_ok_start: "marks_ok (w, \<lambda>_. Loop_head)"
  by (simp add: marks_ok_def)

text \<open>An execution: a step of some thread, or a pause, at every time.\<close>

definition execution :: "(nat \<Rightarrow> world \<times> (nat \<Rightarrow> phase)) \<Rightarrow> bool" where
  "execution \<sigma> \<longleftrightarrow> reachable (\<sigma> 0) \<and> marks_ok (\<sigma> 0) \<and> (\<forall>n. \<sigma> (Suc n) = \<sigma> n \<or> (\<exists>i. steps_at i \<sigma> n))"

text \<open>A thread blocks in \<^verbatim>\<open>epoll_wait\<close> without a time-out as long as its event descriptor has not been rung.\<close>

definition blocked :: "nat \<Rightarrow> world \<times> (nat \<Rightarrow> phase) \<Rightarrow> bool" where
  "blocked i s \<longleftrightarrow> snd s i = Waiting True \<and> r_wakeup (w_reactors (fst s) ! i) = 0"

definition scheduled :: "(nat \<Rightarrow> world \<times> (nat \<Rightarrow> phase)) \<Rightarrow> bool" where
  "scheduled \<sigma> \<longleftrightarrow> (\<forall>i < nshards (fst (\<sigma> 0)). \<forall>n. \<exists>m \<ge> n. steps_at i \<sigma> m \<or> blocked i (\<sigma> m))"

text \<open>
  The inner loops end: the kernel takes the output, a poll comes to its end, and so do the requests of a
  connection (which they do by \<open>request_loop_ends\<close> unless an announced length wraps). The code needs this:
  a thread that stays in its flush, which tries again at once while the kernel takes nothing, or in a poll
  that others keep filling, never rings the reactors it has sent to.
\<close>

fun in_flush :: "phase \<Rightarrow> bool" where
  "in_flush (Flushing k) \<longleftrightarrow> True"
| "in_flush _ \<longleftrightarrow> False"

fun in_poll :: "phase \<Rightarrow> bool" where
  "in_poll (Polling cnt) \<longleftrightarrow> True"
| "in_poll (Callback cnt p) \<longleftrightarrow> True"
| "in_poll _ \<longleftrightarrow> False"

fun in_requests :: "phase \<Rightarrow> bool" where
  "in_requests (Reading p out hup evs) \<longleftrightarrow> True"
| "in_requests _ \<longleftrightarrow> False"

definition loops_end :: "(nat \<Rightarrow> world \<times> (nat \<Rightarrow> phase)) \<Rightarrow> bool" where
  "loops_end \<sigma> \<longleftrightarrow> (\<forall>i < nshards (fst (\<sigma> 0)). \<forall>n.
     (\<exists>m \<ge> n. \<not> in_flush (snd (\<sigma> m) i)) \<and> (\<exists>m \<ge> n. \<not> in_poll (snd (\<sigma> m) i)) \<and> (\<exists>m \<ge> n. \<not> in_requests (snd (\<sigma> m) i)))"

text \<open>Nobody shuts the server down, and no poll takes \<open>2^64 - 1\<close> messages.\<close>

definition in_service :: "(nat \<Rightarrow> world \<times> (nat \<Rightarrow> phase)) \<Rightarrow> bool" where
  "in_service \<sigma> \<longleftrightarrow> (\<forall>n. \<forall>i < nshards (fst (\<sigma> n)).
     r_running (w_reactors (fst (\<sigma> n)) ! i) \<and> snd (\<sigma> n) i \<noteq> Polling (- 1))"

definition fair_run :: "(nat \<Rightarrow> world \<times> (nat \<Rightarrow> phase)) \<Rightarrow> bool" where
  "fair_run \<sigma> \<longleftrightarrow> execution \<sigma> \<and> scheduled \<sigma> \<and> loops_end \<sigma> \<and> in_service \<sigma>"

section \<open>What a step of another thread leaves alone\<close>

lemma step_frame:
  assumes st: "thread_step i (w, ph) (w', ph')" and w: "world_ok w" "i < nshards w"
  shows "op_frame i w w' \<or> (\<exists>k. w' = fst (wakeup_target i k w)) \<or> (\<exists>k. ph = Waking k \<and> nshards w \<le> k \<and> w' = BITSET64_RESET i w)"
proof -
  have queue: "op_frame i w (set_queue i q w)" "op_frame i w (set_sleeping i b w)" for q b
    by (simp_all add: set_queue_def set_sleeping_def frame_self)
  show ?thesis using st
  proof (cases rule: thread_step.cases)
    case (flush_write k p c rv c' e)
    have "op_frame i w w'" unfolding flush_write(2) by (rule frame_conn_after) (simp add: frame_write_errno)
    then show ?thesis by simp
  next
    case wake
    then show ?thesis by blast
  next
    case poll_message
    then show ?thesis using frame_poll [OF _ _ w] by blast
  next
    case callback
    then show ?thesis using frame_on_data_available [OF _ w(1) _ w(2)] by blast
  next
    case request
    then show ?thesis using frame_on_data_available [OF _ w(1) _ w(2)] by blast
  next
    case (readable fd p c rv c' go)
    have "op_frame i w w'" unfolding readable(2)
      by (rule frame_conn_after) (simp add: set_read_errno_def frame_self frame_refl split: sum.splits)
    then show ?thesis by simp
  next
    case finish
    then show ?thesis using frame_trans [OF frame_finish frame_write_errno] by blast
  next
    case (close_next k)
    have "op_frame i w w'" using close_next(4) frame_close frame_refl by (auto split: option.splits)
    then show ?thesis by simp
  next
    case accept
    then show ?thesis using frame_accept by blast
  qed (use queue frame_refl frame_self in simp_all)
qed


lemma wakeup_fields:
  "r_soft_notify (w_reactors (fst (wakeup_target i k w)) ! j) = r_soft_notify (w_reactors w ! j)"
  "r_wakeup (w_reactors w ! j) \<le> r_wakeup (w_reactors (fst (wakeup_target i k w)) ! j)"
  by (simp add: wakeup_target_def upd_reactor_field [where g = r_soft_notify])
     (cases "k = j"; cases "k < length (w_reactors w)";
      simp add: wakeup_target_def upd_reactor_def list_update_beyond)

lemma other_step:
  assumes "thread_step i (w, ph) (w', ph')" "world_ok w" "i < nshards w" "j < nshards w" "j \<noteq> i" "\<not> stopped w'"
  shows "r_soft_notify (w_reactors w' ! j) = r_soft_notify (w_reactors w ! j)"
    "r_wakeup (w_reactors w ! j) \<le> r_wakeup (w_reactors w' ! j)"
proof -
  consider "op_frame i w w'" | k where "w' = fst (wakeup_target i k w)" | "w' = BITSET64_RESET i w"
    using step_frame [OF assms(1-3)] by blast
  then have "r_soft_notify (w_reactors w' ! j) = r_soft_notify (w_reactors w ! j)
    \<and> r_wakeup (w_reactors w ! j) \<le> r_wakeup (w_reactors w' ! j)"
  proof cases
    case 1
    then show ?thesis using assms(4-6) by (auto simp: op_frame_def keeps_marks_def keeps_awake_def)
  next
    case 2
    then show ?thesis using wakeup_fields by simp
  next
    case 3
    then show ?thesis using assms(5) by (simp add: BITSET64_RESET_def)
  qed
  then show "r_soft_notify (w_reactors w' ! j) = r_soft_notify (w_reactors w ! j)"
    "r_wakeup (w_reactors w ! j) \<le> r_wakeup (w_reactors w' ! j)" by simp_all
qed

text \<open>A mark goes away only at the end of the round over the marks.\<close>

lemma own_mark:
  assumes "thread_step i (w, ph) (w', ph')" "world_ok w" "i < nshards w" "j < nshards w" "\<not> stopped w'"
    "BITSET64_GET (r_soft_notify (w_reactors w ! i)) j" "\<And>k. ph = Waking k \<Longrightarrow> k < nshards w"
  shows "BITSET64_GET (r_soft_notify (w_reactors w' ! i)) j"
proof -
  consider "op_frame i w w'" | k where "w' = fst (wakeup_target i k w)"
    using step_frame [OF assms(1-3)] assms(7) by fastforce
  then show ?thesis
  proof cases
    case 1
    then show ?thesis using assms(4-6) by (auto simp: op_frame_def keeps_marks_def)
  next
    case 2
    then show ?thesis using assms(6) wakeup_fields(1) by simp
  qed
qed

lemma own_settled:
  assumes st: "thread_step i (w, ph) (w', ph')" and i: "i < length (w_reactors w)"
    and ph: "counted ph" "settled ph \<Longrightarrow> r_soft_notify (w_reactors w ! i) = 0" "ph \<noteq> Polling (- 1)"
  shows "counted ph'" "settled ph' \<Longrightarrow> r_soft_notify (w_reactors w' ! i) = 0"
proof -
  have wrap: "cnt + 1 \<noteq> 0" if "ph = Polling cnt" for cnt using ph(3) that by (metis eq_neg_iff_add_eq_0)
  have "counted ph' \<and> (settled ph' \<longrightarrow> r_soft_notify (w_reactors w' ! i) = 0)" using st
  proof (cases rule: thread_step.cases)
    case (wake_end k)
    then show ?thesis using i by (simp add: BITSET64_RESET_def)
  next
    case (poll_message q m go cnt)
    then show ?thesis using wrap by auto
  next
    case (poll_empty q cnt)
    then show ?thesis using ph(2) by (auto simp: set_queue_def upd_reactor_field [where g = r_soft_notify] word_gt_0)
  next
    case (callback p again cnt)
    then show ?thesis using ph(1) by auto
  next
    case sleep
    then show ?thesis using ph(2) by (simp add: set_sleeping_def upd_reactor_field [where g = r_soft_notify])
  next
    case check_none
    then show ?thesis using ph(2) by simp
  next
    case (woken b res)
    then show ?thesis by (cases res) simp_all
  qed simp_all
  then show "counted ph'" "settled ph' \<Longrightarrow> r_soft_notify (w_reactors w' ! i) = 0" by simp_all
qed

section \<open>What a step does to the mailboxes\<close>

definition queues_grow :: "world \<Rightarrow> world \<Rightarrow> bool" where
  "queues_grow w w' \<longleftrightarrow> (\<forall>j. prefix (queue w j) (queue w' j))"

lemma grow_same: "queue w' = queue w \<Longrightarrow> queues_grow w w'"
  by (simp add: queues_grow_def)

lemma grow_core: "same_core p w w' \<Longrightarrow> queues_grow w w'"
  by (simp add: grow_same core_queue)

lemma grow_send:
  assumes "reactor_send_message i msg w = Some (w', sent)" "world_ok w" "i < nshards w"
  shows "queues_grow w w'"
  using send_cases [OF assms] by (simp add: queues_grow_def)

lemma grow_keyed:
  assumes run: "keyed_command f self p args w = Some w'" and w: "world_ok w" "self < nshards w"
  shows "queues_grow w w'"
  using run
proof (cases rule: keyed_command_cases)
  case (remote c key oper sid w1)
  have "sid < nshards w" using world_ok_owner [OF w(1)] remote(3) by simp
  from grow_send [OF remote(5) w(1) this] show ?thesis by (simp add: remote(6) queues_grow_def)
next
  case (refused c key oper sid w1 msg c')
  have "sid < nshards w" using world_ok_owner [OF w(1)] refused(3) by simp
  from grow_send [OF refused(4) w(1) this] show ?thesis by (simp add: refused(6) queues_grow_def)
qed (simp_all add: grow_same)

lemma grow_flushall: "cmd_flushall p w = Some w' \<Longrightarrow> queues_grow w w'"
  by (rule grow_same) (auto simp: cmd_flushall_def queue_def upd_conn_def fun_eq_iff split: bind_splits)

lemma grow_on_data_available:
  assumes run: "on_data_available self p w = Some (w', again)" and w: "world_ok w" "self < nshards w"
  shows "queues_grow w w'"
proof -
  obtain c where c: "w_conns w p = Some c" using run by (auto simp: on_data_available_def split: bind_splits)
  note run' = run [unfolded on_data_available_def c bind.bind_lunit]
  have conn: "queues_grow w (upd_conn p c' w)" for c' by (simp add: grow_same)
  show ?thesis
  proof (cases "c_recv_buf_size c < 1")
    case False
    show ?thesis
    proof (cases "parse_request c")
      case (PARSE_OK args)
      then obtain w1 c1 c2 where r: "(if 0 < a_argc args then handle_command self p args w else Some w) = Some w1"
        "w' = upd_conn p c2 w1"
        using run' False by (auto split: bind_splits prod.splits)
      have "(\<exists>f. keyed_command f self p args w = Some w1) \<or> cmd_flushall p w = Some w1 \<or> same_core p w w1"
        using r(1) handle_command_core [OF _ w(1), of self p args w1] by (cases "0 < a_argc args") simp_all
      then have "queues_grow w w1" using grow_keyed [OF _ w] grow_flushall grow_core by blast
      then show ?thesis using r(2) by (simp add: queues_grow_def)
    qed (use run' False conn grow_same in auto)
  qed (use run' grow_same in simp)
qed

lemma grow_run_cb:
  assumes run: "run_cb self m w = Some w'" and w: "world_ok w" "room w" "self < nshards w" and msg: "msg_ok (nshards w) self m"
  shows "queues_grow w w'"
proof (cases m)
  case (Request cb key hash oper)
  then have k: "hash = key_hash key" "key_ok key" "unat (key_hash key) mod nshards w = self" "cb_src cb < nshards w"
    using msg by auto
  obtain c :: conn and db db' res w1 sent where r: "get_db w self (c_db c) = Some db" "exec_op db key (key_hash key) oper = Some (db', res)"
    "reactor_send_message (cb_src cb) (Response \<lparr>cb_src = cb_dst cb, cb_dst = cb_src cb, cb_conn = cb_conn cb\<rparr> res)
       (upd_db self (unat (c_db c)) db' w) = Some (w1, sent)" "w' = notify self (cb_src cb) w1"
    using run Request k(1) by (auto simp: run_cb_def cmd_req_def split: bind_splits)
  have "queues_grow (upd_db self (unat (c_db c)) db' w) w1"
    using grow_send [OF r(3) exec_world_ok [OF w k(2,3) r(1,2)]] k(4) by simp
  then show ?thesis by (simp add: queues_grow_def r(4))
next
  case (Response cb res)
  then show ?thesis using run by (auto simp: run_cb_def cmd_resp_def grow_same split: bind_splits)
qed

lemma core_finish:
  assumes run: "finish_event self p out hup w = Some w'"
  shows "same_core p w w'"
proof -
  obtain c c' where c: "w_conns w p = Some c" "(case out of None \<Rightarrow> Some c | Some rv \<Rightarrow> reactor_epoll_flush rv c) = Some c'"
    using run by (auto simp: finish_event_def split: bind_splits)
  have up: "same_core p w (upd_conn p c' w)" by simp
  show ?thesis
    using run c core_close [of self p "upd_conn p c' w" w'] same_core_trans [OF up]
    by (auto simp: finish_event_def split: if_splits)
qed

text \<open>Messages are put at the end of a queue, and only the thread that owns a queue takes the first one.\<close>

lemma step_queue:
  assumes st: "thread_step i (w, ph) (w', ph')" and w: "world_ok w" "i < nshards w"
  shows "queues_grow w w' \<or> (\<exists>cnt m ms. ph = Polling cnt \<and> queue w i = m # ms \<and> prefix ms (queue w' i)
    \<and> (\<forall>j. j \<noteq> i \<longrightarrow> prefix (queue w j) (queue w' j)))"
  using st
proof (cases rule: thread_step.cases)
  case (flush_write k p c rv c' e)
  have "same_core p w w'" unfolding flush_write(2) by (simp add: set_write_errno_def core_upd_reactor)
  then show ?thesis by (simp add: grow_core)
next
  case wake
  then show ?thesis using grow_core [OF core_wakeup] by simp
next
  case wake_end
  then show ?thesis using grow_core [OF core_sets(2)] by simp
next
  case (poll_message q m go cnt)
  obtain ms where q: "queue w i = m # ms" "queue (set_queue i q w) = (queue w)(i := ms)" "msg_ok (nshards w) i m"
    using receive_cases [OF poll_message(3) w] by auto
  have "queues_grow (set_queue i q w) w'"
    using grow_run_cb [OF poll_message(5) world_ok_dequeue(1) [OF w poll_message(3)]] poll_message(4) w(2) q(3) by simp
  then have pre: "prefix (((queue w)(i := ms)) j) (queue w' j)" for j using q(2) by (simp add: queues_grow_def)
  have "prefix ms (queue w' i)" using pre [of i] by simp
  moreover have "\<forall>j. j \<noteq> i \<longrightarrow> prefix (queue w j) (queue w' j)" using pre by (metis fun_upd_other)
  ultimately show ?thesis using poll_message(1) q(1) by blast
next
  case (poll_empty q cnt)
  then have "w' = w" using receive_cases [OF poll_empty(4) w] by simp
  then show ?thesis by (simp add: grow_same)
next
  case callback
  then show ?thesis using grow_on_data_available [OF _ w] by blast
next
  case request
  then show ?thesis using grow_on_data_available [OF _ w] by blast
next
  case sleep
  then show ?thesis using grow_core [OF core_sets(1)] by simp
next
  case check_pending
  then show ?thesis using grow_core [OF core_sets(1)] by simp
next
  case wait_interrupted
  then show ?thesis using grow_core [OF core_upd_reactor] by simp
next
  case (woken b res)
  then show ?thesis using grow_core [OF core_sets(1)] by (auto simp: grow_same)
next
  case (accept fd p base evs)
  have "same_core p w w'" unfolding accept(2) accept_conn_def set_fd_options_def
    by (rule same_core_trans [OF _ core_upd_reactor]) (simp_all add: reactor_conn_emplace_def core_upd_reactor)
  then show ?thesis by (simp add: grow_core)
next
  case wakeup_read
  then show ?thesis using grow_core [OF core_upd_reactor] by simp
next
  case (readable fd p c rv c' go out hup evs)
  have "same_core p w w'" unfolding readable(2) by simp
  then show ?thesis by (simp add: grow_core)
next
  case (finish p out hup w1 e evs)
  have "same_core p w w1" by (rule core_finish [OF finish(4)])
  moreover have "same_core p w1 w'" unfolding finish(2) by (simp add: set_write_errno_def core_upd_reactor)
  ultimately show ?thesis using grow_core same_core_trans by blast
next
  case (close_next k)
  then show ?thesis
    using grow_core [OF core_close [THEN conjunct1]] by (cases "conn_at w i k") (auto simp: grow_same)
qed (simp_all add: grow_same)


section \<open>Invariants of an execution\<close>

lemma execution_step:
  assumes "reachable (\<sigma> n)" "steps_at i \<sigma> n"
  shows "reachable (\<sigma> (Suc n))" "nshards (fst (\<sigma> (Suc n))) = nshards (fst (\<sigma> n))"
proof -
  let ?w = "fst (\<sigma> n)" and ?w' = "fst (\<sigma> (Suc n))"
  have st: "i < nshards ?w" "thread_step i (?w, snd (\<sigma> n) i) (?w', snd (\<sigma> (Suc n)) i)"
    "snd (\<sigma> (Suc n)) = (snd (\<sigma> n))(i := snd (\<sigma> (Suc n)) i)" using assms(2) by (simp_all add: steps_at_def)
  have "server_step (?w, snd (\<sigma> n)) (?w', (snd (\<sigma> n))(i := snd (\<sigma> (Suc n)) i))"
    using st(2) by (intro server_step.intros [OF st(1)])
  then have "server_step (?w, snd (\<sigma> n)) (?w', snd (\<sigma> (Suc n)))" by (simp only: st(3) [symmetric])
  then have "server_step (\<sigma> n) (\<sigma> (Suc n))" by simp
  then show "reachable (\<sigma> (Suc n))" by (rule reachable.step [OF assms(1)])
  show "nshards ?w' = nshards ?w" using thread_step_ok [OF st(2) reachable_world_ok [OF assms(1)] st(1)] by simp
qed

lemma not_stopped: "in_service \<sigma> \<Longrightarrow> i < nshards (fst (\<sigma> n)) \<Longrightarrow> \<not> stopped (fst (\<sigma> n))"
  by (auto simp: in_service_def stopped_def)

lemma marks_step:
  assumes "reachable (\<sigma> n)" "marks_ok (\<sigma> n)" "steps_at i \<sigma> n" "in_service \<sigma>"
  shows "marks_ok (\<sigma> (Suc n))"
  unfolding marks_ok_def
proof (intro allI impI)
  let ?w = "fst (\<sigma> n)" and ?w' = "fst (\<sigma> (Suc n))"
  fix j assume j: "j < nshards ?w'"
  have n: "nshards ?w' = nshards ?w" by (rule execution_step(2) [OF assms(1,3)])
  have st: "i < nshards ?w" "thread_step i (?w, snd (\<sigma> n) i) (?w', snd (\<sigma> (Suc n)) i)"
    "snd (\<sigma> (Suc n)) = (snd (\<sigma> n))(i := snd (\<sigma> (Suc n)) i)" using assms(3) by (simp_all add: steps_at_def)
  note ok = reachable_world_ok [OF assms(1)]
  have old: "counted (snd (\<sigma> n) k)" "settled (snd (\<sigma> n) k) \<Longrightarrow> r_soft_notify (w_reactors ?w ! k) = 0" if "k < nshards ?w" for k
    using assms(2) that by (simp_all add: marks_ok_def)
  show "counted (snd (\<sigma> (Suc n)) j) \<and> (settled (snd (\<sigma> (Suc n)) j) \<longrightarrow> r_soft_notify (w_reactors ?w' ! j) = 0)"
  proof (cases "j = i")
    case True
    have "i < length (w_reactors ?w)" using ok st(1) by (simp add: world_ok_def)
    moreover have "snd (\<sigma> n) i \<noteq> Polling (- 1)" using assms(4) st(1) by (simp add: in_service_def)
    ultimately show ?thesis using own_settled [OF st(2) _ old(1) [OF st(1)] old(2) [OF st(1)]] True by blast
  next
    case False
    have "snd (\<sigma> (Suc n)) j = snd (\<sigma> n) j" using fun_cong [OF st(3), of j] False by simp
    moreover have "r_soft_notify (w_reactors ?w' ! j) = r_soft_notify (w_reactors ?w ! j)"
      using other_step(1) [OF st(2) ok st(1) _ False not_stopped [OF assms(4) j]] j n by simp
    ultimately show ?thesis using old [of j] j n by simp
  qed
qed

lemma execution_inv:
  assumes "execution \<sigma>" "in_service \<sigma>"
  shows "reachable (\<sigma> n) \<and> marks_ok (\<sigma> n) \<and> nshards (fst (\<sigma> n)) = nshards (fst (\<sigma> 0))"
proof (induction n)
  case 0
  then show ?case using assms(1) by (simp add: execution_def)
next
  case (Suc n)
  have "\<sigma> (Suc n) = \<sigma> n \<or> (\<exists>i. steps_at i \<sigma> n)" using assms(1) by (simp add: execution_def)
  then show ?case
  proof
    assume "\<exists>i. steps_at i \<sigma> n"
    then obtain i where "steps_at i \<sigma> n" by blast
    then show ?thesis using Suc execution_step marks_step [OF _ _ _ assms(2)] by metis
  qed (use Suc in simp)
qed

lemma fair_facts:
  assumes "fair_run \<sigma>"
  shows "reachable (\<sigma> n)" "marks_ok (\<sigma> n)" "nshards (fst (\<sigma> n)) = nshards (fst (\<sigma> 0))" "world_ok (fst (\<sigma> n))"
    "wake_ok (fst (\<sigma> n)) (snd (\<sigma> n))"
    "i < nshards (fst (\<sigma> 0)) \<Longrightarrow> r_running (w_reactors (fst (\<sigma> n)) ! i)"
    "i < nshards (fst (\<sigma> 0)) \<Longrightarrow> \<not> stopped (fst (\<sigma> n))"
proof -
  have f: "execution \<sigma>" "in_service \<sigma>" using assms by (simp_all add: fair_run_def)
  from execution_inv [OF f, of n] show r: "reachable (\<sigma> n)" and "marks_ok (\<sigma> n)" and
    n: "nshards (fst (\<sigma> n)) = nshards (fst (\<sigma> 0))" by simp_all
  show "world_ok (fst (\<sigma> n))" "wake_ok (fst (\<sigma> n)) (snd (\<sigma> n))"
    using reachable_world_ok [OF r] reachable_wake_ok [OF r] by simp_all
  show "i < nshards (fst (\<sigma> 0)) \<Longrightarrow> r_running (w_reactors (fst (\<sigma> n)) ! i)" using f(2) n by (simp add: in_service_def)
  show "i < nshards (fst (\<sigma> 0)) \<Longrightarrow> \<not> stopped (fst (\<sigma> n))" using not_stopped [OF f(2)] n by simp
qed

section \<open>Steps of one thread in an execution\<close>

lemma own_step: "steps_at i \<sigma> n \<Longrightarrow> thread_step i (fst (\<sigma> n), snd (\<sigma> n) i) (fst (\<sigma> (Suc n)), snd (\<sigma> (Suc n)) i)"
  by (simp add: steps_at_def)

text \<open>What a thread sees of a step that is not its own.\<close>

lemma pause_step:
  assumes "fair_run \<sigma>" "i < nshards (fst (\<sigma> 0))" "\<not> steps_at i \<sigma> n"
  shows "snd (\<sigma> (Suc n)) i = snd (\<sigma> n) i"
    "r_soft_notify (w_reactors (fst (\<sigma> (Suc n))) ! i) = r_soft_notify (w_reactors (fst (\<sigma> n)) ! i)"
    "r_wakeup (w_reactors (fst (\<sigma> n)) ! i) \<le> r_wakeup (w_reactors (fst (\<sigma> (Suc n))) ! i)"
proof -
  have "execution \<sigma>" using assms(1) by (simp add: fair_run_def)
  then have "\<sigma> (Suc n) = \<sigma> n \<or> (\<exists>k. steps_at k \<sigma> n)" by (simp add: execution_def)
  then have "snd (\<sigma> (Suc n)) i = snd (\<sigma> n) i
    \<and> r_soft_notify (w_reactors (fst (\<sigma> (Suc n))) ! i) = r_soft_notify (w_reactors (fst (\<sigma> n)) ! i)
    \<and> r_wakeup (w_reactors (fst (\<sigma> n)) ! i) \<le> r_wakeup (w_reactors (fst (\<sigma> (Suc n))) ! i)"
  proof
    assume "\<exists>k. steps_at k \<sigma> n"
    then obtain k where k: "steps_at k \<sigma> n" by blast
    then have ki: "k < nshards (fst (\<sigma> n))" "snd (\<sigma> (Suc n)) = (snd (\<sigma> n))(k := snd (\<sigma> (Suc n)) k)" "i \<noteq> k"
      using assms(3) by (auto simp: steps_at_def)
    have "i < nshards (fst (\<sigma> n))" using fair_facts(3) [OF assms(1), of n] assms(2) by simp
    from other_step [OF own_step [OF k] fair_facts(4) [OF assms(1)] ki(1) this ki(3) fair_facts(7) [OF assms(1,2)]]
    show ?thesis using fun_cong [OF ki(2), of i] ki(3) by simp
  qed simp
  then show "snd (\<sigma> (Suc n)) i = snd (\<sigma> n) i"
    "r_soft_notify (w_reactors (fst (\<sigma> (Suc n))) ! i) = r_soft_notify (w_reactors (fst (\<sigma> n)) ! i)"
    "r_wakeup (w_reactors (fst (\<sigma> n)) ! i) \<le> r_wakeup (w_reactors (fst (\<sigma> (Suc n))) ! i)" by simp_all
qed

text \<open>A thread that is not blocked takes its next step, and is where it was until then.\<close>

lemma next_step:
  assumes f: "fair_run \<sigma>" "i < nshards (fst (\<sigma> 0))"
    and x: "snd (\<sigma> n) i = x" "x = Waiting True \<Longrightarrow> 0 < r_wakeup (w_reactors (fst (\<sigma> n)) ! i)"
  obtains m where "n \<le> m" "steps_at i \<sigma> m" "\<forall>k. n \<le> k \<and> k \<le> m \<longrightarrow> snd (\<sigma> k) i = x"
proof -
  let ?P = "\<lambda>m. n \<le> m \<and> (steps_at i \<sigma> m \<or> blocked i (\<sigma> m))"
  have "\<exists>m. ?P m" using f by (auto simp: fair_run_def scheduled_def)
  then have P: "?P (LEAST m. ?P m)" by (rule LeastI_ex)
  define m where "m = (LEAST m. ?P m)"
  have least: "\<not> steps_at i \<sigma> k" if "n \<le> k" "k < m" for k using not_less_Least [of k ?P] that by (auto simp: m_def)
  have stay: "snd (\<sigma> k) i = x \<and> (x = Waiting True \<longrightarrow> 0 < r_wakeup (w_reactors (fst (\<sigma> k)) ! i))" if "n \<le> k" "k \<le> m" for k
    using that
  proof (induction k rule: dec_induct)
    case base
    then show ?case using x by simp
  next
    case (step k)
    then show ?case using pause_step(1,3) [OF f least [of k]] by fastforce
  qed
  have "\<not> blocked i (\<sigma> m)" using stay [of m] P by (auto simp: blocked_def m_def)
  then show thesis using that [of m] P stay by (auto simp: m_def)
qed

text \<open>A thread leaves a set of phases, if it does, by a step of its own.\<close>

lemma leave:
  assumes f: "fair_run \<sigma>" "i < nshards (fst (\<sigma> 0))" and Q: "Q (snd (\<sigma> n) i)" "\<exists>m \<ge> n. \<not> Q (snd (\<sigma> m) i)"
  obtains m where "n \<le> m" "steps_at i \<sigma> m" "Q (snd (\<sigma> m) i)" "\<not> Q (snd (\<sigma> (Suc m)) i)"
    "\<forall>k. n \<le> k \<and> k \<le> m \<longrightarrow> Q (snd (\<sigma> k) i)"
proof -
  let ?P = "\<lambda>m. n \<le> m \<and> \<not> Q (snd (\<sigma> m) i)"
  have "\<exists>m. ?P m" using Q(2) by blast
  then have P: "?P (LEAST m. ?P m)" by (rule LeastI_ex)
  have least: "Q (snd (\<sigma> k) i)" if "n \<le> k" "k < (LEAST m. ?P m)" for k using not_less_Least [of k ?P] that by blast
  have ne: "n \<noteq> (LEAST m. ?P m)" using P Q(1) by metis
  then obtain m where m: "(LEAST m. ?P m) = Suc m" "n \<le> m" using P by (cases "LEAST m. ?P m") auto
  have "Q (snd (\<sigma> m) i)" "\<not> Q (snd (\<sigma> (Suc m)) i)" using least [of m] P m by simp_all
  moreover from this have "steps_at i \<sigma> m" using pause_step(1) [OF f] by metis
  ultimately show thesis using that [OF m(2)] least m(1) by simp
qed

section \<open>From anywhere in the loop to the round over the marks\<close>

text \<open>The phases in which the round over the marks is still to come and the mailbox has been left.\<close>

fun turning :: "phase \<Rightarrow> bool" where
  "turning Loop_head \<longleftrightarrow> True"
| "turning (Flushing k) \<longleftrightarrow> True"
| "turning (Waiting blocking) \<longleftrightarrow> \<not> blocking"
| "turning (Woken b res) \<longleftrightarrow> True"
| "turning (Handling evs) \<longleftrightarrow> True"
| "turning (Reading p out hup evs) \<longleftrightarrow> True"
| "turning (Finishing p out hup evs) \<longleftrightarrow> True"
| "turning _ \<longleftrightarrow> False"

definition leads :: "nat \<Rightarrow> (nat \<Rightarrow> world \<times> (nat \<Rightarrow> phase)) \<Rightarrow> nat \<Rightarrow> phase \<Rightarrow> bool" where
  "leads i \<sigma> n x \<longleftrightarrow> (\<exists>m \<ge> n. snd (\<sigma> m) i = x \<and> (\<forall>k. n \<le> k \<and> k < m \<longrightarrow> turning (snd (\<sigma> k) i)))"

lemma leads_trans:
  assumes "leads i \<sigma> n x" "\<And>m. n \<le> m \<Longrightarrow> snd (\<sigma> m) i = x \<Longrightarrow> leads i \<sigma> m y"
  shows "leads i \<sigma> n y"
proof -
  obtain m where m: "n \<le> m" "snd (\<sigma> m) i = x" "\<And>k. n \<le> k \<Longrightarrow> k < m \<Longrightarrow> turning (snd (\<sigma> k) i)"
    using assms(1) by (auto simp: leads_def)
  obtain m' where m': "m \<le> m'" "snd (\<sigma> m') i = y" "\<And>k. m \<le> k \<Longrightarrow> k < m' \<Longrightarrow> turning (snd (\<sigma> k) i)"
    using assms(2) [OF m(1,2)] by (auto simp: leads_def)
  have "turning (snd (\<sigma> k) i)" if "n \<le> k" "k < m'" for k using m(3) m'(3) that by (cases "k < m") simp_all
  then show ?thesis using m(1) m'(1,2) by (auto simp: leads_def intro!: exI [of _ m'])
qed

lemma leads_step:
  assumes f: "fair_run \<sigma>" "i < nshards (fst (\<sigma> 0))" and x: "snd (\<sigma> n) i = x" "turning x"
  obtains m where "steps_at i \<sigma> m" "snd (\<sigma> m) i = x" "leads i \<sigma> n (snd (\<sigma> (Suc m)) i)"
proof -
  have "x = Waiting True \<Longrightarrow> 0 < r_wakeup (w_reactors (fst (\<sigma> n)) ! i)" using x(2) by simp
  from f x(1) this obtain m where m: "n \<le> m" "steps_at i \<sigma> m" "\<forall>k. n \<le> k \<and> k \<le> m \<longrightarrow> snd (\<sigma> k) i = x"
    by (rule next_step)
  have "n \<le> Suc m" "\<forall>k. n \<le> k \<and> k < Suc m \<longrightarrow> turning (snd (\<sigma> k) i)" using m x(2) by simp_all
  then have "leads i \<sigma> n (snd (\<sigma> (Suc m)) i)" unfolding leads_def by blast
  then show thesis using that m by simp
qed

lemma leads_leave:
  assumes f: "fair_run \<sigma>" "i < nshards (fst (\<sigma> 0))"
    and Q: "Q (snd (\<sigma> n) i)" "\<exists>m \<ge> n. \<not> Q (snd (\<sigma> m) i)" "\<And>x. Q x \<Longrightarrow> turning x"
  obtains m where "steps_at i \<sigma> m" "Q (snd (\<sigma> m) i)" "\<not> Q (snd (\<sigma> (Suc m)) i)" "leads i \<sigma> n (snd (\<sigma> (Suc m)) i)"
proof -
  obtain m where m: "n \<le> m" "steps_at i \<sigma> m" "Q (snd (\<sigma> m) i)" "\<not> Q (snd (\<sigma> (Suc m)) i)"
    "\<forall>k. n \<le> k \<and> k \<le> m \<longrightarrow> Q (snd (\<sigma> k) i)" by (rule leave [of \<sigma> i Q n, OF f Q(1,2)]) (rule that, assumption+)
  have "n \<le> Suc m" "\<forall>k. n \<le> k \<and> k < Suc m \<longrightarrow> turning (snd (\<sigma> k) i)" using m Q(3) by simp_all
  then have "leads i \<sigma> n (snd (\<sigma> (Suc m)) i)" unfolding leads_def by blast
  then show thesis by (rule that [OF m(2-4)])
qed

lemma flushing_ends:
  assumes f: "fair_run \<sigma>" "i < nshards (fst (\<sigma> 0))" and x: "snd (\<sigma> n) i = Flushing k"
  shows "leads i \<sigma> n (Waking 0)"
proof -
  have "\<exists>m \<ge> n. \<not> in_flush (snd (\<sigma> m) i)" using f by (auto simp: fair_run_def loops_end_def)
  then obtain m where m: "steps_at i \<sigma> m" "in_flush (snd (\<sigma> m) i)" "\<not> in_flush (snd (\<sigma> (Suc m)) i)"
    "leads i \<sigma> n (snd (\<sigma> (Suc m)) i)"
    using leads_leave [of \<sigma> i in_flush n, OF f] x by (metis in_flush.elims(2) in_flush.simps(1) turning.simps(2))
  from own_step [OF m(1)] have "snd (\<sigma> (Suc m)) i = Waking 0"
    by (cases rule: thread_step.cases) (use m(2,3) in \<open>simp_all split: if_splits\<close>)
  then show ?thesis using m(4) by simp
qed

lemma head_goes:
  assumes f: "fair_run \<sigma>" "i < nshards (fst (\<sigma> 0))" and x: "snd (\<sigma> n) i = Loop_head"
  shows "leads i \<sigma> n (Waking 0)"
proof -
  obtain m where m: "steps_at i \<sigma> m" "snd (\<sigma> m) i = Loop_head" "leads i \<sigma> n (snd (\<sigma> (Suc m)) i)"
    by (rule leads_step [OF f x]) simp_all
  from own_step [OF m(1)] have "snd (\<sigma> (Suc m)) i = Flushing 0"
    by (cases rule: thread_step.cases) (use m(2) fair_facts(6) [OF f(1,2), of m] in simp_all)
  then show ?thesis using leads_trans [OF m(3)] flushing_ends [OF f] by simp
qed

text \<open>The handling of an event goes on with the rest of the events.\<close>

lemma event_handled:
  assumes f: "fair_run \<sigma>" "i < nshards (fst (\<sigma> 0))"
    and x: "snd (\<sigma> n) i = Finishing p out hup evs \<or> snd (\<sigma> n) i = Reading p out hup evs"
  shows "leads i \<sigma> n (Handling evs)"
proof -
  have finishing: "leads i \<sigma> n (Handling evs)" if "snd (\<sigma> n) i = Finishing p out hup evs" for n
  proof -
    note n = that
    obtain m where m: "steps_at i \<sigma> m" "snd (\<sigma> m) i = Finishing p out hup evs" "leads i \<sigma> n (snd (\<sigma> (Suc m)) i)"
      by (rule leads_step [OF f n]) simp_all
    from own_step [OF m(1)] have "snd (\<sigma> (Suc m)) i = Handling evs"
      by (cases rule: thread_step.cases) (use m(2) in simp_all)
    then show ?thesis using m(3) by simp
  qed
  from x show ?thesis
  proof
    assume r: "snd (\<sigma> n) i = Reading p out hup evs"
    let ?Q = "\<lambda>x. x = Reading p out hup evs"
    have "\<exists>m \<ge> n. \<not> in_requests (snd (\<sigma> m) i)" using f by (auto simp: fair_run_def loops_end_def)
    then have "\<exists>m \<ge> n. \<not> ?Q (snd (\<sigma> m) i)" by auto
    then obtain m where m: "steps_at i \<sigma> m" "?Q (snd (\<sigma> m) i)" "\<not> ?Q (snd (\<sigma> (Suc m)) i)"
      "leads i \<sigma> n (snd (\<sigma> (Suc m)) i)" using leads_leave [of \<sigma> i ?Q n, OF f r] by (metis turning.simps(6))
    from own_step [OF m(1)] have "snd (\<sigma> (Suc m)) i = Finishing p out hup evs"
      by (cases rule: thread_step.cases) (use m(2,3) in \<open>simp_all split: if_splits\<close>)
    then show ?thesis using leads_trans [OF m(4)] finishing by simp
  qed (rule finishing)
qed

lemma events_handled:
  assumes f: "fair_run \<sigma>" "i < nshards (fst (\<sigma> 0))"
  shows "snd (\<sigma> n) i = Handling evs \<Longrightarrow> leads i \<sigma> n (Waking 0)"
proof (induction evs arbitrary: n)
  case Nil
  obtain m where m: "steps_at i \<sigma> m" "snd (\<sigma> m) i = Handling []" "leads i \<sigma> n (snd (\<sigma> (Suc m)) i)"
    by (rule leads_step [OF f Nil]) simp_all
  from own_step [OF m(1)] have "snd (\<sigma> (Suc m)) i = Loop_head"
    by (cases rule: thread_step.cases) (use m(2) in simp_all)
  then show ?case using leads_trans [OF m(3)] head_goes [OF f] by simp
next
  case (Cons e evs)
  obtain m where m: "steps_at i \<sigma> m" "snd (\<sigma> m) i = Handling (e # evs)" "leads i \<sigma> n (snd (\<sigma> (Suc m)) i)"
    by (rule leads_step [OF f Cons.prems]) simp_all
  from own_step [OF m(1)]
  have "snd (\<sigma> (Suc m)) i = Handling evs \<or> (\<exists>p out hup. snd (\<sigma> (Suc m)) i = Finishing p out hup evs
    \<or> snd (\<sigma> (Suc m)) i = Reading p out hup evs)"
    by (cases rule: thread_step.cases) (use m(2) in simp_all)
  then consider "snd (\<sigma> (Suc m)) i = Handling evs" | p out hup where "snd (\<sigma> (Suc m)) i = Finishing p out hup evs
    \<or> snd (\<sigma> (Suc m)) i = Reading p out hup evs" by blast
  then show ?case
  proof cases
    case 1
    then show ?thesis using leads_trans [OF m(3)] Cons.IH by simp
  next
    case (2 p out hup)
    from m(3) show ?thesis
    proof (rule leads_trans)
      fix k assume "n \<le> k" "snd (\<sigma> k) i = snd (\<sigma> (Suc m)) i"
      then have "leads i \<sigma> k (Handling evs)" using event_handled [OF f, of k p out hup evs] 2 by simp
      then show "leads i \<sigma> k (Waking 0)" using leads_trans Cons.IH by blast
    qed
  qed
qed

lemma turns:
  assumes f: "fair_run \<sigma>" "i < nshards (fst (\<sigma> 0))" and x: "turning (snd (\<sigma> n) i)"
  shows "leads i \<sigma> n (Waking 0)"
proof -
  have woken: "leads i \<sigma> n (Waking 0)" if "snd (\<sigma> n) i = Woken b res" for n b res
  proof -
    note n = that
    obtain m where m: "steps_at i \<sigma> m" "snd (\<sigma> m) i = Woken b res" "leads i \<sigma> n (snd (\<sigma> (Suc m)) i)"
      by (rule leads_step [OF f n]) simp_all
    from own_step [OF m(1)] have "snd (\<sigma> (Suc m)) i = Loop_head \<or> (\<exists>evs. snd (\<sigma> (Suc m)) i = Handling evs)"
      by (cases rule: thread_step.cases) (use m(2) in \<open>simp_all split: option.splits\<close>)
    then show ?thesis using leads_trans [OF m(3)] head_goes [OF f] events_handled [OF f] by auto
  qed
  show ?thesis
  proof (cases "snd (\<sigma> n) i")
    case (Waiting b)
    obtain m where m: "steps_at i \<sigma> m" "snd (\<sigma> m) i = Waiting b" "leads i \<sigma> n (snd (\<sigma> (Suc m)) i)"
      by (rule leads_step [OF f Waiting]) (use x Waiting in simp_all)
    from own_step [OF m(1)] have "\<exists>c res. snd (\<sigma> (Suc m)) i = Woken c res"
      by (cases rule: thread_step.cases) (use m(2) in simp_all)
    then show ?thesis using leads_trans [OF m(3)] woken by auto
  next
    case (Finishing p out hup evs)
    then show ?thesis using leads_trans [OF event_handled [OF f]] events_handled [OF f] by simp
  next
    case (Reading p out hup evs)
    then show ?thesis using leads_trans [OF event_handled [OF f]] events_handled [OF f] by simp
  qed (use x flushing_ends [OF f] head_goes [OF f] events_handled [OF f] woken in simp_all)
qed

section \<open>The round over the marks\<close>

lemma waking_runs:
  assumes f: "fair_run \<sigma>" "i < nshards (fst (\<sigma> 0))" and x: "snd (\<sigma> n) i = Waking k"
  shows "k \<le> q \<Longrightarrow> q \<le> nshards (fst (\<sigma> 0)) \<Longrightarrow>
    \<exists>m \<ge> n. snd (\<sigma> m) i = Waking q \<and> (\<forall>l. n \<le> l \<and> l < m \<longrightarrow> (\<exists>r < q. snd (\<sigma> l) i = Waking r))"
proof (induction q rule: dec_induct)
  case base
  then show ?case using x by (intro exI [of _ n]) auto
next
  case (step q)
  then obtain m where m: "n \<le> m" "snd (\<sigma> m) i = Waking q" "\<forall>l. n \<le> l \<and> l < m \<longrightarrow> (\<exists>r < q. snd (\<sigma> l) i = Waking r)" by auto
  from f m(2) obtain m' where m': "m \<le> m'" "steps_at i \<sigma> m'" "\<forall>l. m \<le> l \<and> l \<le> m' \<longrightarrow> snd (\<sigma> l) i = Waking q"
    by (rule next_step) simp
  have "snd (\<sigma> m') i = Waking q" "q < nshards (fst (\<sigma> m'))" using m' step.prems fair_facts(3) [OF f(1), of m'] by simp_all
  with own_step [OF m'(2)] have "snd (\<sigma> (Suc m')) i = Waking (Suc q)" by (cases rule: thread_step.cases) simp_all
  moreover have "\<exists>r < Suc q. snd (\<sigma> l) i = Waking r" if "n \<le> l" "l < Suc m'" for l
  proof (cases "l < m")
    case True
    then show ?thesis using m(3) that(1) less_SucI by blast
  next
    case False
    then show ?thesis using m'(3) that(2) by (intro exI [of _ q]) simp
  qed
  ultimately show ?case using m(1) m'(1) by (intro exI [of _ "Suc m'"]) simp
qed

definition marked :: "nat \<Rightarrow> (nat \<Rightarrow> world \<times> (nat \<Rightarrow> phase)) \<Rightarrow> nat \<Rightarrow> nat \<Rightarrow> bool" where
  "marked i \<sigma> j n \<longleftrightarrow> BITSET64_GET (r_soft_notify (w_reactors (fst (\<sigma> n)) ! i)) j"

lemma mark_kept:
  assumes f: "fair_run \<sigma>" "i < nshards (fst (\<sigma> 0))" and j: "j < nshards (fst (\<sigma> 0))" "marked i \<sigma> j n"
  shows "n \<le> m \<Longrightarrow> (\<And>l k. n \<le> l \<Longrightarrow> l < m \<Longrightarrow> snd (\<sigma> l) i = Waking k \<Longrightarrow> k < nshards (fst (\<sigma> 0))) \<Longrightarrow> marked i \<sigma> j m"
proof (induction m rule: dec_induct)
  case (step m)
  then have m: "marked i \<sigma> j m" by simp
  show ?case
  proof (cases "steps_at i \<sigma> m")
    case True
    note N = fair_facts(3) [OF f(1), of m]
    have "BITSET64_GET (r_soft_notify (w_reactors (fst (\<sigma> (Suc m))) ! i)) j"
    proof (rule own_mark [OF own_step [OF True] fair_facts(4) [OF f(1)] _ _ fair_facts(7) [OF f]])
      show "i < nshards (fst (\<sigma> m))" "j < nshards (fst (\<sigma> m))" using N f(2) j(1) by simp_all
      show "BITSET64_GET (r_soft_notify (w_reactors (fst (\<sigma> m)) ! i)) j" using m by (simp add: marked_def)
      show "k < nshards (fst (\<sigma> m))" if "snd (\<sigma> m) i = Waking k" for k using step.prems [of m k] step.hyps that N by simp
    qed
    then show ?thesis by (simp add: marked_def)
  next
    case False
    then show ?thesis using m pause_step(2) [OF f] by (simp add: marked_def)
  qed
qed (use j in simp)

lemma mark_unsettled:
  assumes f: "fair_run \<sigma>" "i < nshards (fst (\<sigma> 0))" and "marked i \<sigma> j n"
  shows "\<not> settled (snd (\<sigma> n) i)"
proof
  assume "settled (snd (\<sigma> n) i)"
  then have "r_soft_notify (w_reactors (fst (\<sigma> n)) ! i) = 0"
    using fair_facts(2,3) [OF f(1), of n] f(2) by (simp add: marks_ok_def)
  then show False using assms(3) by (simp add: marked_def BITSET64_GET_def)
qed

text \<open>A thread that has not passed a mark comes to it.\<close>

definition comes_to :: "nat \<Rightarrow> (nat \<Rightarrow> world \<times> (nat \<Rightarrow> phase)) \<Rightarrow> nat \<Rightarrow> nat \<Rightarrow> bool" where
  "comes_to i \<sigma> j n \<longleftrightarrow> (\<exists>m \<ge> n. steps_at i \<sigma> m \<and> snd (\<sigma> m) i = Waking j \<and> marked i \<sigma> j m)"

lemma comes_later: "comes_to i \<sigma> j m \<Longrightarrow> n \<le> m \<Longrightarrow> comes_to i \<sigma> j n"
  using order_trans by (auto simp: comes_to_def)

lemma waking_comes:
  assumes f: "fair_run \<sigma>" "i < nshards (fst (\<sigma> 0))" and j: "j < nshards (fst (\<sigma> 0))" "marked i \<sigma> j n"
    and x: "snd (\<sigma> n) i = Waking k" "k \<le> j"
  shows "comes_to i \<sigma> j n"
proof -
  obtain m where m: "n \<le> m" "snd (\<sigma> m) i = Waking j" "\<forall>l. n \<le> l \<and> l < m \<longrightarrow> (\<exists>r < j. snd (\<sigma> l) i = Waking r)"
    using waking_runs [OF f x] j(1) by auto
  from f m(2) obtain m' where m': "m \<le> m'" "steps_at i \<sigma> m'" "\<forall>l. m \<le> l \<and> l \<le> m' \<longrightarrow> snd (\<sigma> l) i = Waking j"
    by (rule next_step) simp
  have "r < nshards (fst (\<sigma> 0))" if "n \<le> l" "l < m'" "snd (\<sigma> l) i = Waking r" for l r
    using m(3) m'(3) that j(1) by (cases "l < m") auto
  then have "marked i \<sigma> j m'" using mark_kept [OF f j, of m'] m(1) m'(1) by simp
  then show ?thesis using m(1) m' by (auto simp: comes_to_def intro!: exI [of _ m'])
qed

lemma turning_comes:
  assumes f: "fair_run \<sigma>" "i < nshards (fst (\<sigma> 0))" and j: "j < nshards (fst (\<sigma> 0))" "marked i \<sigma> j n"
    and x: "turning (snd (\<sigma> n) i)"
  shows "comes_to i \<sigma> j n"
proof -
  obtain m where m: "n \<le> m" "snd (\<sigma> m) i = Waking 0" "\<forall>l. n \<le> l \<and> l < m \<longrightarrow> turning (snd (\<sigma> l) i)"
    using turns [OF f x] by (auto simp: leads_def)
  have "marked i \<sigma> j m" by (rule mark_kept [OF f j m(1)]) (use m(3) in force)
  then show ?thesis using waking_comes [OF f j(1) _ m(2)] comes_later m(1) by simp
qed

lemma poll_ends:
  assumes f: "fair_run \<sigma>" "i < nshards (fst (\<sigma> 0))" and x: "in_poll (snd (\<sigma> n) i)"
  obtains m cnt where "n \<le> m" "steps_at i \<sigma> m" "snd (\<sigma> m) i = Polling cnt"
    "snd (\<sigma> (Suc m)) i = (if 0 < cnt then Waiting False else Idle)" "\<forall>l. n \<le> l \<and> l \<le> m \<longrightarrow> in_poll (snd (\<sigma> l) i)"
proof -
  have "\<exists>m \<ge> n. \<not> in_poll (snd (\<sigma> m) i)" using f by (auto simp: fair_run_def loops_end_def)
  with f x obtain m where m: "n \<le> m" "steps_at i \<sigma> m" "in_poll (snd (\<sigma> m) i)" "\<not> in_poll (snd (\<sigma> (Suc m)) i)"
    "\<forall>l. n \<le> l \<and> l \<le> m \<longrightarrow> in_poll (snd (\<sigma> l) i)" by (rule leave)
  from own_step [OF m(2)] obtain cnt where "snd (\<sigma> m) i = Polling cnt"
    "snd (\<sigma> (Suc m)) i = (if 0 < cnt then Waiting False else Idle)"
    by (cases rule: thread_step.cases) (use m(3,4) in \<open>simp_all split: if_splits\<close>)
  then show thesis using that m(1,2,5) by blast
qed

lemma mark_comes:
  assumes f: "fair_run \<sigma>" "i < nshards (fst (\<sigma> 0))" and j: "j < nshards (fst (\<sigma> 0))" "marked i \<sigma> j n"
    and x: "will_ring (snd (\<sigma> n) i) j"
  shows "comes_to i \<sigma> j n"
proof -
  have poll: "comes_to i \<sigma> j n" if "in_poll (snd (\<sigma> n) i)"
  proof -
    from f that obtain m cnt where m: "n \<le> m" "steps_at i \<sigma> m" "snd (\<sigma> m) i = Polling cnt"
      "snd (\<sigma> (Suc m)) i = (if 0 < cnt then Waiting False else Idle)" "\<forall>l. n \<le> l \<and> l \<le> m \<longrightarrow> in_poll (snd (\<sigma> l) i)"
      by (rule poll_ends)
    have "marked i \<sigma> j l" if "n \<le> l" "l \<le> Suc m" for l
      by (rule mark_kept [OF f j that(1)]) (use m(5) that(2) in force)
    then have "marked i \<sigma> j m" "marked i \<sigma> j (Suc m)" using m(1) by simp_all
    then have "cnt \<noteq> 0" using mark_unsettled [OF f, of j m] m(3) by auto
    then have "turning (snd (\<sigma> (Suc m)) i)" using m(4) by (simp add: word_gt_0)
    from turning_comes [OF f j(1) \<open>marked i \<sigma> j (Suc m)\<close> this] show ?thesis using comes_later m(1) by simp
  qed
  show ?thesis
    using mark_unsettled [OF f j(2)] x poll waking_comes [OF f j] turning_comes [OF f j]
    by (cases "snd (\<sigma> n) i") auto
qed

section \<open>Every thread comes to its mailbox\<close>

text \<open>Thread \<open>j\<close> takes a step of its poll at some time from \<open>n\<close> on.\<close>

definition polls :: "nat \<Rightarrow> (nat \<Rightarrow> world \<times> (nat \<Rightarrow> phase)) \<Rightarrow> nat \<Rightarrow> bool" where
  "polls j \<sigma> n \<longleftrightarrow> (\<exists>m \<ge> n. steps_at j \<sigma> m \<and> (\<exists>cnt. snd (\<sigma> m) j = Polling cnt))"

lemma polls_later: "polls j \<sigma> m \<Longrightarrow> n \<le> m \<Longrightarrow> polls j \<sigma> n"
  using order_trans by (auto simp: polls_def)

lemma in_poll_polls: "fair_run \<sigma> \<Longrightarrow> j < nshards (fst (\<sigma> 0)) \<Longrightarrow> in_poll (snd (\<sigma> n) j) \<Longrightarrow> polls j \<sigma> n"
  by (rule poll_ends) (auto simp: polls_def)

lemma waking_polls:
  assumes f: "fair_run \<sigma>" "j < nshards (fst (\<sigma> 0))" and x: "snd (\<sigma> n) j = Waking k"
  shows "polls j \<sigma> n"
proof -
  obtain m q where m: "n \<le> m" "snd (\<sigma> m) j = Waking q" "nshards (fst (\<sigma> 0)) \<le> q"
    using waking_runs [OF f x, of "nshards (fst (\<sigma> 0))"] x by (cases "k \<le> nshards (fst (\<sigma> 0))") (auto, force)
  from f m(2) obtain m' where m': "m \<le> m'" "steps_at j \<sigma> m'" "\<forall>l. m \<le> l \<and> l \<le> m' \<longrightarrow> snd (\<sigma> l) j = Waking q"
    by (rule next_step) simp
  have "snd (\<sigma> m') j = Waking q" "nshards (fst (\<sigma> m')) \<le> q" using m' m(3) fair_facts(3) [OF f(1), of m'] by simp_all
  with own_step [OF m'(2)] have "snd (\<sigma> (Suc m')) j = Polling 0" by (cases rule: thread_step.cases) simp_all
  then have "polls j \<sigma> (Suc m')" using in_poll_polls [OF f] by simp
  then show ?thesis using polls_later m(1) m'(1) by simp
qed

lemma turning_polls:
  assumes f: "fair_run \<sigma>" "j < nshards (fst (\<sigma> 0))" and x: "turning (snd (\<sigma> n) j)"
  shows "polls j \<sigma> n"
proof -
  obtain m where "n \<le> m" "snd (\<sigma> m) j = Waking 0" using turns [OF f x] by (auto simp: leads_def)
  then show ?thesis using waking_polls [OF f] polls_later by blast
qed

text \<open>A thread with a message goes back to the head of its loop instead of blocking.\<close>

lemma checking_polls:
  assumes f: "fair_run \<sigma>" "j < nshards (fst (\<sigma> 0))" and q: "\<forall>m \<ge> n. queue (fst (\<sigma> m)) j \<noteq> []"
    and x: "snd (\<sigma> n) j = Checking"
  shows "polls j \<sigma> n"
proof -
  from f x obtain m where m: "n \<le> m" "steps_at j \<sigma> m" "\<forall>l. n \<le> l \<and> l \<le> m \<longrightarrow> snd (\<sigma> l) j = Checking"
    by (rule next_step) simp
  have "j < nshards (fst (\<sigma> m))" "queue (fst (\<sigma> m)) j \<noteq> []" using fair_facts(3) [OF f(1), of m] f(2) q m(1) by simp_all
  then have "reactor_has_pending_messages (fst (\<sigma> m)) j"
    using pending_iff [OF fair_facts(4) [OF f(1)]] by (simp add: queue_def split: if_splits)
  with own_step [OF m(2)] have "snd (\<sigma> (Suc m)) j = Loop_head"
    by (cases rule: thread_step.cases) (use m(1,3) in simp_all)
  then have "polls j \<sigma> (Suc m)" using turning_polls [OF f] by simp
  then show ?thesis using polls_later m(1) by simp
qed

lemma idle_polls:
  assumes f: "fair_run \<sigma>" "j < nshards (fst (\<sigma> 0))" and q: "\<forall>m \<ge> n. queue (fst (\<sigma> m)) j \<noteq> []"
    and x: "snd (\<sigma> n) j = Idle"
  shows "polls j \<sigma> n"
proof -
  from f x obtain m where m: "n \<le> m" "steps_at j \<sigma> m" "\<forall>l. n \<le> l \<and> l \<le> m \<longrightarrow> snd (\<sigma> l) j = Idle"
    by (rule next_step) simp
  from own_step [OF m(2)] have "snd (\<sigma> (Suc m)) j = Checking"
    by (cases rule: thread_step.cases) (use m(1,3) in simp_all)
  then have "polls j \<sigma> (Suc m)" using checking_polls [OF f, of "Suc m"] q m(1) by simp
  then show ?thesis using polls_later m(1) by simp
qed

text \<open>A blocked thread that has a message is rung.\<close>

lemma woken_polls:
  assumes f: "fair_run \<sigma>" "j < nshards (fst (\<sigma> 0))"
    and m: "n \<le> m" "steps_at j \<sigma> m" "snd (\<sigma> m) j = Waiting b"
  shows "polls j \<sigma> n"
proof -
  from own_step [OF m(2)] have "turning (snd (\<sigma> (Suc m)) j)"
    by (cases rule: thread_step.cases) (use m(3) in simp_all)
  then have "polls j \<sigma> (Suc m)" by (rule turning_polls [OF f])
  then show ?thesis using polls_later m(1) by simp
qed

lemma rung_polls:
  assumes f: "fair_run \<sigma>" "j < nshards (fst (\<sigma> 0))"
    and x: "snd (\<sigma> n) j = Waiting True" "0 < r_wakeup (w_reactors (fst (\<sigma> n)) ! j)"
  shows "polls j \<sigma> n"
proof -
  from f x(1) obtain m where m: "n \<le> m" "steps_at j \<sigma> m" "\<forall>l. n \<le> l \<and> l \<le> m \<longrightarrow> snd (\<sigma> l) j = Waiting True"
    by (rule next_step) (use x(2) in simp)
  have "snd (\<sigma> m) j = Waiting True" using m(1,3) by simp
  then show ?thesis by (rule woken_polls [OF f m(1,2)])
qed

lemma stays:
  assumes f: "fair_run \<sigma>" "j < nshards (fst (\<sigma> 0))"
  shows "n \<le> m \<Longrightarrow> \<forall>l. n \<le> l \<and> l < m \<longrightarrow> \<not> steps_at j \<sigma> l \<Longrightarrow> snd (\<sigma> m) j = snd (\<sigma> n) j"
  by (induction m rule: dec_induct) (simp_all add: pause_step(1) [OF f])

lemma waiting_polls:
  assumes f: "fair_run \<sigma>" "j < nshards (fst (\<sigma> 0))" and q: "\<forall>m \<ge> n. queue (fst (\<sigma> m)) j \<noteq> []"
    and x: "snd (\<sigma> n) j = Waiting True"
  shows "polls j \<sigma> n"
proof (cases "\<exists>l \<ge> n. steps_at j \<sigma> l")
  case True
  define m where "m = (LEAST l. n \<le> l \<and> steps_at j \<sigma> l)"
  have m: "n \<le> m \<and> steps_at j \<sigma> m" using True LeastI_ex [of "\<lambda>l. n \<le> l \<and> steps_at j \<sigma> l"] by (simp add: m_def)
  moreover have "\<forall>l. n \<le> l \<and> l < m \<longrightarrow> \<not> steps_at j \<sigma> l" using not_less_Least by (auto simp: m_def)
  ultimately show ?thesis using woken_polls [OF f, of n m True] stays [OF f, of n m] x by simp
next
  case False
  have waits: "snd (\<sigma> m) j = Waiting True" if "n \<le> m" for m using stays [OF f that] False x by simp
  note N = fair_facts(3) [OF f(1)]
  have "queue (fst (\<sigma> n)) j \<noteq> []" "j < nshards (fst (\<sigma> n))" using q f(2) N [of n] by simp_all
  then have "mq_abs (r_cb_queue (w_reactors (fst (\<sigma> n)) ! j)) \<noteq> []" "j < nshards (fst (\<sigma> n))"
    by (simp_all add: queue_def split: if_splits)
  then have "rung (fst (\<sigma> n)) (snd (\<sigma> n)) j"
    using wake_okD(4) [OF fair_facts(5) [OF f(1)] _ x] fair_facts(7) [OF f] by blast
  then show ?thesis
  proof (cases rule: rungE)
    case ring
    then show ?thesis by (rule rung_polls [OF f x])
  next
    case (mark i)
    have i: "i < nshards (fst (\<sigma> 0))" "marked i \<sigma> j n" using mark(1,2) N [of n] by (simp_all add: marked_def)
    then obtain m where m: "n \<le> m" "steps_at i \<sigma> m" "snd (\<sigma> m) i = Waking j" "marked i \<sigma> j m"
      using mark_comes [OF f(1) i(1) f(2) i(2) mark(3)] by (auto simp: comes_to_def)
    have j: "j < nshards (fst (\<sigma> m))" "j < length (w_reactors (fst (\<sigma> m)))"
      using f(2) N [of m] fair_facts(4) [OF f(1), of m] by (simp_all add: world_ok_def)
    have "r_sleeping (w_reactors (fst (\<sigma> m)) ! j) \<or> 0 < r_wakeup (w_reactors (fst (\<sigma> m)) ! j)"
      using wake_okD(3) [OF fair_facts(5) [OF f(1)] j(1)] waits [OF m(1)] by simp
    then have "0 < r_wakeup (w_reactors (fst (wakeup_target i j (fst (\<sigma> m)))) ! j)"
      using m(4) j(2) by (auto simp: wakeup_target_def marked_def)
    moreover from own_step [OF m(2)] have "fst (\<sigma> (Suc m)) = fst (wakeup_target i j (fst (\<sigma> m)))"
      by (cases rule: thread_step.cases) (use m(3) j(1) in simp_all)
    ultimately have "polls j \<sigma> (Suc m)" using rung_polls [OF f] waits m(1) by simp
    then show ?thesis using polls_later m(1) by simp
  qed
qed

lemma pending_polls:
  assumes f: "fair_run \<sigma>" "j < nshards (fst (\<sigma> 0))" and q: "\<forall>m \<ge> n. queue (fst (\<sigma> m)) j \<noteq> []"
  shows "polls j \<sigma> n"
proof -
  have "\<not> leaving (snd (\<sigma> n) j)"
    using wake_okD(2) [OF fair_facts(5) [OF f(1)]] fair_facts(7) [OF f, of n] fair_facts(3) [OF f(1), of n] f(2) by auto
  show ?thesis
  proof (cases "snd (\<sigma> n) j")
    case (Waiting b)
    then show ?thesis using turning_polls [OF f, of n] waiting_polls [OF f q] by (cases b) simp_all
  qed (use \<open>\<not> leaving (snd (\<sigma> n) j)\<close> in_poll_polls [OF f, of n] waking_polls [OF f, of n] turning_polls [OF f, of n]
      checking_polls [OF f q] idle_polls [OF f q] in \<open>simp_all add: leaving_def\<close>)
qed

section \<open>Messages are handled\<close>

text \<open>Thread \<open>j\<close> takes \<open>msg\<close> from its mailbox at time \<open>m\<close> and runs its callback to the end.\<close>

definition handles :: "nat \<Rightarrow> (nat \<Rightarrow> world \<times> (nat \<Rightarrow> phase)) \<Rightarrow> nat \<Rightarrow> message \<Rightarrow> bool" where
  "handles j \<sigma> m msg \<longleftrightarrow> steps_at j \<sigma> m \<and> (\<exists>cnt. snd (\<sigma> m) j = Polling cnt)
     \<and> (\<exists>q. mpmcq_dequeue (r_cb_queue (w_reactors (fst (\<sigma> m)) ! j)) = Some (q, Some msg)
          \<and> run_cb j msg (set_queue j q (fst (\<sigma> m))) = Some (fst (\<sigma> (Suc m))))"

lemma polling_step:
  assumes st: "thread_step i (w, Polling cnt) (w', ph')" and w: "world_ok w" "i < nshards w" and q: "queue w i = m # ms"
  shows "\<exists>q. mpmcq_dequeue (r_cb_queue (w_reactors w ! i)) = Some (q, Some m) \<and> run_cb i m (set_queue i q w) = Some w'"
    "prefix ms (queue w' i)" "room w"
proof -
  let ?q = "r_cb_queue (w_reactors w ! i)"
  have "mq_rep ?q (m # ms)" using w q by (simp add: world_ok_def reactor_ok_def mq_inv_rep queue_def split: if_splits)
      (metis mq_inv_rep)
  then obtain q' where q': "mpmcq_dequeue ?q = Some (q', Some m)" using mpmcq_dequeue_ok by metis
  have "(run_cb i m (set_queue i q' w) = Some w' \<and> room w) \<and> prefix ms (queue w' i)" using st
  proof (cases rule: thread_step.cases)
    case (poll_message q0 m0 go)
    then have m0: "q0 = q'" "m0 = m" using q' by simp_all
    have deq: "queue (set_queue i q' w) = (queue w)(i := ms)" "msg_ok (nshards w) i m"
      using receive_cases [OF q' w] q by auto
    have "queues_grow (set_queue i q' w) w'"
      using grow_run_cb [OF _ world_ok_dequeue(1) [OF w q']] poll_message(3,4) w(2) deq(2) m0 by simp
    then have "prefix (((queue w)(i := ms)) i) (queue w' i)" unfolding deq(1) [symmetric] queues_grow_def by blast
    then show ?thesis using poll_message(3,4) m0 by simp
  qed (use q' in simp_all)
  then show "\<exists>q. mpmcq_dequeue ?q = Some (q, Some m) \<and> run_cb i m (set_queue i q w) = Some w'"
    "prefix ms (queue w' i)" "room w" using q' by blast+
qed

lemma no_poll:
  assumes f: "fair_run \<sigma>" "j < nshards (fst (\<sigma> 0))"
  shows "n \<le> m \<Longrightarrow> \<forall>l. n \<le> l \<and> l < m \<longrightarrow> \<not> (steps_at j \<sigma> l \<and> (\<exists>cnt. snd (\<sigma> l) j = Polling cnt)) \<Longrightarrow>
    prefix (queue (fst (\<sigma> n)) j) (queue (fst (\<sigma> m)) j)"
proof (induction m rule: dec_induct)
  case (step m)
  then have old: "prefix (queue (fst (\<sigma> n)) j) (queue (fst (\<sigma> m)) j)" by simp
  have quiet: "\<not> (steps_at j \<sigma> m \<and> (\<exists>cnt. snd (\<sigma> m) j = Polling cnt))" using step.prems step.hyps by simp
  have "\<sigma> (Suc m) = \<sigma> m \<or> (\<exists>k. steps_at k \<sigma> m)" using f(1) by (simp add: fair_run_def execution_def)
  then have "prefix (queue (fst (\<sigma> m)) j) (queue (fst (\<sigma> (Suc m))) j)"
  proof
    assume "\<exists>k. steps_at k \<sigma> m"
    then obtain k where k: "steps_at k \<sigma> m" by blast
    have "k < nshards (fst (\<sigma> m))" using k by (simp add: steps_at_def)
    from step_queue [OF own_step [OF k] fair_facts(4) [OF f(1)] this] quiet k show ?thesis
      by (cases "k = j") (auto simp: queues_grow_def)
  qed simp
  then show ?case by (rule prefix_order.trans [OF old])
qed simp

lemma head_served:
  assumes f: "fair_run \<sigma>" "j < nshards (fst (\<sigma> 0))" and q: "queue (fst (\<sigma> n)) j = msg # ms"
  shows "\<exists>m \<ge> n. handles j \<sigma> m msg \<and> prefix ms (queue (fst (\<sigma> (Suc m))) j)"
proof -
  let ?P = "\<lambda>l. n \<le> l \<and> steps_at j \<sigma> l \<and> (\<exists>cnt. snd (\<sigma> l) j = Polling cnt)"
  have "\<exists>l. ?P l"
  proof (rule ccontr)
    assume no: "\<not> (\<exists>l. ?P l)"
    have "prefix (queue (fst (\<sigma> n)) j) (queue (fst (\<sigma> m)) j)" if "n \<le> m" for m using no_poll [OF f that] no by blast
    then have "\<forall>m \<ge> n. queue (fst (\<sigma> m)) j \<noteq> []" using q by (force simp: prefix_def)
    from pending_polls [OF f this] no show False by (auto simp: polls_def)
  qed
  then have P: "?P (LEAST l. ?P l)" by (rule LeastI_ex)
  define m where "m = (LEAST l. ?P l)"
  obtain cnt where m: "n \<le> m" "steps_at j \<sigma> m" "snd (\<sigma> m) j = Polling cnt" using P by (auto simp: m_def)
  have "\<forall>l. n \<le> l \<and> l < m \<longrightarrow> \<not> (steps_at j \<sigma> l \<and> (\<exists>cnt. snd (\<sigma> l) j = Polling cnt))"
    using not_less_Least [of _ ?P, folded m_def] by blast
  from no_poll [OF f m(1) this] obtain zs where zs: "queue (fst (\<sigma> m)) j = msg # ms @ zs" using q by (auto simp: prefix_def)
  have j: "j < nshards (fst (\<sigma> m))" using m(2) by (simp add: steps_at_def)
  have st: "thread_step j (fst (\<sigma> m), Polling cnt) (fst (\<sigma> (Suc m)), snd (\<sigma> (Suc m)) j)" using own_step [OF m(2)] m(3) by simp
  note p = polling_step [OF st fair_facts(4) [OF f(1)] j zs]
  have "handles j \<sigma> m msg" using m p(1) by (auto simp: handles_def)
  moreover have "prefix ms (queue (fst (\<sigma> (Suc m))) j)" using p(2) append_prefixD by blast
  ultimately show ?thesis using m(1) by blast
qed

text \<open>The messages in front of it are handled first, and none is passed by.\<close>

lemma served:
  assumes f: "fair_run \<sigma>" "j < nshards (fst (\<sigma> 0))"
  shows "queue (fst (\<sigma> n)) j = xs @ msg # ys \<Longrightarrow> \<exists>m \<ge> n. handles j \<sigma> m msg"
proof (induction xs arbitrary: n ys)
  case Nil
  then show ?case using head_served [OF f, of n] by auto
next
  case (Cons x xs)
  then obtain m where m: "n \<le> m" "prefix (xs @ msg # ys) (queue (fst (\<sigma> (Suc m))) j)"
    using head_served [OF f, of n x "xs @ msg # ys"] by auto
  from m(2) obtain zs where "queue (fst (\<sigma> (Suc m))) j = xs @ msg # (ys @ zs)" by (auto simp: prefix_def)
  from Cons.IH [OF this] show ?case using m(1) by (meson Suc_leD order_trans)
qed

lemma served_set:
  assumes f: "fair_run \<sigma>" "j < nshards (fst (\<sigma> 0))" and msg: "msg \<in> set (queue (fst (\<sigma> n)) j)"
  shows "\<exists>m \<ge> n. handles j \<sigma> m msg"
  using split_list [OF msg] served [OF f] by blast

text \<open>A request that is handled puts its answer, computed as specified, into the mailbox of the shard that asked.\<close>

lemma handled_answers:
  assumes f: "fair_run \<sigma>" and h: "handles j \<sigma> m (Request cb key hash oper)"
  obtains c mp res where "w_conns (fst (\<sigma> m)) (cb_conn cb) = Some c"
    "spec_op (store (fst (\<sigma> m)) j (unat (c_db c))) key oper = Some (mp, res)"
    "Response \<lparr>cb_src = cb_dst cb, cb_dst = cb_src cb, cb_conn = cb_conn cb\<rparr> res \<in> set (queue (fst (\<sigma> (Suc m))) (cb_src cb))"
    "cb_src cb < nshards (fst (\<sigma> 0))"
proof -
  let ?w = "fst (\<sigma> m)" and ?w' = "fst (\<sigma> (Suc m))"
  obtain q cnt where q: "mpmcq_dequeue (r_cb_queue (w_reactors ?w ! j)) = Some (q, Some (Request cb key hash oper))"
    "run_cb j (Request cb key hash oper) (set_queue j q ?w) = Some ?w'" "steps_at j \<sigma> m" "snd (\<sigma> m) j = Polling cnt"
    using h by (auto simp: handles_def)
  have w: "world_ok ?w" "j < nshards ?w" using fair_facts(4) [OF f] q(3) by (simp_all add: steps_at_def)
  let ?v = "set_queue j q ?w"
  obtain ms where ms: "queue ?w j = Request cb key hash oper # ms" "msg_ok (nshards ?w) j (Request cb key hash oper)"
    using receive_cases [OF q(1) w] by auto
  then have k: "hash = key_hash key" "owns (nshards ?v) j key" "cb_src cb < nshards ?w" using w(2) by (auto simp: owns_def)
  have room: "room ?v"
    using polling_step(3) [OF own_step [OF q(3), unfolded q(4)] w ms(1)] by (simp add: room_def set_queue_def)
  have ok0: "world_ok ?v" by (rule world_ok_dequeue(1) [OF w q(1)])
  obtain c db db' res w1 sent where r: "w_conns ?w (cb_conn cb) = Some c" "get_db ?v j (c_db c) = Some db"
    "exec_op db key (key_hash key) oper = Some (db', res)"
    "reactor_send_message (cb_src cb) (Response \<lparr>cb_src = cb_dst cb, cb_dst = cb_src cb, cb_conn = cb_conn cb\<rparr> res)
       (upd_db j (unat (c_db c)) db' ?v) = Some (w1, sent)" "?w' = notify j (cb_src cb) w1"
    using q(2) k(1) by (auto simp: run_cb_def cmd_req_def split: bind_splits)
  obtain mp where "spec_op (store ?v j (unat (c_db c))) key oper = Some (mp, res)"
    by (rule exec_store [OF ok0 room k(2) r(2,3)])
  moreover have "world_ok (upd_db j (unat (c_db c)) db' ?v)"
    using exec_world_ok [OF ok0 room _ _ _ r(2,3)] k(2) by (simp add: owns_def)
  then have "Response \<lparr>cb_src = cb_dst cb, cb_dst = cb_src cb, cb_conn = cb_conn cb\<rparr> res \<in> set (queue ?w' (cb_src cb))"
    using send_cases [OF r(4)] k(3) by (simp add: r(5))
  moreover have "cb_src cb < nshards (fst (\<sigma> 0))" using k(3) fair_facts(3) [OF f, of m] by simp
  ultimately show thesis using that r(1) by simp
qed

end
