(* ===== verification/Fair_Runs.thy ===== *)
theory Fair_Runs
  imports Progress Runs System_Props
begin

text \<open>
  A fair run of the server: a finite run that ends with all threads blocked, followed by a pause.
  The run is a request from the shard that asks to the shard that answers and back.
\<close>

section \<open>From a finite run to a fair one\<close>

text \<open>A step of thread \<open>i\<close>, with no poll about to count its message number \<open>2^64\<close>.\<close>

definition quiet_step :: "nat \<Rightarrow> world \<times> phase \<Rightarrow> world \<times> phase \<Rightarrow> bool" where
  "quiet_step i s t \<longleftrightarrow> thread_step i s t \<and> snd t \<noteq> Polling (- 1)"

definition quiet_server_step :: "world \<times> (nat \<Rightarrow> phase) \<Rightarrow> world \<times> (nat \<Rightarrow> phase) \<Rightarrow> bool" where
  "quiet_server_step s t \<longleftrightarrow> (\<exists>i < nshards (fst s). \<exists>ph. quiet_step i (fst s, snd s i) (fst t, ph) \<and> snd t = (snd s)(i := ph))"

lemma running_before:
  assumes "thread_step i (w, ph) (w', ph')" "world_ok w" "i < nshards w" "j < nshards w" "r_running (w_reactors w' ! j)"
  shows "r_running (w_reactors w ! j)"
proof -
  consider "op_frame i w w'" | k where "w' = fst (wakeup_target i k w)" | "w' = BITSET64_RESET i w"
    using step_frame [OF assms(1-3)] by blast
  then show ?thesis
  proof cases
    case 1
    then show ?thesis using assms(4,5) by (auto simp: op_frame_def keeps_marks_def stopped_def)
  next
    case 2
    then show ?thesis using assms(5) by (simp add: running_wakeup_target)
  next
    case 3
    then show ?thesis using assms(5) by (simp add: reset_fields)
  qed
qed

lemma quiet_steps_at:
  assumes "quiet_server_step (\<sigma> n) (\<sigma> (Suc n))"
  shows "\<exists>i. steps_at i \<sigma> n"
  using assms by (auto simp: quiet_server_step_def quiet_step_def steps_at_def)

text \<open>Some run passes through the states of a chain and stays in the last.\<close>

lemma chain_facts:
  assumes s: "reachable (f 0)" and R: "\<And>k. k < n \<Longrightarrow> quiet_server_step (f k) (f (Suc k))"
  shows "k \<le> n \<Longrightarrow> reachable (f k) \<and> nshards (fst (f k)) = nshards (fst (f 0))"
proof (induction k)
  case (Suc k)
  then obtain i where "steps_at i f k" using quiet_steps_at [of f k] R by auto
  then show ?case using execution_step [of f k i] Suc by simp
qed (use s in simp)

lemma chain_running:
  assumes s: "reachable (f 0)" and R: "\<And>k. k < n \<Longrightarrow> quiet_server_step (f k) (f (Suc k))"
    and j: "j < nshards (fst (f 0))" "r_running (w_reactors (fst (f n)) ! j)"
  shows "k \<le> n \<Longrightarrow> r_running (w_reactors (fst (f k)) ! j)"
proof (induction k rule: inc_induct)
  case (step k)
  obtain i where i: "steps_at i f k" using quiet_steps_at [of f k] R [OF step.hyps(2)] by auto
  have k: "reachable (f k)" "nshards (fst (f k)) = nshards (fst (f 0))" using chain_facts [of f n k] s R step.hyps by simp_all
  have "i < nshards (fst (f k))" "j < nshards (fst (f k))" using i j(1) k(2) by (simp_all add: steps_at_def)
  from running_before [OF own_step [OF i] reachable_world_ok [OF k(1)] this step.IH] show ?case .
qed (use j in simp)

lemma chain_counts:
  assumes R: "\<And>k. k < n \<Longrightarrow> quiet_server_step (f k) (f (Suc k))" and "\<forall>i. snd (f 0) i \<noteq> Polling (- 1)"
  shows "k \<le> n \<Longrightarrow> \<forall>i. snd (f k) i \<noteq> Polling (- 1)"
proof (induction k)
  case (Suc k)
  then show ?case using R [of k] by (auto simp: quiet_server_step_def quiet_step_def split: if_splits)
qed (use assms in simp)

lemma fair_run_exists:
  assumes s: "reachable s" "marks_ok s" "\<forall>i. snd s i \<noteq> Polling (- 1)" and run: "quiet_server_step\<^sup>*\<^sup>* s t"
    and t: "\<And>i. i < nshards (fst s) \<Longrightarrow> blocked i t \<and> r_running (w_reactors (fst t) ! i)"
  obtains \<sigma> where "\<sigma> 0 = s" "fair_run \<sigma>"
proof -
  obtain n where "(quiet_server_step ^^ n) s t" using run by (auto simp: rtranclp_power)
  then obtain f where f: "f 0 = s" "f n = t" "\<And>k. k < n \<Longrightarrow> quiet_server_step (f k) (f (Suc k))"
    by (auto simp: relpowp_fun_conv)
  define \<sigma> where "\<sigma> = (\<lambda>k. f (min k n))"
  have s0: "\<sigma> 0 = s" using f(1) by (simp add: \<sigma>_def)
  have f0: "reachable (f 0)" "\<forall>i. snd (f 0) i \<noteq> Polling (- 1)" using s(1,3) f(1) by simp_all
  have "\<sigma> (Suc k) = \<sigma> k \<or> (\<exists>i. steps_at i \<sigma> k)" for k
  proof (cases "k < n")
    case True
    then have "quiet_server_step (\<sigma> k) (\<sigma> (Suc k))" using f(3) by (simp add: \<sigma>_def min_def)
    then show ?thesis using quiet_steps_at by blast
  qed (simp add: \<sigma>_def min_def)
  then have "execution \<sigma>" using s s0 by (simp add: execution_def)
  moreover have last: "\<sigma> (max k n) = t" for k using f(2) by (simp add: \<sigma>_def)
  have "scheduled \<sigma>" unfolding scheduled_def using t s0 last by (metis max.cobounded1)
  moreover have ends: "\<exists>m \<ge> k. Q (snd (\<sigma> m) i)" if "i < nshards (fst (\<sigma> 0))" "Q (Waiting True)" for i k Q
    using t that s0 last [of k] by (intro exI [of _ "max k n"]) (simp add: blocked_def)
  have "loops_end \<sigma>"
    unfolding loops_end_def
    by (intro allI impI conjI ends [where Q = "\<lambda>x. \<not> in_flush x"] ends [where Q = "\<lambda>x. \<not> in_poll x"]
        ends [where Q = "\<lambda>x. \<not> in_requests x"]) simp_all
  moreover have "in_service \<sigma>" unfolding in_service_def
  proof (intro allI impI)
    fix k i assume i: "i < nshards (fst (\<sigma> k))"
    have "min k n \<le> n" by simp
    note facts = chain_facts [of f n, OF f0(1) f(3) this] chain_counts [of n f, OF f(3) f0(2) this]
    have "i < nshards (fst (f 0))" using i facts(1) by (simp add: \<sigma>_def)
    moreover have "r_running (w_reactors (fst (f n)) ! i)" using t calculation f(1,2) by simp
    ultimately have "r_running (w_reactors (fst (f (min k n))) ! i)" using chain_running [of f n i, OF f0(1) f(3)] by simp
    then show "r_running (w_reactors (fst (\<sigma> k)) ! i) \<and> snd (\<sigma> k) i \<noteq> Polling (- 1)" using facts(2) by (simp add: \<sigma>_def)
  qed
  ultimately show thesis using that s0 by (simp add: fair_run_def)
qed

text \<open>Runs of one thread as runs of the server.\<close>

lemma quiet_thread:
  "(quiet_step i)\<^sup>*\<^sup>* s t \<Longrightarrow> reachable (fst s, phases) \<Longrightarrow> i < nshards (fst s) \<Longrightarrow> phases i = snd s \<Longrightarrow>
    quiet_server_step\<^sup>*\<^sup>* (fst s, phases) (fst t, phases(i := snd t)) \<and> reachable (fst t, phases(i := snd t))
      \<and> nshards (fst t) = nshards (fst s)"
proof (induction rule: rtranclp_induct)
  case base
  then show ?case by (simp add: fun_upd_idem)
next
  case (step t u)
  then have IH: "quiet_server_step\<^sup>*\<^sup>* (fst s, phases) (fst t, phases(i := snd t))" "reachable (fst t, phases(i := snd t))"
    "nshards (fst t) = nshards (fst s)" by blast+
  have "quiet_server_step (fst t, phases(i := snd t)) (fst u, phases(i := snd u))"
    using step.hyps(2) step.prems(2) IH(3) by (auto simp: quiet_server_step_def intro!: exI [of _ i] exI [of _ "snd u"])
  moreover have "(thread_step i)\<^sup>*\<^sup>* t u" using step.hyps(2) by (auto simp: quiet_step_def)
  from reachable_thread [OF this, of "phases(i := snd t)"] IH(2,3) step.prems(2)
  have "reachable (fst u, phases(i := snd u))" "nshards (fst u) = nshards (fst s)" by simp_all
  ultimately show ?case using rtranclp.rtrancl_into_rtrancl [OF IH(1)] by blast
qed

lemma calm_quiet: "(calm_step i)\<^sup>*\<^sup>* s t \<Longrightarrow> (quiet_step i)\<^sup>*\<^sup>* s t"
  by (erule rtranclp_mono [THEN predicate2D, rotated]) (auto simp: calm_step_def quiet_step_def)

lemma quiet1: "thread_step i s t \<Longrightarrow> snd t \<noteq> Polling (- 1) \<Longrightarrow> (quiet_step i)\<^sup>*\<^sup>* s t"
  by (simp add: quiet_step_def r_into_rtranclp)

end
