(* ===== verification/Progress_Props.thy ===== *)
theory Progress_Props
  imports Fair_Runs Server_Props
begin

text \<open>
  The progress of requests under a fair schedule of the threads. The witness is a run of the server in
  which \<^verbatim>\<open>GET a\<close>, read by shard 0, is served by shard 3 and answered.
\<close>

section \<open>A fair run with a request across shards\<close>

text \<open>The states of the run: one connection, of shard 0, and four running threads that nobody has rung.\<close>

definition demo_state :: "world \<Rightarrow> conn \<Rightarrow> bool" where
  "demo_state w c \<longleftrightarrow> world_ok w \<and> nshards w = 4 \<and> room w \<and> w_conns w = [1 \<mapsto> c] \<and> c_shard_id c = 0
     \<and> (\<forall>i < 4. r_running (w_reactors w ! i) \<and> r_wakeup (w_reactors w ! i) = 0
          \<and> (\<forall>k. conn_at w i k = (if i = 0 \<and> k = 5 then Some 1 else None)))"

lemma demo_stateD:
  assumes "demo_state w c"
  shows "world_ok w" "nshards w = 4" "room w" "w_conns w 1 = Some c" "c_shard_id c = 0" "length (w_reactors w) = 4"
    "i < 4 \<Longrightarrow> r_running (w_reactors w ! i)" "i < 4 \<Longrightarrow> r_wakeup (w_reactors w ! i) = 0"
    "i < 4 \<Longrightarrow> conn_at w i k = (if i = 0 \<and> k = 5 then Some 1 else None)" "conn_ok c"
proof -
  show w: "world_ok w" "nshards w = 4" "w_conns w 1 = Some c" using assms by (simp_all add: demo_state_def)
  show "room w" "c_shard_id c = 0" "i < 4 \<Longrightarrow> r_running (w_reactors w ! i)" "i < 4 \<Longrightarrow> r_wakeup (w_reactors w ! i) = 0"
    "i < 4 \<Longrightarrow> conn_at w i k = (if i = 0 \<and> k = 5 then Some 1 else None)" using assms by (simp_all add: demo_state_def)
  show "length (w_reactors w) = 4" using w by (simp add: world_ok_def)
  show "conn_ok c" by (rule world_ok_conn [OF w(1,3)])
qed

lemma demo_signals:
  assumes "demo_state w c" "world_ok w'" "w_shards w' = w_shards w" "w_conns w' = [1 \<mapsto> c']" "c_shard_id c' = 0"
    "\<And>j. r_wakeup (w_reactors w' ! j) = r_wakeup (w_reactors w ! j) \<and> r_running (w_reactors w' ! j) = r_running (w_reactors w ! j)
       \<and> r_conns (w_reactors w' ! j) = r_conns (w_reactors w ! j)"
  shows "demo_state w' c'"
  using assms by (simp add: demo_state_def conn_at_def room_def)

lemma demo_upd:
  assumes "demo_state w c"
  shows "i < 4 \<Longrightarrow> demo_state (set_sleeping i b w) c" "i < 4 \<Longrightarrow> demo_state (BITSET64_RESET i w) c"
    "world_ok (set_queue i q w) \<Longrightarrow> demo_state (set_queue i q w) c"
    "conn_ok c' \<Longrightarrow> c_shard_id c' = 0 \<Longrightarrow> demo_state (upd_conn 1 c' w) c'"
proof -
  note w = demo_stateD [OF assms]
  have conns: "w_conns w = [1 \<mapsto> c]" using assms by (simp add: demo_state_def)
  show "demo_state (set_sleeping i b w) c" if "i < 4"
    by (rule demo_signals [OF assms]) (use set_sleeping_ok [OF w(1)] w(2,5) that conns in \<open>simp_all add: set_sleeping_def signal_fields\<close>)
  show "demo_state (BITSET64_RESET i w) c" if "i < 4"
    unfolding BITSET64_RESET_def
    by (rule demo_signals [OF assms world_ok_frame [OF w(1)]]) (use w(2,5) that conns in \<open>simp_all add: signal_fields\<close>)
  show "demo_state (set_queue i q w) c" if "world_ok (set_queue i q w)"
    by (rule demo_signals [OF assms that]) (use w(5) conns in \<open>simp_all add: set_queue_def signal_fields\<close>)
  show "demo_state (upd_conn 1 c' w) c'" if "conn_ok c'" "c_shard_id c' = 0"
    by (rule demo_signals [OF assms world_ok_upd_conn [OF w(1) that(1)]]) (use that conns in \<open>simp_all add: upd_conn_def\<close>)
qed

lemma demo_nothing: "demo_state w c \<Longrightarrow> c_send_buf_size c = 0 \<Longrightarrow> i < 4 \<Longrightarrow> nothing_pending w i"
  by (simp add: nothing_pending_def demo_state_def)

text \<open>A thread that has emptied its mailbox after some messages starts its next turn.\<close>

lemma next_turn:
  assumes "demo_state w c" "i < 4" "mq_abs (r_cb_queue (w_reactors w ! i)) = []"
  shows "(quiet_step i)\<^sup>*\<^sup>* (w, Polling 1) (w, Flushing 0)"
proof -
  note w = demo_stateD [OF assms(1)]
  let ?q = "r_cb_queue (w_reactors w ! i)"
  have "mq_rep ?q []" using w(1,2) assms(2,3) mq_inv_rep [of ?q] by (simp add: world_ok_def reactor_ok_def)
  then have "thread_step i (w, Polling 1) (set_queue i ?q w, if 0 < (1 :: u64) then Waiting False else Idle)"
    by (intro poll_empty mpmcq_dequeue_empty)
  moreover have "set_queue i ?q w = w" unfolding set_queue_def by (rule upd_reactor_id) simp
  ultimately have "thread_step i (w, Polling 1) (w, Waiting False)" by simp
  then have "(quiet_step i)\<^sup>*\<^sup>* (w, Polling 1) (w, Waiting False)" by (rule quiet1) simp
  also have "(quiet_step i)\<^sup>*\<^sup>* (w, Waiting False) (w, Woken False (Some []))"
    by (rule quiet1, rule wait_events) (simp_all add: registered_def)
  also have "(quiet_step i)\<^sup>*\<^sup>* (w, Woken False (Some [])) (w, Handling [])"
    using woken [of i w False "Some []"] by (intro quiet1) simp_all
  also have "(quiet_step i)\<^sup>*\<^sup>* (w, Handling []) (w, Loop_head)" by (intro quiet1 events_end) simp
  also have "(quiet_step i)\<^sup>*\<^sup>* (w, Loop_head) (w, Flushing 0)" by (intro quiet1 head_run w(7) assms(2)) simp
  finally show ?thesis .
qed

text \<open>A turn with nothing to flush and nobody to ring comes to the poll, and with no message to the blocking wait.\<close>

lemma poll_turn:
  assumes "demo_state w c" "i < 4" "nothing_pending w i" "nobody_to_ring w i" "k \<le> length (r_conns (w_reactors w ! i))"
  shows "(quiet_step i)\<^sup>*\<^sup>* (w, Flushing k) (BITSET64_RESET i w, Polling 0)"
  by (rule calm_quiet [OF calm_poll_run]) (use assms in simp_all)

lemma sleep_turn:
  assumes "demo_state w c" "i < 4" "mq_abs (r_cb_queue (w_reactors w ! i)) = []"
  shows "(quiet_step i)\<^sup>*\<^sup>* (w, Polling 0) (set_sleeping i True w, Waiting True)"
  by (rule calm_quiet [OF calm_sleep_run]) (use demo_stateD(1,2) [OF assms(1)] assms(2,3) in simp_all)

text \<open>Thread 3 is interrupted in its wait at start-up and then not asleep.\<close>

lemma awake_start:
  obtains w where "reachable (w, \<lambda>_. Loop_head)" "nshards w = 4" "room w" "w_conns w = Map.empty" "data w 3 0 = Map.empty"
    "0 < length (s_dbs (w_shards w ! 3))" "\<And>i. i < 4 \<Longrightarrow> r_sleeping (w_reactors w ! i) \<longleftrightarrow> i \<noteq> 3"
    "\<And>i. i < 4 \<Longrightarrow> r_running (w_reactors w ! i) \<and> r_wakeup (w_reactors w ! i) = 0 \<and> r_soft_notify (w_reactors w ! i) = 0
       \<and> mq_abs (r_cb_queue (w_reactors w ! i)) = [] \<and> (\<forall>k. conn_at w i k = None)"
proof -
  obtain w0 where w0: "init_world (\<lambda>_. 0) = Some w0" "world_ok w0" "nshards w0 = 4" "room w0"
    "w_reactors w0 = map reactor_init [0..<4]" "w_conns w0 = Map.empty" "\<forall>s \<in> set (w_shards w0). length (s_dbs s) = 16"
    "\<forall>s \<in> set (w_shards w0). \<forall>db \<in> set (s_dbs s). db_abs db = Map.empty"
    by (rule init_world_ok [of "\<lambda>_. 0"], rule that, assumption+)
  have fresh: "w_reactors w0 ! i = reactor_init i" "conn_at w0 i k = None" "nothing_pending w0 i" if "i < 4" for i k
    using that w0(5) by (simp_all add: conn_at_def reactor_init_def nothing_pending_def)
  have init: "r_running (reactor_init i)" "r_sleeping (reactor_init i)" "r_soft_notify (reactor_init i) = 0"
    "mq_abs (r_cb_queue (reactor_init i)) = []" "r_wakeup (reactor_init i) = 0" for i
    by (simp_all add: reactor_init_def mailbox_init)
  define we where "we = upd_reactor 3 (\<lambda>r. r\<lparr>r_errno := 4\<rparr>) w0"
  define w where "w = set_sleeping 3 False we"
  have "set_sleeping 3 True w0 = w0" unfolding set_sleeping_def using fresh init by (intro upd_reactor_id) simp
  then have "(thread_step 3)\<^sup>*\<^sup>* (w0, Loop_head) (w0, Waiting True)"
    using idle_run [OF w0(2), of 3] w0(3) fresh init by simp
  also have "(thread_step 3)\<^sup>*\<^sup>* (w0, Waiting True) (we, Woken True None)"
    unfolding we_def by (intro r_into_rtranclp wait_interrupted)
  also have "(thread_step 3)\<^sup>*\<^sup>* (we, Woken True None) (w, Loop_head)"
    using woken [of 3 we True None] by (intro r_into_rtranclp) (simp add: w_def)
  finally have "reachable (w, (\<lambda>_. Loop_head)(3 := Loop_head))"
    using reachable_thread [of 3 "(w0, Loop_head)" "(w, Loop_head)" "\<lambda>_. Loop_head"] reachable.start [OF w0(1)] w0(3) by simp
  then have r: "reachable (w, \<lambda>_. Loop_head)" by (simp add: fun_upd_idem)
  have sh: "w_shards w = w_shards w0" "w_conns w = w_conns w0" by (simp_all add: w_def we_def set_sleeping_def)
  have fields: "r_running (w_reactors w ! i) = r_running (w_reactors w0 ! i)" "r_wakeup (w_reactors w ! i) = r_wakeup (w_reactors w0 ! i)"
    "r_soft_notify (w_reactors w ! i) = r_soft_notify (w_reactors w0 ! i)" "r_cb_queue (w_reactors w ! i) = r_cb_queue (w_reactors w0 ! i)"
    "conn_at w i k = conn_at w0 i k" for i k
    by (simp_all add: w_def we_def set_sleeping_def signal_fields upd_reactor_field [where g = r_cb_queue] conn_at_def)
  have "r_sleeping (w_reactors w ! i) \<longleftrightarrow> i \<noteq> 3" if "i < 4" for i
    using fresh(1) [OF that] init w0(5) by (cases "i = 3") (simp_all add: w_def we_def set_sleeping_def)
  moreover have s3: "w_shards w0 ! 3 \<in> set (w_shards w0)" using w0(3) by simp
  then have l3: "0 < length (s_dbs (w_shards w0 ! 3))" using w0(7) by force
  then have "data w 3 0 = Map.empty" using bspec [OF bspec [OF w0(8) s3] nth_mem] sh by (simp add: data_def)
  ultimately show thesis using that [OF r] sh w0(3,4,6) l3 fields fresh init by (simp add: room_def)
qed

text \<open>Then thread 0 accepts a connection, reads \<^verbatim>\<open>GET a\<close> from it and sends the request to shard 3.\<close>

lemma request_start:
  obtains w c where "reachable (w, (\<lambda>_. Loop_head)(0 := Finishing 1 None False []))" "demo_state w c"
    "received c = []" "pending c = []" "c_send_buf_size c = 0" "c_flags c AND END = 0" "c_db c = 0"
    "mq_abs (r_cb_queue (w_reactors w ! 3)) = [Request \<lparr>cb_src = 0, cb_dst = 3, cb_conn = 1\<rparr> (bstr ''a'') (key_hash (bstr ''a'')) OpGet]"
    "\<And>j. j < 3 \<Longrightarrow> mq_abs (r_cb_queue (w_reactors w ! j)) = []" "data w 3 0 = Map.empty" "0 < length (s_dbs (w_shards w ! 3))"
    "r_soft_notify (w_reactors w ! 0) = BITSET64_SET 0 3" "\<And>j. 0 < j \<Longrightarrow> j < 4 \<Longrightarrow> r_soft_notify (w_reactors w ! j) = 0"
    "\<not> r_sleeping (w_reactors w ! 0)" "\<not> r_sleeping (w_reactors w ! 3)"
proof -
  obtain w1 where w1: "reachable (w1, \<lambda>_. Loop_head)" "nshards w1 = 4" "room w1" "w_conns w1 = Map.empty" "data w1 3 0 = Map.empty"
    "0 < length (s_dbs (w_shards w1 ! 3))" "\<And>i. i < 4 \<Longrightarrow> r_sleeping (w_reactors w1 ! i) \<longleftrightarrow> i \<noteq> 3"
    "\<And>i. i < 4 \<Longrightarrow> r_running (w_reactors w1 ! i) \<and> r_wakeup (w_reactors w1 ! i) = 0 \<and> r_soft_notify (w_reactors w1 ! i) = 0
       \<and> mq_abs (r_cb_queue (w_reactors w1 ! i)) = [] \<and> (\<forall>k. conn_at w1 i k = None)"
    by (rule awake_start, rule that, assumption+)
  have ok1: "world_ok w1" "length (w_reactors w1) = 4" using reachable_world_ok [OF w1(1)] w1(2) by (simp_all add: world_ok_def)
  have pre: "0 < nshards w1" "r_running (w_reactors w1 ! 0)" "r_soft_notify (w_reactors w1 ! 0) = 0"
    "mq_abs (r_cb_queue (w_reactors w1 ! 0)) = []" "nothing_pending w1 0" "r_sleeping (w_reactors w1 ! 0)"
    "fd_free w1 5" "w_conns w1 1 = None" "(4096 :: u64) < 2 ^ 63"
    using w1(2,4,7,8) ok1(2) by (simp_all add: fd_free_def nothing_pending_def)
  obtain w2 c where c: "(thread_step 0)\<^sup>*\<^sup>* (w1, Loop_head) (w2, Reading 1 None False [])" "world_ok w2"
    "w_shards w2 = w_shards w1" "w_conns w2 = (w_conns w1)(1 \<mapsto> c)" "received c = resp_encode demo_request" "c_flags c = 0"
    "c_shard_id c = 0" "c_db c = 0" "c_send_buf_size c = 0" "pending c = []"
    "\<And>k. conn_at w2 0 k = (if k = 5 then Some 1 else conn_at w1 0 k)"
    "\<And>j. j \<noteq> 0 \<Longrightarrow> w_reactors w2 ! j = w_reactors w1 ! j" "r_running (w_reactors w2 ! 0)"
    "r_cb_queue (w_reactors w2 ! 0) = r_cb_queue (w_reactors w1 ! 0)" "r_soft_notify (w_reactors w2 ! 0) = 0"
    "\<not> r_sleeping (w_reactors w2 ! 0)" "r_wakeup (w_reactors w2 ! 0) = r_wakeup (w_reactors w1 ! 0)"
    by (rule accept_request_run [OF ok1(1) pre demo_request(1,2)], rule that, assumption+)
  have q2: "mq_abs (r_cb_queue (w_reactors w2 ! j)) = []" if "j < 4" for j
    using c(12,14) w1(8) [OF that] by (cases "j = 0") simp_all
  have q: "3 = unat (key_hash (demo_request ! 1)) mod nshards w2" "(3 :: nat) \<noteq> 0" "0 < nshards w2" "room w2"
    "received c = resp_encode demo_request @ []" "c_flags c AND END = 0" "w_conns w2 1 = Some c"
    "mq_abs (r_cb_queue (w_reactors w2 ! 3)) = []"
    using c(3-6) demo_request(4) key_a w1(2,3) q2 [of 3] by (simp_all add: room_def)
  obtain w3 c3 where w3: "on_data_available 0 1 w2 = Some (w3, [] \<noteq> ([] :: bytes))" "world_ok w3"
    "w_conns w3 = (w_conns w2)(1 \<mapsto> c3)" "received c3 = []" "pending c3 = pending c"
    "c_flags c3 = c_flags c OR DISPATCH_WAITING" "c_db c3 = c_db c" "c_shard_id c3 = c_shard_id c"
    "c_send_buf_size c3 = c_send_buf_size c" "w_shards w3 = w_shards w2"
    "mq_abs (r_cb_queue (w_reactors w3 ! 3))
       = [Request \<lparr>cb_src = 0, cb_dst = 3, cb_conn = 1\<rparr> (demo_request ! 1) (key_hash (demo_request ! 1)) OpGet]"
    "\<And>j. j \<noteq> 3 \<Longrightarrow> r_cb_queue (w_reactors w3 ! j) = r_cb_queue (w_reactors w2 ! j)" "same_signals 0 w2 w3"
    "r_soft_notify (w_reactors w3 ! 0) = BITSET64_SET (r_soft_notify (w_reactors w2 ! 0)) 3"
    by (rule remote_send [OF c(2) q(4,3,7,5,6) demo_request(3) q(1,2,8)], rule that, assumption+)
  have "thread_step 0 (w2, Reading 1 None False []) (w3, Finishing 1 None False [])"
    using request [OF q(4), of 0 1 w3 False None False "[]"] w3(1) by simp
  with c(1) have "(thread_step 0)\<^sup>*\<^sup>* (w1, Loop_head) (w3, Finishing 1 None False [])" by simp
  from reachable_thread [OF this, of "\<lambda>_. Loop_head"] w1(1,2)
  have r3: "reachable (w3, (\<lambda>_. Loop_head)(0 := Finishing 1 None False []))" by simp
  have sh: "w_shards w3 = w_shards w1" using w3(10) c(3) by simp
  have sig: "r_running (w_reactors w2 ! i) \<and> r_wakeup (w_reactors w2 ! i) = 0 \<and> r_soft_notify (w_reactors w2 ! i) = 0
      \<and> (\<forall>k. conn_at w2 i k = (if i = 0 \<and> k = 5 then Some 1 else None))" if "i < 4" for i
    using c(11-13,15,17) w1(8) [OF that] by (cases "i = 0") (auto simp: conn_at_def)
  have n3: "nshards w3 = 4" "room w3" "w_conns w3 = [1 \<mapsto> c3]" "c_shard_id c3 = 0"
    using sh w1(2-4) w3(3,8) c(4,7) by (simp_all add: room_def)
  have "demo_state w3 c3"
    using n3 w3(2,13) sig by (simp add: demo_state_def same_signals_def conn_at_def)
  moreover have "c_flags c3 AND END = 0" using w3(6) c(6) by (simp add: DISPATCH_WAITING_def END_def)
  moreover have "data w3 3 0 = Map.empty" "0 < length (s_dbs (w_shards w3 ! 3))" using w1(5,6) sh by (simp_all add: data_def)
  moreover have "r_soft_notify (w_reactors w3 ! j) = 0" if "0 < j" "j < 4" for j
    using sig [OF that(2)] w3(13) that(1) by (simp add: same_signals_def)
  moreover have "mq_abs (r_cb_queue (w_reactors w3 ! j)) = []" if "j < 3" for j using w3(12) [of j] q2 [of j] that by simp
  moreover have "\<not> r_sleeping (w_reactors w3 ! 0)" "\<not> r_sleeping (w_reactors w3 ! 3)"
    using w3(13) c(12) [of 3] c(16) w1(7) [of 3] by (simp_all add: same_signals_def)
  ultimately show thesis
    using that [OF r3, of c3] w3(4,5,7,9,11,14) c(8-10,15) demo_request(4) by simp
qed

text \<open>Thread 0 finishes the event and goes on to its poll; the shard it has sent to does not sleep.\<close>

lemma request_sent:
  assumes "demo_state w c" "c_flags c AND END = 0" "c_send_buf_size c = 0" "nobody_to_ring w 0"
  obtains c' where "(quiet_step 0)\<^sup>*\<^sup>* (w, Finishing 1 None False []) (BITSET64_RESET 0 (upd_conn 1 c' w), Polling 0)"
    "demo_state (BITSET64_RESET 0 (upd_conn 1 c' w)) c'" "received c' = received c" "pending c' = pending c" "c_send_buf_size c' = 0" "c_db c' = c_db c"
proof -
  note w = demo_stateD [OF assms(1)]
  define c' where "c' = c\<lparr>c_flags := c_flags c AND NOT BLOCKED\<rparr>"
  have c': "conn_ok c'" "c_shard_id c' = 0" "c_send_buf_size c' = 0" using w(5,10) assms(3) by (simp_all add: c'_def conn_ok_def)
  let ?w = "upd_conn 1 c' w"
  note demo = demo_upd(4) [OF assms(1) c'(1,2)]
  have "upd_conn 1 c w = w" using w(4) by (simp add: upd_conn_def fun_upd_idem)
  then have "finish_event 0 1 None False w = Some ?w" using w(4) assms(2) by (simp add: finish_event_def c'_def)
  from finish [OF this, of 1 "[]"] have "thread_step 0 (w, Finishing 1 None False []) (?w, Handling [])"
    by (simp add: set_write_errno_def)
  then have "(quiet_step 0)\<^sup>*\<^sup>* (w, Finishing 1 None False []) (?w, Handling [])" by (rule quiet1) simp
  also have "(quiet_step 0)\<^sup>*\<^sup>* (?w, Handling []) (?w, Loop_head)" by (intro quiet1 events_end) simp
  also have "(quiet_step 0)\<^sup>*\<^sup>* (?w, Loop_head) (?w, Flushing 0)" by (intro quiet1 head_run demo_stateD(7) [OF demo]) simp_all
  also have "(quiet_step 0)\<^sup>*\<^sup>* (?w, Flushing 0) (BITSET64_RESET 0 ?w, Polling 0)"
    using demo_nothing [OF demo c'(3)] assms(4) by (intro poll_turn [OF demo]) (simp_all add: nobody_to_ring_def)
  finally show thesis using that [of c'] demo_upd(2) [OF demo] c'(3) by (simp add: c'_def received_def pending_def)
qed

text \<open>Thread 3 takes the request from its mailbox, answers it and blocks.\<close>

lemma get_keeps_shards:
  assumes "run_cb i (Request cb key hash OpGet) w = Some w'"
  shows "w_shards w' = w_shards w"
proof -
  obtain c :: conn and db res w1 sent where r: "get_db w i (c_db c) = Some db"
    "reactor_send_message (cb_src cb) (Response \<lparr>cb_src = cb_dst cb, cb_dst = cb_src cb, cb_conn = cb_conn cb\<rparr> res)
       (upd_db i (unat (c_db c)) db w) = Some (w1, sent)" "w' = notify i (cb_src cb) w1"
    using assms by (auto simp: run_cb_def cmd_req_def exec_op_def split: bind_splits)
  have "upd_db i (unat (c_db c)) db w = w" using r(1) by (auto simp: upd_db_def get_db_def split: if_splits)
  then show ?thesis using r(2,3) by (auto simp: reactor_send_message_def split: bind_splits)
qed

lemma request_served:
  assumes w: "demo_state w c" and c: "c_db c = 0" "c_send_buf_size c = 0"
    and q: "mq_abs (r_cb_queue (w_reactors w ! 3)) = [Request \<lparr>cb_src = 0, cb_dst = 3, cb_conn = 1\<rparr> key hash OpGet]"
      "mq_abs (r_cb_queue (w_reactors w ! 0)) = []" "data w 3 0 key = None" "0 < length (s_dbs (w_shards w ! 3))"
    and r: "r_soft_notify (w_reactors w ! 3) = 0" "\<not> r_sleeping (w_reactors w ! 0)"
  obtains w' where "(quiet_step 3)\<^sup>*\<^sup>* (w, Loop_head) (w', Waiting True)" "demo_state w' c"
    "mq_abs (r_cb_queue (w_reactors w' ! 0)) = [Response \<lparr>cb_src = 3, cb_dst = 0, cb_conn = 1\<rparr> (ResEntry None)]"
    "mq_abs (r_cb_queue (w_reactors w' ! 3)) = []"
    "\<And>j. j \<noteq> 0 \<Longrightarrow> j \<noteq> 3 \<Longrightarrow> r_cb_queue (w_reactors w' ! j) = r_cb_queue (w_reactors w ! j)"
    "\<And>j. j \<noteq> 3 \<Longrightarrow> r_soft_notify (w_reactors w' ! j) = r_soft_notify (w_reactors w ! j)"
proof -
  note d = demo_stateD [OF w]
  let ?cb = "\<lparr>cb_src = 0, cb_dst = 3, cb_conn = 1\<rparr> :: cb_context"
  have pre: "3 < nshards w" "mq_abs (r_cb_queue (w_reactors w ! cb_src ?cb)) = []" "w_conns w (cb_conn ?cb) = Some c"
    "c_shard_id c \<noteq> 3" "unat (c_db c) < length (s_dbs (w_shards w ! 3))"
    "spec_op (data w 3 (unat (c_db c))) key OpGet = Some (data w 3 (unat (c_db c)), ResEntry None)"
    using d(2,4,5) c q by (simp_all add: spec_op_def)
  obtain q1 w1 where e: "mpmcq_dequeue (r_cb_queue (w_reactors w ! 3)) = Some (q1, Some (Request ?cb key hash OpGet))"
    "run_cb 3 (Request ?cb key hash OpGet) (set_queue 3 q1 w) = Some w1"
    "cb_continues 3 (Request ?cb key hash OpGet) w1 = Some False" "world_ok w1" "w_conns w1 = w_conns w"
    "mq_abs (r_cb_queue (w_reactors w1 ! cb_src ?cb))
       = [Response \<lparr>cb_src = cb_dst ?cb, cb_dst = cb_src ?cb, cb_conn = cb_conn ?cb\<rparr> (ResEntry None)]"
    "\<And>j. j \<noteq> cb_src ?cb \<Longrightarrow> r_cb_queue (w_reactors w1 ! j) = (if j = 3 then q1 else r_cb_queue (w_reactors w ! j))"
    "mq_abs q1 = []" "same_signals 3 w w1" "r_soft_notify (w_reactors w1 ! 3) = BITSET64_SET (r_soft_notify (w_reactors w ! 3)) (cb_src ?cb)"
    by (rule remote_exec_run [OF d(1,3) pre(1) q(1) pre(2-6)], rule that, assumption+)
  have demo1: "demo_state w1 c"
    by (rule demo_signals [OF w e(4)])
       (use get_keeps_shards [OF e(2)] e(5,9) w d(5) in \<open>simp_all add: demo_state_def same_signals_def\<close>)
  have q1: "mq_abs (r_cb_queue (w_reactors w1 ! 3)) = []" using e(7) [of 3] e(8) by simp
  have "BITSET64_GET (BITSET64_SET 0 0) k \<longleftrightarrow> k = 0" if "k < 4" for k
    using mark_set [of 0 k 0] that by (auto simp: BITSET64_GET_def)
  then have ring: "nobody_to_ring w1 3" using e(9,10) r demo_stateD(2) [OF demo1] by (simp add: nobody_to_ring_def same_signals_def)
  let ?w2 = "BITSET64_RESET 3 w1"
  have q2: "mq_abs (r_cb_queue (w_reactors ?w2 ! 3)) = []" using q1 by (simp add: reset_fields)
  have "(quiet_step 3)\<^sup>*\<^sup>* (w, Loop_head) (w, Flushing 0)" by (intro quiet1 head_run d(7)) simp_all
  also have "(quiet_step 3)\<^sup>*\<^sup>* (w, Flushing 0) (w, Polling 0)"
    using poll_turn [OF w _ demo_nothing [OF w c(2)], of 3 0] unmarked [OF r(1)] by simp
  also have "(quiet_step 3)\<^sup>*\<^sup>* (w, Polling 0) (w1, Polling 1)"
    using poll_message [OF e(1) d(3) e(2,3), of 0] by (intro quiet1) simp_all
  also have "(quiet_step 3)\<^sup>*\<^sup>* (w1, Polling 1) (w1, Flushing 0)" by (rule next_turn [OF demo1 _ q1]) simp
  also have "(quiet_step 3)\<^sup>*\<^sup>* (w1, Flushing 0) (?w2, Polling 0)"
    using poll_turn [OF demo1 _ demo_nothing [OF demo1 c(2)] ring, of 0] by simp
  also have "(quiet_step 3)\<^sup>*\<^sup>* (?w2, Polling 0) (set_sleeping 3 True ?w2, Waiting True)"
    using sleep_turn [OF demo_upd(2) [OF demo1] _ q2] by simp
  finally have run: "(quiet_step 3)\<^sup>*\<^sup>* (w, Loop_head) (set_sleeping 3 True ?w2, Waiting True)" .
  have "demo_state (set_sleeping 3 True ?w2) c" using demo_upd(1) [OF demo_upd(2) [OF demo1]] by simp
  moreover have "r_cb_queue (w_reactors (set_sleeping 3 True ?w2) ! j) = r_cb_queue (w_reactors w1 ! j)"
    "j \<noteq> 3 \<Longrightarrow> w_reactors (set_sleeping 3 True ?w2) ! j = w_reactors w1 ! j" for j
    by (simp_all add: set_sleeping_def BITSET64_RESET_def upd_reactor_field [where g = r_cb_queue])
  ultimately show thesis using that [OF run] e(6,7,9) q1 by (simp add: same_signals_def)
qed

text \<open>Thread 0 takes the answer, sends the reply and blocks.\<close>

lemma flush_to_conn:
  assumes "demo_state w c" "k \<le> 5"
  shows "(quiet_step 0)\<^sup>*\<^sup>* (w, Flushing 0) (w, Flushing k)"
  using assms(2)
proof (induction k)
  case (Suc k)
  have at: "conn_at w 0 5 = Some 1" "conn_at w 0 k = None" using demo_stateD(9) [OF assms(1), of 0] Suc.prems by simp_all
  then have "5 < length (r_conns (w_reactors w ! 0))" by (simp add: conn_at_def Let_def split: if_splits)
  then have "thread_step 0 (w, Flushing k) (w, Flushing (k + 1))" using at(2) Suc.prems by (intro flush_none) simp_all
  then have "quiet_step 0 (w, Flushing k) (w, Flushing (Suc k))" by (simp add: quiet_step_def)
  with Suc show ?case by (meson Suc_leD rtranclp.rtrancl_into_rtrancl)
qed simp

lemma reply_flushed:
  assumes w: "demo_state w c" and c: "pending c = resp_null" "c_send_buf_sent c = 0"
  obtains c' where "(quiet_step 0)\<^sup>*\<^sup>* (w, Flushing 0) (upd_conn 1 c' w, Flushing 5)" "demo_state (upd_conn 1 c' w) c'"
    "c_send_buf_size c' = 0"
proof -
  note d = demo_stateD [OF w]
  define c' where "c' = c\<lparr>c_send_buf_sent := 0, c_send_buf_size := 0\<rparr>"
  have size: "c_send_buf_size c = 5"
    using arg_cong [OF c(1), of length] d(10) by (simp add: pending_def conn_ok_def resp_null_def)
  then have flush: "reactor_epoll_flush 5 c = Some c'"
    using Server_Props.flush_write(1) [OF d(10), of 5] c(2) by (simp add: c'_def)
  have "thread_step 0 (w, Flushing 5) (upd_conn 1 c' (set_write_errno 0 (Some 5) 1 w), Flushing 5)"
    by (rule thread_step.flush_write [OF _ d(4) _ flush]) (use d(9) [of 0 5] size in simp_all)
  then have "thread_step 0 (w, Flushing 5) (upd_conn 1 c' w, Flushing 5)" by (simp add: set_write_errno_def)
  then have "(quiet_step 0)\<^sup>*\<^sup>* (w, Flushing 0) (upd_conn 1 c' w, Flushing 5)"
    using flush_to_conn [OF w, of 5] quiet1 [of 0 "(w, Flushing 5)"] by (simp add: rtranclp_trans)
  moreover have "demo_state (upd_conn 1 c' w) c'" using d(5,10) by (intro demo_upd(4) [OF w]) (simp_all add: c'_def conn_ok_def)
  ultimately show thesis using that by (simp add: c'_def)
qed

lemma answer_delivered:
  assumes w: "demo_state w c" and c: "received c = []" "pending c = []" "c_send_buf_size c = 0"
    and q: "mq_abs (r_cb_queue (w_reactors w ! 0)) = [Response \<lparr>cb_src = 3, cb_dst = 0, cb_conn = 1\<rparr> (ResEntry None)]"
    and r: "r_soft_notify (w_reactors w ! 0) = 0"
  obtains w' c' where "(quiet_step 0)\<^sup>*\<^sup>* (w, Polling 0) (w', Waiting True)" "demo_state w' c'" "c_send_buf_size c' = 0"
    "\<And>j. j \<noteq> 0 \<Longrightarrow> w_reactors w' ! j = w_reactors w ! j"
proof -
  note d = demo_stateD [OF w]
  let ?cb = "\<lparr>cb_src = 3, cb_dst = 0, cb_conn = 1\<rparr> :: cb_context"
  have sent: "c_send_buf_sent c = 0" using d(10) c(3) by (simp add: conn_ok_def)
  have pre: "0 < nshards w" "w_conns w (cb_conn ?cb) = Some c" "can_reply c (reply_of (ResEntry None))"
    using d(2,4) c(3) by (simp_all add: can_reply_def reply_of_def resp_null_def MESSAGE_MAX_LENGTH_def)
  obtain q1 c1 where e: "mpmcq_dequeue (r_cb_queue (w_reactors w ! 0)) = Some (q1, Some (Response ?cb (ResEntry None)))" "mq_abs q1 = []"
    "run_cb 0 (Response ?cb (ResEntry None)) (set_queue 0 q1 w) = Some (upd_conn (cb_conn ?cb) c1 (set_queue 0 q1 w))"
    "cb_continues 0 (Response ?cb (ResEntry None)) (upd_conn (cb_conn ?cb) c1 (set_queue 0 q1 w)) = Some True"
    "on_data_available 0 (cb_conn ?cb) (upd_conn (cb_conn ?cb) c1 (set_queue 0 q1 w))
       = Some (upd_conn (cb_conn ?cb) c1 (set_queue 0 q1 w), False)"
    "pending c1 = pending c @ reply_of (ResEntry None)" "conn_ok c1" "c_send_buf_sent c1 = c_send_buf_sent c" "world_ok (set_queue 0 q1 w)"
    "c_shard_id c1 = c_shard_id c"
    by (rule remote_reply_run [OF d(1) pre(1) q pre(2) d(5) c(1) pre(3)], rule that, assumption+)
  let ?v = "set_queue 0 q1 w"
  define w1 where "w1 = upd_conn 1 c1 ?v"
  have demo1: "demo_state w1 c1"
    unfolding w1_def using demo_upd(4) [OF demo_upd(3) [OF w e(9)] e(7)] e(10) d(5) by simp
  note d1 = demo_stateD [OF demo1]
  have q1: "mq_abs (r_cb_queue (w_reactors w1 ! 0)) = []" using e(2) d(6) by (simp add: w1_def)
  have "pending c1 = resp_null" "c_send_buf_sent c1 = 0" using e(6,8) c(2) sent by (simp_all add: reply_of_def)
  from reply_flushed [OF demo1 this] obtain c2 where
    f: "(quiet_step 0)\<^sup>*\<^sup>* (w1, Flushing 0) (upd_conn 1 c2 w1, Flushing 5)" "demo_state (upd_conn 1 c2 w1) c2" "c_send_buf_size c2 = 0"
    by blast
  let ?w2 = "upd_conn 1 c2 w1"
  have "r_soft_notify (w_reactors ?w2 ! 0) = 0" using r by (simp add: w1_def set_queue_def signal_fields)
  note ring = unmarked [OF this]
  have "conn_at ?w2 0 5 = Some 1" using demo_stateD(9) [OF f(2), of 0 5] by simp
  then have l: "5 \<le> length (r_conns (w_reactors ?w2 ! 0))" by (simp add: conn_at_def Let_def split: if_splits)
  have "(quiet_step 0)\<^sup>*\<^sup>* (w, Polling 0) (w1, Callback 1 1)"
    using poll_message [OF e(1) d(3) e(3,4), of 0] by (intro quiet1) (simp_all add: w1_def)
  also have "(quiet_step 0)\<^sup>*\<^sup>* (w1, Callback 1 1) (w1, Polling 1)"
    using callback [OF d1(3), of 0 1 w1 False 1] e(5) by (intro quiet1) (simp_all add: w1_def)
  also have "(quiet_step 0)\<^sup>*\<^sup>* (w1, Polling 1) (w1, Flushing 0)" by (rule next_turn [OF demo1 _ q1]) simp
  also note f(1)
  also have "(quiet_step 0)\<^sup>*\<^sup>* (?w2, Flushing 5) (?w2, Polling 0)"
    using poll_turn [OF f(2) _ demo_nothing [OF f(2,3)], of 0 5] ring l by simp
  also have "(quiet_step 0)\<^sup>*\<^sup>* (?w2, Polling 0) (set_sleeping 0 True ?w2, Waiting True)" using sleep_turn [OF f(2), of 0] q1 by simp
  finally have run: "(quiet_step 0)\<^sup>*\<^sup>* (w, Polling 0) (set_sleeping 0 True ?w2, Waiting True)" .
  show thesis by (rule that [OF run demo_upd(1) [OF f(2)] f(3)]) (simp_all add: set_sleeping_def w1_def set_queue_def)
qed

lemma nothing_to_do:
  assumes w: "demo_state w c" "c_send_buf_size c = 0" and i: "i < 4" "mq_abs (r_cb_queue (w_reactors w ! i)) = []"
    "r_soft_notify (w_reactors w ! i) = 0"
  shows "(quiet_step i)\<^sup>*\<^sup>* (w, Loop_head) (set_sleeping i True w, Waiting True)" "demo_state (set_sleeping i True w) c"
    "j \<noteq> i \<Longrightarrow> w_reactors (set_sleeping i True w) ! j = w_reactors w ! j"
  using calm_quiet [OF calm_idle_run [OF demo_stateD(1) [OF w(1)] _ demo_stateD(7) [OF w(1) i(1)] i(3,2) demo_nothing [OF w i(1)]]]
    demo_stateD(2) [OF w(1)] demo_upd(1) [OF w(1) i(1)] i(1) by (simp_all add: set_sleeping_def)

text \<open>All of it one after the other: from the request in the mailbox of shard 3 to four blocked threads.\<close>

lemma request_run:
  obtains s t where "reachable s" "marks_ok s" "\<forall>i. snd s i \<noteq> Polling (- 1)" "nshards (fst s) = 4" "quiet_server_step\<^sup>*\<^sup>* s t"
    "queue (fst s) 3 = [Request \<lparr>cb_src = 0, cb_dst = 3, cb_conn = 1\<rparr> (bstr ''a'') (key_hash (bstr ''a'')) OpGet]"
    "\<And>i. i < 4 \<Longrightarrow> blocked i t \<and> r_running (w_reactors (fst t) ! i)"
proof -
  let ?msg = "Request \<lparr>cb_src = 0, cb_dst = 3, cb_conn = 1\<rparr> (bstr ''a'') (key_hash (bstr ''a'')) OpGet"
  let ?p0 = "(\<lambda>_. Loop_head)(0 := Finishing 1 None False [])"
  obtain w c where w: "reachable (w, ?p0)" "demo_state w c" "received c = []" "pending c = []" "c_send_buf_size c = 0"
    "c_flags c AND END = 0" "c_db c = 0" "mq_abs (r_cb_queue (w_reactors w ! 3)) = [?msg]"
    "\<And>j. j < 3 \<Longrightarrow> mq_abs (r_cb_queue (w_reactors w ! j)) = []" "data w 3 0 = Map.empty" "0 < length (s_dbs (w_shards w ! 3))"
    "r_soft_notify (w_reactors w ! 0) = BITSET64_SET 0 3" "\<And>j. 0 < j \<Longrightarrow> j < 4 \<Longrightarrow> r_soft_notify (w_reactors w ! j) = 0"
    "\<not> r_sleeping (w_reactors w ! 0)" "\<not> r_sleeping (w_reactors w ! 3)"
    by (rule request_start, rule that, assumption+)
  note n = demo_stateD(2,6) [OF w(2)]
  have "BITSET64_GET (BITSET64_SET 0 3) k \<longleftrightarrow> k = 3" if "k < 4" for k
    using mark_set [of 3 k 0] that by (auto simp: BITSET64_GET_def)
  then have ring: "nobody_to_ring w 0" using w(12,15) n by (simp add: nobody_to_ring_def)
  obtain c1 where a: "(quiet_step 0)\<^sup>*\<^sup>* (w, Finishing 1 None False []) (BITSET64_RESET 0 (upd_conn 1 c1 w), Polling 0)"
    "demo_state (BITSET64_RESET 0 (upd_conn 1 c1 w)) c1" "received c1 = received c" "pending c1 = pending c"
    "c_send_buf_size c1 = 0" "c_db c1 = c_db c"
    by (rule request_sent [OF w(2,6,5) ring], rule that, assumption+)
  define wa where "wa = BITSET64_RESET 0 (upd_conn 1 c1 w)"
  have fa: "w_reactors wa ! j = (if j = 0 then (w_reactors w ! 0)\<lparr>r_soft_notify := 0\<rparr> else w_reactors w ! j)" "data wa = data w"
    "w_shards wa = w_shards w" for j using n by (simp_all add: wa_def BITSET64_RESET_def)
  note a = a [folded wa_def]
  have pre: "c_db c1 = 0" "mq_abs (r_cb_queue (w_reactors wa ! 3)) = [?msg]" "mq_abs (r_cb_queue (w_reactors wa ! 0)) = []"
    "data wa 3 0 (bstr ''a'') = None" "0 < length (s_dbs (w_shards wa ! 3))" "r_soft_notify (w_reactors wa ! 3) = 0"
    "\<not> r_sleeping (w_reactors wa ! 0)" using w(7-11,13,14) a(6) fa by simp_all
  obtain wb where b: "(quiet_step 3)\<^sup>*\<^sup>* (wa, Loop_head) (wb, Waiting True)" "demo_state wb c1"
    "mq_abs (r_cb_queue (w_reactors wb ! 0)) = [Response \<lparr>cb_src = 3, cb_dst = 0, cb_conn = 1\<rparr> (ResEntry None)]"
    "\<And>j. j \<noteq> 0 \<Longrightarrow> j \<noteq> 3 \<Longrightarrow> r_cb_queue (w_reactors wb ! j) = r_cb_queue (w_reactors wa ! j)"
    "\<And>j. j \<noteq> 3 \<Longrightarrow> r_soft_notify (w_reactors wb ! j) = r_soft_notify (w_reactors wa ! j)"
    by (rule request_served [OF a(2) pre(1) a(5) pre(2-7)], rule that, assumption+)
  have "received c1 = []" "pending c1 = []" "r_soft_notify (w_reactors wb ! 0) = 0" using a(3,4) w(3,4) b(5) [of 0] fa(1) [of 0] by simp_all
  from answer_delivered [OF b(2) this(1,2) a(5) b(3) this(3)] obtain wc c2 where
    d: "(quiet_step 0)\<^sup>*\<^sup>* (wb, Polling 0) (wc, Waiting True)" "demo_state wc c2" "c_send_buf_size c2 = 0"
    "\<And>j. j \<noteq> 0 \<Longrightarrow> w_reactors wc ! j = w_reactors wb ! j" by metis
  have idle: "mq_abs (r_cb_queue (w_reactors wc ! j)) = []" "r_soft_notify (w_reactors wc ! j) = 0" if "j = 1 \<or> j = 2" for j
    using d(4) [of j] b(4,5) [of j] fa(1) [of j] w(9,13) [of j] that by auto
  define wd where "wd = set_sleeping 1 True wc"
  define we where "we = set_sleeping 2 True wd"
  have e: "(quiet_step 1)\<^sup>*\<^sup>* (wc, Loop_head) (wd, Waiting True)" "demo_state wd c2" "w_reactors wd ! 2 = w_reactors wc ! 2"
    using nothing_to_do(1,2) [OF d(2,3), of 1] nothing_to_do(3) [OF d(2,3), of 1 2] idle [of 1] by (simp_all add: wd_def)
  have f: "(quiet_step 2)\<^sup>*\<^sup>* (wd, Loop_head) (we, Waiting True)" "demo_state we c2"
    using nothing_to_do(1,2) [OF e(2) d(3), of 2] idle [of 2] e(3) by (simp_all add: we_def)
  note n' = a(2) [THEN demo_stateD(2)] b(2) [THEN demo_stateD(2)] d(2) [THEN demo_stateD(2)] e(2) [THEN demo_stateD(2)]
  let ?p1 = "(\<lambda>_. Loop_head)(0 := Polling 0)"
  let ?p2 = "?p1(3 := Waiting True)"
  let ?p3 = "(\<lambda>_. Loop_head)(3 := Waiting True, 0 := Waiting True)"
  let ?p4 = "?p3(1 := Waiting True)"
  let ?p5 = "?p4(2 := Waiting True)"
  have 1: "quiet_server_step\<^sup>*\<^sup>* (w, ?p0) (wa, ?p1)" "reachable (wa, ?p1)" using quiet_thread [OF a(1), of ?p0] w(1) n(1) by simp_all
  have 2: "quiet_server_step\<^sup>*\<^sup>* (wa, ?p1) (wb, ?p2)" "reachable (wb, ?p2)" using quiet_thread [OF b(1), of ?p1] 1(2) n' by simp_all
  have 3: "quiet_server_step\<^sup>*\<^sup>* (wb, ?p2) (wc, ?p3)" "reachable (wc, ?p3)" using quiet_thread [OF d(1), of ?p2] 2(2) n' by simp_all
  have 4: "quiet_server_step\<^sup>*\<^sup>* (wc, ?p3) (wd, ?p4)" "reachable (wd, ?p4)" using quiet_thread [OF e(1), of ?p3] 3(2) n' by simp_all
  have 5: "quiet_server_step\<^sup>*\<^sup>* (wd, ?p4) (we, ?p5)" using quiet_thread [OF f(1), of ?p4] 4(2) n' by simp
  have run: "quiet_server_step\<^sup>*\<^sup>* (w, ?p0) (we, ?p5)" using 1(1) 2(1) 3(1) 4(1) 5 by (meson rtranclp_trans)
  have "marks_ok (w, ?p0)" by (simp add: marks_ok_def)
  moreover have "queue w 3 = [?msg]" using w(8) n(2) by (simp add: queue_def)
  moreover have "blocked i (we, ?p5) \<and> r_running (w_reactors we ! i)" if "i < 4" for i
    using demo_stateD(7,8) [OF f(2) that] that by (auto simp: blocked_def)
  ultimately show thesis using that [OF _ _ _ _ run] w(1) n(1) by simp
qed

section \<open>Every request is answered\<close>

lemma handled_replies:
  assumes f: "fair_run \<sigma>" and h: "handles i \<sigma> m (Response cb res)"
  obtains db where "replies (cb_conn cb) db (reply_of res) (kv_of (fst (\<sigma> m))) (kv_of (fst (\<sigma> (Suc m))))"
proof -
  let ?w = "fst (\<sigma> m)" and ?w' = "fst (\<sigma> (Suc m))"
  obtain q where q: "run_cb i (Response cb res) (set_queue i q ?w) = Some ?w'" using h by (auto simp: handles_def)
  obtain c c' where c: "w_conns ?w (cb_conn cb) = Some c" "resp_op c res = Some c'"
    "?w' = upd_conn (cb_conn cb) (c'\<lparr>c_flags := c_flags c' AND NOT DISPATCH_WAITING\<rparr>) (set_queue i q ?w)"
    using q by (auto simp: run_cb_def cmd_resp_def split: bind_splits)
  have "w_conns ?w' = (w_conns ?w)(cb_conn cb \<mapsto> c'\<lparr>c_flags := c_flags c' AND NOT DISPATCH_WAITING\<rparr>)"
    by (simp add: c(3) upd_conn_def)
  from replies_upd [OF c(1) this] have "replies (cb_conn cb) (unat (c_db c)) (reply_of res) (kv_of ?w) (kv_of ?w')"
    using resp_op_client [OF c(2) world_ok_conn [OF fair_facts(4) [OF f] c(1)]] by (simp add: pending_def)
  then show thesis by (rule that)
qed

text \<open>
  C2: In every fair run of a server in service - a thread that is not blocked in \<^verbatim>\<open>epoll_wait\<close> takes a
  step in the end, and its inner loops end - every request that is in a mailbox is answered: the thread
  that owns the key takes it and runs it on the database of its client, with the result the map gives,
  and later the thread that has asked takes the response and writes the reply for the client. No wake-up
  that was left out, no thread gone to sleep and no message in front of it keeps it from being answered.
\<close>

theorem requests_answered:
  assumes "fair_run \<sigma>" "j < nshards (fst (\<sigma> 0))" "Request cb key hash oper \<in> set (queue (fst (\<sigma> n)) j)"
  shows "\<exists>m \<ge> n. \<exists>m' > m. \<exists>c f res db. handles j \<sigma> m (Request cb key hash oper)
    \<and> w_conns (fst (\<sigma> m)) (cb_conn cb) = Some c \<and> spec_op (store (fst (\<sigma> m)) j (unat (c_db c))) key oper = Some (f, res)
    \<and> handles (cb_src cb) \<sigma> m' (Response \<lparr>cb_src = cb_dst cb, cb_dst = cb_src cb, cb_conn = cb_conn cb\<rparr> res)
    \<and> replies (cb_conn cb) db (reply_of res) (kv_of (fst (\<sigma> m'))) (kv_of (fst (\<sigma> (Suc m'))))"
proof -
  let ?cb = "\<lparr>cb_src = cb_dst cb, cb_dst = cb_src cb, cb_conn = cb_conn cb\<rparr>"
  obtain m where m: "n \<le> m" "handles j \<sigma> m (Request cb key hash oper)" using served_set [OF assms] by blast
  from handled_answers [OF assms(1) m(2)] obtain c f res where r: "w_conns (fst (\<sigma> m)) (cb_conn cb) = Some c"
    "spec_op (store (fst (\<sigma> m)) j (unat (c_db c))) key oper = Some (f, res)"
    "Response ?cb res \<in> set (queue (fst (\<sigma> (Suc m))) (cb_src cb))" "cb_src cb < nshards (fst (\<sigma> 0))" .
  obtain m' where m': "Suc m \<le> m'" "handles (cb_src cb) \<sigma> m' (Response ?cb res)" using served_set [OF assms(1) r(4,3)] by blast
  obtain db where db: "replies (cb_conn ?cb) db (reply_of res) (kv_of (fst (\<sigma> m'))) (kv_of (fst (\<sigma> (Suc m'))))"
    using handled_replies [OF assms(1) m'(2)] .
  have "m < m'" using m'(1) by simp
  then show ?thesis using m r(1,2) m'(2) db [unfolded cb_context.simps] by blast
qed

theorem requests_answered_witness:
  "\<exists>\<sigma> m m' res db. fair_run \<sigma> \<and> handles 3 \<sigma> m (Request \<lparr>cb_src = 0, cb_dst = 3, cb_conn = 1\<rparr> (bstr ''a'') (key_hash (bstr ''a'')) OpGet)
    \<and> m < m' \<and> handles 0 \<sigma> m' (Response \<lparr>cb_src = 3, cb_dst = 0, cb_conn = 1\<rparr> res)
    \<and> replies 1 db (reply_of res) (kv_of (fst (\<sigma> m'))) (kv_of (fst (\<sigma> (Suc m'))))"
proof -
  let ?msg = "Request \<lparr>cb_src = 0, cb_dst = 3, cb_conn = 1\<rparr> (bstr ''a'') (key_hash (bstr ''a'')) OpGet"
  obtain s t where s: "reachable s" "marks_ok s" "\<forall>i. snd s i \<noteq> Polling (- 1)" "nshards (fst s) = 4" "quiet_server_step\<^sup>*\<^sup>* s t"
    "queue (fst s) 3 = [?msg]" "\<And>i. i < 4 \<Longrightarrow> blocked i t \<and> r_running (w_reactors (fst t) ! i)"
    by (rule request_run, rule that, assumption+)
  obtain \<sigma> where f: "\<sigma> 0 = s" "fair_run \<sigma>" using fair_run_exists [OF s(1-3,5)] s(4,7) by auto
  have pre: "3 < nshards (fst (\<sigma> 0))" "?msg \<in> set (queue (fst (\<sigma> 0)) 3)" using f(1) s(4,6) by simp_all
  show ?thesis using requests_answered [OF f(2) pre] f(2) unfolding cb_context.simps by blast
qed

end
