(* ===== verification/Deque.thy ===== *)
theory Deque
  imports Prelude "HOL-Library.Monad_Syntax"
begin

text \<open>
  The doubly linked queue of \<^verbatim>\<open>src/include/deque.c\<close>. The nodes live in a heap of allocated
  addresses; reading or writing through an address that is not allocated is \<open>None\<close>. Pointers are
  optional addresses, with \<open>None\<close> for \<^verbatim>\<open>NULL\<close>. The queue itself is never \<^verbatim>\<open>NULL\<close>, and the
  address that \<^verbatim>\<open>malloc\<close> returns is an argument. The server does not use the queue at present.
\<close>

section \<open>State and operations\<close>

record 'a deque_node =
  dn_data :: 'a
  dn_prev :: "nat option"
  dn_next :: "nat option"

record 'a deque =
  dq_heap :: "nat \<Rightarrow> 'a deque_node option"
  dq_head :: "nat option"
  dq_tail :: "nat option"

definition set_prev :: "nat \<Rightarrow> nat option \<Rightarrow> 'a deque \<Rightarrow> 'a deque option" where
  "set_prev p v d = map_option (\<lambda>n. d\<lparr>dq_heap := (dq_heap d)(p \<mapsto> n\<lparr>dn_prev := v\<rparr>)\<rparr>) (dq_heap d p)"

definition set_next :: "nat \<Rightarrow> nat option \<Rightarrow> 'a deque \<Rightarrow> 'a deque option" where
  "set_next p v d = map_option (\<lambda>n. d\<lparr>dq_heap := (dq_heap d)(p \<mapsto> n\<lparr>dn_next := v\<rparr>)\<rparr>) (dq_heap d p)"

definition deque_init :: "'a deque \<Rightarrow> 'a deque" where
  "deque_init d = d\<lparr>dq_head := None, dq_tail := None\<rparr>"

definition deque_is_empty :: "'a deque \<Rightarrow> bool" where
  "deque_is_empty d \<longleftrightarrow> dq_head d = None"

definition deque_push_front_node :: "nat \<Rightarrow> 'a deque \<Rightarrow> 'a deque option" where
  "deque_push_front_node node d = do {
     d1 \<leftarrow> set_next node (dq_head d) d;
     d2 \<leftarrow> set_prev node None d1;
     d3 \<leftarrow> (case dq_head d2 of
             Some h \<Rightarrow> set_prev h (Some node) d2
           | None \<Rightarrow> Some (d2\<lparr>dq_tail := Some node\<rparr>));
     Some (d3\<lparr>dq_head := Some node\<rparr>) }"

definition deque_push_back_node :: "nat \<Rightarrow> 'a deque \<Rightarrow> 'a deque option" where
  "deque_push_back_node node d = do {
     d1 \<leftarrow> set_next node None d;
     d2 \<leftarrow> set_prev node (dq_tail d1) d1;
     d3 \<leftarrow> (case dq_tail d2 of
             Some t \<Rightarrow> set_next t (Some node) d2
           | None \<Rightarrow> Some (d2\<lparr>dq_head := Some node\<rparr>));
     Some (d3\<lparr>dq_tail := Some node\<rparr>) }"

text \<open>The links of a fresh node hold anything; both are written before they are read.\<close>

definition deque_push_front :: "nat \<Rightarrow> 'a \<Rightarrow> 'a deque \<Rightarrow> 'a deque option" where
  "deque_push_front node data d =
    deque_push_front_node node
      (d\<lparr>dq_heap := (dq_heap d)(node \<mapsto> \<lparr>dn_data = data, dn_prev = None, dn_next = None\<rparr>)\<rparr>)"

definition deque_push_back :: "nat \<Rightarrow> 'a \<Rightarrow> 'a deque \<Rightarrow> 'a deque option" where
  "deque_push_back node data d =
    deque_push_back_node node
      (d\<lparr>dq_heap := (dq_heap d)(node \<mapsto> \<lparr>dn_data = data, dn_prev = None, dn_next = None\<rparr>)\<rparr>)"

definition deque_pop_front :: "'a deque \<Rightarrow> ('a deque \<times> 'a option) option" where
  "deque_pop_front d =
    (case dq_head d of
       None \<Rightarrow> Some (d, None)
     | Some node \<Rightarrow> do {
         n \<leftarrow> dq_heap d node;
         let d1 = d\<lparr>dq_head := dn_next n\<rparr>;
         d2 \<leftarrow> (case dq_head d1 of
                 Some h \<Rightarrow> set_prev h None d1
               | None \<Rightarrow> Some (d1\<lparr>dq_tail := None\<rparr>));
         Some (d2\<lparr>dq_heap := (dq_heap d2)(node := None)\<rparr>, Some (dn_data n)) })"

definition deque_pop_back :: "'a deque \<Rightarrow> ('a deque \<times> 'a option) option" where
  "deque_pop_back d =
    (if deque_is_empty d then Some (d, None)
     else do {
       node \<leftarrow> dq_tail d;
       n \<leftarrow> dq_heap d node;
       let d1 = d\<lparr>dq_tail := dn_prev n\<rparr>;
       d2 \<leftarrow> (case dq_tail d1 of
               Some t \<Rightarrow> set_next t None d1
             | None \<Rightarrow> Some (d1\<lparr>dq_head := None\<rparr>));
       Some (d2\<lparr>dq_heap := (dq_heap d2)(node := None)\<rparr>, Some (dn_data n)) })"

definition deque_detach :: "nat option \<Rightarrow> 'a deque \<Rightarrow> 'a deque option" where
  "deque_detach node d =
    (if deque_is_empty d then Some d
     else case node of
       None \<Rightarrow> Some d
     | Some p \<Rightarrow> do {
         n \<leftarrow> dq_heap d p;
         d1 \<leftarrow> (case dn_prev n of
                 Some q \<Rightarrow> set_next q (dn_next n) d
               | None \<Rightarrow> Some (d\<lparr>dq_head := dn_next n\<rparr>));
         n1 \<leftarrow> dq_heap d1 p;
         (case dn_next n1 of
            Some q \<Rightarrow> set_prev q (dn_prev n1) d1
          | None \<Rightarrow> Some (d1\<lparr>dq_tail := dn_prev n1\<rparr>)) })"

definition deque_move_to_back :: "nat option \<Rightarrow> 'a deque \<Rightarrow> 'a deque option" where
  "deque_move_to_back node d =
    (if deque_is_empty d then Some d
     else case node of
       None \<Rightarrow> Some d
     | Some p \<Rightarrow>
         if node = dq_tail d then Some d
         else do { d1 \<leftarrow> deque_detach node d; deque_push_back_node p d1 })"

definition deque_move_to_front :: "nat option \<Rightarrow> 'a deque \<Rightarrow> 'a deque option" where
  "deque_move_to_front node d =
    (if deque_is_empty d then Some d
     else case node of
       None \<Rightarrow> Some d
     | Some p \<Rightarrow>
         if node = dq_head d then Some d
         else do { d1 \<leftarrow> deque_detach node d; deque_push_front_node p d1 })"

partial_function (option) deque_destroy :: "'a deque \<Rightarrow> 'a deque option" where
  "deque_destroy d =
    (if deque_is_empty d then Some d
     else case deque_pop_front d of None \<Rightarrow> None | Some (d', x) \<Rightarrow> deque_destroy d')"

declare deque_destroy.simps [code]

section \<open>Doubly linked segments\<close>

text \<open>
  \<open>dseg h pr ps nx\<close>: in the heap \<open>h\<close> the nodes \<open>ps\<close> are linked in both directions, the first one back
  to \<open>pr\<close> and the last one on to \<open>nx\<close>.
\<close>

definition first_of :: "nat list \<Rightarrow> nat option \<Rightarrow> nat option" where
  "first_of ps nx = (case ps of [] \<Rightarrow> nx | p # _ \<Rightarrow> Some p)"

definition last_of :: "nat option \<Rightarrow> nat list \<Rightarrow> nat option" where
  "last_of pr ps = (if ps = [] then pr else Some (last ps))"

fun dseg :: "(nat \<Rightarrow> 'a deque_node option) \<Rightarrow> nat option \<Rightarrow> nat list \<Rightarrow> nat option \<Rightarrow> bool" where
  "dseg h pr [] nx \<longleftrightarrow> True"
| "dseg h pr (p # ps) nx \<longleftrightarrow>
    (\<exists>n. h p = Some n \<and> dn_prev n = pr \<and> dn_next n = first_of ps nx) \<and> dseg h (Some p) ps nx"

lemma first_of_simps [simp]: "first_of [] nx = nx" "first_of (p # ps) nx = Some p"
  "first_of (xs @ ys) nx = first_of xs (first_of ys nx)"
  by (simp_all add: first_of_def split: list.splits)

lemma last_of_simps [simp]: "last_of pr [] = pr" "last_of pr (p # ps) = last_of (Some p) ps"
  "last_of pr (ps @ [p]) = Some p" "last_of pr (xs @ ys) = last_of (last_of pr xs) ys"
  by (auto simp: last_of_def)

lemma dseg_append: "dseg h pr (xs @ ys) nx \<longleftrightarrow> dseg h pr xs (first_of ys nx) \<and> dseg h (last_of pr xs) ys nx"
  by (induction xs arbitrary: pr) auto

lemma dseg_frame [simp]: "p \<notin> set ps \<Longrightarrow> dseg (h(p := v)) pr ps nx \<longleftrightarrow> dseg h pr ps nx"
  by (induction ps arbitrary: pr) auto

lemma dseg_alloc: "dseg h pr ps nx \<Longrightarrow> p \<in> set ps \<Longrightarrow> \<exists>n. h p = Some n"
  by (induction ps arbitrary: pr) auto

text \<open>The queue holds the nodes \<open>ps\<close>.\<close>

definition dq_rep :: "'a deque \<Rightarrow> nat list \<Rightarrow> bool" where
  "dq_rep d ps \<longleftrightarrow> distinct ps \<and> dq_head d = first_of ps None \<and> dq_tail d = last_of None ps
     \<and> dseg (dq_heap d) None ps None"

definition dq_value :: "'a deque \<Rightarrow> nat \<Rightarrow> 'a" where
  "dq_value d p = dn_data (the (dq_heap d p))"

text \<open>The contents: the nodes with their data, front to back.\<close>

definition dq_abs :: "'a deque \<Rightarrow> nat list \<Rightarrow> (nat \<times> 'a) list" where
  "dq_abs d ps = map (\<lambda>p. (p, dq_value d p)) ps"

lemma is_empty_rep: "dq_rep d ps \<Longrightarrow> deque_is_empty d \<longleftrightarrow> ps = []"
  by (auto simp: dq_rep_def deque_is_empty_def first_of_def split: list.splits)

section \<open>Writing a link\<close>

text \<open>Writing links neither allocates nor frees nor changes data.\<close>

definition same_data :: "'a deque \<Rightarrow> 'a deque \<Rightarrow> bool" where
  "same_data d d' \<longleftrightarrow> (\<forall>q. map_option dn_data (dq_heap d' q) = map_option dn_data (dq_heap d q))"

lemma same_data_refl [simp]: "same_data d d"
  "dq_heap d' = dq_heap d \<Longrightarrow> same_data d d'"
  by (simp_all add: same_data_def)

lemma same_data_trans: "same_data d d1 \<Longrightarrow> same_data d1 d2 \<Longrightarrow> same_data d d2"
  by (simp add: same_data_def)

lemma same_data_set:
  "set_prev p v d = Some d' \<Longrightarrow> same_data d d'" "set_next p v d = Some d' \<Longrightarrow> same_data d d'"
  by (auto simp: same_data_def set_prev_def set_next_def)

lemma same_data_abs: "same_data d d' \<Longrightarrow> (\<And>p. p \<in> set ps \<Longrightarrow> dq_heap d p \<noteq> None) \<Longrightarrow> dq_abs d' ps = dq_abs d ps"
  by (auto simp: same_data_def dq_abs_def dq_value_def) (metis map_option_eq_Some option.collapse option.sel)

lemma same_data_dom: "same_data d d' \<Longrightarrow> dom (dq_heap d') = dom (dq_heap d)"
proof -
  assume "same_data d d'"
  then have "dq_heap d' q = None \<longleftrightarrow> dq_heap d q = None" for q
    unfolding same_data_def by (metis option.map_disc_iff)
  then show ?thesis by (simp add: dom_def)
qed

lemma dseg_prev:
  "dseg h pr (q # qs) nx \<Longrightarrow> q \<notin> set qs \<Longrightarrow> h q = Some n \<Longrightarrow> dseg (h(q \<mapsto> n\<lparr>dn_prev := v\<rparr>)) v (q # qs) nx"
  by auto

lemma dseg_next:
  "dseg h pr (qs @ [q]) nx \<Longrightarrow> q \<notin> set qs \<Longrightarrow> h q = Some n \<Longrightarrow> dseg (h(q \<mapsto> n\<lparr>dn_next := v\<rparr>)) pr (qs @ [q]) v"
  by (auto simp: dseg_append)

section \<open>Pushing\<close>

lemma push_front_node_ok:
  assumes "dq_rep d ps" "dq_heap d p = Some n" "p \<notin> set ps"
  shows "\<exists>d'. deque_push_front_node p d = Some d' \<and> dq_rep d' (p # ps) \<and> same_data d d'"
proof (cases ps)
  case Nil
  then show ?thesis using assms
    by (auto simp: deque_push_front_node_def set_next_def set_prev_def dq_rep_def same_data_def)
next
  case (Cons h hs)
  obtain m where m: "dq_heap d h = Some m" "dn_prev m = None" "dn_next m = first_of hs None" "dseg (dq_heap d) (Some h) hs None"
    using assms(1) Cons by (auto simp: dq_rep_def)
  show ?thesis using assms m Cons
    by (auto simp: deque_push_front_node_def set_next_def set_prev_def dq_rep_def same_data_def)
qed

lemma push_back_node_ok:
  assumes "dq_rep d ps" "dq_heap d p = Some n" "p \<notin> set ps"
  shows "\<exists>d'. deque_push_back_node p d = Some d' \<and> dq_rep d' (ps @ [p]) \<and> same_data d d'"
proof (cases ps rule: rev_cases)
  case Nil
  then show ?thesis using assms
    by (auto simp: deque_push_back_node_def set_next_def set_prev_def dq_rep_def same_data_def)
next
  case (snoc ts t)
  obtain m where m: "dq_heap d t = Some m" "dn_prev m = last_of None ts" "dn_next m = None" "dseg (dq_heap d) None ts (Some t)"
    using assms(1) snoc by (auto simp: dq_rep_def dseg_append)
  show ?thesis using assms m snoc
    by (auto simp: deque_push_back_node_def set_next_def set_prev_def dq_rep_def same_data_def dseg_append)
qed

section \<open>Popping\<close>

lemma pop_front_ok:
  assumes "dq_rep d (p # ps)"
  shows "\<exists>d'. deque_pop_front d = Some (d', Some (dq_value d p)) \<and> dq_rep d' ps \<and> dq_abs d' ps = dq_abs d ps
    \<and> dom (dq_heap d') = dom (dq_heap d) - {p}"
proof (cases ps)
  case Nil
  then show ?thesis using assms by (auto simp: deque_pop_front_def dq_rep_def Let_def dq_value_def dq_abs_def)
next
  case (Cons h hs)
  then show ?thesis using assms
    by (auto simp: deque_pop_front_def dq_rep_def Let_def dq_value_def dq_abs_def set_prev_def)
qed

lemma pop_back_ok:
  assumes "dq_rep d (ps @ [p])"
  shows "\<exists>d'. deque_pop_back d = Some (d', Some (dq_value d p)) \<and> dq_rep d' ps \<and> dq_abs d' ps = dq_abs d ps
    \<and> dom (dq_heap d') = dom (dq_heap d) - {p}"
proof (cases ps rule: rev_cases)
  case Nil
  then show ?thesis using assms
    by (auto simp: deque_pop_back_def deque_is_empty_def dq_rep_def Let_def dq_value_def dq_abs_def)
next
  case (snoc ts t)
  then show ?thesis using assms
    by (cases ts) (auto simp: deque_pop_back_def deque_is_empty_def dq_rep_def Let_def dq_value_def dq_abs_def set_next_def dseg_append)
qed

lemma pop_empty: "dq_rep d [] \<Longrightarrow> deque_pop_front d = Some (d, None) \<and> deque_pop_back d = Some (d, None)"
  by (simp add: dq_rep_def deque_pop_front_def deque_pop_back_def deque_is_empty_def)

section \<open>Detaching and moving\<close>

text \<open>A detached node stays allocated and keeps its links.\<close>

lemma detach_ok:
  assumes "dq_rep d (xs @ p # ys)"
  shows "\<exists>d'. deque_detach (Some p) d = Some d' \<and> dq_rep d' (xs @ ys) \<and> same_data d d'"
proof (cases xs rule: rev_cases)
  case Nil
  then show ?thesis using assms
    by (cases ys) (auto simp: deque_detach_def deque_is_empty_def dq_rep_def set_prev_def set_next_def same_data_def dseg_append)
next
  case (snoc us u)
  then show ?thesis using assms
    by (cases ys; cases us) (auto simp: deque_detach_def deque_is_empty_def dq_rep_def set_prev_def set_next_def same_data_def dseg_append)
qed

lemma rep_alloc: "dq_rep d ps \<Longrightarrow> set ps \<subseteq> dom (dq_heap d)"
  using dseg_alloc by (fastforce simp: dq_rep_def)

lemma move_to_back_ok:
  assumes "dq_rep d (xs @ p # ys)"
  shows "\<exists>d'. deque_move_to_back (Some p) d = Some d' \<and> dq_rep d' (xs @ ys @ [p]) \<and> same_data d d'"
proof (cases ys)
  case Nil
  then have "dq_tail d = Some p" using assms by (simp add: dq_rep_def)
  then show ?thesis using assms Nil by (auto simp: deque_move_to_back_def)
next
  case (Cons y zs)
  have ne: "\<not> deque_is_empty d" using is_empty_rep [OF assms] by simp
  have "last ys \<in> set ys" "p \<notin> set ys" using assms Cons by (auto simp: dq_rep_def)
  then have tail: "dq_tail d \<noteq> Some p" using assms Cons by (auto simp: dq_rep_def last_of_def)
  obtain d1 where d1: "deque_detach (Some p) d = Some d1" "dq_rep d1 (xs @ ys)" "same_data d d1"
    using detach_ok [OF assms] by blast
  have "p \<in> dom (dq_heap d1)" using rep_alloc [OF assms] unfolding same_data_dom [OF d1(3)] by simp
  then obtain n where "dq_heap d1 p = Some n" by blast
  moreover have "p \<notin> set (xs @ ys)" using assms by (auto simp: dq_rep_def)
  ultimately obtain d2 where "deque_push_back_node p d1 = Some d2" "dq_rep d2 ((xs @ ys) @ [p])" "same_data d1 d2"
    using push_back_node_ok [OF d1(2)] by blast
  then show ?thesis using d1 ne tail same_data_trans by (auto simp: deque_move_to_back_def)
qed

lemma move_to_front_ok:
  assumes "dq_rep d (xs @ p # ys)"
  shows "\<exists>d'. deque_move_to_front (Some p) d = Some d' \<and> dq_rep d' (p # xs @ ys) \<and> same_data d d'"
proof (cases xs)
  case Nil
  then have "dq_head d = Some p" using assms by (simp add: dq_rep_def)
  then show ?thesis using assms Nil by (auto simp: deque_move_to_front_def)
next
  case (Cons x zs)
  have ne: "\<not> deque_is_empty d" using is_empty_rep [OF assms] by simp
  have head: "dq_head d \<noteq> Some p" using assms Cons by (auto simp: dq_rep_def)
  obtain d1 where d1: "deque_detach (Some p) d = Some d1" "dq_rep d1 (xs @ ys)" "same_data d d1"
    using detach_ok [OF assms] by blast
  have "p \<in> dom (dq_heap d1)" using rep_alloc [OF assms] unfolding same_data_dom [OF d1(3)] by simp
  then obtain n where "dq_heap d1 p = Some n" by blast
  moreover have "p \<notin> set (xs @ ys)" using assms by (auto simp: dq_rep_def)
  ultimately obtain d2 where "deque_push_front_node p d1 = Some d2" "dq_rep d2 (p # xs @ ys)" "same_data d1 d2"
    using push_front_node_ok [OF d1(2)] by blast
  then show ?thesis using d1 ne head same_data_trans by (auto simp: deque_move_to_front_def)
qed

section \<open>Fresh nodes\<close>

lemma alloc_rep:
  assumes "dq_rep d ps" "p \<notin> set ps"
  shows "dq_rep (d\<lparr>dq_heap := (dq_heap d)(p := v)\<rparr>) ps" "dq_abs (d\<lparr>dq_heap := (dq_heap d)(p := v)\<rparr>) ps = dq_abs d ps"
  using assms by (auto simp: dq_rep_def dq_abs_def dq_value_def)

lemma push_front_ok:
  assumes "dq_rep d ps" "p \<notin> dom (dq_heap d)"
  shows "\<exists>d'. deque_push_front p x d = Some d' \<and> dq_rep d' (p # ps) \<and> dq_abs d' (p # ps) = (p, x) # dq_abs d ps
    \<and> dom (dq_heap d') = insert p (dom (dq_heap d))"
proof -
  let ?d = "d\<lparr>dq_heap := (dq_heap d)(p \<mapsto> \<lparr>dn_data = x, dn_prev = None, dn_next = None\<rparr>)\<rparr>"
  have p: "p \<notin> set ps" using rep_alloc [OF assms(1)] assms(2) by blast
  obtain d' where d': "deque_push_front_node p ?d = Some d'" "dq_rep d' (p # ps)" "same_data ?d d'"
    using push_front_node_ok [OF alloc_rep(1) [OF assms(1) p] _ p] by force
  have "set (p # ps) \<subseteq> dom (dq_heap ?d)" using rep_alloc [OF assms(1)] by auto
  then have "dq_abs d' (p # ps) = dq_abs ?d (p # ps)" using same_data_abs [OF d'(3)] by blast
  moreover have "dom (dq_heap d') = insert p (dom (dq_heap d))" using same_data_dom [OF d'(3)] by simp
  moreover have "dq_abs ?d (p # ps) = (p, x) # dq_abs d ps" using p by (auto simp: dq_abs_def dq_value_def)
  ultimately show ?thesis using d' by (simp add: deque_push_front_def)
qed

lemma push_back_ok:
  assumes "dq_rep d ps" "p \<notin> dom (dq_heap d)"
  shows "\<exists>d'. deque_push_back p x d = Some d' \<and> dq_rep d' (ps @ [p]) \<and> dq_abs d' (ps @ [p]) = dq_abs d ps @ [(p, x)]
    \<and> dom (dq_heap d') = insert p (dom (dq_heap d))"
proof -
  let ?d = "d\<lparr>dq_heap := (dq_heap d)(p \<mapsto> \<lparr>dn_data = x, dn_prev = None, dn_next = None\<rparr>)\<rparr>"
  have p: "p \<notin> set ps" using rep_alloc [OF assms(1)] assms(2) by blast
  obtain d' where d': "deque_push_back_node p ?d = Some d'" "dq_rep d' (ps @ [p])" "same_data ?d d'"
    using push_back_node_ok [OF alloc_rep(1) [OF assms(1) p] _ p] by force
  have "set (ps @ [p]) \<subseteq> dom (dq_heap ?d)" using rep_alloc [OF assms(1)] by auto
  then have "dq_abs d' (ps @ [p]) = dq_abs ?d (ps @ [p])" using same_data_abs [OF d'(3)] by blast
  moreover have "dom (dq_heap d') = insert p (dom (dq_heap d))" using same_data_dom [OF d'(3)] by simp
  moreover have "dq_abs ?d (ps @ [p]) = dq_abs d ps @ [(p, x)]" using p by (auto simp: dq_abs_def dq_value_def)
  ultimately show ?thesis using d' by (simp add: deque_push_back_def)
qed

section \<open>Destroying\<close>

lemma destroy_ok:
  "dq_rep d ps \<Longrightarrow> \<exists>d'. deque_destroy d = Some d' \<and> dq_rep d' [] \<and> dom (dq_heap d') = dom (dq_heap d) - set ps"
proof (induction ps arbitrary: d)
  case Nil
  then have "deque_destroy d = Some d" using is_empty_rep [OF Nil] by (subst deque_destroy.simps) simp
  then show ?case using Nil by auto
next
  case (Cons p ps)
  obtain d1 where d1: "deque_pop_front d = Some (d1, Some (dq_value d p))" "dq_rep d1 ps" "dom (dq_heap d1) = dom (dq_heap d) - {p}"
    using pop_front_ok [OF Cons.prems] by blast
  obtain d2 where "deque_destroy d1 = Some d2" "dq_rep d2 []" "dom (dq_heap d2) = dom (dq_heap d1) - set ps"
    using Cons.IH [OF d1(2)] by blast
  moreover have "deque_destroy d = deque_destroy d1"
    using is_empty_rep [OF Cons.prems] d1(1) by (subst deque_destroy.simps) simp
  ultimately show ?case using d1(3) by auto
qed

end
