(* ===== verification/Deque_Props.thy ===== *)
theory Deque_Props
  imports Deque
begin

text \<open>
  The contract of the doubly linked queue: sequences of its operations behave as operations on a
  list of nodes with their data.
\<close>

section \<open>Sequences of operations and their specification\<close>

datatype 'a deque_op =
    Push_front nat 'a | Push_back nat 'a | Pop_front | Pop_back
  | Move_front nat | Move_back nat | Detach nat

fun run_op :: "'a deque_op \<Rightarrow> 'a deque \<Rightarrow> ('a deque \<times> 'a option) option" where
  "run_op (Push_front p x) d = map_option (\<lambda>d'. (d', None)) (deque_push_front p x d)"
| "run_op (Push_back p x) d = map_option (\<lambda>d'. (d', None)) (deque_push_back p x d)"
| "run_op Pop_front d = deque_pop_front d"
| "run_op Pop_back d = deque_pop_back d"
| "run_op (Move_front p) d = map_option (\<lambda>d'. (d', None)) (deque_move_to_front (Some p) d)"
| "run_op (Move_back p) d = map_option (\<lambda>d'. (d', None)) (deque_move_to_back (Some p) d)"
| "run_op (Detach p) d = map_option (\<lambda>d'. (d', None)) (deque_detach (Some p) d)"

text \<open>
  The specification works on the list of nodes with their data and the set of allocated addresses.
  It is undefined where a client breaks the contract: a pushed address that is not fresh, a moved
  or detached node that is not in the queue.
\<close>

definition others :: "nat \<Rightarrow> (nat \<times> 'a) list \<Rightarrow> (nat \<times> 'a) list" where
  "others p l = filter (\<lambda>e. fst e \<noteq> p) l"

definition node_of :: "nat \<Rightarrow> (nat \<times> 'a) list \<Rightarrow> nat \<times> 'a" where
  "node_of p l = (p, the (map_of l p))"

fun spec_op1 :: "'a deque_op \<Rightarrow> (nat \<times> 'a) list \<times> nat set \<Rightarrow> (((nat \<times> 'a) list \<times> nat set) \<times> 'a option) option" where
  "spec_op1 (Push_front p x) (l, A) = (if p \<in> A then None else Some (((p, x) # l, insert p A), None))"
| "spec_op1 (Push_back p x) (l, A) = (if p \<in> A then None else Some ((l @ [(p, x)], insert p A), None))"
| "spec_op1 Pop_front (l, A) =
    (case l of [] \<Rightarrow> Some ((l, A), None) | (p, x) # l' \<Rightarrow> Some ((l', A - {p}), Some x))"
| "spec_op1 Pop_back (l, A) =
    (if l = [] then Some ((l, A), None) else Some ((butlast l, A - {fst (last l)}), Some (snd (last l))))"
| "spec_op1 (Move_front p) (l, A) =
    (if p \<in> fst ` set l then Some ((node_of p l # others p l, A), None) else None)"
| "spec_op1 (Move_back p) (l, A) =
    (if p \<in> fst ` set l then Some ((others p l @ [node_of p l], A), None) else None)"
| "spec_op1 (Detach p) (l, A) = (if p \<in> fst ` set l then Some ((others p l, A), None) else None)"

fun run_deque :: "'a deque_op list \<Rightarrow> 'a deque \<Rightarrow> ('a deque \<times> 'a option list) option" where
  "run_deque [] d = Some (d, [])"
| "run_deque (q # qs) d = do {
     (d1, r) \<leftarrow> run_op q d;
     (d2, rs) \<leftarrow> run_deque qs d1;
     Some (d2, r # rs) }"

fun spec_deque :: "'a deque_op list \<Rightarrow> (nat \<times> 'a) list \<times> nat set \<Rightarrow>
    (((nat \<times> 'a) list \<times> nat set) \<times> 'a option list) option" where
  "spec_deque [] s = Some (s, [])"
| "spec_deque (q # qs) s = do {
     (s1, r) \<leftarrow> spec_op1 q s;
     (s2, rs) \<leftarrow> spec_deque qs s1;
     Some (s2, r # rs) }"

section \<open>Refinement\<close>

lemma abs_split:
  assumes "dq_rep d (xs @ p # ys)"
  shows "others p (dq_abs d (xs @ p # ys)) = dq_abs d (xs @ ys)"
    "node_of p (dq_abs d (xs @ p # ys)) = (p, dq_value d p)"
proof -
  have d: "p \<notin> set xs" "p \<notin> set ys" using assms by (auto simp: dq_rep_def)
  then have "filter (\<lambda>q. q \<noteq> p) xs = xs" "filter (\<lambda>q. q \<noteq> p) ys = ys" by (auto simp: filter_id_conv)
  then show "others p (dq_abs d (xs @ p # ys)) = dq_abs d (xs @ ys)"
    by (simp add: others_def dq_abs_def filter_map o_def)
  have "map_of (dq_abs d xs) p = None" using d by (auto simp: dq_abs_def map_of_eq_None_iff)
  then show "node_of p (dq_abs d (xs @ p # ys)) = (p, dq_value d p)"
    by (simp add: node_of_def) (simp add: dq_abs_def map_add_def)
qed

lemma moved_abs:
  assumes "dq_rep d (xs @ p # ys)" "same_data d d'" "set zs \<subseteq> set (xs @ p # ys)"
  shows "dq_abs d' zs = dq_abs d zs"
  using rep_alloc [OF assms(1)] assms(2,3) by (intro same_data_abs) auto

lemma run_op_refines:
  assumes rep: "dq_rep d ps" and spec: "spec_op1 q (dq_abs d ps, dom (dq_heap d)) = Some ((l, A), r)"
  shows "\<exists>d' ps'. run_op q d = Some (d', r) \<and> dq_rep d' ps' \<and> dq_abs d' ps' = l \<and> dom (dq_heap d') = A"
proof -
  have mem: "p \<in> fst ` set (dq_abs d ps) \<longleftrightarrow> p \<in> set ps" for p by (simp add: dq_abs_def image_image)
  have move: "\<exists>xs ys. ps = xs @ p # ys" if "p \<in> set ps" for p using split_list [OF that] .
  show ?thesis
  proof (cases q)
    case (Push_front p x)
    then show ?thesis using push_front_ok [OF rep, of p x] spec by (force split: if_splits)
  next
    case (Push_back p x)
    then show ?thesis using push_back_ok [OF rep, of p x] spec by (force split: if_splits)
  next
    case Pop_front
    show ?thesis
    proof (cases ps)
      case Nil
      then show ?thesis using Pop_front pop_empty rep spec by (auto simp: dq_abs_def)
    next
      case (Cons p qs)
      have "(l, A) = (dq_abs d qs, dom (dq_heap d) - {p})" "r = Some (dq_value d p)"
        using spec Pop_front Cons by (simp_all add: dq_abs_def)
      then show ?thesis using pop_front_ok [of d p qs] rep Cons Pop_front by auto
    qed
  next
    case Pop_back
    show ?thesis
    proof (cases ps rule: rev_cases)
      case Nil
      then show ?thesis using Pop_back pop_empty rep spec by (auto simp: dq_abs_def)
    next
      case (snoc qs p)
      have "(l, A) = (dq_abs d qs, dom (dq_heap d) - {p})" "r = Some (dq_value d p)"
        using spec Pop_back snoc by (simp_all add: dq_abs_def)
      then show ?thesis using pop_back_ok [of d qs p] rep snoc Pop_back by auto
    qed
  next
    case (Move_front p)
    then have "p \<in> set ps" and l: "l = node_of p (dq_abs d ps) # others p (dq_abs d ps)" "A = dom (dq_heap d)" "r = None"
      using spec mem by (auto split: if_splits)
    then obtain xs ys where ps: "ps = xs @ p # ys" using move by blast
    obtain d' where d': "deque_move_to_front (Some p) d = Some d'" "dq_rep d' (p # xs @ ys)" "same_data d d'"
      using move_to_front_ok rep ps by blast
    have "dq_abs d' (p # xs @ ys) = dq_abs d (p # xs @ ys)" using moved_abs [of d xs p ys d'] rep ps d'(3) by auto
    also have "\<dots> = l" using abs_split [of d xs p ys] rep ps l(1) by (simp add: dq_abs_def)
    finally show ?thesis using d' same_data_dom [OF d'(3)] l Move_front by auto
  next
    case (Move_back p)
    then have "p \<in> set ps" and l: "l = others p (dq_abs d ps) @ [node_of p (dq_abs d ps)]" "A = dom (dq_heap d)" "r = None"
      using spec mem by (auto split: if_splits)
    then obtain xs ys where ps: "ps = xs @ p # ys" using move by blast
    obtain d' where d': "deque_move_to_back (Some p) d = Some d'" "dq_rep d' (xs @ ys @ [p])" "same_data d d'"
      using move_to_back_ok rep ps by blast
    have "dq_abs d' (xs @ ys @ [p]) = dq_abs d (xs @ ys @ [p])" using moved_abs [of d xs p ys d'] rep ps d'(3) by auto
    also have "\<dots> = l" using abs_split [of d xs p ys] rep ps l(1) by (simp add: dq_abs_def)
    finally show ?thesis using d' same_data_dom [OF d'(3)] l Move_back by auto
  next
    case (Detach p)
    then have "p \<in> set ps" and l: "l = others p (dq_abs d ps)" "A = dom (dq_heap d)" "r = None"
      using spec mem by (auto split: if_splits)
    then obtain xs ys where ps: "ps = xs @ p # ys" using move by blast
    obtain d' where d': "deque_detach (Some p) d = Some d'" "dq_rep d' (xs @ ys)" "same_data d d'"
      using detach_ok rep ps by blast
    have "set (xs @ ys) \<subseteq> set (xs @ p # ys)" by auto
    then have "dq_abs d' (xs @ ys) = dq_abs d (xs @ ys)" using moved_abs [OF _ d'(3)] rep ps by simp
    also have "\<dots> = l" using abs_split [of d xs p ys] rep ps l(1) by simp
    finally show ?thesis using d' same_data_dom [OF d'(3)] l Detach by auto
  qed
qed

text \<open>
  C23: The doubly linked queue refines a list of nodes: any sequence of pushes of fresh nodes, pops
  at either end, moves to either end and detachments of nodes in the queue never touches an
  unallocated node, gives the results of the corresponding list operations, leaves the links of
  the queue well formed in both directions, and has allocated and freed exactly the right nodes.
\<close>

theorem deque_refines_list:
  assumes "dq_rep d ps" "spec_deque ops (dq_abs d ps, dom (dq_heap d)) = Some ((l, A), rs)"
  shows "\<exists>d' ps'. run_deque ops d = Some (d', rs) \<and> dq_rep d' ps' \<and> dq_abs d' ps' = l \<and> dom (dq_heap d') = A"
  using assms
proof (induction ops arbitrary: d ps rs)
  case (Cons q ops)
  obtain l1 A1 r rs1 where s: "spec_op1 q (dq_abs d ps, dom (dq_heap d)) = Some ((l1, A1), r)"
    "spec_deque ops (l1, A1) = Some ((l, A), rs1)" "rs = r # rs1"
    using Cons.prems(2) by (auto simp: Option.bind_eq_Some_conv)
  obtain d1 ps1 where d1: "run_op q d = Some (d1, r)" "dq_rep d1 ps1" "dq_abs d1 ps1 = l1" "dom (dq_heap d1) = A1"
    using run_op_refines [OF Cons.prems(1) s(1)] by blast
  from Cons.IH [OF d1(2)] d1 s show ?case by auto
qed auto

theorem deque_refines_list_witness:
  "\<exists>d. run_deque [Push_back 1 ''a'', Push_back 2 ''b'', Push_back 3 ''c'', Move_back 1, Detach 3, Pop_front, Pop_back, Pop_back]
      (deque_init \<lparr>dq_heap = \<lambda>_. None, dq_head = None, dq_tail = None\<rparr>)
    = Some (d, [None, None, None, None, None, Some ''b'', Some ''a'', None]) \<and> dom (dq_heap d) = {3}"
proof -
  let ?ops = "[Push_back 1 ''a'', Push_back 2 ''b'', Push_back 3 ''c'', Move_back 1, Detach 3, Pop_front, Pop_back, Pop_back]"
  let ?d = "deque_init \<lparr>dq_heap = \<lambda>_. None, dq_head = None, dq_tail = None\<rparr> :: string deque"
  have "dq_rep ?d []" by (simp add: dq_rep_def deque_init_def)
  moreover have "spec_deque ?ops (dq_abs ?d [], dom (dq_heap ?d))
      = Some (([], {3}), [None, None, None, None, None, Some ''b'', Some ''a'', None])"
    by (auto simp: dq_abs_def deque_init_def others_def node_of_def)
  ultimately show ?thesis using deque_refines_list by metis
qed

text \<open>
  \<open>deque_destroy\<close> terminates on every well-formed queue: it leaves the queue empty and frees
  exactly the nodes that were in it.
\<close>

theorem deque_destroy_frees:
  assumes "dq_rep d ps"
  shows "\<exists>d'. deque_destroy d = Some d' \<and> deque_is_empty d' \<and> dom (dq_heap d') = dom (dq_heap d) - set ps"
proof -
  obtain d' where d': "deque_destroy d = Some d'" "dq_rep d' []" "dom (dq_heap d') = dom (dq_heap d) - set ps"
    using destroy_ok [OF assms] by blast
  then show ?thesis using is_empty_rep [OF d'(2)] by auto
qed

theorem deque_destroy_frees_witness:
  "\<exists>d d' :: string deque. deque_push_front 7 ''x'' (deque_init \<lparr>dq_heap = \<lambda>_. None, dq_head = None, dq_tail = None\<rparr>) = Some d
     \<and> deque_destroy d = Some d' \<and> dom (dq_heap d) = {7} \<and> dom (dq_heap d') = {}"
proof -
  let ?d = "deque_init \<lparr>dq_heap = \<lambda>_. None, dq_head = None, dq_tail = None\<rparr> :: string deque"
  have "dq_rep ?d []" "7 \<notin> dom (dq_heap ?d)" by (simp_all add: dq_rep_def deque_init_def)
  from push_front_ok [OF this, of "''x''"] obtain d where
    d: "deque_push_front 7 ''x'' ?d = Some d" "dq_rep d [7]" "dom (dq_heap d) = {7}" by (auto simp: deque_init_def)
  from deque_destroy_frees [OF d(2)] d show ?thesis by auto
qed

end
