(* ===== verification/Deque_Embedded.thy ===== *)
theory Deque_Embedded
  imports Prelude "HOL-Library.Monad_Syntax"
begin

text \<open>
  The intrusive list of \<^verbatim>\<open>src/include/deque_embedded.c\<close>, which the preprocessor leaves out of the
  program: nodes inside other structures, linked into a circle through a head node. The nodes live in
  a heap of allocated addresses; reading or writing through an address that is not allocated, or
  through \<^verbatim>\<open>NULL\<close>, is \<open>None\<close>.
\<close>

section \<open>State and operations\<close>

record embedded =
  em_prev :: "nat option"
  em_next :: "nat option"

type_synonym embedded_heap = "nat \<rightharpoonup> embedded"

definition link_prev :: "nat \<Rightarrow> nat option \<Rightarrow> embedded_heap \<Rightarrow> embedded_heap option" where
  "link_prev p v h = map_option (\<lambda>n. h(p \<mapsto> n\<lparr>em_prev := v\<rparr>)) (h p)"

definition link_next :: "nat \<Rightarrow> nat option \<Rightarrow> embedded_heap \<Rightarrow> embedded_heap option" where
  "link_next p v h = map_option (\<lambda>n. h(p \<mapsto> n\<lparr>em_next := v\<rparr>)) (h p)"

definition embedded_init :: "nat \<Rightarrow> embedded_heap \<Rightarrow> embedded_heap option" where
  "embedded_init node h = do { h1 \<leftarrow> link_next node (Some node) h; link_prev node (Some node) h1 }"

definition embedded_is_empty :: "nat \<Rightarrow> embedded_heap \<Rightarrow> bool option" where
  "embedded_is_empty node h = map_option (\<lambda>n. em_next n = Some node) (h node)"

definition embedded_detach :: "nat option \<Rightarrow> embedded_heap \<Rightarrow> embedded_heap option" where
  "embedded_detach node h =
    (case node of
       None \<Rightarrow> Some h
     | Some p \<Rightarrow> do {
         empty \<leftarrow> embedded_is_empty p h;
         if empty then Some h
         else do {
           n \<leftarrow> h p;
           h1 \<leftarrow> (case em_next n of Some q \<Rightarrow> link_prev q (em_prev n) h | None \<Rightarrow> Some h);
           (case em_prev n of Some q \<Rightarrow> link_next q (em_next n) h1 | None \<Rightarrow> Some h1) } })"

definition embedded_insert_after :: "nat \<Rightarrow> nat \<Rightarrow> embedded_heap \<Rightarrow> embedded_heap option" where
  "embedded_insert_after node new_node h = do {
     n \<leftarrow> h node;
     h1 \<leftarrow> link_next new_node (em_next n) h;
     h2 \<leftarrow> link_prev new_node (Some node) h1;
     q \<leftarrow> em_next n;
     h3 \<leftarrow> link_prev q (Some new_node) h2;
     link_next node (Some new_node) h3 }"

definition embedded_insert_before :: "nat \<Rightarrow> nat \<Rightarrow> embedded_heap \<Rightarrow> embedded_heap option" where
  "embedded_insert_before node new_node h = do {
     n \<leftarrow> h node;
     h1 \<leftarrow> link_next new_node (Some node) h;
     h2 \<leftarrow> link_prev new_node (em_prev n) h1;
     q \<leftarrow> em_prev n;
     h3 \<leftarrow> link_next q (Some new_node) h2;
     link_prev node (Some new_node) h3 }"

section \<open>Chains and circles\<close>

text \<open>\<open>chain h a xs b\<close>: from \<open>a\<close> the links lead through \<open>xs\<close> to \<open>b\<close>, and back.\<close>

definition linked :: "embedded_heap \<Rightarrow> nat \<Rightarrow> nat \<Rightarrow> bool" where
  "linked h a b \<longleftrightarrow> (\<exists>n m. h a = Some n \<and> em_next n = Some b \<and> h b = Some m \<and> em_prev m = Some a)"

fun chain :: "embedded_heap \<Rightarrow> nat \<Rightarrow> nat list \<Rightarrow> nat \<Rightarrow> bool" where
  "chain h a [] b \<longleftrightarrow> linked h a b"
| "chain h a (x # xs) b \<longleftrightarrow> linked h a x \<and> chain h x xs b"

definition circle :: "embedded_heap \<Rightarrow> nat \<Rightarrow> nat list \<Rightarrow> bool" where
  "circle h p xs \<longleftrightarrow> distinct (p # xs) \<and> chain h p xs p"

lemma chain_append: "chain h a (xs @ x # ys) b \<longleftrightarrow> chain h a xs x \<and> chain h x ys b"
  by (induction xs arbitrary: a) auto

lemma chain_prev: "link_prev q v h = Some h' \<Longrightarrow> q \<notin> set xs \<Longrightarrow> q \<noteq> b \<Longrightarrow> chain h a xs b \<Longrightarrow> chain h' a xs b"
  by (induction xs arbitrary: a) (auto simp: link_prev_def linked_def)

lemma chain_next: "link_next q v h = Some h' \<Longrightarrow> q \<notin> set xs \<Longrightarrow> q \<noteq> a \<Longrightarrow> chain h a xs b \<Longrightarrow> chain h' a xs b"
  by (induction xs arbitrary: a) (auto simp: link_next_def linked_def)

lemma chain_alloc: "chain h a xs b \<Longrightarrow> q \<in> insert a (insert b (set xs)) \<Longrightarrow> \<exists>n. h q = Some n"
  by (induction xs arbitrary: a) (auto simp: linked_def)

text \<open>Every node of a circle is as good a head as any other.\<close>

lemma circle_rotate: "circle h p (xs @ q # ys) \<longleftrightarrow> circle h q (ys @ p # xs)"
  by (auto simp: circle_def chain_append)

section \<open>The operations on a circle\<close>

lemma link_dom: "link_prev q v h = Some h' \<Longrightarrow> dom h' = dom h" "link_next q v h = Some h' \<Longrightarrow> dom h' = dom h"
  by (auto simp: link_prev_def link_next_def dom_def split: if_splits)

lemma link_ok:
  "dom h = A \<Longrightarrow> p \<in> A \<Longrightarrow> \<exists>h'. link_prev p v h = Some h' \<and> dom h' = A"
  "dom h = A \<Longrightarrow> p \<in> A \<Longrightarrow> \<exists>h'. link_next p v h = Some h' \<and> dom h' = A"
  using link_dom by (fastforce simp: link_prev_def link_next_def)+

lemma init_circle: "h p = Some n \<Longrightarrow> \<exists>h'. embedded_init p h = Some h' \<and> circle h' p [] \<and> dom h' = dom h"
  by (auto simp: embedded_init_def link_prev_def link_next_def circle_def linked_def)

lemma is_empty_circle: "circle h p xs \<Longrightarrow> embedded_is_empty p h = Some (xs = [])"
  by (cases xs) (auto simp: circle_def linked_def embedded_is_empty_def)


lemma insert_after_head:
  assumes "circle h p xs" "r \<in> dom h - set (p # xs)"
  shows "\<exists>h'. embedded_insert_after p r h = Some h' \<and> dom h' = dom h \<and> circle h' p (r # xs)"
proof (cases xs)
  case Nil
  then show ?thesis using assms
    by (auto simp: circle_def linked_def embedded_insert_after_def link_prev_def link_next_def)
next
  case (Cons x ys)
  obtain n nx where n: "h p = Some n" "em_next n = Some x" "h x = Some nx" "em_prev nx = Some p"
    and ch: "chain h x ys p" and d: "distinct (p # xs)" using assms(1) Cons by (auto simp: circle_def linked_def)
  have new: "r \<noteq> p" "r \<noteq> x" "r \<notin> set ys" using assms(2) Cons by auto
  have dm: "r \<in> dom h" "x \<in> dom h" "p \<in> dom h" using assms(2) n(1,3) by auto
  obtain h1 where h1: "link_next r (Some x) h = Some h1" "dom h1 = dom h" using link_ok(2) [OF refl dm(1)] by blast
  obtain h2 where h2: "link_prev r (Some p) h1 = Some h2" "dom h2 = dom h" using link_ok(1) [OF h1(2) dm(1)] by blast
  obtain h3 where h3: "link_prev x (Some r) h2 = Some h3" "dom h3 = dom h" using link_ok(1) [OF h2(2) dm(2)] by blast
  obtain h4 where h4: "link_next p (Some r) h3 = Some h4" "dom h4 = dom h" using link_ok(2) [OF h3(2) dm(3)] by blast
  note w = h1(1) h2(1) h3(1) h4(1)
  have "chain h1 x ys p" by (rule chain_next [OF w(1) _ _ ch]) (use new in auto)
  then have "chain h2 x ys p" by (rule chain_prev [OF w(2) new(3,1)])
  then have "chain h3 x ys p" by (rule chain_prev [OF w(3), rotated -1]) (use d Cons in auto)
  then have "chain h4 x ys p" by (rule chain_next [OF w(4), rotated -1]) (use d Cons in auto)
  moreover have "linked h4 p r" "linked h4 r x"
    using w n new d Cons by (auto simp: linked_def link_next_def link_prev_def)
  moreover have "embedded_insert_after p r h = Some h4" using n(1,2) w by (simp add: embedded_insert_after_def)
  moreover have "dom h4 = dom h" by (rule h4(2))
  ultimately show ?thesis using d new Cons by (auto simp: circle_def)
qed

lemma insert_before_head:
  assumes "circle h p xs" "r \<in> dom h - set (p # xs)"
  shows "\<exists>h'. embedded_insert_before p r h = Some h' \<and> dom h' = dom h \<and> circle h' p (xs @ [r])"
proof (cases xs rule: rev_cases)
  case Nil
  then show ?thesis using assms
    by (auto simp: circle_def linked_def embedded_insert_before_def link_prev_def link_next_def)
next
  case (snoc ys x)
  obtain n nx where n: "h p = Some n" "em_prev n = Some x" "h x = Some nx" "em_next nx = Some p"
    and ch: "chain h p ys x" and d: "distinct (p # xs)" using assms(1) snoc by (auto simp: circle_def linked_def chain_append)
  have new: "r \<noteq> p" "r \<noteq> x" "r \<notin> set ys" using assms(2) snoc by auto
  have dm: "r \<in> dom h" "x \<in> dom h" "p \<in> dom h" using assms(2) n(1,3) by auto
  obtain h1 where h1: "link_next r (Some p) h = Some h1" "dom h1 = dom h" using link_ok(2) [OF refl dm(1)] by blast
  obtain h2 where h2: "link_prev r (Some x) h1 = Some h2" "dom h2 = dom h" using link_ok(1) [OF h1(2) dm(1)] by blast
  obtain h3 where h3: "link_next x (Some r) h2 = Some h3" "dom h3 = dom h" using link_ok(2) [OF h2(2) dm(2)] by blast
  obtain h4 where h4: "link_prev p (Some r) h3 = Some h4" "dom h4 = dom h" using link_ok(1) [OF h3(2) dm(3)] by blast
  note w = h1(1) h2(1) h3(1) h4(1)
  have "chain h1 p ys x" by (rule chain_next [OF w(1) _ _ ch]) (use new in auto)
  then have "chain h2 p ys x" by (rule chain_prev [OF w(2) new(3,2)])
  then have "chain h3 p ys x" by (rule chain_next [OF w(3), rotated -1]) (use d snoc in auto)
  then have "chain h4 p ys x" by (rule chain_prev [OF w(4), rotated -1]) (use d snoc in auto)
  moreover have "linked h4 x r" "linked h4 r p"
    using w n new d snoc by (auto simp: linked_def link_next_def link_prev_def)
  moreover have "embedded_insert_before p r h = Some h4" using n(1,2) w by (simp add: embedded_insert_before_def)
  moreover have "dom h4 = dom h" by (rule h4(2))
  ultimately show ?thesis using d new snoc by (auto simp: circle_def chain_append)
qed

text \<open>The head leaves: the rest is a circle of which the next node is the head. The links of the node stay.\<close>

lemma detach_head:
  assumes "circle h q (y # zs)"
  shows "\<exists>h'. embedded_detach (Some q) h = Some h' \<and> circle h' y zs \<and> h' q = h q \<and> dom h' = dom h"
proof (cases zs rule: rev_cases)
  case Nil
  obtain n m where "h q = Some n" "em_next n = Some y" "em_prev n = Some y" "h y = Some m" "y \<noteq> q"
    using assms Nil by (auto simp: circle_def linked_def)
  then show ?thesis using Nil
    by (auto simp: embedded_detach_def embedded_is_empty_def circle_def linked_def link_prev_def link_next_def)
next
  case (snoc us z)
  obtain n m k where n: "h q = Some n" "em_next n = Some y" "em_prev n = Some z" "h y = Some m" "h z = Some k"
    and ch: "chain h y us z" and d: "distinct (q # y # zs)"
    using assms snoc by (auto simp: circle_def linked_def chain_append)
  have dm: "y \<in> dom h" "z \<in> dom h" using n(4,5) by auto
  obtain h1 where h1: "link_prev y (Some z) h = Some h1" "dom h1 = dom h" using link_ok(1) [OF refl dm(1)] by blast
  obtain h2 where h2: "link_next z (Some y) h1 = Some h2" "dom h2 = dom h" using link_ok(2) [OF h1(2) dm(2)] by blast
  note w = h1(1) h2(1)
  have "chain h1 y us z" by (rule chain_prev [OF w(1) _ _ ch]) (use d snoc in auto)
  then have "chain h2 y us z" by (rule chain_next [OF w(2), rotated -1]) (use d snoc in auto)
  moreover have "linked h2 z y" using w n d snoc by (auto simp: linked_def link_next_def link_prev_def)
  moreover have "h2 q = h q" using w n d snoc by (auto simp: link_next_def link_prev_def)
  moreover have "embedded_detach (Some q) h = Some h2"
    using n w d by (auto simp: embedded_detach_def embedded_is_empty_def)
  moreover have "dom h2 = dom h" by (rule h2(2))
  ultimately show ?thesis using d snoc by (auto simp: circle_def chain_append)
qed

section \<open>The list behind the head\<close>

text \<open>The members of the list, in order; inserting next to the head is inserting at an end.\<close>

fun insert_next :: "nat \<Rightarrow> nat \<Rightarrow> nat list \<Rightarrow> nat list" where
  "insert_next q r [] = []"
| "insert_next q r (x # xs) = (if x = q then x # r # xs else x # insert_next q r xs)"

fun insert_prev :: "nat \<Rightarrow> nat \<Rightarrow> nat list \<Rightarrow> nat list" where
  "insert_prev q r [] = []"
| "insert_prev q r (x # xs) = (if x = q then r # x # xs else x # insert_prev q r xs)"

lemma insert_next_split: "q \<notin> set us \<Longrightarrow> insert_next q r (us @ q # vs) = us @ q # r # vs"
  by (induction us) auto

lemma insert_prev_split: "q \<notin> set us \<Longrightarrow> insert_prev q r (us @ q # vs) = us @ r # q # vs"
  by (induction us) auto

lemma remove_split: "q \<notin> set us \<Longrightarrow> remove1 q (us @ q # vs) = us @ vs"
  by (simp add: remove1_append)

datatype embedded_op = Insert_after nat nat | Insert_before nat nat | Detach_node nat

fun embedded_run :: "embedded_op list \<Rightarrow> embedded_heap \<Rightarrow> embedded_heap option" where
  "embedded_run [] h = Some h"
| "embedded_run (Insert_after q r # ops) h = do { h1 \<leftarrow> embedded_insert_after q r h; embedded_run ops h1 }"
| "embedded_run (Insert_before q r # ops) h = do { h1 \<leftarrow> embedded_insert_before q r h; embedded_run ops h1 }"
| "embedded_run (Detach_node q # ops) h = do { h1 \<leftarrow> embedded_detach (Some q) h; embedded_run ops h1 }"

text \<open>
  The specification is undefined where a client breaks the contract: a position that is neither the
  head nor a member, a new node that is already in the list or not allocated, a detached node that
  is not a member.
\<close>

fun embedded_spec :: "nat \<Rightarrow> nat set \<Rightarrow> embedded_op list \<Rightarrow> nat list \<Rightarrow> nat list option" where
  "embedded_spec p A [] xs = Some xs"
| "embedded_spec p A (Insert_after q r # ops) xs =
    (if q \<in> set (p # xs) \<and> r \<in> A - set (p # xs)
     then embedded_spec p A ops (if q = p then r # xs else insert_next q r xs) else None)"
| "embedded_spec p A (Insert_before q r # ops) xs =
    (if q \<in> set (p # xs) \<and> r \<in> A - set (p # xs)
     then embedded_spec p A ops (if q = p then xs @ [r] else insert_prev q r xs) else None)"
| "embedded_spec p A (Detach_node q # ops) xs =
    (if q \<in> set xs then embedded_spec p A ops (remove1 q xs) else None)"

lemma circle_split:
  assumes "circle h p xs" "q \<in> set xs"
  obtains us vs where "xs = us @ q # vs" "q \<notin> set us" "q \<noteq> p" "circle h q (vs @ p # us)"
proof -
  from split_list_first [OF assms(2)] obtain us vs where xs: "xs = us @ q # vs" "q \<notin> set us" by blast
  then have "circle h q (vs @ p # us)" using assms(1) circle_rotate by simp
  moreover have "q \<noteq> p" using assms by (auto simp: circle_def)
  ultimately show thesis using that xs by blast
qed

lemma insert_after_circle:
  assumes "circle h p xs" "q \<in> set (p # xs)" "r \<in> dom h - set (p # xs)"
  shows "\<exists>h'. embedded_insert_after q r h = Some h' \<and> dom h' = dom h
    \<and> circle h' p (if q = p then r # xs else insert_next q r xs)"
proof (cases "q = p")
  case False
  then have "q \<in> set xs" using assms(2) by simp
  from assms(1) this obtain us vs where c: "xs = us @ q # vs" "q \<notin> set us" "circle h q (vs @ p # us)"
    by (rule circle_split)
  then obtain h' where "embedded_insert_after q r h = Some h'" "circle h' q (r # vs @ p # us)" "dom h' = dom h"
    using insert_after_head [OF c(3), of r] assms(3) by auto
  then show ?thesis using circle_rotate [of h' p us q "r # vs"] False c(1,2) by (simp add: insert_next_split)
qed (use insert_after_head [OF assms(1,3)] in simp)

lemma insert_before_circle:
  assumes "circle h p xs" "q \<in> set (p # xs)" "r \<in> dom h - set (p # xs)"
  shows "\<exists>h'. embedded_insert_before q r h = Some h' \<and> dom h' = dom h
    \<and> circle h' p (if q = p then xs @ [r] else insert_prev q r xs)"
proof (cases "q = p")
  case False
  then have "q \<in> set xs" using assms(2) by simp
  from assms(1) this obtain us vs where c: "xs = us @ q # vs" "q \<notin> set us" "circle h q (vs @ p # us)"
    by (rule circle_split)
  then obtain h' where "embedded_insert_before q r h = Some h'" "circle h' q ((vs @ p # us) @ [r])" "dom h' = dom h"
    using insert_before_head [OF c(3), of r] assms(3) by auto
  then show ?thesis using circle_rotate [of h' p "us @ [r]" q vs] False c(1,2) by (simp add: insert_prev_split)
qed (use insert_before_head [OF assms(1,3)] in simp)

lemma detach_circle:
  assumes "circle h p xs" "q \<in> set xs"
  shows "\<exists>h'. embedded_detach (Some q) h = Some h' \<and> dom h' = dom h \<and> h' q = h q \<and> circle h' p (remove1 q xs)"
proof -
  obtain us vs where c: "xs = us @ q # vs" "q \<notin> set us" "circle h q (vs @ p # us)"
    by (rule circle_split [OF assms])
  show ?thesis
  proof (cases vs)
    case Nil
    then show ?thesis using detach_head [of h q p us] c by (simp add: remove_split) blast
  next
    case (Cons v ws)
    then obtain h' where "embedded_detach (Some q) h = Some h'" "circle h' v (ws @ p # us)" "h' q = h q" "dom h' = dom h"
      using detach_head [of h q v "ws @ p # us"] c(3) by auto
    then show ?thesis using circle_rotate [of h' p us v ws] c(1,2) Cons by (simp add: remove_split)
  qed
qed

text \<open>Any sequence of operations behaves as on the list of members.\<close>

lemma embedded_run_refines:
  "circle h p xs \<Longrightarrow> dom h = A \<Longrightarrow> embedded_spec p A ops xs = Some ys \<Longrightarrow>
    \<exists>h'. embedded_run ops h = Some h' \<and> circle h' p ys \<and> dom h' = A"
proof (induction p A ops xs arbitrary: h rule: embedded_spec.induct)
  case (2 p A q r ops xs)
  then have "q \<in> set (p # xs)" "r \<in> dom h - set (p # xs)" by (auto split: if_splits)
  from insert_after_circle [OF 2(2) this] 2 show ?case by (auto split: if_splits)
next
  case (3 p A q r ops xs)
  then have "q \<in> set (p # xs)" "r \<in> dom h - set (p # xs)" by (auto split: if_splits)
  from insert_before_circle [OF 3(2) this] 3 show ?case by (auto split: if_splits)
next
  case (4 p A q ops xs)
  then show ?case using detach_circle [OF 4(2), of q] by (auto split: if_splits)
qed auto

end
