(* ===== verification/Vector.thy ===== *)
theory Vector
  imports Prelude "HOL-Library.Monad_Syntax"
begin

text \<open>
  The growing arrays of \<^verbatim>\<open>src/include/vector.h\<close>. The two macros of the file generate the same code
  for elements and for pointers to elements, modelled once over the type of what the array
  holds. A cell is \<open>None\<close> before it is written. \<^verbatim>\<open>malloc\<close> and \<^verbatim>\<open>realloc\<close> succeed, and sizes stay
  below the address space.
\<close>

section \<open>State and operations\<close>

record 'a vector =
  v_array :: "'a option list"
  v_used :: nat
  v_size :: nat

definition init_vector :: "nat \<Rightarrow> 'a vector" where
  "init_vector n = \<lparr>v_array = replicate n None, v_used = 0, v_size = n\<rparr>"

definition capacity_vector :: "'a vector \<Rightarrow> nat" where
  "capacity_vector a = v_size a"

definition size_vector :: "'a vector \<Rightarrow> nat" where
  "size_vector a = v_used a"

definition realloc_array :: "nat \<Rightarrow> 'a option list \<Rightarrow> 'a option list" where
  "realloc_array n xs = take n xs @ replicate (n - length xs) None"

definition resize_vector :: "nat \<Rightarrow> 'a vector \<Rightarrow> 'a vector" where
  "resize_vector n a = a\<lparr>v_array := realloc_array n (v_array a), v_size := n\<rparr>"

text \<open>Writing outside the array is \<open>None\<close>.\<close>

definition insert_vector :: "'a \<Rightarrow> 'a vector \<Rightarrow> 'a vector option" where
  "insert_vector x a =
    (let a1 = (if v_used a = v_size a
               then a\<lparr>v_size := v_size a * 2, v_array := realloc_array (v_size a * 2) (v_array a)\<rparr> else a)
     in if v_used a1 < length (v_array a1)
        then Some (a1\<lparr>v_array := (v_array a1)[v_used a1 := Some x], v_used := v_used a1 + 1\<rparr>)
        else None)"

text \<open>The inner loop of the removal: \<open>n\<close> is the number of cells still to be shifted.\<close>

fun shift_vector :: "nat \<Rightarrow> nat \<Rightarrow> 'a option list \<Rightarrow> 'a option list" where
  "shift_vector j 0 xs = xs"
| "shift_vector j (Suc n) xs = shift_vector (j + 1) n (xs[j := xs ! (j + 1)])"

text \<open>The outer loop from index \<open>i\<close> with \<open>n\<close> cells to go; a cell that was never written is undefined.\<close>

fun remove_loop :: "('a \<Rightarrow> 'a \<Rightarrow> bool) \<Rightarrow> 'a \<Rightarrow> nat \<Rightarrow> nat \<Rightarrow> 'a vector \<Rightarrow> 'a vector option" where
  "remove_loop pred x i 0 a = Some a"
| "remove_loop pred x i (Suc n) a =
    (case v_array a ! i of
       None \<Rightarrow> None
     | Some y \<Rightarrow>
        if pred y x then Some (a\<lparr>v_array := shift_vector i (v_used a - 1 - i) (v_array a), v_used := v_used a - 1\<rparr>)
        else remove_loop pred x (i + 1) n a)"

definition remove_vector :: "'a \<Rightarrow> ('a \<Rightarrow> 'a \<Rightarrow> bool) \<Rightarrow> 'a vector \<Rightarrow> 'a vector option" where
  "remove_vector x pred a = remove_loop pred x 0 (v_used a) a"

text \<open>The function applied to the elements works on a state of its own.\<close>

fun foreach_loop :: "('a \<Rightarrow> 's \<Rightarrow> 's) \<Rightarrow> 'a vector \<Rightarrow> nat \<Rightarrow> nat \<Rightarrow> 's \<Rightarrow> 's option" where
  "foreach_loop f a i 0 s = Some s"
| "foreach_loop f a i (Suc n) s =
    (case v_array a ! i of None \<Rightarrow> None | Some y \<Rightarrow> foreach_loop f a (i + 1) n (f y s))"

definition foreach_vector :: "'a vector \<Rightarrow> ('a \<Rightarrow> 's \<Rightarrow> 's) \<Rightarrow> 's \<Rightarrow> 's option" where
  "foreach_vector a f s = foreach_loop f a 0 (v_used a) s"

definition free_vector :: "'a vector \<Rightarrow> 'a vector" where
  "free_vector a = \<lparr>v_array = [], v_used = 0, v_size = 0\<rparr>"

definition clear_vector :: "'a vector \<Rightarrow> 'a vector" where
  "clear_vector a = a\<lparr>v_used := 0\<rparr>"

section \<open>The vector as a list\<close>

definition vec_rep :: "'a vector \<Rightarrow> 'a list \<Rightarrow> bool" where
  "vec_rep a xs \<longleftrightarrow> length (v_array a) = v_size a \<and> v_used a = length xs \<and> length xs \<le> v_size a
     \<and> take (length xs) (v_array a) = map Some xs"

lemma vec_rep_nth: "vec_rep a xs \<Longrightarrow> i < length xs \<Longrightarrow> v_array a ! i = Some (xs ! i)"
  unfolding vec_rep_def by (metis length_map nth_map nth_take)

lemma vec_repI:
  assumes "length (v_array a) = v_size a" "v_used a = length xs" "length xs \<le> v_size a"
    "\<And>i. i < length xs \<Longrightarrow> v_array a ! i = Some (xs ! i)"
  shows "vec_rep a xs"
  using assms by (auto simp: vec_rep_def intro: nth_equalityI)

lemma init_rep: "vec_rep (init_vector n) []"
  by (simp add: vec_rep_def init_vector_def)

lemma length_realloc [simp]: "length (realloc_array n xs) = n"
  by (simp add: realloc_array_def)

lemma realloc_nth: "i < n \<Longrightarrow> i < length xs \<Longrightarrow> realloc_array n xs ! i = xs ! i"
  by (simp add: realloc_array_def nth_append)

lemma insert_ok:
  assumes "vec_rep a xs" "0 < v_size a"
  shows "\<exists>a'. insert_vector x a = Some a' \<and> vec_rep a' (xs @ [x]) \<and> v_size a \<le> v_size a'"
proof -
  define a1 where "a1 = (if v_used a = v_size a
     then a\<lparr>v_size := v_size a * 2, v_array := realloc_array (v_size a * 2) (v_array a)\<rparr> else a)"
  have a1: "length (v_array a1) = v_size a1" "v_used a1 = length xs" "length xs < v_size a1" "v_size a \<le> v_size a1"
    "\<And>i. i < length xs \<Longrightarrow> v_array a1 ! i = Some (xs ! i)"
    using assms vec_rep_nth [OF assms(1)] by (auto simp: a1_def vec_rep_def realloc_nth)
  let ?a = "a1\<lparr>v_array := (v_array a1)[v_used a1 := Some x], v_used := v_used a1 + 1\<rparr>"
  have "insert_vector x a = Some ?a" using a1(1-3) by (simp add: insert_vector_def Let_def flip: a1_def)
  moreover have "vec_rep ?a (xs @ [x])"
    using a1 by (intro vec_repI) (auto simp: nth_list_update nth_append less_Suc_eq)
  ultimately show ?thesis using a1(4) by auto
qed

lemma shift_nth:
  "j + n < length xs \<Longrightarrow> length (shift_vector j n xs) = length xs \<and>
    (\<forall>i. shift_vector j n xs ! i = (if j \<le> i \<and> i < j + n then xs ! (i + 1) else xs ! i))"
proof (induction n arbitrary: j xs)
  case (Suc n)
  have "j + 1 + n < length (xs[j := xs ! (j + 1)])" using Suc.prems by simp
  from Suc.IH [OF this] Suc.prems show ?case by (auto simp: nth_list_update)
qed auto

definition remove_first :: "('a \<Rightarrow> bool) \<Rightarrow> 'a list \<Rightarrow> 'a list" where
  "remove_first P xs = takeWhile (\<lambda>y. \<not> P y) xs @ drop 1 (dropWhile (\<lambda>y. \<not> P y) xs)"

lemma remove_at:
  assumes "vec_rep a (xs @ y # ys)"
  shows "vec_rep (a\<lparr>v_array := shift_vector (length xs) (v_used a - 1 - length xs) (v_array a), v_used := v_used a - 1\<rparr>) (xs @ ys)"
proof -
  have len: "length (v_array a) = v_size a" "v_used a = length xs + 1 + length ys" "length xs + 1 + length ys \<le> v_size a"
    using assms by (auto simp: vec_rep_def)
  have sh: "length (shift_vector (length xs) (length ys) (v_array a)) = v_size a"
    "\<And>i. shift_vector (length xs) (length ys) (v_array a) ! i
      = (if length xs \<le> i \<and> i < length xs + length ys then v_array a ! (i + 1) else v_array a ! i)"
    using shift_nth [of "length xs" "length ys" "v_array a"] len by auto
  show ?thesis
    using len sh vec_rep_nth [OF assms]
    by (intro vec_repI) (auto simp: nth_append)
qed

lemma remove_loop_ok:
  assumes "vec_rep a (xs @ ys)" "\<forall>y \<in> set xs. \<not> pred y x"
  shows "\<exists>a'. remove_loop pred x (length xs) (length ys) a = Some a' \<and> vec_rep a' (remove_first (\<lambda>y. pred y x) (xs @ ys))"
  using assms
proof (induction ys arbitrary: xs)
  case Nil
  then have "takeWhile (\<lambda>y. \<not> pred y x) xs = xs" "dropWhile (\<lambda>y. \<not> pred y x) xs = []"
    by (simp_all add: takeWhile_eq_all_conv dropWhile_eq_Nil_conv)
  then have "remove_first (\<lambda>y. pred y x) (xs @ []) = xs" by (simp only: remove_first_def append_Nil2 drop_Nil)
  then show ?case using Nil by simp
next
  case (Cons y ys)
  have y: "v_array a ! length xs = Some y" using vec_rep_nth [OF Cons.prems(1), of "length xs"] by simp
  show ?case
  proof (cases "pred y x")
    case True
    have "remove_first (\<lambda>y. pred y x) (xs @ y # ys) = xs @ ys"
      using Cons.prems(2) True by (simp add: remove_first_def takeWhile_append dropWhile_append)
    then show ?thesis using remove_at [OF Cons.prems(1)] y True by simp
  next
    case False
    have "vec_rep a ((xs @ [y]) @ ys)" "\<forall>z \<in> set (xs @ [y]). \<not> pred z x" using Cons.prems False by auto
    from Cons.IH [OF this] show ?thesis using y False by simp
  qed
qed

lemma foreach_ok:
  assumes "vec_rep a (xs @ ys)"
  shows "foreach_loop f a (length xs) (length ys) s = Some (fold f ys s)"
  using assms
proof (induction ys arbitrary: xs s)
  case (Cons y ys)
  have "v_array a ! length xs = Some y" using vec_rep_nth [OF Cons.prems, of "length xs"] by simp
  moreover have "vec_rep a ((xs @ [y]) @ ys)" using Cons.prems by simp
  ultimately show ?case using Cons.IH [of "xs @ [y]"] by simp
qed simp

section \<open>Properties\<close>

text \<open>
  C30: A vector with a non-zero size refines a list: inserting appends, whether the array has to be
  reallocated or not, removing drops the first element the predicate accepts and closes the gap,
  iterating visits the elements in order, and clearing empties it and keeps the capacity.
\<close>

theorem vector_refines_list:
  assumes "vec_rep a xs" "0 < v_size a"
  shows "(\<exists>a'. insert_vector x a = Some a' \<and> vec_rep a' (xs @ [x]))
    \<and> (\<exists>a'. remove_vector x pred a = Some a' \<and> vec_rep a' (remove_first (\<lambda>y. pred y x) xs))
    \<and> foreach_vector a f s = Some (fold f xs s)
    \<and> vec_rep (clear_vector a) [] \<and> capacity_vector (clear_vector a) = capacity_vector a"
proof -
  have "v_used a = length xs" using assms(1) by (simp add: vec_rep_def)
  moreover have "vec_rep (clear_vector a) []" using assms(1) by (simp add: vec_rep_def clear_vector_def)
  ultimately show ?thesis
    using insert_ok [OF assms, of x] remove_loop_ok [of a "[]" xs pred x] foreach_ok [of a "[]" xs f s] assms(1)
    by (auto simp: remove_vector_def foreach_vector_def capacity_vector_def clear_vector_def)
qed

theorem vector_refines_list_witness:
  "\<exists>a a'. insert_vector 1 (init_vector 1) = Some a \<and> insert_vector 2 a = Some a' \<and> vec_rep a' [1, 2 :: nat]
     \<and> foreach_vector a' (\<lambda>x s. s + x) 0 = Some (3 :: nat)"
proof -
  have "0 < v_size (init_vector 1 :: nat vector)" by (simp add: init_vector_def)
  from vector_refines_list [OF init_rep this, of 1 "(=)" "\<lambda>x s. s" "0 :: nat"] obtain a where
    a: "insert_vector (1 :: nat) (init_vector 1) = Some a" "vec_rep a [1]" by auto
  then have s: "0 < v_size a" by (auto simp: vec_rep_def)
  from vector_refines_list [OF a(2) s, of 2 "(=)" "\<lambda>x s. s" "0 :: nat"] obtain a' where
    a': "insert_vector 2 a = Some a'" "vec_rep a' [1, 2]" by auto
  then have "0 < v_size a'" by (auto simp: vec_rep_def)
  from vector_refines_list [OF a'(2) this, of 0 "(=)" "\<lambda>x s. s + x" 0] a a' show ?thesis by auto
qed

text \<open>
  Doubling does not grow an empty array: inserting into a vector that was initialised with size 0,
  or freed, writes outside the allocation.
\<close>

theorem insert_into_empty_faults: "insert_vector x (init_vector 0) = None \<and> insert_vector x (free_vector a) = None"
  by (simp add: insert_vector_def init_vector_def free_vector_def realloc_array_def)

end
