(* ===== verification/Spec2Isabelle.thy ===== *)
theory Spec2Isabelle
  imports Hashmap_Props KV_Props Queue_Props Mailbox_Props Protocol_Props Server_Props Command_Props
    Request_Props Request_Loop_Props Memory_Props Process_Props Shutdown Epoll_Props
    Store_Props Progress_Props Deque_Props Deque_Embedded Vector
begin

text \<open>
  A verification development of ghetto-redis, a sharded in-memory key-value server in C.

  \<^bold>\<open>The program.\<close> \<^verbatim>\<open>src/server.c\<close> starts four threads. Each runs a reactor (\<^verbatim>\<open>reactor_run\<close> in
  \<^verbatim>\<open>src/include/reactor_epoll.c\<close>) and owns a shard: sixteen databases, each an open-addressing hash
  map (\<^verbatim>\<open>src/include/hashmap.c\<close>) from keys to entries (\<^verbatim>\<open>src/include/kv.c\<close>). A reactor accepts
  connections, reads requests (\<^verbatim>\<open>src/include/protocol.c\<close>), looks the command up and executes it
  (\<^verbatim>\<open>src/include/commands.c\<close>, \<^verbatim>\<open>src/include/commands.h\<close>). The hash of the key selects the shard; a
  command for another shard is sent as a message into the mailbox of that shard's reactor
  (\<^verbatim>\<open>src/include/mpmcq.c\<close>), executed there, and its result comes back as a message. A reactor marks
  the reactors it has sent to (\<^verbatim>\<open>src/include/bitset.h\<close>) and rings the sleeping ones before its next
  round. \<^verbatim>\<open>deque.c\<close>, \<^verbatim>\<open>spsc.c\<close> and most of \<^verbatim>\<open>vector.h\<close> are library code the server does not call.

  \<^bold>\<open>The theories.\<close> Bottom up; the source file is named where the theory models code.

    \<^item> \<^verbatim>\<open>Prelude\<close>: machine types, byte strings, rings, masks, lists.
    \<^item> \<^verbatim>\<open>Hashmap\<close> (\<^verbatim>\<open>hashmap.c\<close>): buckets, maps and all operations. \<^verbatim>\<open>Robin_Hood\<close> is the theory of the
      bucket array, \<^verbatim>\<open>Hashmap_Correct\<close> proves every operation against the finite map it stores, and
      \<^verbatim>\<open>Item_Store\<close> states the contract of a keyed store as a locale that the databases and the
      command table interpret.
    \<^item> \<^verbatim>\<open>Hash_Functions\<close> (\<^verbatim>\<open>hashmap.c\<close>): xxHash3, SipHash-2-4 and Murmur3 at their machine widths, and
      xxHash3 once more with its pointers, for lengths that wrap the end of the data.
    \<^item> \<^verbatim>\<open>KV\<close> (\<^verbatim>\<open>kv.c\<close>, \<^verbatim>\<open>kv.h\<close>): entries, their comparison and hashing, the database as a map.
    \<^item> \<^verbatim>\<open>Fifo\<close>: the contract of the queues, as locales; \<^verbatim>\<open>Spscq\<close> (\<^verbatim>\<open>spsc.c\<close>) and \<^verbatim>\<open>Mpmcq\<close> (\<^verbatim>\<open>mpmcq.c\<close>)
      interpret them with one operation at a time. \<^verbatim>\<open>Mpmcq_Threads\<close> models the same code with one
      step per access to shared memory, interleaved over any number of threads;
      \<^verbatim>\<open>Mailbox_Correct\<close> is its invariant.
    \<^item> \<^verbatim>\<open>Text_Format\<close>: what the code uses of \<^verbatim>\<open>printf\<close> and \<^verbatim>\<open>strtoull\<close>. \<^verbatim>\<open>Protocol\<close> (\<^verbatim>\<open>protocol.c\<close>,
      \<^verbatim>\<open>protocol.h\<close>): connections, reply writers, the two request parsers; \<^verbatim>\<open>Protocol_Correct\<close>.
    \<^item> \<^verbatim>\<open>World\<close> (\<^verbatim>\<open>state.h\<close>, \<^verbatim>\<open>reactor.h\<close>, \<^verbatim>\<open>bitset.h\<close>, \<^verbatim>\<open>reactor.c\<close>): the shared state, messages, marks and
      wake-ups. \<^verbatim>\<open>Commands\<close> (\<^verbatim>\<open>commands.c\<close>, \<^verbatim>\<open>commands.h\<close>): every command with its request and
      response handlers; \<^verbatim>\<open>Commands_Correct\<close>: the operations on a database and the command table;
      \<^verbatim>\<open>Far_Keys\<close>: names and keys whose announced length wraps.
    \<^item> \<^verbatim>\<open>Server\<close> (\<^verbatim>\<open>server.c\<close>, \<^verbatim>\<open>reactor.c\<close>, \<^verbatim>\<open>reactor_epoll.c\<close>): the request loop, callbacks, reading,
      flushing, accepting, closing, start-up. \<^verbatim>\<open>Event_Loop\<close> (\<^verbatim>\<open>reactor_run\<close>): the threads as a step
      relation and the reachable states of the server.
    \<^item> \<^verbatim>\<open>Invariants\<close>, \<^verbatim>\<open>System\<close>, \<^verbatim>\<open>Wakeup\<close>: the system invariant, that every step keeps it, that the
      start has it, and the invariant of sleeping and ringing. \<^verbatim>\<open>Conn_Frames\<close> states as a locale what a
      property of the connections has to satisfy for every command, callback and request to keep it;
      \<^verbatim>\<open>Connections\<close> interprets it: which reactor and descriptor a connection belongs to.
    \<^item> \<^verbatim>\<open>Runs\<close> composes steps of a thread into runs (flush, wake, sleep, accept and serve, close).
      \<^verbatim>\<open>Process\<close> (\<^verbatim>\<open>main\<close> of \<^verbatim>\<open>server.c\<close>): the threads together with the main thread that joins them and
      releases their contexts. \<^verbatim>\<open>Shutdown\<close>: a shutdown that one thread misses.
    \<^item> \<^verbatim>\<open>Epoll\<close> (\<^verbatim>\<open>epoll_register\<close>, \<^verbatim>\<open>epoll_unregister\<close>, \<^verbatim>\<open>epoll_modify\<close> and their calls in \<^verbatim>\<open>reactor_run\<close>): the
      interest lists, on top of the steps of the threads; \<^verbatim>\<open>Epoll_Correct\<close>: what they contain.
    \<^item> \<^verbatim>\<open>Memory\<close> (\<^verbatim>\<open>kv.c\<close>, \<^verbatim>\<open>commands.c\<close>, \<^verbatim>\<open>commands.h\<close>, \<^verbatim>\<open>free_context\<close>): the keyed commands once more, with
      every \<^verbatim>\<open>malloc\<close> and \<^verbatim>\<open>free\<close> of the buffers of keys and values and of the request and response
      contexts; \<^verbatim>\<open>Memory_Correct\<close>: who owns which block.
    \<^item> \<^verbatim>\<open>Requests\<close>, \<^verbatim>\<open>Request_Bounds\<close>, \<^verbatim>\<open>Request_Loop\<close>: a request from its bytes to its reply, on one
      shard and across shards; where the arguments of a parsed request lie; what a round of the request
      loop consumes.
    \<^item> \<^verbatim>\<open>Store_Refinement\<close>: the specification of the whole server, a sharded store of finite maps with a
      FIFO queue of messages per shard (\<open>kv_step\<close>), and the refinement mapping \<open>kv_of\<close> from the states of
      \<open>server_step\<close> onto it, step by step.
    \<^item> \<^verbatim>\<open>Progress\<close>: infinite executions of the server, what it means that the threads are scheduled fairly
      (\<open>fair_run\<close>), and that every thread then goes round its loop, rings the reactors it has marked and
      takes the messages of its mailbox. \<^verbatim>\<open>Fair_Runs\<close>: a finite run that ends with all threads blocked
      gives such an execution.
    \<^item> \<^verbatim>\<open>Deque\<close> (\<^verbatim>\<open>deque.c\<close>), \<^verbatim>\<open>Deque_Embedded\<close> (\<^verbatim>\<open>deque_embedded.c\<close>) and \<^verbatim>\<open>Vector\<close> (\<^verbatim>\<open>vector.h\<close>): linked
      nodes in a heap, circles of nodes inside other structures, growing arrays.
    \<^item> The theories named \<^verbatim>\<open>_Props\<close>, with \<^verbatim>\<open>Vector\<close>, \<^verbatim>\<open>Request_Bounds\<close> and \<^verbatim>\<open>Shutdown\<close>, hold the
      properties.

  \<^bold>\<open>Conventions.\<close> Definitions keep the names of the functions they model. A result \<open>None\<close> (or
  \<open>PARSE_FAULT\<close>) is a step that C leaves undefined (an access outside a buffer, a freed connection),
  a failed assertion, or a loop that never ends; a theorem that the code returns says \<open>Some\<close>. Loops
  are structural recursion, well-founded recursion with a termination proof, or
  \<open>partial_function (option)\<close> where they may spin. Sizes, positions, sequence numbers and pointers
  that may wrap are 64-bit words; 32-bit results and shifts are kept at their width; lengths and
  indices below an allocation are natural numbers. The results of system calls, of \<^verbatim>\<open>malloc\<close> where
  the code looks at them, and the addresses it returns are arguments or free choices of a step. A call
  of a queue operation that spins while no other thread moves is \<open>None\<close> too.

  An argument is the bytes of the receive buffer at its offset (\<open>arg_bytes\<close>). The bound check of
  the parser wraps for announced lengths near \<open>2^64\<close>, and no buffer holds that many bytes; the code
  still hashes, compares and prints such a name or key without reading all of it. \<open>arg_hash\<close>,
  \<open>far_lookup\<close>, \<open>far_keyed_command\<close> and \<open>printed_arg\<close> say what it reads: the hash stops where the
  wrapped end is below the position (\<open>xxh3_at\<close>), the comparisons stop at the lengths, \<open>printf\<close> with
  a negative precision stops at a zero byte. Only a read outside the buffer, or a copy of that many bytes
  (\<^verbatim>\<open>memcpy\<close> in ECHO, SET, a dispatched request), is \<open>None\<close>. The assertion
  \<^verbatim>\<open>send_buf_sent <= send_buf_size\<close> of \<open>on_data_available\<close> is a part of the invariant (\<open>conn_ok\<close>) and
  not repeated in the definition.

  In
  \<open>Memory\<close> the address of a block is the answer of an allocator, of which only \<open>allocator\<close> is assumed
  (an allocated block is not live and not NULL); a released block that is read or released again is
  \<open>None\<close>. The kernel is assumed to report events only for registered descriptors, each once, and to
  accept connections on descriptors that are not open (\<open>registered\<close>, \<open>fd_free\<close>); \<open>Epoll\<close> replaces the
  first by the interest lists themselves (\<open>reported\<close>), and \<open>interest_list_exact\<close> shows that they agree.

  \<^bold>\<open>What the lemmas show.\<close>

    \<^item> The server as a whole: every step of its threads is one step of a sharded store of finite maps, and
      under a fair schedule of the threads every request that has been sent to a shard is answered.
    \<^item> Data structures: the hash map, also while it grows, shrinks or fails to allocate, is a finite
      map; the queues are bounded FIFO lists; the linked queue and the vector are lists.
    \<^item> Concurrency: under interleaved atomic accesses the mailbox loses, invents and reorders nothing
      and has no data race, an empty answer is justified, and an idle mailbox is a state of the
      one-operation model, whose operations are runs of the same steps. On top of that model, in
      every reachable state of the server the system invariant holds, no key is on two shards, and
      no wake-up is lost.
    \<^item> Requests: the parsers invert the client's encodings and stay within the request, the replies
      decode to what was written, the command table finds what was registered, keyed commands
      compute the specified operation of the selected database and answer it, executing one through
      the mailboxes is equivalent to executing it in place, bad requests are rejected, and the
      pending output reaches the kernel once and in order. The request loop ends.
    \<^item> Connections: in every reachable state a connection sits in the slot of its reactor and
      descriptor, every event finds its connection, and when the threads have ended all are closed.
      The interest lists are the open connections, and no call that changes them fails.
    \<^item> Memory: no operation on keys and values reads or releases a block that is not live, every live
      block has one owner, and at the end of the process exactly the counted blocks are left.
    \<^item> Failures: a write error counted as bytes sent, announced lengths that wrap the bound check
      (ECHO copies almost \<open>2^64\<close> bytes, another request is never consumed),
      a closed connection used by a late message, pipelined replies out of order, a shutdown that a
      reactor misses, after which only the kernel can move it, an interest in writing that is never registered, a mailbox used after the release of
      its context, a full mailbox that spins, a request
      split at its count, a counter that overflows its buffer, copies of keys that are never
      released. Each is proved of the same definitions.

  \<^bold>\<open>Bounds.\<close> \<open>room\<close> asks that databases hold fewer than 65535 entries when a request runs: the
  distances of the hash map are 16 bits wide in the source, and the model does not say what the
  code does beyond. \<open>key_ok\<close> asks for keys shorter than \<open>2^32\<close> bytes, which the receive buffer of
  8192 bytes guarantees for requests. The ring theorems assume fewer than \<open>2^62\<close> elements sent in
  all, so that positions do not come round. Addresses of connections lie below \<open>2^63\<close>. A fair run
  is one in which no poll takes \<open>2^64 - 1\<close> messages, the inner loops end and nobody shuts the server down. There is no
  fuel: what may not return is \<open>None\<close>.

  \<^bold>\<open>The granularity of the threads.\<close> A step of \<open>thread_step\<close> is one request, one callback, one system
  call or one access to a wake-up flag. A request or callback works on the shard and the
  connections of its own thread and sends at most one message, so only the mailbox and the marks are
  shared inside it; the mailbox is treated as atomic there, which \<open>Mailbox_Props\<close> justifies. The
  exceptions are FLUSHALL, which clears the databases of other threads without a lock, SHUTDOWN,
  which clears the running flags of all reactors, reads which of them sleep, marks those and rings
  them, and the request handler, which reads the selected database number of a connection of another
  thread: the model runs them without interruption, the code does not. The atomic accesses of a thread
  are taken in one global order.

  \<^bold>\<open>Not modelled.\<close> The set-up of sockets, the inside of the kernel's calls, logging and
  time are input and output (\<^verbatim>\<open>logging.h\<close>, the creation of the sockets and of epoll, the flags of
  descriptors; of \<^verbatim>\<open>utils.h\<close> the effect on \<^verbatim>\<open>errno\<close> is modelled). The memory
  model is about the buffers of entries and messages; the arrays of mailboxes and vectors, which
  \<^verbatim>\<open>reactor_destroy\<close>, \<^verbatim>\<open>mpmcq_destroy\<close> and \<^verbatim>\<open>spscq_destroy\<close> release, are not in it, and \<open>Process\<close> leaves
  the values in released memory as they were. \<^verbatim>\<open>deque_embedded.c\<close> is modelled, but the
  preprocessor leaves it out of the program; the commands that are commented out are not code; the test code at the end of \<^verbatim>\<open>hashmap.c\<close> and \<^verbatim>\<open>hack\<close> are not part of
  the server.
\<close>

end
